(* ===== verification/Prelude.thy ===== *)
theory Prelude
  imports Main "HOL-Library.Word" "HOL-Library.Multiset" "HOL-Library.Product_Lexorder"
begin

text \<open>
  Shared vocabulary of the development: the exceptions the modelled modules raise, results that
  are an exception or a value, Python's indexing and slicing on lists, bytes, and the lemmas on
  lists, multisets and integers that several components use.
\<close>

section \<open>Exceptions and results\<close>

text \<open>
  One constructor per exception class that the modelled code raises or lets through.
  The last three are no subclasses of \<open>Exception\<close>. \<open>AnyException\<close> is the bare \<open>Exception(...)\<close> that \<open>binascii.a2b_base64\<close> raises.
\<close>

datatype exn =
    ValueError | TypeError | IndexError | KeyError | AttributeError | AssertionError | RuntimeError
  | NotImplementedError | ZeroDivisionError | OverflowError | UnicodeError | AnyException
  | BinasciiError | CBORDecodeError | CBOREncodeError | QueueEmpty | QueueFull | CancelledError
  | BrokenBarrierError | InvalidStateError | StopIteration | OSError | ConnectionResetError | StructError | MQTTException nat | EOFError | StopAsyncIteration
  | KeyboardInterrupt | SystemExit | GeneratorExit

type_synonym 'a result = "exn + 'a"

text \<open>\<open>isinstance(e, Exception)\<close>\<close>

definition is_exception :: "exn \<Rightarrow> bool" where
  "is_exception e \<longleftrightarrow> e \<notin> {KeyboardInterrupt, SystemExit, GeneratorExit}"

text \<open>Sequencing: the first exception ends the computation.\<close>

fun rbind :: "'a result \<Rightarrow> ('a \<Rightarrow> 'b result) \<Rightarrow> 'b result" where
  "rbind (Inl e) f = Inl e"
| "rbind (Inr x) f = f x"

lemma rbind_eq_Inr_iff [simp]: "rbind m f = Inr y \<longleftrightarrow> (\<exists>x. m = Inr x \<and> f x = Inr y)"
  by (cases m) auto

lemma rbind_eq_Inl_iff: "rbind m f = Inl e \<longleftrightarrow> m = Inl e \<or> (\<exists>x. m = Inr x \<and> f x = Inl e)"
  by (cases m) auto

lemma rbind_assoc: "rbind (rbind m f) g = rbind m (\<lambda>x. rbind (f x) g)"
  by (cases m) auto

lemma rbind_cong [fundef_cong]:
  "m = m' \<Longrightarrow> (\<And>x. m' = Inr x \<Longrightarrow> f x = f' x) \<Longrightarrow> rbind m f = rbind m' f'"
  by (cases m') auto

text \<open>Applying a fallible operation to every element, left to right.\<close>

fun rmap :: "('a \<Rightarrow> 'b result) \<Rightarrow> 'a list \<Rightarrow> 'b list result" where
  "rmap f [] = Inr []"
| "rmap f (x # xs) = rbind (f x) (\<lambda>y. rbind (rmap f xs) (\<lambda>ys. Inr (y # ys)))"

lemma rmap_Inr: "(\<And>x. x \<in> set xs \<Longrightarrow> f x = Inr (g x)) \<Longrightarrow> rmap f xs = Inr (map g xs)"
  by (induction xs) auto

lemma rmap_Inr_length: "rmap f xs = Inr ys \<Longrightarrow> length ys = length xs"
  by (induction xs arbitrary: ys) auto

section \<open>Python sequences\<close>

text \<open>\<open>xs[i]\<close> for any integer \<open>i\<close>: negative indices count from the end.\<close>

definition py_get :: "'a list \<Rightarrow> int \<Rightarrow> 'a result" where
  "py_get xs i =
     (let j = (if i < 0 then int (length xs) + i else i)
      in if 0 \<le> j \<and> j < int (length xs) then Inr (xs ! nat j) else Inl IndexError)"

lemma py_get_in_range [simp]: "0 \<le> i \<Longrightarrow> i < int (length xs) \<Longrightarrow> py_get xs i = Inr (xs ! nat i)"
  by (simp add: py_get_def)

lemma py_get_beyond [simp]: "int (length xs) \<le> i \<Longrightarrow> py_get xs i = Inl IndexError"
  by (simp add: py_get_def)

text \<open>
  \<open>xs[a:b]\<close> for \<open>0 \<le> a\<close> and \<open>0 \<le> b\<close>: out of range bounds are clamped, as Python does;
  \<open>xs[:-k]\<close> drops the last \<open>k\<close> elements.
\<close>

definition slice :: "'a list \<Rightarrow> nat \<Rightarrow> nat \<Rightarrow> 'a list" where
  "slice xs a b = take (b - a) (drop a xs)"

definition drop_last :: "nat \<Rightarrow> 'a list \<Rightarrow> 'a list" where
  "drop_last k xs = take (length xs - k) xs"

lemma length_slice [simp]: "length (slice xs a b) = min (b - a) (length xs - a)"
  by (simp add: slice_def min.commute)

lemma drop_last_append [simp]: "length ys = k \<Longrightarrow> drop_last k (xs @ ys) = xs"
  by (simp add: drop_last_def)

text \<open>\<open>xs.insert(i, x)\<close> for \<open>0 \<le> i\<close>; an index past the end appends.\<close>

definition list_insert_at :: "'a list \<Rightarrow> nat \<Rightarrow> 'a \<Rightarrow> 'a list" where
  "list_insert_at xs i x = take i xs @ x # drop i xs"

lemma length_list_insert_at [simp]: "length (list_insert_at xs i x) = Suc (length xs)"
  by (simp add: list_insert_at_def)

lemma mset_list_insert_at [simp]: "mset (list_insert_at xs i x) = add_mset x (mset xs)"
  by (metis add_mset_add_single append_take_drop_id list_insert_at_def mset.simps(2) mset_append
      union_mset_add_mset_right)

section \<open>Bytes\<close>

type_synonym byte = "8 word"
type_synonym bytes = "byte list"

text \<open>\<open>b"..."\<close>: the bytes of an ASCII literal.\<close>

definition byte_of_char :: "char \<Rightarrow> byte" where
  "byte_of_char c = of_nat (of_char c)"

definition ascii :: "string \<Rightarrow> bytes" where
  "ascii s = map byte_of_char s"

section \<open>Lists and multisets\<close>

lemma mset_update_swap:
  "i < length xs \<Longrightarrow> j < length xs \<Longrightarrow> mset (xs[i := xs ! j, j := x]) = mset (xs[i := x])"
proof (cases "i = j")
  assume "i < length xs" "j < length xs" "i \<noteq> j"
  let ?ys = "xs[i := x]"
  have "mset (?ys[j := ?ys ! i, i := ?ys ! j]) = mset ?ys"
    using \<open>i < length xs\<close> \<open>j < length xs\<close> by (intro mset_swap) auto
  moreover have "?ys[j := ?ys ! i, i := ?ys ! j] = xs[i := xs ! j, j := x]"
    using \<open>i < length xs\<close> \<open>j < length xs\<close> \<open>i \<noteq> j\<close>
    by simp (metis list_update_overwrite list_update_swap)
  ultimately show ?thesis by simp
qed auto

lemma sorted_mset_unique:
  "sorted xs \<Longrightarrow> mset xs = mset ys \<Longrightarrow> xs = sort ys"
  by (metis properties_for_sort)

end
