(* ===== verification/Bisect.thy ===== *)
theory Bisect
  imports Prelude
begin

text \<open>
  The module \<open>bisect\<close> (\<open>python-stdlib/bisect/bisect.py\<close>): the two binary searches, each as the
  loop of the source with its half-open window \<open>[lo, hi)\<close>, and the two insertions. The bounds
  are Python integers; \<open>hi = None\<close> is the default \<open>len(a)\<close>. A window that leaves the list
  makes \<open>a[mid]\<close> raise IndexError, which the loops propagate.
\<close>

section \<open>The search loops\<close>

lemma window_mid: "lo < hi \<Longrightarrow> lo \<le> (lo + hi) div 2 \<and> (lo + hi) div 2 < (hi :: int)"
  by auto

function right_loop :: "'a::linorder list \<Rightarrow> 'a \<Rightarrow> int \<Rightarrow> int \<Rightarrow> int result" where
  "right_loop a x lo hi =
     (if lo < hi then
        let mid = (lo + hi) div 2 in
        rbind (py_get a mid) (\<lambda>y. if x < y then right_loop a x lo mid else right_loop a x (mid + 1) hi)
      else Inr lo)"
  by pat_completeness auto
termination
  by (relation "measure (\<lambda>(a, x, lo, hi). nat (hi - lo))") auto

function left_loop :: "'a::linorder list \<Rightarrow> 'a \<Rightarrow> int \<Rightarrow> int \<Rightarrow> int result" where
  "left_loop a x lo hi =
     (if lo < hi then
        let mid = (lo + hi) div 2 in
        rbind (py_get a mid) (\<lambda>y. if y < x then left_loop a x (mid + 1) hi else left_loop a x lo mid)
      else Inr lo)"
  by pat_completeness auto
termination
  by (relation "measure (\<lambda>(a, x, lo, hi). nat (hi - lo))") auto

declare right_loop.simps [simp del] left_loop.simps [simp del]

section \<open>The module's functions\<close>

definition default_hi :: "'a list \<Rightarrow> int option \<Rightarrow> int" where
  "default_hi a hi = (case hi of None \<Rightarrow> int (length a) | Some h \<Rightarrow> h)"

definition bisect_right :: "'a::linorder list \<Rightarrow> 'a \<Rightarrow> int \<Rightarrow> int option \<Rightarrow> int result" where
  "bisect_right a x lo hi =
     (if lo < 0 then Inl ValueError else right_loop a x lo (default_hi a hi))"

definition bisect_left :: "'a::linorder list \<Rightarrow> 'a \<Rightarrow> int \<Rightarrow> int option \<Rightarrow> int result" where
  "bisect_left a x lo hi =
     (if lo < 0 then Inl ValueError else left_loop a x lo (default_hi a hi))"

definition insort_right :: "'a::linorder list \<Rightarrow> 'a \<Rightarrow> int \<Rightarrow> int option \<Rightarrow> 'a list result" where
  "insort_right a x lo hi =
     (if lo < 0 then Inl ValueError
      else rbind (right_loop a x lo (default_hi a hi)) (\<lambda>i. Inr (list_insert_at a (nat i) x)))"

definition insort_left :: "'a::linorder list \<Rightarrow> 'a \<Rightarrow> int \<Rightarrow> int option \<Rightarrow> 'a list result" where
  "insort_left a x lo hi =
     (if lo < 0 then Inl ValueError
      else rbind (left_loop a x lo (default_hi a hi)) (\<lambda>i. Inr (list_insert_at a (nat i) x)))"

section \<open>What the loops find\<close>

text \<open>
  \<open>splits_at p a lo i hi\<close>: within the window, \<open>p\<close> holds exactly below \<open>i\<close>.
\<close>

definition splits_at :: "('a \<Rightarrow> bool) \<Rightarrow> 'a list \<Rightarrow> int \<Rightarrow> int \<Rightarrow> int \<Rightarrow> bool" where
  "splits_at p a lo i hi \<longleftrightarrow> lo \<le> i \<and> i \<le> hi \<and>
     (\<forall>j. lo \<le> j \<longrightarrow> j < i \<longrightarrow> p (a ! nat j)) \<and> (\<forall>j. i \<le> j \<longrightarrow> j < hi \<longrightarrow> \<not> p (a ! nat j))"

lemma splits_at_lower:
  assumes "splits_at p a lo i mid" "mid \<le> hi"
    and "\<And>j. mid \<le> j \<Longrightarrow> j < hi \<Longrightarrow> \<not> p (a ! nat j)"
  shows "splits_at p a lo i hi"
  using assms unfolding splits_at_def by (metis linorder_not_le order_trans)

lemma splits_at_upper:
  assumes "splits_at p a (mid + 1) i hi" "lo \<le> mid"
    and "\<And>j. lo \<le> j \<Longrightarrow> j \<le> mid \<Longrightarrow> p (a ! nat j)"
  shows "splits_at p a lo i hi"
  using assms unfolding splits_at_def by (smt (verit))

lemma sorted_nth_int:
  "sorted a \<Longrightarrow> 0 \<le> i \<Longrightarrow> i \<le> j \<Longrightarrow> j < int (length a) \<Longrightarrow> a ! nat i \<le> (a ! nat j :: 'a::linorder)"
  by (rule sorted_nth_mono) auto

lemma right_loop_splits:
  "sorted a \<Longrightarrow> 0 \<le> lo \<Longrightarrow> lo \<le> hi \<Longrightarrow> hi \<le> int (length a) \<Longrightarrow>
     \<exists>i. right_loop a x lo hi = Inr i \<and> splits_at (\<lambda>y. y \<le> x) a lo i hi"
proof (induction a x lo hi rule: right_loop.induct)
  case (1 a x lo hi)
  show ?case
  proof (cases "lo < hi")
    case True
    define mid where "mid = (lo + hi) div 2"
    have mid: "lo \<le> mid" "mid < hi" using window_mid [OF True] by (auto simp: mid_def)
    have get: "py_get a mid = Inr (a ! nat mid)" using mid "1.prems" by simp
    have window: "0 \<le> mid + 1" "mid + 1 \<le> hi" using mid "1.prems"(2) by linarith+
    have step: "right_loop a x lo hi =
        (if x < a ! nat mid then right_loop a x lo mid else right_loop a x (mid + 1) hi)"
      using True get by (subst right_loop.simps) (simp add: mid_def [symmetric])
    show ?thesis
    proof (cases "x < a ! nat mid")
      case less: True
      then obtain i where i: "right_loop a x lo mid = Inr i" "splits_at (\<lambda>y. y \<le> x) a lo i mid"
        using "1.IH"(1) [OF True mid_def get less] "1.prems" mid by auto
      have "\<not> a ! nat j \<le> x" if "mid \<le> j" "j < hi" for j
        proof -
        have "a ! nat mid \<le> a ! nat j"
          by (rule sorted_nth_int [OF "1.prems"(1)]) (use that mid "1.prems"(2,4) in linarith)+
        then show ?thesis using less by order
      qed
      then have "splits_at (\<lambda>y. y \<le> x) a lo i hi" using splits_at_lower [OF i(2)] mid by auto
      with i step less show ?thesis by simp
    next
      case not_less: False
      then obtain i where i: "right_loop a x (mid + 1) hi = Inr i"
        "splits_at (\<lambda>y. y \<le> x) a (mid + 1) i hi"
        using "1.IH"(2) [OF True mid_def get not_less "1.prems"(1) window "1.prems"(4)] by blast
      have "a ! nat j \<le> x" if "lo \<le> j" "j \<le> mid" for j
        proof -
        have "a ! nat j \<le> a ! nat mid"
          by (rule sorted_nth_int [OF "1.prems"(1)]) (use that mid "1.prems"(2,4) in linarith)+
        then show ?thesis using not_less by order
      qed
      then have "splits_at (\<lambda>y. y \<le> x) a lo i hi" using splits_at_upper [OF i(2)] mid by auto
      with i step not_less show ?thesis by simp
    qed
  next
    case False
    with "1.prems" show ?thesis by (subst right_loop.simps) (simp add: splits_at_def)
  qed
qed

lemma left_loop_splits:
  "sorted a \<Longrightarrow> 0 \<le> lo \<Longrightarrow> lo \<le> hi \<Longrightarrow> hi \<le> int (length a) \<Longrightarrow>
     \<exists>i. left_loop a x lo hi = Inr i \<and> splits_at (\<lambda>y. y < x) a lo i hi"
proof (induction a x lo hi rule: left_loop.induct)
  case (1 a x lo hi)
  show ?case
  proof (cases "lo < hi")
    case True
    define mid where "mid = (lo + hi) div 2"
    have mid: "lo \<le> mid" "mid < hi" using window_mid [OF True] by (auto simp: mid_def)
    have get: "py_get a mid = Inr (a ! nat mid)" using mid "1.prems" by simp
    have window: "0 \<le> mid + 1" "mid + 1 \<le> hi" using mid "1.prems"(2) by linarith+
    have step: "left_loop a x lo hi =
        (if a ! nat mid < x then left_loop a x (mid + 1) hi else left_loop a x lo mid)"
      using True get by (subst left_loop.simps) (simp add: mid_def [symmetric])
    show ?thesis
    proof (cases "a ! nat mid < x")
      case less: True
      then obtain i where i: "left_loop a x (mid + 1) hi = Inr i"
        "splits_at (\<lambda>y. y < x) a (mid + 1) i hi"
        using "1.IH"(1) [OF True mid_def get less "1.prems"(1) window "1.prems"(4)] by blast
      have "a ! nat j < x" if "lo \<le> j" "j \<le> mid" for j
        proof -
        have "a ! nat j \<le> a ! nat mid"
          by (rule sorted_nth_int [OF "1.prems"(1)]) (use that mid "1.prems"(2,4) in linarith)+
        then show ?thesis using less by order
      qed
      then have "splits_at (\<lambda>y. y < x) a lo i hi" using splits_at_upper [OF i(2)] mid by auto
      with i step less show ?thesis by simp
    next
      case not_less: False
      then obtain i where i: "left_loop a x lo mid = Inr i" "splits_at (\<lambda>y. y < x) a lo i mid"
        using "1.IH"(2) [OF True mid_def get not_less] "1.prems" mid by auto
      have "\<not> a ! nat j < x" if "mid \<le> j" "j < hi" for j
        proof -
        have "a ! nat mid \<le> a ! nat j"
          by (rule sorted_nth_int [OF "1.prems"(1)]) (use that mid "1.prems"(2,4) in linarith)+
        then show ?thesis using not_less by order
      qed
      then have "splits_at (\<lambda>y. y < x) a lo i hi" using splits_at_lower [OF i(2)] mid by auto
      with i step not_less show ?thesis by simp
    qed
  next
    case False
    with "1.prems" show ?thesis by (subst left_loop.simps) (simp add: splits_at_def)
  qed
qed

section \<open>Insertion keeps a list sorted\<close>

lemma splits_at_whole:
  assumes "splits_at p a 0 i (int (length a))"
  shows "\<forall>y\<in>set (take (nat i) a). p y" "\<forall>y\<in>set (drop (nat i) a). \<not> p y"
proof -
  show "\<forall>y\<in>set (take (nat i) a). p y"
    using assms by (auto simp: splits_at_def in_set_conv_nth)
      (metis nat_int of_nat_0_le_iff zless_nat_eq_int_zless)
  show "\<forall>y\<in>set (drop (nat i) a). \<not> p y"
  proof
    fix y assume "y \<in> set (drop (nat i) a)"
    then obtain k where k: "k < length a - nat i" "y = a ! (nat i + k)"
      by (auto simp: in_set_conv_nth)
    moreover have "0 \<le> i" using assms by (simp add: splits_at_def)
    ultimately have "\<not> p (a ! nat (i + int k))"
      using assms by (auto simp: splits_at_def)
    with k \<open>0 \<le> i\<close> show "\<not> p y" by (simp add: nat_add_distrib)
  qed
qed

lemma insort_at_split_sorted:
  assumes "sorted a" "\<forall>y\<in>set (take i a). y \<le> x" "\<forall>y\<in>set (drop i a). x \<le> y"
  shows "sorted (list_insert_at a i x)"
  using assms by (auto simp: list_insert_at_def sorted_append sorted_wrt_take sorted_wrt_drop
      intro: order_trans)


lemma insort_right_whole:
  assumes "sorted a"
  shows "\<exists>b. insort_right a x 0 None = Inr b \<and> sorted b \<and> mset b = add_mset x (mset a)"
proof -
  obtain i where i: "right_loop a x 0 (int (length a)) = Inr i"
    "splits_at (\<lambda>y. y \<le> x) a 0 i (int (length a))"
    using right_loop_splits [OF assms, of 0 "int (length a)" x] by auto
  have "sorted (list_insert_at a (nat i) x)"
    using splits_at_whole [OF i(2)] by (intro insort_at_split_sorted assms) force+
  with i(1) show ?thesis by (simp add: insort_right_def default_hi_def)
qed

lemma insort_left_whole:
  assumes "sorted a"
  shows "\<exists>b. insort_left a x 0 None = Inr b \<and> sorted b \<and> mset b = add_mset x (mset a)"
proof -
  obtain i where i: "left_loop a x 0 (int (length a)) = Inr i"
    "splits_at (\<lambda>y. y < x) a 0 i (int (length a))"
    using left_loop_splits [OF assms, of 0 "int (length a)" x] by auto
  have "sorted (list_insert_at a (nat i) x)"
    using splits_at_whole [OF i(2)] by (intro insort_at_split_sorted assms) force+
  with i(1) show ?thesis by (simp add: insort_left_def default_hi_def)
qed

section \<open>Properties\<close>

text \<open>C38: in a sorted list and for any window inside it, both searches return, without an error,
  an index of the window: everything of the window before \<open>bisect_right\<close>'s index is at most \<open>x\<close>
  and everything from it on is greater; for \<open>bisect_left\<close> the same with "less than \<open>x\<close>".\<close>

theorem bisect_window_split:
  assumes "sorted a" "0 \<le> lo" "lo \<le> hi" "hi \<le> int (length a)"
  shows "\<exists>l r. bisect_left a x lo (Some hi) = Inr l \<and> bisect_right a x lo (Some hi) = Inr r \<and>
     lo \<le> l \<and> l \<le> r \<and> r \<le> hi \<and>
     (\<forall>j. lo \<le> j \<and> j < hi \<longrightarrow> (j < l \<longleftrightarrow> a ! nat j < x) \<and> (j < r \<longleftrightarrow> a ! nat j \<le> x))"
proof -
  obtain l where l: "left_loop a x lo hi = Inr l" "splits_at (\<lambda>y. y < x) a lo l hi"
    using left_loop_splits [OF assms] by blast
  obtain r where r: "right_loop a x lo hi = Inr r" "splits_at (\<lambda>y. y \<le> x) a lo r hi"
    using right_loop_splits [OF assms] by blast
  have "l \<le> r"
  proof (rule ccontr)
    assume "\<not> l \<le> r"
    with l(2) r(2) have "a ! nat r < x" "\<not> a ! nat r \<le> x" by (auto simp: splits_at_def)
    then show False by simp
  qed
  moreover have "(j < l \<longleftrightarrow> a ! nat j < x) \<and> (j < r \<longleftrightarrow> a ! nat j \<le> x)"
    if "lo \<le> j" "j < hi" for j
    using l(2) r(2) that unfolding splits_at_def by (metis linorder_not_le)
  ultimately show ?thesis
    using l r assms(2) by (auto simp: bisect_left_def bisect_right_def default_hi_def splits_at_def)
qed

theorem bisect_window_split_witness:
  "\<exists>l r. bisect_left [1, 3, 3, 7 :: int] 3 1 (Some 4) = Inr l \<and>
     bisect_right [1, 3, 3, 7 :: int] 3 1 (Some 4) = Inr r \<and> 1 \<le> l \<and> l \<le> r \<and> r \<le> 4"
  using bisect_window_split [of "[1, 3, 3, 7 :: int]" 1 4 3] by auto

text \<open>\<open>insort_left\<close> and \<open>insort_right\<close> on a sorted list both succeed and give the sorted list
  of the old elements and the new one; a negative \<open>lo\<close> is a ValueError.\<close>

theorem insort_keeps_sorted:
  assumes "sorted a" "neg < 0"
  shows "(\<exists>b. insort_left a x 0 None = Inr b \<and> sorted b \<and> mset b = add_mset x (mset a)) \<and>
     (\<exists>b. insort_right a x 0 None = Inr b \<and> sorted b \<and> mset b = add_mset x (mset a)) \<and>
     insort_left a x neg hi = Inl ValueError \<and> insort_right a x neg hi = Inl ValueError"
  using insort_left_whole [OF assms(1), of x] insort_right_whole [OF assms(1), of x] assms(2)
  by (simp add: insort_left_def insort_right_def)

theorem insort_keeps_sorted_witness:
  "(\<exists>b. insort_left [1, 4 :: int] 2 0 None = Inr b \<and> sorted b \<and> mset b = {#1, 2, 4#}) \<and>
     insort_right [1, 4 :: int] 2 (-1) None = Inl ValueError"
  using insort_keeps_sorted [of "[1, 4 :: int]" "-1" 2 None] by (auto simp: add_mset_commute)

end
