(* ===== verification/Heapq.thy ===== *)
theory Heapq
  imports Prelude
begin

text \<open>
  The module \<open>heapq\<close> (\<open>python-stdlib/heapq/heapq.py\<close>): the sift loops, \<open>heappush\<close>,
  \<open>heappop\<close>, \<open>heapreplace\<close>, \<open>heappushpop\<close>, \<open>heapify\<close> and their max-heap variants. The module
  compares elements only with \<open><\<close>, so every operation takes the elements' \<open>__lt__\<close> as its
  argument \<open>lt\<close>; the laws the heap needs of it are the locale \<open>weak_order\<close>. A heap is a list,
  positions are \<open>nat\<close>: the sift functions are private and every caller passes a position
  inside the list, as \<open>siftdown_loop_bound\<close> and \<open>siftup_loop_bound\<close> keep it.
\<close>

section \<open>Sifting\<close>

text \<open>The loop of \<open>_siftdown\<close>: parents greater than \<open>newitem\<close> move one level down.\<close>

function siftdown_loop ::
  "('a \<Rightarrow> 'a \<Rightarrow> bool) \<Rightarrow> 'a list \<Rightarrow> nat \<Rightarrow> 'a \<Rightarrow> nat \<Rightarrow> 'a list \<times> nat" where
  "siftdown_loop lt heap startpos newitem pos =
     (if startpos < pos then
        let parentpos = drop_bit 1 (pos - 1); parent = heap ! parentpos in
        if lt newitem parent then siftdown_loop lt (heap[pos := parent]) startpos newitem parentpos
        else (heap, pos)
      else (heap, pos))"
  by pat_completeness auto
termination
  by (relation "measure (\<lambda>(lt, heap, startpos, newitem, pos). pos)") (auto simp: drop_bit_eq_div)

definition siftdown :: "('a \<Rightarrow> 'a \<Rightarrow> bool) \<Rightarrow> 'a list \<Rightarrow> nat \<Rightarrow> nat \<Rightarrow> 'a list" where
  "siftdown lt heap startpos pos =
     (let newitem = heap ! pos;
          (heap', pos') = siftdown_loop lt heap startpos newitem pos
      in heap'[pos' := newitem])"

text \<open>The loop of \<open>_siftup\<close>: the smaller child moves up until the hole is at a leaf.\<close>

function siftup_loop :: "('a \<Rightarrow> 'a \<Rightarrow> bool) \<Rightarrow> 'a list \<Rightarrow> nat \<Rightarrow> nat \<Rightarrow> 'a list \<times> nat" where
  "siftup_loop lt heap endpos pos =
     (let childpos = 2 * pos + 1 in
      if childpos < endpos then
        let rightpos = childpos + 1;
            c = (if rightpos < endpos \<and> \<not> lt (heap ! childpos) (heap ! rightpos)
                 then rightpos else childpos)
        in siftup_loop lt (heap[pos := heap ! c]) endpos c
      else (heap, pos))"
  by pat_completeness auto
termination
  by (relation "measure (\<lambda>(lt, heap, endpos, pos). endpos - pos)") (auto simp: Let_def)

definition siftup :: "('a \<Rightarrow> 'a \<Rightarrow> bool) \<Rightarrow> 'a list \<Rightarrow> nat \<Rightarrow> 'a list" where
  "siftup lt heap pos =
     (let newitem = heap ! pos;
          (heap', pos') = siftup_loop lt heap (length heap) pos
      in siftdown lt (heap'[pos' := newitem]) pos pos')"

declare siftdown_loop.simps [simp del] siftup_loop.simps [simp del]

section \<open>The public operations\<close>

definition heappush :: "('a \<Rightarrow> 'a \<Rightarrow> bool) \<Rightarrow> 'a list \<Rightarrow> 'a \<Rightarrow> 'a list" where
  "heappush lt heap item =
     (let heap' = heap @ [item] in siftdown lt heap' 0 (length heap' - 1))"

definition heappop :: "('a \<Rightarrow> 'a \<Rightarrow> bool) \<Rightarrow> 'a list \<Rightarrow> ('a \<times> 'a list) result" where
  "heappop lt heap =
     (if heap = [] then Inl IndexError
      else let lastelt = last heap; heap' = butlast heap in
        if heap' \<noteq> [] then Inr (heap' ! 0, siftup lt (heap'[0 := lastelt]) 0)
        else Inr (lastelt, heap'))"

definition heapreplace :: "('a \<Rightarrow> 'a \<Rightarrow> bool) \<Rightarrow> 'a list \<Rightarrow> 'a \<Rightarrow> ('a \<times> 'a list) result" where
  "heapreplace lt heap item =
     (if heap = [] then Inl IndexError
      else Inr (heap ! 0, siftup lt (heap[0 := item]) 0))"

definition heappushpop :: "('a \<Rightarrow> 'a \<Rightarrow> bool) \<Rightarrow> 'a list \<Rightarrow> 'a \<Rightarrow> 'a \<times> 'a list" where
  "heappushpop lt heap item =
     (if heap \<noteq> [] \<and> lt (heap ! 0) item then (heap ! 0, siftup lt (heap[0 := item]) 0)
      else (item, heap))"

text \<open>\<open>for i in reversed(range(i))\<close> of \<open>heapify\<close>, counting down.\<close>

fun heapify_from :: "('a \<Rightarrow> 'a \<Rightarrow> bool) \<Rightarrow> 'a list \<Rightarrow> nat \<Rightarrow> 'a list" where
  "heapify_from lt x 0 = x"
| "heapify_from lt x (Suc i) = heapify_from lt (siftup lt x i) i"

definition heapify :: "('a \<Rightarrow> 'a \<Rightarrow> bool) \<Rightarrow> 'a list \<Rightarrow> 'a list" where
  "heapify lt x = heapify_from lt x (length x div 2)"

section \<open>The max-heap variants\<close>

function siftdown_max_loop ::
  "('a \<Rightarrow> 'a \<Rightarrow> bool) \<Rightarrow> 'a list \<Rightarrow> nat \<Rightarrow> 'a \<Rightarrow> nat \<Rightarrow> 'a list \<times> nat" where
  "siftdown_max_loop lt heap startpos newitem pos =
     (if startpos < pos then
        let parentpos = drop_bit 1 (pos - 1); parent = heap ! parentpos in
        if lt parent newitem then siftdown_max_loop lt (heap[pos := parent]) startpos newitem parentpos
        else (heap, pos)
      else (heap, pos))"
  by pat_completeness auto
termination
  by (relation "measure (\<lambda>(lt, heap, startpos, newitem, pos). pos)") (auto simp: drop_bit_eq_div)

definition siftdown_max :: "('a \<Rightarrow> 'a \<Rightarrow> bool) \<Rightarrow> 'a list \<Rightarrow> nat \<Rightarrow> nat \<Rightarrow> 'a list" where
  "siftdown_max lt heap startpos pos =
     (let newitem = heap ! pos;
          (heap', pos') = siftdown_max_loop lt heap startpos newitem pos
      in heap'[pos' := newitem])"

function siftup_max_loop :: "('a \<Rightarrow> 'a \<Rightarrow> bool) \<Rightarrow> 'a list \<Rightarrow> nat \<Rightarrow> nat \<Rightarrow> 'a list \<times> nat" where
  "siftup_max_loop lt heap endpos pos =
     (let childpos = 2 * pos + 1 in
      if childpos < endpos then
        let rightpos = childpos + 1;
            c = (if rightpos < endpos \<and> \<not> lt (heap ! rightpos) (heap ! childpos)
                 then rightpos else childpos)
        in siftup_max_loop lt (heap[pos := heap ! c]) endpos c
      else (heap, pos))"
  by pat_completeness auto
termination
  by (relation "measure (\<lambda>(lt, heap, endpos, pos). endpos - pos)") (auto simp: Let_def)

definition siftup_max :: "('a \<Rightarrow> 'a \<Rightarrow> bool) \<Rightarrow> 'a list \<Rightarrow> nat \<Rightarrow> 'a list" where
  "siftup_max lt heap pos =
     (let newitem = heap ! pos;
          (heap', pos') = siftup_max_loop lt heap (length heap) pos
      in siftdown_max lt (heap'[pos' := newitem]) pos pos')"

declare siftdown_max_loop.simps [simp del] siftup_max_loop.simps [simp del]

definition heappushpop_max :: "('a \<Rightarrow> 'a \<Rightarrow> bool) \<Rightarrow> 'a list \<Rightarrow> 'a \<Rightarrow> 'a \<times> 'a list" where
  "heappushpop_max lt heap item =
     (if heap \<noteq> [] \<and> lt item (heap ! 0) then (heap ! 0, siftup_max lt (heap[0 := item]) 0)
      else (item, heap))"

fun heapify_max_from :: "('a \<Rightarrow> 'a \<Rightarrow> bool) \<Rightarrow> 'a list \<Rightarrow> nat \<Rightarrow> 'a list" where
  "heapify_max_from lt x 0 = x"
| "heapify_max_from lt x (Suc i) = heapify_max_from lt (siftup_max lt x i) i"

definition heapify_max :: "('a \<Rightarrow> 'a \<Rightarrow> bool) \<Rightarrow> 'a list \<Rightarrow> 'a list" where
  "heapify_max lt x = heapify_max_from lt x (length x div 2)"

text \<open>Every max variant is the plain operation with the comparison turned around.\<close>

lemma siftdown_max_loop_flip:
  "siftdown_max_loop lt heap s x p = siftdown_loop (\<lambda>x y. lt y x) heap s x p"
proof (induction lt heap s x p rule: siftdown_max_loop.induct)
  case (1 lt heap startpos newitem pos)
  then show ?case
    by (subst siftdown_max_loop.simps, subst siftdown_loop.simps) (simp add: Let_def)
qed

lemma siftup_max_loop_flip:
  "siftup_max_loop lt heap e p = siftup_loop (\<lambda>x y. lt y x) heap e p"
proof (induction lt heap e p rule: siftup_max_loop.induct)
  case (1 lt heap endpos pos)
  then show ?case
    by (subst siftup_max_loop.simps, subst siftup_loop.simps) (simp add: Let_def)
qed

lemma siftup_max_flip: "siftup_max lt = siftup (\<lambda>x y. lt y x)"
  by (simp add: fun_eq_iff siftup_max_def siftup_def siftdown_max_def siftdown_def
      siftdown_max_loop_flip siftup_max_loop_flip)

lemma heapify_max_from_flip: "heapify_max_from lt x i = heapify_from (\<lambda>x y. lt y x) x i"
  by (induction lt x i rule: heapify_max_from.induct) (simp_all add: siftup_max_flip)

lemma heapify_max_flip: "heapify_max lt = heapify (\<lambda>x y. lt y x)"
  by (simp add: fun_eq_iff heapify_max_def heapify_def heapify_max_from_flip)

lemma heappushpop_max_flip: "heappushpop_max lt = heappushpop (\<lambda>x y. lt y x)"
  by (simp add: fun_eq_iff heappushpop_max_def heappushpop_def siftup_max_flip)

section \<open>Positions, lengths and contents\<close>

definition parent :: "nat \<Rightarrow> nat" where
  "parent k = (k - 1) div 2"

lemma parent_less: "0 < k \<Longrightarrow> parent k < k"
  by (simp add: parent_def)

lemma parent_child [simp]: "parent (Suc (2 * p)) = p" "parent (Suc (Suc (2 * p))) = p"
  by (simp_all add: parent_def)

lemma parent_eq_iff: "0 < k \<Longrightarrow> parent k = p \<longleftrightarrow> k = 2 * p + 1 \<or> k = 2 * p + 2"
  by (auto simp: parent_def)

text \<open>\<open>p\<close> lies in the subtree of \<open>s\<close>.\<close>

fun below :: "nat \<Rightarrow> nat \<Rightarrow> bool" where
  "below s p = (if s < p then below s ((p - 1) div 2) else p = s)"

declare below.simps [simp del]

lemma below_refl [simp]: "below s s"
  by (simp add: below.simps)

lemma below_parent: "below s p \<Longrightarrow> s < p \<Longrightarrow> below s (parent p)"
  by (subst (asm) below.simps) (simp add: parent_def)

lemma below_le: "below s p \<Longrightarrow> s \<le> p"
  by (subst (asm) below.simps) (simp split: if_splits)

lemma below_child: "below s p \<Longrightarrow> 0 < c \<Longrightarrow> parent c = p \<Longrightarrow> below s c"
  using below_le [of s p] parent_less [of c] by (subst below.simps) (auto simp: parent_def)

lemma below_zero: "below 0 p"
proof (induction p rule: less_induct)
  case (less p)
  show ?case
  proof (cases "p = 0")
    case False
    then have "below 0 (parent p)" using less parent_less by blast
    with False show ?thesis by (subst below.simps) (simp add: parent_def)
  qed simp
qed

lemma siftdown_loop_eq:
  "siftdown_loop lt heap s x p =
     (if s < p \<and> lt x (heap ! parent p)
      then siftdown_loop lt (heap[p := heap ! parent p]) s x (parent p) else (heap, p))"
  by (subst siftdown_loop.simps) (simp add: parent_def Let_def drop_bit_eq_div)

lemma siftdown_loop_bound:
  "siftdown_loop lt heap s x p = (h, q) \<Longrightarrow> p < length heap \<Longrightarrow> q < length h \<and> length h = length heap"
proof (induction lt heap s x p arbitrary: h q rule: siftdown_loop.induct)
  case (1 lt heap s x p)
  show ?case
  proof (cases "s < p \<and> lt x (heap ! parent p)")
    case True
    then have "siftdown_loop lt (heap[p := heap ! parent p]) s x (parent p) = (h, q)"
      using "1.prems"(1) by (subst (asm) siftdown_loop_eq) simp
    moreover have "parent p < length (heap[p := heap ! parent p])"
      using True "1.prems"(2) parent_less [of p] by simp
    ultimately show ?thesis
      using "1.IH" [of "parent p" "heap ! parent p" h q] True
      by (simp add: parent_def drop_bit_eq_div)
  next
    case False
    then show ?thesis using "1.prems" by (subst (asm) siftdown_loop_eq) auto
  qed
qed

lemma siftdown_loop_mset:
  "siftdown_loop lt heap s x p = (h, q) \<Longrightarrow> p < length heap \<Longrightarrow>
     mset (h[q := x]) = mset (heap[p := x])"
proof (induction lt heap s x p arbitrary: h q rule: siftdown_loop.induct)
  case (1 lt heap s x p)
  show ?case
  proof (cases "s < p \<and> lt x (heap ! parent p)")
    case True
    then have eq: "siftdown_loop lt (heap[p := heap ! parent p]) s x (parent p) = (h, q)"
      using "1.prems"(1) by (subst (asm) siftdown_loop_eq) simp
    have par: "parent p < length heap"
      using True "1.prems"(2) parent_less [of p] by simp
    have "mset (h[q := x]) = mset (heap[p := heap ! parent p, parent p := x])"
      using "1.IH" [of "parent p" "heap ! parent p" h q] True eq par
      by (simp add: parent_def drop_bit_eq_div)
    then show ?thesis using mset_update_swap [OF "1.prems"(2) par] by simp
  next
    case False
    then show ?thesis using "1.prems" by (subst (asm) siftdown_loop_eq) auto
  qed
qed

lemma length_siftdown [simp]: "p < length heap \<Longrightarrow> length (siftdown lt heap s p) = length heap"
  by (auto simp: siftdown_def Let_def split: prod.splits dest: siftdown_loop_bound)

lemma mset_siftdown [simp]: "p < length heap \<Longrightarrow> mset (siftdown lt heap s p) = mset heap"
  by (auto simp: siftdown_def Let_def split: prod.splits dest!: siftdown_loop_mset)


text \<open>The child that \<open>_siftup\<close> moves up.\<close>

definition chosen_child :: "('a \<Rightarrow> 'a \<Rightarrow> bool) \<Rightarrow> 'a list \<Rightarrow> nat \<Rightarrow> nat \<Rightarrow> nat" where
  "chosen_child lt heap e p =
     (if 2 * p + 2 < e \<and> \<not> lt (heap ! (2 * p + 1)) (heap ! (2 * p + 2)) then 2 * p + 2 else 2 * p + 1)"

lemma chosen_child_props:
  "0 < chosen_child lt heap e p" "parent (chosen_child lt heap e p) = p" "p < chosen_child lt heap e p"
  "2 * p + 1 < e \<Longrightarrow> chosen_child lt heap e p < e"
  by (auto simp: chosen_child_def)

lemma siftup_loop_eq:
  "siftup_loop lt heap e p =
     (if 2 * p + 1 < e
      then siftup_loop lt (heap[p := heap ! chosen_child lt heap e p]) e (chosen_child lt heap e p)
      else (heap, p))"
  by (subst siftup_loop.simps) (simp add: chosen_child_def Let_def)

lemma siftup_loop_induct [case_names step]:
  assumes "\<And>heap p. (2 * p + 1 < e \<Longrightarrow>
      P (heap[p := heap ! chosen_child lt heap e p]) (chosen_child lt heap e p)) \<Longrightarrow> P heap p"
  shows "P heap p"
proof (induction "e - p" arbitrary: heap p rule: less_induct)
  case less
  show ?case
  proof (rule assms)
    assume "2 * p + 1 < e"
    then have "e - chosen_child lt heap e p < e - p"
      using chosen_child_props(3) [of p lt heap e] by linarith
    then show "P (heap[p := heap ! chosen_child lt heap e p]) (chosen_child lt heap e p)"
      by (rule less)
  qed
qed

lemma siftup_loop_bound:
  "siftup_loop lt heap e p = (h, q) \<Longrightarrow> p < e \<Longrightarrow> q < e \<and> length h = length heap"
proof (induction heap p arbitrary: h q rule: siftup_loop_induct [where lt = lt and e = e])
  case (step heap p)
  show ?case
  proof (cases "2 * p + 1 < e")
    case True
    have "chosen_child lt heap e p < e" using True by (rule chosen_child_props)
    then show ?thesis
      using step.IH [OF True] step.prems True by (subst (asm) (2) siftup_loop_eq) simp
  next
    case False
    then show ?thesis using step.prems by (subst (asm) siftup_loop_eq) auto
  qed
qed

lemma siftup_loop_mset:
  "siftup_loop lt heap e p = (h, q) \<Longrightarrow> p < e \<Longrightarrow> e = length heap \<Longrightarrow>
     mset (h[q := x]) = mset (heap[p := x])"
proof (induction heap p arbitrary: h q rule: siftup_loop_induct [where lt = lt and e = e])
  case (step heap p)
  show ?case
  proof (cases "2 * p + 1 < e")
    case True
    let ?c = "chosen_child lt heap e p"
    have c: "?c < e" using True by (rule chosen_child_props)
    then have "mset (h[q := x]) = mset (heap[p := heap ! ?c, ?c := x])"
      using step.IH [OF True, of h q] step.prems True by (subst (asm) (2) siftup_loop_eq) simp
    then show ?thesis using mset_update_swap [of p heap ?c x] step.prems c by simp
  next
    case False
    then show ?thesis using step.prems by (subst (asm) siftup_loop_eq) auto
  qed
qed

lemma length_siftup [simp]: "p < length heap \<Longrightarrow> length (siftup lt heap p) = length heap"
  by (auto simp: siftup_def Let_def split: prod.splits dest: siftup_loop_bound)

lemma mset_siftup [simp]: "p < length heap \<Longrightarrow> mset (siftup lt heap p) = mset heap"
  by (auto simp: siftup_def Let_def split: prod.splits)
    (metis length_list_update list_update_id mset_siftdown siftup_loop_bound siftup_loop_mset)

lemma mset_heapify_from: "i \<le> length x \<Longrightarrow> mset (heapify_from lt x i) = mset x"
  by (induction lt x i rule: heapify_from.induct) auto

lemma mset_heapify [simp]: "mset (heapify lt x) = mset x"
  by (simp add: heapify_def mset_heapify_from)

lemma mset_heappush [simp]: "mset (heappush lt heap x) = add_mset x (mset heap)"
  by (simp add: heappush_def Let_def)

lemma heappop_mset: "heappop lt heap = Inr (x, h) \<Longrightarrow> mset heap = add_mset x (mset h)"
proof -
  assume pop: "heappop lt heap = Inr (x, h)"
  then have ne: "heap \<noteq> []" by (auto simp: heappop_def)
  define b where "b = butlast heap"
  have heap: "heap = b @ [last heap]" using ne by (simp add: b_def)
  show ?thesis
  proof (cases b)
    case Nil
    then show ?thesis using pop ne heap by (simp add: heappop_def b_def [symmetric])
  next
    case (Cons y ys)
    then have "x = y" "h = siftup lt (last heap # ys) 0"
      using pop ne by (auto simp: heappop_def b_def [symmetric] Let_def)
    moreover have "mset heap = mset (y # ys @ [last heap])" using heap Cons by simp
    ultimately show ?thesis by simp
  qed
qed

lemma heappop_root: "heappop lt h = Inr (x, h') \<Longrightarrow> x = h ! 0"
  by (cases h rule: rev_cases) (auto simp: heappop_def Let_def nth_append split: if_splits)

lemma mset_heapreplace: "heapreplace lt heap x = Inr (y, h) \<Longrightarrow> add_mset x (mset heap) = add_mset y (mset h)"
  by (cases heap) (auto simp: heapreplace_def)

lemma mset_heappushpop: "heappushpop lt heap x = (y, h) \<Longrightarrow> add_mset x (mset heap) = add_mset y (mset h)"
  by (cases heap) (auto simp: heappushpop_def split: if_splits)


section \<open>The interface: what the heap needs of the comparison\<close>

text \<open>
  Python's \<open>__lt__\<close> on the elements: a strict order whose incomparability is transitive. The
  heap invariant and every lemma about it is proved once here. The laws are symmetric, so the
  turned-around comparison of the max-heap variants satisfies them too (\<open>flip\<close>).
\<close>

locale weak_order =
  fixes lt :: "'a \<Rightarrow> 'a \<Rightarrow> bool"
  assumes asym: "lt x y \<Longrightarrow> \<not> lt y x"
    and not_less_trans: "\<not> lt x y \<Longrightarrow> \<not> lt y z \<Longrightarrow> \<not> lt x z"

lemma weak_order_flip: "weak_order lt \<Longrightarrow> weak_order (\<lambda>x y. lt y x)"
  unfolding weak_order_def by blast

text \<open>
  \<open>heap_from lt s h\<close>: no element is smaller than its parent, for every parent from position \<open>s\<close>
  on; \<open>is_heap\<close> is the module's invariant \<open>a[k] <= a[2*k+1] and a[k] <= a[2*k+2]\<close>.
\<close>

definition heap_from :: "('a \<Rightarrow> 'a \<Rightarrow> bool) \<Rightarrow> nat \<Rightarrow> 'a list \<Rightarrow> bool" where
  "heap_from lt s h \<longleftrightarrow>
     (\<forall>k. 0 < k \<longrightarrow> k < length h \<longrightarrow> s \<le> parent k \<longrightarrow> \<not> lt (h ! k) (h ! parent k))"

definition is_heap :: "('a \<Rightarrow> 'a \<Rightarrow> bool) \<Rightarrow> 'a list \<Rightarrow> bool" where
  "is_heap lt h \<longleftrightarrow>
     (\<forall>k < length h. (2 * k + 1 < length h \<longrightarrow> \<not> lt (h ! (2 * k + 1)) (h ! k)) \<and>
        (2 * k + 2 < length h \<longrightarrow> \<not> lt (h ! (2 * k + 2)) (h ! k)))"

lemma is_heap_heap_from: "is_heap lt h \<longleftrightarrow> heap_from lt 0 h"
proof
  assume h: "is_heap lt h"
  show "heap_from lt 0 h" unfolding heap_from_def
  proof (intro allI impI)
    fix k assume k: "0 < k" "k < length h"
    then have par: "parent k < length h" using parent_less [of k] by simp
    have "k = 2 * parent k + 1 \<or> k = 2 * parent k + 2"
      using k parent_eq_iff [of k "parent k"] by simp
    then show "\<not> lt (h ! k) (h ! parent k)"
    proof
      assume "k = 2 * parent k + 1"
      with h par k(2) show ?thesis unfolding is_heap_def by metis
    next
      assume "k = 2 * parent k + 2"
      with h par k(2) show ?thesis unfolding is_heap_def by metis
    qed
  qed
next
  assume h: "heap_from lt 0 h"
  show "is_heap lt h" unfolding is_heap_def
  proof (intro allI impI conjI)
    fix k assume "2 * k + 1 < length h"
    then show "\<not> lt (h ! (2 * k + 1)) (h ! k)"
      using h [unfolded heap_from_def, rule_format, of "2 * k + 1"] by simp
  next
    fix k assume "2 * k + 2 < length h"
    then show "\<not> lt (h ! (2 * k + 2)) (h ! k)"
      using h [unfolded heap_from_def, rule_format, of "2 * k + 2"] by simp
  qed
qed

text \<open>
  The invariant of the \<open>_siftdown\<close> loop, with the hole at \<open>p\<close> that will hold \<open>x\<close>, and that of the
  \<open>_siftup\<close> loop, with a hole at \<open>p\<close>: the order holds around the hole.
\<close>

definition down_inv :: "('a \<Rightarrow> 'a \<Rightarrow> bool) \<Rightarrow> nat \<Rightarrow> 'a \<Rightarrow> 'a list \<Rightarrow> nat \<Rightarrow> bool" where
  "down_inv lt s x h p \<longleftrightarrow> below s p \<and> p < length h \<and>
     (\<forall>k. 0 < k \<longrightarrow> k < length h \<longrightarrow> s \<le> parent k \<longrightarrow> k \<noteq> p \<longrightarrow> parent k \<noteq> p \<longrightarrow>
        \<not> lt (h ! k) (h ! parent k)) \<and>
     (\<forall>k. 0 < k \<longrightarrow> k < length h \<longrightarrow> parent k = p \<longrightarrow> \<not> lt (h ! k) x) \<and>
     (\<forall>k. 0 < k \<longrightarrow> k < length h \<longrightarrow> parent k = p \<longrightarrow> s < p \<longrightarrow> \<not> lt (h ! k) (h ! parent p))"

definition up_inv :: "('a \<Rightarrow> 'a \<Rightarrow> bool) \<Rightarrow> nat \<Rightarrow> 'a list \<Rightarrow> nat \<Rightarrow> bool" where
  "up_inv lt s h p \<longleftrightarrow> below s p \<and> p < length h \<and>
     (\<forall>k. 0 < k \<longrightarrow> k < length h \<longrightarrow> s \<le> parent k \<longrightarrow> k \<noteq> p \<longrightarrow> parent k \<noteq> p \<longrightarrow>
        \<not> lt (h ! k) (h ! parent k)) \<and>
     (\<forall>k. 0 < k \<longrightarrow> k < length h \<longrightarrow> parent k = p \<longrightarrow> s < p \<longrightarrow> \<not> lt (h ! k) (h ! parent p))"

context weak_order begin

lemma irrefl: "\<not> lt x x"
  using asym by blast

lemma down_inv_step:
  assumes inv: "down_inv lt s x h p" and "s < p" and less: "lt x (h ! parent p)"
  shows "down_inv lt s x (h[p := h ! parent p]) (parent p)"
proof -
  let ?q = "parent p" and ?h = "h[p := h ! parent p]"
  have p: "below s p" "p < length h" "0 < p" "?q < p"
    using inv \<open>s < p\<close> parent_less [of p] by (auto simp: down_inv_def)
  have q: "below s ?q" using below_parent p(1) \<open>s < p\<close> .
  then have "s \<le> ?q" by (rule below_le)
  have ok: "\<not> lt (h ! k) (h ! parent k)"
    if "0 < k" "k < length h" "s \<le> parent k" "k \<noteq> p" "parent k \<noteq> p" for k
    using inv that by (simp add: down_inv_def)
  have grand: "\<not> lt (h ! k) (h ! ?q)" if "0 < k" "k < length h" "parent k = p" for k
    using inv that \<open>s < p\<close> by (simp add: down_inv_def)
  have ok_q: "\<not> lt (h ! ?q) (h ! parent ?q)" if "s < ?q"
    using ok [of ?q] that p below_le [OF below_parent [OF q that]] parent_less [of ?q] by auto
  have sib: "\<not> lt (?h ! k) (h ! ?q)" if "0 < k" "k < length h" "parent k = ?q" for k
    using that ok [of k] p \<open>s \<le> ?q\<close> asym by (cases "k = p") auto
  have "\<not> lt (?h ! k) (?h ! parent k)"
    if k: "0 < k" "k < length h" "s \<le> parent k" "k \<noteq> ?q" "parent k \<noteq> ?q" for k
    using that ok [of k] grand [of k] p(2) by (cases "parent k = p"; cases "k = p") auto
  moreover have "\<not> lt (?h ! k) x" if "0 < k" "k < length h" "parent k = ?q" for k
    using sib [OF that] less not_less_trans asym by blast
  moreover have "\<not> lt (?h ! k) (?h ! parent ?q)" if "0 < k" "k < length h" "parent k = ?q" "s < ?q" for k
    using sib [OF that(1-3)] ok_q [OF that(4)] not_less_trans p parent_less [of ?q] that(4)
    by (metis gr_zeroI less_trans nat_neq_iff not_less_zero nth_list_update_neq)
  ultimately show ?thesis using q p by (simp add: down_inv_def)
qed

lemma down_inv_done:
  assumes "down_inv lt s x h p" "\<not> (s < p \<and> lt x (h ! parent p))"
  shows "heap_from lt s (h[p := x])"
  unfolding heap_from_def
proof (intro allI impI)
  fix k assume k: "0 < k" "k < length (h[p := x])" "s \<le> parent k"
  have "below s p" "p < length h" using assms(1) by (auto simp: down_inv_def)
  show "\<not> lt (h[p := x] ! k) (h[p := x] ! parent k)"
  proof (cases "k = p")
    case True
    then have "s < p" using k parent_less [of k] by simp
    with True assms(2) k \<open>p < length h\<close> parent_less [of k] show ?thesis by simp
  next
    case False
    then show ?thesis using assms(1) k by (cases "parent k = p") (auto simp: down_inv_def)
  qed
qed

lemma siftdown_loop_heap:
  "down_inv lt s x h p \<Longrightarrow> siftdown_loop lt h s x p = (h', q) \<Longrightarrow> heap_from lt s (h'[q := x])"
proof (induction p arbitrary: h rule: less_induct)
  case (less p)
  show ?case
  proof (cases "s < p \<and> lt x (h ! parent p)")
    case True
    then have "siftdown_loop lt (h[p := h ! parent p]) s x (parent p) = (h', q)"
      using less.prems(2) by (subst (asm) siftdown_loop_eq) simp
    then show ?thesis
      using less.IH [of "parent p"] down_inv_step [OF less.prems(1)] True parent_less [of p] by auto
  next
    case False
    then show ?thesis
      using less.prems down_inv_done by (subst (asm) siftdown_loop_eq) auto
  qed
qed

lemma siftdown_heap: "down_inv lt s (h ! p) h p \<Longrightarrow> heap_from lt s (siftdown lt h s p)"
  by (auto simp: siftdown_def Let_def split: prod.splits dest: siftdown_loop_heap)

lemma up_inv_step:
  assumes inv: "up_inv lt s h p" and child: "2 * p + 1 < length h"
  shows "up_inv lt s (h[p := h ! chosen_child lt h (length h) p]) (chosen_child lt h (length h) p)"
proof -
  define c where "c = chosen_child lt h (length h) p"
  let ?h = "h[p := h ! c]"
  have c: "0 < c" "parent c = p" "p < c" "c < length h"
    using child by (simp_all add: c_def chosen_child_props)
  have p: "below s p" "p < length h" "s \<le> p"
    using inv below_le by (auto simp: up_inv_def)
  have ok: "\<not> lt (h ! k) (h ! parent k)"
    if "0 < k" "k < length h" "s \<le> parent k" "k \<noteq> p" "parent k \<noteq> p" for k
    using inv that by (simp add: up_inv_def)
  have grand: "\<not> lt (h ! k) (h ! parent p)" if "0 < k" "k < length h" "parent k = p" "s < p" for k
    using inv that by (simp add: up_inv_def)
  have smallest: "\<not> lt (h ! k) (h ! c)" if "0 < k" "k < length h" "parent k = p" for k
  proof -
    have "k = 2 * p + 1 \<or> k = 2 * p + 2" using that parent_eq_iff by auto
    then show ?thesis using that asym irrefl by (auto simp: c_def chosen_child_def)
  qed
  have "\<not> lt (?h ! k) (?h ! parent k)"
    if k: "0 < k" "k < length h" "s \<le> parent k" "k \<noteq> c" "parent k \<noteq> c" for k
  proof (cases "k = p")
    case True
    then have "s < p" "parent k \<noteq> p" using k parent_less [of k] by auto
    then show ?thesis using grand [of c] c True p by simp
  next
    case False
    then show ?thesis using ok [of k] smallest [of k] k p by (cases "parent k = p") auto
  qed
  moreover have "\<not> lt (?h ! k) (?h ! parent c)" if "0 < k" "k < length h" "parent k = c" "s < c" for k
    using ok [of k] that c p parent_less [of k] by simp
  ultimately show ?thesis
    using below_child [OF p(1) c(1,2)] c by (simp add: up_inv_def c_def [symmetric])
qed

lemma siftup_loop_inv:
  "siftup_loop lt h e p = (h', q) \<Longrightarrow> e = length h \<Longrightarrow> up_inv lt s h p \<Longrightarrow>
     up_inv lt s h' q \<and> length h' \<le> 2 * q + 1"
proof (induction h p arbitrary: h' q rule: siftup_loop_induct [where lt = lt and e = e])
  case (step h p)
  show ?case
  proof (cases "2 * p + 1 < e")
    case True
    then have "siftup_loop lt (h[p := h ! chosen_child lt h e p]) e (chosen_child lt h e p) = (h', q)"
      using step.prems(1) by (subst (asm) siftup_loop_eq) simp
    then show ?thesis using step.IH [OF True] up_inv_step step.prems True by simp
  next
    case False
    then show ?thesis using step.prems by (subst (asm) siftup_loop_eq) auto
  qed
qed

lemma up_inv_leaf:
  assumes inv: "up_inv lt s h p" and leaf: "length h \<le> 2 * p + 1"
  shows "down_inv lt s x (h[p := x]) p"
proof -
  have no_child: "parent k \<noteq> p \<and> p \<noteq> parent k" if "0 < k" "k < length h" for k
    using that leaf parent_eq_iff [of k p] by auto
  then show ?thesis using inv by (simp add: down_inv_def up_inv_def)
qed

lemma siftup_heap:
  assumes "heap_from lt (Suc s) h" "s < length h"
  shows "heap_from lt s (siftup lt h s)"
proof -
  obtain h' q where loop: "siftup_loop lt h (length h) s = (h', q)" by fastforce
  have "up_inv lt s h s" using assms by (auto simp: up_inv_def heap_from_def)
  then have "up_inv lt s h' q" "length h' \<le> 2 * q + 1"
    using siftup_loop_inv [OF loop] by auto
  moreover from this have "q < length h'" by (simp add: up_inv_def)
  ultimately show ?thesis by (simp add: siftup_def loop up_inv_leaf siftdown_heap)
qed

text \<open>The operations keep the invariant.\<close>

lemma heap_from_mono: "heap_from lt s h \<Longrightarrow> s \<le> t \<Longrightarrow> heap_from lt t h"
  by (auto simp: heap_from_def)

lemma heap_from_half: "length h div 2 \<le> s \<Longrightarrow> heap_from lt s h"
  by (auto simp: heap_from_def parent_def)

lemma heapify_from_heap:
  "heap_from lt i h \<Longrightarrow> i \<le> length h \<Longrightarrow> heap_from lt 0 (heapify_from lt h i)"
proof (induction i arbitrary: h)
  case (Suc i)
  then show ?case using siftup_heap [of i h] by simp
qed simp

lemma heapify_heap: "is_heap lt (heapify lt h)"
  by (simp add: heapify_def is_heap_heap_from heapify_from_heap heap_from_half)

lemma heappush_heap:
  assumes "is_heap lt h"
  shows "is_heap lt (heappush lt h x)"
proof -
  have "down_inv lt 0 x (h @ [x]) (length h)"
    using assms unfolding is_heap_heap_from heap_from_def down_inv_def
    by (auto simp: below_zero nth_append less_Suc_eq parent_eq_iff dest: parent_less)
  then show ?thesis
    using siftdown_heap [of 0 "h @ [x]" "length h"] by (simp add: heappush_def is_heap_heap_from)
qed

lemma siftup_root_heap:
  assumes "is_heap lt h" "h \<noteq> []"
  shows "is_heap lt (siftup lt (h[0 := x]) 0)"
proof -
  have "heap_from lt (Suc 0) (h[0 := x])"
    using assms by (auto simp: is_heap_heap_from heap_from_def)
  then show ?thesis using siftup_heap [of 0 "h[0 := x]"] assms(2) by (simp add: is_heap_heap_from)
qed

lemma butlast_heap: "is_heap lt h \<Longrightarrow> is_heap lt (butlast h)"
  by (auto simp: is_heap_def nth_butlast)

lemma heappop_heap: "is_heap lt h \<Longrightarrow> heappop lt h = Inr (x, h') \<Longrightarrow> is_heap lt h'"
  using siftup_root_heap [OF butlast_heap]
  by (auto simp: heappop_def Let_def split: if_splits) (simp add: is_heap_def)

lemma heapreplace_heap: "is_heap lt h \<Longrightarrow> heapreplace lt h y = Inr (x, h') \<Longrightarrow> is_heap lt h'"
  using siftup_root_heap by (auto simp: heapreplace_def split: if_splits)

lemma heappushpop_heap: "is_heap lt h \<Longrightarrow> heappushpop lt h y = (x, h') \<Longrightarrow> is_heap lt h'"
  using siftup_root_heap by (auto simp: heappushpop_def split: if_splits)

text \<open>The root is minimal.\<close>

lemma root_minimal_nth: "is_heap lt h \<Longrightarrow> k < length h \<Longrightarrow> \<not> lt (h ! k) (h ! 0)"
proof (induction k rule: less_induct)
  case (less k)
  show ?case
  proof (cases "k = 0")
    case True
    then show ?thesis using asym by blast
  next
    case False
    then have "\<not> lt (h ! k) (h ! parent k)" "parent k < k"
      using less.prems parent_less by (auto simp: is_heap_heap_from heap_from_def)
    then show ?thesis using less.IH [of "parent k"] less.prems not_less_trans by force
  qed
qed

lemma root_minimal: "is_heap lt h \<Longrightarrow> x \<in> set h \<Longrightarrow> \<not> lt x (h ! 0)"
  using root_minimal_nth by (metis in_set_conv_nth)

lemma heappop_minimal:
  "is_heap lt h \<Longrightarrow> heappop lt h = Inr (x, h') \<Longrightarrow> y \<in> set h \<Longrightarrow> \<not> lt y x"
  using root_minimal [of h y] heappop_root [of lt h x h'] by simp

end


text \<open>The turned-around comparison satisfies the same laws, so every lemma above holds of it.\<close>

sublocale weak_order \<subseteq> flip: weak_order "\<lambda>x y. lt y x"
  by (rule weak_order_flip) (rule weak_order_axioms)

section \<open>The comparisons the library uses\<close>

text \<open>
  \<open><\<close> on any linearly ordered type; \<open>lt_order.flip\<close> is the comparison of the max-heap variants.
\<close>

interpretation lt_order: weak_order "(<) :: 'a::linorder \<Rightarrow> 'a \<Rightarrow> bool"
  by unfold_locales auto

lemma heappop_Inl_iff: "heappop lt h = Inl e \<longleftrightarrow> h = [] \<and> e = IndexError"
  by (auto simp: heappop_def Let_def)

lemma heappop_Min:
  fixes h :: "'a::linorder list"
  assumes "is_heap (<) h" "heappop (<) h = Inr (x, h')"
  shows "x = Min_mset (mset h)" "mset h' = mset h - {#Min_mset (mset h)#}" "is_heap (<) h'"
proof -
  have "x \<in> set h" using heappop_mset [OF assms(2)] by (metis set_mset_mset union_single_eq_member)
  moreover have "x \<le> y" if "y \<in> set h" for y
    using lt_order.heappop_minimal [OF assms that] by simp
  ultimately show x: "x = Min_mset (mset h)" by (intro Min_eqI [symmetric]) auto
  show "mset h' = mset h - {#Min_mset (mset h)#}"
    unfolding x [symmetric] using heappop_mset [OF assms(2)] by simp
  show "is_heap (<) h'" using lt_order.heappop_heap [OF assms] .
qed

section \<open>Draining a heap\<close>

text \<open>
  The module's \<open>__main__\<close> block: push all items, then \<open>while heap: sort.append(heappop(heap))\<close>.
\<close>

function drain :: "('a \<Rightarrow> 'a \<Rightarrow> bool) \<Rightarrow> 'a list \<Rightarrow> 'a list" where
  "drain lt heap =
     (case heappop lt heap of Inl e \<Rightarrow> [] | Inr (x, heap') \<Rightarrow> x # drain lt heap')"
  by pat_completeness auto
termination
proof (relation "measure (\<lambda>(lt, heap). length heap)")
  fix lt :: "'a \<Rightarrow> 'a \<Rightarrow> bool" and heap heap' :: "'a list" and r x
  assume "heappop lt heap = Inr r" "(x, heap') = r"
  then have "size (mset heap) = size (add_mset x (mset heap'))"
    using heappop_mset by metis
  then show "((lt, heap'), lt, heap) \<in> measure (\<lambda>(lt, heap). length heap)" by simp
qed simp

declare drain.simps [simp del]

definition push_all :: "('a \<Rightarrow> 'a \<Rightarrow> bool) \<Rightarrow> 'a list \<Rightarrow> 'a list \<Rightarrow> 'a list" where
  "push_all lt data heap = foldl (heappush lt) heap data"

definition heapsort_main :: "'a::linorder list \<Rightarrow> 'a list" where
  "heapsort_main data = drain (<) (push_all (<) data [])"

lemma is_heap_Nil [simp]: "is_heap lt []"
  by (simp add: is_heap_def)

lemma push_all_heap:
  fixes h :: "'a::linorder list"
  shows "is_heap (<) h \<Longrightarrow> is_heap (<) (push_all (<) data h)"
  by (induction data arbitrary: h) (auto simp: push_all_def lt_order.heappush_heap)

lemma mset_push_all: "mset (push_all lt data h) = mset data + mset h"
  by (induction data arbitrary: h) (auto simp: push_all_def)

lemma mset_drain: "mset (drain lt h) = mset h"
proof (induction lt h rule: drain.induct)
  case (1 lt heap)
  show ?case
  proof (cases "heappop lt heap")
    case (Inl e)
    then have "heap = []" by (simp add: heappop_Inl_iff)
    then show ?thesis by (subst drain.simps) (simp add: heappop_def)
  next
    case (Inr r)
    then obtain x h' where "heappop lt heap = Inr (x, h')" by (cases r) auto
    then show ?thesis
      using "1.IH" [of "(x, h')" x h'] heappop_mset by (subst drain.simps) fastforce
  qed
qed

lemma drain_sorted: "is_heap (<) h \<Longrightarrow> sorted (drain (<) (h :: 'a::linorder list))"
proof (induction "length h" arbitrary: h rule: less_induct)
  case less
  show ?case
  proof (cases "heappop (<) h")
    case (Inl e)
    then show ?thesis by (subst drain.simps) simp
  next
    case (Inr r)
    then obtain x h' where pop: "heappop (<) h = Inr (x, h')" by (cases r) auto
    have m: "mset h = add_mset x (mset h')" using heappop_mset [OF pop] .
    have "sorted (drain (<) h')"
      using less.hyps [of h'] lt_order.heappop_heap [OF less.prems pop]
        arg_cong [OF m, of size] by simp
    moreover have "x \<le> y" if "y \<in> set (drain (<) h')" for y
    proof -
      have "set (drain (<) h') = set h'" by (metis mset_drain set_mset_mset)
      then have "y \<in># mset h" using that m by simp
      then show ?thesis using lt_order.heappop_minimal [OF less.prems pop, of y] by simp
    qed
    ultimately show ?thesis using pop by (subst drain.simps) simp
  qed
qed

lemma drain_heap_eq_sort: "is_heap (<) h \<Longrightarrow> drain (<) h = sort (h :: 'a::linorder list)"
  by (rule sorted_mset_unique) (simp_all add: drain_sorted mset_drain)

section \<open>Properties\<close>

text \<open>C25: \<open>heapify\<close> turns any list into a heap of the same elements, for any comparison that is
  a weak order, with the smallest element first; \<open>_heapify_max\<close> does so for the reverse order.\<close>

theorem heapify_makes_heap:
  fixes x :: "'a::linorder list"
  shows "is_heap (<) (heapify (<) x) \<and> mset (heapify (<) x) = mset x \<and>
     is_heap (\<lambda>a b. b < a) (heapify_max (<) x) \<and> mset (heapify_max (<) x) = mset x"
  by (simp add: lt_order.heapify_heap heapify_max_flip lt_order.flip.heapify_heap)

text \<open>C11: on a heap, \<open>heappush\<close> adds the item, \<open>heappop\<close> removes and returns the least element
  (IndexError exactly on the empty list), \<open>heapreplace\<close> is that pop followed by a push,
  \<open>heappushpop\<close> returns the least of the heap and the item; each leaves a heap.\<close>

theorem heap_operations_correct:
  fixes h :: "'a::linorder list"
  assumes "is_heap (<) h"
  shows "is_heap (<) (heappush (<) h x) \<and> mset (heappush (<) h x) = add_mset x (mset h) \<and>
     (case heappop (<) h of
        Inl e \<Rightarrow> h = [] \<and> e = IndexError
      | Inr (y, h') \<Rightarrow> y = Min_mset (mset h) \<and> mset h' = mset h - {#y#} \<and> is_heap (<) h') \<and>
     (case heapreplace (<) h x of
        Inl e \<Rightarrow> h = [] \<and> e = IndexError
      | Inr (y, h') \<Rightarrow> y = Min_mset (mset h) \<and> mset h' = add_mset x (mset h - {#y#}) \<and> is_heap (<) h') \<and>
     (case heappushpop (<) h x of
        (y, h') \<Rightarrow> y = Min_mset (add_mset x (mset h)) \<and> mset h' = add_mset x (mset h) - {#y#} \<and>
          is_heap (<) h')"
proof (intro conjI)
  show "is_heap (<) (heappush (<) h x)" by (rule lt_order.heappush_heap [OF assms])
  show "mset (heappush (<) h x) = add_mset x (mset h)" by simp
  show "case heappop (<) h of
        Inl e \<Rightarrow> h = [] \<and> e = IndexError
      | Inr (y, h') \<Rightarrow> y = Min_mset (mset h) \<and> mset h' = mset h - {#y#} \<and> is_heap (<) h'"
    using heappop_Min [OF assms] by (auto simp: heappop_Inl_iff split: sum.splits)
next
  have min: "h ! 0 = Min_mset (mset h)" if "h \<noteq> []"
    using that lt_order.root_minimal [OF assms] by (intro Min_eqI [symmetric]) (auto simp: not_less)
  show "case heapreplace (<) h x of
        Inl e \<Rightarrow> h = [] \<and> e = IndexError
      | Inr (y, h') \<Rightarrow> y = Min_mset (mset h) \<and> mset h' = add_mset x (mset h - {#y#}) \<and> is_heap (<) h'"
  proof (cases h)
    case (Cons a t)
    then show ?thesis
      using min lt_order.siftup_root_heap [OF assms, of x] by (auto simp: heapreplace_def)
  qed (simp add: heapreplace_def)
  show "case heappushpop (<) h x of
        (y, h') \<Rightarrow> y = Min_mset (add_mset x (mset h)) \<and> mset h' = add_mset x (mset h) - {#y#} \<and>
          is_heap (<) h'"
  proof (cases "h \<noteq> [] \<and> h ! 0 < x")
    case True
    then have "h ! 0 = Min_mset (add_mset x (mset h))"
      using lt_order.root_minimal [OF assms] by (intro Min_eqI [symmetric]) (auto simp: not_less)
    then show ?thesis
      using True mset_heappushpop [of "(<)" h x] lt_order.siftup_root_heap [OF assms, of x]
      by (cases h) (auto simp: heappushpop_def)
  next
    case False
    then have "x = Min_mset (add_mset x (mset h))"
      using lt_order.root_minimal [OF assms]
      by (intro Min_eqI [symmetric]) (auto simp: not_less, meson length_pos_if_in_set order_trans
          length_greater_0_conv)
    then show ?thesis using False assms by (auto simp: heappushpop_def)
  qed
qed

theorem heap_operations_correct_witness:
  "is_heap (<) [1, 3, 2 :: int] \<and> is_heap (<) (heappush (<) [1, 3, 2 :: int] 0) \<and>
     heappop (<) [1, 3, 2 :: int] = Inr (1, [2, 3])"
proof -
  have h: "is_heap (<) [1, 3, 2 :: int]"
    by (auto simp: is_heap_def less_Suc_eq nth_Cons split: nat.splits)
  have "heappop (<) [1, 3, 2 :: int] = Inr (1, [2, 3])"
    by (simp add: heappop_def siftup_def siftup_loop.simps siftdown_def siftdown_loop.simps)
  then show ?thesis using h heap_operations_correct [OF h, of 0] by simp
qed

text \<open>Pushing any items onto an empty heap and popping until it is empty sorts them, as the
  module's self test shows for one list.\<close>

theorem push_then_pop_sorts: "heapsort_main data = sort (data :: 'a::linorder list)"
proof -
  have "is_heap (<) (push_all (<) data [])" by (rule push_all_heap) simp
  then have "heapsort_main data = sort (push_all (<) data [])"
    by (simp add: heapsort_main_def drain_heap_eq_sort)
  also have "\<dots> = sort data"
    by (rule sorted_mset_unique [OF sorted_sort, symmetric, THEN sym]) (simp add: mset_push_all)
  finally show ?thesis .
qed

end
