(* ===== verification/Heapq_Select.thy ===== *)
theory Heapq_Select
  imports Heapq
begin

text \<open>
  The selection functions of \<open>heapq\<close>: \<open>nsmallest\<close> and \<open>nlargest\<close>, first the heap based bodies
  (\<open>_nsmallest\<close>, \<open>_nlargest\<close>), then the functions with a key, which decorate each item with its
  key and position; and the generator \<open>merge\<close>, as the list of the values it yields.
\<close>

section \<open>Python's sort\<close>

text \<open>
  \<open>list.sort()\<close> and \<open>sorted\<close> are stable sorts by \<open>__lt__\<close>; with \<open>reverse=True\<close> they are the
  stable sort by the turned-around comparison.
\<close>

fun insort_lt :: "('a \<Rightarrow> 'a \<Rightarrow> bool) \<Rightarrow> 'a \<Rightarrow> 'a list \<Rightarrow> 'a list" where
  "insort_lt lt x [] = [x]"
| "insort_lt lt x (y # ys) = (if lt y x then y # insort_lt lt x ys else x # y # ys)"

definition py_sort :: "('a \<Rightarrow> 'a \<Rightarrow> bool) \<Rightarrow> 'a list \<Rightarrow> 'a list" where
  "py_sort lt xs = foldr (insort_lt lt) xs []"

abbreviation by_key :: "('a \<Rightarrow> 'k::linorder) \<Rightarrow> 'a \<Rightarrow> 'a \<Rightarrow> bool" where
  "by_key key x y \<equiv> key x < key y"

lemma py_sort_simps [simp]:
  "py_sort lt [] = []" "py_sort lt (x # xs) = insort_lt lt x (py_sort lt xs)"
  by (simp_all add: py_sort_def)

lemma insort_lt_key: "insort_lt (by_key key) x ys = insort_key key x ys"
  by (induction ys) (auto simp: not_less)

lemma py_sort_key: "py_sort (by_key key) xs = sort_key key xs"
  by (induction xs) (simp_all add: insort_lt_key)

lemma mset_insort_lt [simp]: "mset (insort_lt lt x ys) = add_mset x (mset ys)"
  by (induction ys) auto

lemma mset_py_sort [simp]: "mset (py_sort lt xs) = mset xs"
  by (induction xs) auto

lemma set_py_sort [simp]: "set (py_sort lt xs) = set xs"
  by (metis mset_py_sort set_mset_mset)

lemma set_insort_lt [simp]: "set (insort_lt lt x ys) = insert x (set ys)"
  by (induction ys) auto

lemma length_py_sort [simp]: "length (py_sort lt xs) = length xs"
  by (metis mset_py_sort size_mset)

text \<open>\<open>asc lt xs\<close>: no element is less than one before it.\<close>

abbreviation asc :: "('a \<Rightarrow> 'a \<Rightarrow> bool) \<Rightarrow> 'a list \<Rightarrow> bool" where
  "asc lt xs \<equiv> sorted_wrt (\<lambda>x y. \<not> lt y x) xs"

context weak_order begin

lemma asc_insort: "asc lt ys \<Longrightarrow> asc lt (insort_lt lt x ys)"
proof (induction ys)
  case (Cons y ys)
  show ?case
  proof (cases "lt y x")
    case True
    with Cons asym [OF True] show ?thesis by simp
  next
    case False
    have "\<not> lt z x" if "z \<in> set ys" for z
      using Cons.prems that by (intro not_less_trans [OF _ False]) simp
    with Cons.prems False show ?thesis by simp
  qed
qed simp

lemma asc_py_sort: "asc lt (py_sort lt xs)"
  by (induction xs) (auto simp: asc_insort)

end

text \<open>Two ascending arrangements of the same elements are equal if no two elements tie.\<close>

lemma asc_unique:
  assumes "asc lt xs" "asc lt ys" "mset xs = mset ys"
    and "\<And>x y. x \<in> set xs \<Longrightarrow> y \<in> set xs \<Longrightarrow> x \<noteq> y \<Longrightarrow> lt x y \<or> lt y x"
  shows "xs = ys"
  using assms
proof (induction xs arbitrary: ys)
  case (Cons x xs)
  from Cons.prems(3) obtain y ys' where ys: "ys = y # ys'" by (cases ys) auto
  have sets: "insert x (set xs) = insert y (set ys')"
    using Cons.prems(3) ys by (metis list.simps(15) set_mset_mset)
  have "x = y"
  proof (rule ccontr)
    assume ne: "x \<noteq> y"
    then have "y \<in> set xs" "x \<in> set ys'" using sets by auto
    then have "\<not> lt y x" "\<not> lt x y" using Cons.prems(1,2) ys by auto
    with Cons.prems(4) [of x y] ne \<open>y \<in> set xs\<close> show False by auto
  qed
  moreover have "xs = ys'"
    by (rule Cons.IH) (use Cons.prems ys \<open>x = y\<close> in auto)
  ultimately show ?case using ys by simp
qed simp

section \<open>The heap based bodies\<close>

text \<open>The first definitions of \<open>nsmallest\<close> and \<open>nlargest\<close>, kept as \<open>_nsmallest\<close>, \<open>_nlargest\<close>.\<close>

definition nsmallest_base :: "('a \<Rightarrow> 'a \<Rightarrow> bool) \<Rightarrow> int \<Rightarrow> 'a list \<Rightarrow> 'a list" where
  "nsmallest_base lt n iterable =
     (if n < 0 then []
      else let result = take (nat n) iterable; it = drop (nat n) iterable in
        if result = [] then result
        else let heap = heapify_max lt result;
                 heap' = foldl (\<lambda>h elem. snd (heappushpop_max lt h elem)) heap it
             in py_sort lt heap')"

definition nlargest_base :: "('a \<Rightarrow> 'a \<Rightarrow> bool) \<Rightarrow> int \<Rightarrow> 'a list \<Rightarrow> 'a list" where
  "nlargest_base lt n iterable =
     (if n < 0 then []
      else let result = take (nat n) iterable; it = drop (nat n) iterable in
        if result = [] then result
        else let heap = heapify lt result;
                 heap' = foldl (\<lambda>h elem. snd (heappushpop lt h elem)) heap it
             in py_sort (\<lambda>x y. lt y x) heap')"

lemma nlargest_base_flip: "nlargest_base lt = nsmallest_base (\<lambda>x y. lt y x)"
  by (simp add: fun_eq_iff nlargest_base_def nsmallest_base_def heapify_max_flip
      heappushpop_max_flip Let_def)

text \<open>
  What the loop keeps: the heap and the elements it has dropped are the elements seen, and no
  dropped element is less than one kept.
\<close>

definition keeps_smallest :: "('a \<Rightarrow> 'a \<Rightarrow> bool) \<Rightarrow> 'a list \<Rightarrow> 'a multiset \<Rightarrow> 'a multiset \<Rightarrow> bool" where
  "keeps_smallest lt h dropped seen \<longleftrightarrow>
     is_heap (\<lambda>x y. lt y x) h \<and> mset h + dropped = seen \<and>
     (\<forall>d\<in>#dropped. \<forall>y\<in>set h. \<not> lt d y)"

context weak_order begin

lemma keeps_smallest_step:
  assumes "keeps_smallest lt h dropped seen" "h \<noteq> []"
  shows "\<exists>d. keeps_smallest lt (snd (heappushpop_max lt h e)) (add_mset d dropped) (add_mset e seen) \<and>
    snd (heappushpop_max lt h e) \<noteq> []"
proof -
  obtain d h' where pp: "heappushpop_max lt h e = (d, h')" by fastforce
  have heap: "is_heap (\<lambda>x y. lt y x) h" and total: "mset h + dropped = seen"
    and kept: "\<And>a y. a \<in># dropped \<Longrightarrow> y \<in> set h \<Longrightarrow> \<not> lt a y"
    using assms(1) by (auto simp: keeps_smallest_def)
  have m: "add_mset e (mset h) = add_mset d (mset h')"
    using mset_heappushpop pp by (metis heappushpop_max_flip)
  have h': "is_heap (\<lambda>x y. lt y x) h'"
    using flip.heappushpop_heap [OF heap] pp by (metis heappushpop_max_flip)
  have top: "\<not> lt (h ! 0) y" if "y \<in> set h" for y
    using flip.root_minimal [OF heap that] .
  have root: "h ! 0 \<in> set h" using assms(2) by simp
  have "set_mset (add_mset d (mset h')) = set_mset (add_mset e (mset h))" using m by simp
  then have sub: "set h' \<subseteq> insert e (set h)" by auto
  have case1: "d = h ! 0" if "lt e (h ! 0)"
    using that pp assms(2) by (simp add: heappushpop_max_def)
  have case2: "d = e \<and> h' = h" if "\<not> lt e (h ! 0)"
    using that pp by (simp add: heappushpop_max_def)
  have "\<not> lt a y" if "a = d \<or> a \<in># dropped" "y \<in> set h'" for a y
  proof (cases "lt e (h ! 0)")
    case True
    have "\<not> lt a (h ! 0)" using that(1) kept [OF _ root] case1 [OF True] irrefl by auto
    moreover have "\<not> lt (h ! 0) y" using that(2) sub top asym [OF True] by auto
    ultimately show ?thesis by (rule not_less_trans)
  next
    case False
    then show ?thesis using that case2 kept top not_less_trans by blast
  qed
  then have "keeps_smallest lt h' (add_mset d dropped) (add_mset e seen)"
    using h' m total by (auto simp: keeps_smallest_def)
  moreover have "h' \<noteq> []" using m assms(2) by (metis add_mset_eq_single mset_zero_iff)
  ultimately show ?thesis using pp by auto
qed

lemma keeps_smallest_loop:
  "keeps_smallest lt h dropped seen \<Longrightarrow> h \<noteq> [] \<Longrightarrow>
     \<exists>dropped'. keeps_smallest lt (foldl (\<lambda>h elem. snd (heappushpop_max lt h elem)) h it) dropped'
       (mset it + seen)"
proof (induction it arbitrary: h dropped seen)
  case (Cons e it)
  from keeps_smallest_step [OF Cons.prems] obtain d where
    "keeps_smallest lt (snd (heappushpop_max lt h e)) (add_mset d dropped) (add_mset e seen)"
    "snd (heappushpop_max lt h e) \<noteq> []" by blast
  from Cons.IH [OF this] show ?case by simp
qed auto

lemma length_heappushpop_max: "length (snd (heappushpop_max lt h e)) = length h"
proof -
  obtain d h' where "heappushpop_max lt h e = (d, h')" by fastforce
  then have "size (add_mset e (mset h)) = size (add_mset d (mset h'))"
    using mset_heappushpop by (metis heappushpop_max_flip)
  with \<open>heappushpop_max lt h e = (d, h')\<close> show ?thesis by simp
qed

lemma length_pushpop_loop:
  "length (foldl (\<lambda>h elem. snd (heappushpop_max lt h elem)) h it) = length h"
  by (induction it arbitrary: h) (simp_all add: length_heappushpop_max)

lemma nsmallest_base_take:
  assumes total: "\<And>x y. x \<in> set xs \<Longrightarrow> y \<in> set xs \<Longrightarrow> x \<noteq> y \<Longrightarrow> lt x y \<or> lt y x"
    and "0 \<le> n"
  shows "nsmallest_base lt n xs = take (nat n) (py_sort lt xs)"
proof (cases "take (nat n) xs = []")
  case True
  then show ?thesis using assms(2) by (auto simp: nsmallest_base_def Let_def)
next
  case False
  define r where "r = heapify_max lt (take (nat n) xs)"
  define r' where "r' = foldl (\<lambda>h elem. snd (heappushpop_max lt h elem)) r (drop (nat n) xs)"
  have r: "mset r = mset (take (nat n) xs)" by (simp add: r_def heapify_max_flip)
  then have "r \<noteq> []" using False by (metis mset_zero_iff)
  moreover have "keeps_smallest lt r {#} (mset (take (nat n) xs))"
    using r by (simp add: keeps_smallest_def r_def heapify_max_flip flip.heapify_heap)
  ultimately obtain dropped where
    k: "keeps_smallest lt r' dropped (mset (drop (nat n) xs) + mset (take (nat n) xs))"
    unfolding r'_def using keeps_smallest_loop by blast
  obtain ds where ds: "mset ds = dropped" using ex_mset by blast
  have all: "mset r' + dropped = mset xs"
    using k by (metis append_take_drop_id keeps_smallest_def mset_append union_commute)
  have len: "length r' = min (nat n) (length xs)"
    using arg_cong [OF r, of size] by (simp add: r'_def length_pushpop_loop min.commute)
  have "asc lt (py_sort lt r' @ py_sort lt ds)"
    using k ds asc_py_sort by (auto simp: sorted_wrt_append keeps_smallest_def)
  then have "py_sort lt xs = py_sort lt r' @ py_sort lt ds"
    by (intro asc_unique [OF asc_py_sort]) (use all ds total in auto)
  moreover have "ds = []" if "length xs < nat n"
    using that len arg_cong [OF all, of size] ds by auto
  ultimately have "take (nat n) (py_sort lt xs) = py_sort lt r'"
    using len by (cases "length xs < nat n") auto
  then show ?thesis
    using False assms(2) by (simp add: nsmallest_base_def Let_def r_def r'_def)
qed

end


section \<open>\<open>nsmallest\<close> and \<open>nlargest\<close> with a key\<close>

text \<open>
  Decorated items. Without a key an item is the pair \<open>(elem, i)\<close>, with one the triple
  \<open>(key(elem), i, elem)\<close>, where \<open>i\<close> counts up or down from 0. Tuples compare
  lexicographically; the positions differ, so the third component is never reached.
\<close>

fun zip_count :: "int \<Rightarrow> int \<Rightarrow> 'a list \<Rightarrow> ('a \<times> int) list" where
  "zip_count i step [] = []"
| "zip_count i step (x # xs) = (x, i) # zip_count (i + step) step xs"

fun zip_key_count :: "('a \<Rightarrow> 'k) \<Rightarrow> int \<Rightarrow> int \<Rightarrow> 'a list \<Rightarrow> ('k \<times> int \<times> 'a) list" where
  "zip_key_count key i step [] = []"
| "zip_key_count key i step (x # xs) = (key x, i, x) # zip_key_count key (i + step) step xs"

definition tuple_lt :: "('k::linorder \<times> int \<times> 'a) \<Rightarrow> ('k \<times> int \<times> 'a) \<Rightarrow> bool" where
  "tuple_lt r s \<longleftrightarrow> fst r < fst s \<or> (fst r = fst s \<and> fst (snd r) < fst (snd s))"

text \<open>\<open>min\<close> and \<open>max\<close> keep the first of equal items.\<close>

definition py_min :: "('a \<Rightarrow> 'k::linorder) \<Rightarrow> 'a \<Rightarrow> 'a list \<Rightarrow> 'a" where
  "py_min key head rest = foldl (\<lambda>m y. if key y < key m then y else m) head rest"

definition py_max :: "('a \<Rightarrow> 'k::linorder) \<Rightarrow> 'a \<Rightarrow> 'a list \<Rightarrow> 'a" where
  "py_max key head rest = foldl (\<lambda>m y. if key m < key y then y else m) head rest"

text \<open>
  \<open>sized\<close> says whether \<open>len(iterable)\<close> is defined: a list has a length, a generator does not.
\<close>

definition nsmallest_plain :: "int \<Rightarrow> bool \<Rightarrow> 'a::linorder list \<Rightarrow> 'a list" where
  "nsmallest_plain n sized iterable =
     (if n = 1 then (case iterable of [] \<Rightarrow> [] | head # it \<Rightarrow> [py_min (\<lambda>x. x) head it])
      else if sized \<and> n \<ge> int (length iterable) then take (nat n) (py_sort (<) iterable)
      else map fst (nsmallest_base (<) n (zip_count 0 1 iterable)))"

definition nsmallest_key :: "('a \<Rightarrow> 'k::linorder) \<Rightarrow> int \<Rightarrow> bool \<Rightarrow> 'a list \<Rightarrow> 'a list" where
  "nsmallest_key key n sized iterable =
     (if n = 1 then (case iterable of [] \<Rightarrow> [] | head # it \<Rightarrow> [py_min key head it])
      else if sized \<and> n \<ge> int (length iterable) then take (nat n) (py_sort (by_key key) iterable)
      else map (\<lambda>r. snd (snd r)) (nsmallest_base tuple_lt n (zip_key_count key 0 1 iterable)))"

definition nlargest_plain :: "int \<Rightarrow> bool \<Rightarrow> 'a::linorder list \<Rightarrow> 'a list" where
  "nlargest_plain n sized iterable =
     (if n = 1 then (case iterable of [] \<Rightarrow> [] | head # it \<Rightarrow> [py_max (\<lambda>x. x) head it])
      else if sized \<and> n \<ge> int (length iterable) then take (nat n) (py_sort (\<lambda>x y. y < x) iterable)
      else map fst (nlargest_base (<) n (zip_count 0 (-1) iterable)))"

definition nlargest_key :: "('a \<Rightarrow> 'k::linorder) \<Rightarrow> int \<Rightarrow> bool \<Rightarrow> 'a list \<Rightarrow> 'a list" where
  "nlargest_key key n sized iterable =
     (if n = 1 then (case iterable of [] \<Rightarrow> [] | head # it \<Rightarrow> [py_max key head it])
      else if sized \<and> n \<ge> int (length iterable)
      then take (nat n) (py_sort (\<lambda>x y. by_key key y x) iterable)
      else map (\<lambda>r. snd (snd r)) (nlargest_base tuple_lt n (zip_key_count key 0 (-1) iterable)))"

interpretation tuple_order: weak_order "tuple_lt :: 'k::linorder \<times> int \<times> 'a \<Rightarrow> _"
  by unfold_locales (auto simp: tuple_lt_def)

text \<open>Sorting decorated items and dropping the decoration is a stable sort of the items.\<close>

lemma position_beyond:
  "(k, j, x) \<in> set (zip_key_count key i step xs) \<Longrightarrow>
     k = key x \<and> (0 < step \<longrightarrow> i \<le> j) \<and> (step < 0 \<longrightarrow> j \<le> i)"
  by (induction xs arbitrary: i) (auto, fastforce+)

lemma insort_tuple:
  assumes "\<And>k j y. (k, j, y) \<in> set L \<Longrightarrow> k = key y \<and> i < j"
  shows "map (\<lambda>r. snd (snd r)) (insort_lt tuple_lt (key x, i, x) L) =
     insort_lt (by_key key) x (map (\<lambda>r. snd (snd r)) L)"
  using assms by (induction L) (fastforce simp: tuple_lt_def)+

lemma insort_tuple_desc:
  assumes "\<And>k j y. (k, j, y) \<in> set L \<Longrightarrow> k = key y \<and> j < i"
  shows "map (\<lambda>r. snd (snd r)) (insort_lt (\<lambda>r s. tuple_lt s r) (key x, i, x) L) =
     insort_lt (\<lambda>a b. by_key key b a) x (map (\<lambda>r. snd (snd r)) L)"
  using assms by (induction L) (fastforce simp: tuple_lt_def)+

lemma sort_decorated:
  "map (\<lambda>r. snd (snd r)) (py_sort tuple_lt (zip_key_count key i 1 xs)) = py_sort (by_key key) xs"
proof (induction xs arbitrary: i)
  case (Cons x xs)
  have "k = key y \<and> i < j" if "(k, j, y) \<in> set (py_sort tuple_lt (zip_key_count key (i + 1) 1 xs))"
    for k j y
    using position_beyond [of k j y key "i + 1" 1 xs] that by simp
  then have "map (\<lambda>r. snd (snd r))
      (insort_lt tuple_lt (key x, i, x) (py_sort tuple_lt (zip_key_count key (i + 1) 1 xs))) =
    insort_lt (by_key key) x
      (map (\<lambda>r. snd (snd r)) (py_sort tuple_lt (zip_key_count key (i + 1) 1 xs)))"
    by (intro insort_tuple) blast
  with Cons.IH show ?case by simp
qed simp

lemma sort_decorated_desc:
  "map (\<lambda>r. snd (snd r)) (py_sort (\<lambda>r s. tuple_lt s r) (zip_key_count key i (-1) xs)) =
     py_sort (\<lambda>a b. by_key key b a) xs"
proof (induction xs arbitrary: i)
  case (Cons x xs)
  have "k = key y \<and> j < i"
    if "(k, j, y) \<in> set (py_sort (\<lambda>r s. tuple_lt s r) (zip_key_count key (i - 1) (-1) xs))" for k j y
    using position_beyond [of k j y key "i - 1" "-1" xs] that by simp
  then have "map (\<lambda>r. snd (snd r)) (insort_lt (\<lambda>r s. tuple_lt s r) (key x, i, x)
      (py_sort (\<lambda>r s. tuple_lt s r) (zip_key_count key (i - 1) (-1) xs))) =
    insort_lt (\<lambda>a b. by_key key b a) x
      (map (\<lambda>r. snd (snd r)) (py_sort (\<lambda>r s. tuple_lt s r) (zip_key_count key (i - 1) (-1) xs)))"
    by (intro insort_tuple_desc) blast
  with Cons.IH show ?case by simp
qed simp


lemma tuple_lt_total:
  assumes "r \<in> set (zip_key_count key i step xs)" "s \<in> set (zip_key_count key i step xs)"
    and "r \<noteq> s" "step = 1 \<or> step = -1"
  shows "tuple_lt r s \<or> tuple_lt s r"
  using assms
proof (induction xs arbitrary: i)
  case (Cons x xs)
  have beyond: "fst t = key (snd (snd t)) \<and> fst (snd t) \<noteq> i"
    if "t \<in> set (zip_key_count key (i + step) step xs)" for t
    using position_beyond [of "fst t" "fst (snd t)" "snd (snd t)" key "i + step" step xs] that
      Cons.prems(4) by auto
  show ?case
  proof (cases "r \<in> set (zip_key_count key (i + step) step xs) \<and>
      s \<in> set (zip_key_count key (i + step) step xs)")
    case True
    then show ?thesis using Cons by blast
  next
    case False
    then show ?thesis
      using Cons.prems beyond [of r] beyond [of s] by (auto simp: tuple_lt_def neq_iff)
  qed
qed simp

text \<open>The pairs of the keyless case are the triples with the identity as key.\<close>

lemma zip_count_key:
  "zip_count i step xs = map (\<lambda>r. (fst r, fst (snd r))) (zip_key_count (\<lambda>x. x) i step xs)"
  by (induction xs arbitrary: i) auto

lemma insort_pair:
  "insort_lt (<) (fst r, fst (snd r)) (map (\<lambda>r. (fst r, fst (snd r))) L) =
     map (\<lambda>r. (fst r, fst (snd r))) (insort_lt tuple_lt r L)"
  by (induction L) (auto simp: tuple_lt_def less_prod_def less_le)

lemma py_sort_pair:
  "py_sort (<) (map (\<lambda>r. (fst r, fst (snd r))) L) = map (\<lambda>r. (fst r, fst (snd r))) (py_sort tuple_lt L)"
  by (induction L) (simp_all add: insort_pair)

lemma insort_pair_desc:
  "insort_lt (\<lambda>a b. b < a) (fst r, fst (snd r)) (map (\<lambda>r. (fst r, fst (snd r))) L) =
     map (\<lambda>r. (fst r, fst (snd r))) (insort_lt (\<lambda>r s. tuple_lt s r) r L)"
  by (induction L) (auto simp: tuple_lt_def less_prod_def less_le)

lemma py_sort_pair_desc:
  "py_sort (\<lambda>a b. b < a) (map (\<lambda>r. (fst r, fst (snd r))) L) =
     map (\<lambda>r. (fst r, fst (snd r))) (py_sort (\<lambda>r s. tuple_lt s r) L)"
  by (induction L) (simp_all add: insort_pair_desc)

lemma fst_decorated: "r \<in> set (zip_key_count key i step xs) \<Longrightarrow> fst r = key (snd (snd r))"
  by (induction xs arbitrary: i) auto

lemma sort_plain:
  "map fst (py_sort (<) (zip_count 0 1 xs)) = py_sort (<) (xs :: 'a::linorder list)"
proof -
  have "map fst (py_sort (<) (zip_count 0 1 xs)) =
      map fst (py_sort tuple_lt (zip_key_count (\<lambda>x. x) 0 1 xs))"
    by (simp add: zip_count_key py_sort_pair comp_def)
  also have "\<dots> = map (\<lambda>r. snd (snd r)) (py_sort tuple_lt (zip_key_count (\<lambda>x. x) 0 1 xs))"
    by (auto dest: fst_decorated)
  finally show ?thesis by (simp add: sort_decorated)
qed

lemma sort_plain_desc:
  "map fst (py_sort (\<lambda>a b. b < a) (zip_count 0 (-1) xs)) = py_sort (\<lambda>a b. b < a) (xs :: 'a::linorder list)"
proof -
  have "map fst (py_sort (\<lambda>a b. b < a) (zip_count 0 (-1) xs)) =
      map fst (py_sort (\<lambda>r s. tuple_lt s r) (zip_key_count (\<lambda>x. x) 0 (-1) xs))"
    by (simp add: zip_count_key py_sort_pair_desc comp_def)
  also have "\<dots> =
      map (\<lambda>r. snd (snd r)) (py_sort (\<lambda>r s. tuple_lt s r) (zip_key_count (\<lambda>x. x) 0 (-1) xs))"
    by (auto dest: fst_decorated)
  finally show ?thesis by (simp add: sort_decorated_desc)
qed

text \<open>The first least item is the head of the stable sort.\<close>

context weak_order begin

lemma hd_py_sort: "\<exists>t. py_sort lt (x # xs) = foldl (\<lambda>m y. if lt y m then y else m) x xs # t"
proof (induction xs arbitrary: x)
  case (Cons y ys)
  have "hd (py_sort lt (x # y # ys)) = hd (py_sort lt ((if lt y x then y else x) # ys))"
  proof (cases "py_sort lt ys")
    case (Cons s t)
    have "lt y x \<Longrightarrow> lt s y \<Longrightarrow> lt s x" using not_less_trans [of s x y] asym [of y x] by blast
    moreover have "\<not> lt y x \<Longrightarrow> \<not> lt s y \<Longrightarrow> \<not> lt s x" by (rule not_less_trans)
    ultimately show ?thesis using Cons by auto
  qed auto
  then show ?case
    using Cons.IH [of "if lt y x then y else x"]
    by (metis (no_types, lifting) foldl_Cons length_py_sort list.exhaust_sel list.sel(1) list.size(3)
        nat.distinct(1) length_Cons)
qed simp

end

interpretation key_order: weak_order "by_key key" for key :: "'a \<Rightarrow> 'k::linorder"
  by unfold_locales auto

lemma take_one_sort:
  "0 < length xs \<Longrightarrow> take 1 (py_sort (by_key key) xs) = [py_min key (hd xs) (tl xs)]"
  using key_order.hd_py_sort [of key "hd xs" "tl xs"] by (auto simp: py_min_def simp del: py_sort_simps)

lemma take_one_sort_desc:
  "0 < length xs \<Longrightarrow> take 1 (py_sort (\<lambda>a b. by_key key b a) xs) = [py_max key (hd xs) (tl xs)]"
  using key_order.flip.hd_py_sort [of key "hd xs" "tl xs"] by (auto simp: py_max_def simp del: py_sort_simps)


lemma py_sort_desc_plain: "py_sort (\<lambda>a b. b < a) xs = rev (sort (xs :: 'a::linorder list))"
proof (rule asc_unique)
  show "asc (\<lambda>a b. b < a) (py_sort (\<lambda>a b. b < a) xs)" by (rule lt_order.flip.asc_py_sort)
  show "asc (\<lambda>a b. b < a) (rev (sort xs))"
    by (simp add: sorted_wrt_rev not_less)
qed auto

lemma sort_eq_py_sort: "sort xs = py_sort (<) (xs :: 'a::linorder list)"
  using py_sort_key [of "\<lambda>x. x" xs] by simp

section \<open>\<open>merge\<close>\<close>

text \<open>
  The entry \<open>[value, itnum, next]\<close> of an input that still has values: its next value, the
  input's number and the values \<open>next()\<close> has left to give. Entries compare as lists, by value
  and then by the (distinct) number.
\<close>

type_synonym 'a entry = "'a \<times> nat \<times> 'a list"

definition entry_lt :: "'a::linorder entry \<Rightarrow> 'a entry \<Rightarrow> bool" where
  "entry_lt r s \<longleftrightarrow> fst r < fst s \<or> (fst r = fst s \<and> fst (snd r) < fst (snd s))"

fun merge_entries :: "nat \<Rightarrow> 'a list list \<Rightarrow> 'a entry list" where
  "merge_entries itnum [] = []"
| "merge_entries itnum ([] # its) = merge_entries (Suc itnum) its"
| "merge_entries itnum ((v # rest) # its) = (v, itnum, rest) # merge_entries (Suc itnum) its"

definition entries_values :: "'a entry multiset \<Rightarrow> 'a multiset" where
  "entries_values M = (\<Sum>r\<in>#M. add_mset (fst r) (mset (snd (snd r))))"

text \<open>
  The \<open>while\<close> loop. Inside, \<open>s[0] = next()\<close> writes the entry at the root before
  \<open>heapreplace(h, s)\<close>, or an exhausted input is popped.
\<close>

lemma entries_values_simps [simp]:
  "entries_values {#} = {#}"
  "entries_values (add_mset r M) = add_mset (fst r) (mset (snd (snd r))) + entries_values M"
  "entries_values (M + N) = entries_values M + entries_values N"
  by (simp_all add: entries_values_def)

lemma root_in_heap: "h \<noteq> [] \<Longrightarrow> add_mset (h ! 0) (mset (tl h)) = mset h"
  by (cases h) auto

lemma values_root:
  "h \<noteq> [] \<Longrightarrow> entries_values (mset h) =
     add_mset (fst (h ! 0)) (mset (snd (snd (h ! 0)))) + entries_values (mset (tl h))"
  by (cases h) auto

lemma heapreplace_content:
  "heapreplace lt h s = Inr (r, h') \<Longrightarrow> mset h' = add_mset s (mset (tl h)) \<and> h \<noteq> []"
  by (cases h) (auto simp: heapreplace_def)

lemma heappop_content: "heappop lt h = Inr (r, h') \<Longrightarrow> mset h' = mset (tl h) \<and> h \<noteq> []"
  using heappop_mset heappop_root root_in_heap
  by (metis add_mset_add_single add_right_cancel heappop_Inl_iff sum.distinct(1))

function merge_loop :: "'a::linorder entry list \<Rightarrow> 'a list" where
  "merge_loop h =
     (if length h > 1 then
        case h ! 0 of (v, itnum, rest) \<Rightarrow>
          v # (case rest of
                 y # ys \<Rightarrow> (case heapreplace entry_lt h (y, itnum, ys) of
                             Inl e \<Rightarrow> [] | Inr (_, h') \<Rightarrow> merge_loop h')
               | [] \<Rightarrow> (case heappop entry_lt h of Inl e \<Rightarrow> [] | Inr (_, h') \<Rightarrow> merge_loop h'))
      else case h of [] \<Rightarrow> [] | (v, itnum, rest) # _ \<Rightarrow> v # rest)"
  by pat_completeness auto
termination
  by (relation "measure (\<lambda>h. size (entries_values (mset h)))")
    (auto dest!: heapreplace_content heappop_content simp: values_root,
      metis length_Cons lessI size_mset snd_conv)

declare merge_loop.simps [simp del]

definition merge :: "'a::linorder list list \<Rightarrow> 'a list" where
  "merge iterables = merge_loop (heapify entry_lt (merge_entries 0 iterables))"

interpretation entry_order: weak_order "entry_lt :: 'a::linorder entry \<Rightarrow> _"
  by unfold_locales (auto simp: entry_lt_def)

lemma entries_values_merge_entries:
  "entries_values (mset (merge_entries i its)) = mset (concat its)"
  by (induction i its rule: merge_entries.induct) auto

definition entries_sorted :: "'a::linorder entry list \<Rightarrow> bool" where
  "entries_sorted h \<longleftrightarrow> (\<forall>(v, itnum, rest) \<in> set h. sorted (v # rest))"

lemma entries_sorted_merge_entries:
  "\<forall>it\<in>set its. sorted it \<Longrightarrow> entries_sorted (merge_entries i its)"
  by (induction i its rule: merge_entries.induct) (auto simp: entries_sorted_def)

lemma in_entries_values:
  "x \<in># entries_values (mset h) \<longleftrightarrow> (\<exists>r\<in>set h. x = fst r \<or> x \<in> set (snd (snd r)))"
  by (induction h) auto

lemma root_value_least:
  assumes "is_heap entry_lt h" "entries_sorted h" "x \<in># entries_values (mset h)"
  shows "fst (h ! 0) \<le> x"
proof -
  obtain v i rest where r: "(v, i, rest) \<in> set h" "x = v \<or> x \<in> set rest"
    using assms(3) by (auto simp: in_entries_values)
  then have "v \<le> x" using assms(2) by (auto simp: entries_sorted_def)
  moreover have "fst (h ! 0) \<le> v"
    using entry_order.root_minimal [OF assms(1) r(1)] by (auto simp: entry_lt_def not_less)
  ultimately show ?thesis by simp
qed


text \<open>One round of the loop, with the two ways of restoring the heap.\<close>

lemma merge_loop_small: "length h \<le> 1 \<Longrightarrow> mset (merge_loop h) = entries_values (mset h)"
  by (subst merge_loop.simps) (auto split: list.splits)

lemma merge_loop_round:
  assumes "1 < length h" "is_heap entry_lt h" "entries_sorted h"
  obtains h' where "merge_loop h = fst (h ! 0) # merge_loop h'"
    "is_heap entry_lt h'" "entries_sorted h'"
    "entries_values (mset h) = add_mset (fst (h ! 0)) (entries_values (mset h'))"
proof -
  obtain v i rest where root: "h ! 0 = (v, i, rest)" using prod_cases3 by blast
  have ne: "h \<noteq> []" using assms(1) by auto
  then have in_h: "(v, i, rest) \<in> set h" using root by (metis length_greater_0_conv nth_mem)
  have tl_sorted: "entries_sorted (tl h)"
    using assms(3) by (cases h) (auto simp: entries_sorted_def)
  show thesis
  proof (cases rest)
    case Nil
    obtain r h' where pop: "heappop entry_lt h = Inr (r, h')"
      using ne heappop_Inl_iff [of entry_lt h] by (cases "heappop entry_lt h") auto
    have m: "mset h' = mset (tl h)" using heappop_content [OF pop] by simp
    show thesis
    proof (rule that [of h'])
      show "merge_loop h = fst (h ! 0) # merge_loop h'"
        using assms(1) root Nil pop by (subst merge_loop.simps) simp
      show "is_heap entry_lt h'" by (rule entry_order.heappop_heap [OF assms(2) pop])
      show "entries_sorted h'"
        using tl_sorted mset_eq_setD [OF m] by (simp add: entries_sorted_def)
      show "entries_values (mset h) = add_mset (fst (h ! 0)) (entries_values (mset h'))"
        using ne m root Nil by (simp add: values_root)
    qed
  next
    case (Cons y ys)
    obtain r h' where rep: "heapreplace entry_lt h (y, i, ys) = Inr (r, h')"
      using ne by (cases "heapreplace entry_lt h (y, i, ys)") (auto simp: heapreplace_def)
    have m: "mset h' = add_mset (y, i, ys) (mset (tl h))" using heapreplace_content [OF rep] by simp
    show thesis
    proof (rule that [of h'])
      show "merge_loop h = fst (h ! 0) # merge_loop h'"
        using assms(1) root Cons rep by (subst merge_loop.simps) simp
      show "is_heap entry_lt h'" by (rule entry_order.heapreplace_heap [OF assms(2) rep])
      have "sorted (y # ys)" using assms(3) in_h Cons by (auto simp: entries_sorted_def)
      moreover have "set h' = insert (y, i, ys) (set (tl h))"
        using m by (metis set_mset_add_mset_insert set_mset_mset)
      ultimately show "entries_sorted h'" using tl_sorted by (auto simp: entries_sorted_def)
      show "entries_values (mset h) = add_mset (fst (h ! 0)) (entries_values (mset h'))"
        using ne m root Cons by (simp add: values_root)
    qed
  qed
qed

lemma merge_loop_correct:
  "is_heap entry_lt h \<Longrightarrow> entries_sorted h \<Longrightarrow>
     mset (merge_loop h) = entries_values (mset h) \<and> sorted (merge_loop h)"
proof (induction "size (entries_values (mset h))" arbitrary: h rule: less_induct)
  case less
  show ?case
  proof (cases "1 < length h")
    case True
    from merge_loop_round [OF True less.prems] obtain h' where
      h': "merge_loop h = fst (h ! 0) # merge_loop h'" "is_heap entry_lt h'" "entries_sorted h'"
      "entries_values (mset h) = add_mset (fst (h ! 0)) (entries_values (mset h'))" .
    then have IH: "mset (merge_loop h') = entries_values (mset h')" "sorted (merge_loop h')"
      using less.hyps [of h'] by simp_all
    have "fst (h ! 0) \<le> x" if "x \<in> set (merge_loop h')" for x
    proof (rule root_value_least [OF less.prems])
      have "x \<in># entries_values (mset h')" using that IH(1) by (metis set_mset_mset)
      then show "x \<in># entries_values (mset h)" by (simp add: h'(4))
    qed
    with h' IH show ?thesis by simp
  next
    case False
    then have "sorted (merge_loop h)"
      using less.prems(2) by (subst merge_loop.simps) (auto simp: entries_sorted_def split: list.splits)
    with False merge_loop_small [of h] show ?thesis by simp
  qed
qed

section \<open>Properties\<close>

lemma nsmallest_take:
  "nsmallest_key key n sized xs = take (nat n) (sort_key key xs) \<and>
   nsmallest_plain n sized ys = take (nat n) (sort ys)"
proof
  show "nsmallest_key key n sized xs = take (nat n) (sort_key key xs)"
  proof (cases "n = 1 \<or> n < 0")
    case True
    then show ?thesis
      using take_one_sort [of xs key]
      by (auto simp: nsmallest_key_def nsmallest_base_def py_sort_key split: list.splits)
  next
    case False
    have "map (\<lambda>r. snd (snd r)) (nsmallest_base tuple_lt n (zip_key_count key 0 1 xs)) =
        take (nat n) (py_sort (by_key key) xs)"
      using False tuple_lt_total [of _ key 0 1 xs]
      by (simp add: tuple_order.nsmallest_base_take take_map [symmetric] sort_decorated)
    then show ?thesis using False by (simp add: nsmallest_key_def py_sort_key)
  qed
  show "nsmallest_plain n sized ys = take (nat n) (sort ys)"
  proof (cases "n = 1 \<or> n < 0")
    case True
    then show ?thesis
      using take_one_sort [of ys "\<lambda>x. x"]
      by (auto simp: nsmallest_plain_def nsmallest_base_def sort_eq_py_sort split: list.splits)
  next
    case False
    have "map fst (nsmallest_base (<) n (zip_count 0 1 ys)) = take (nat n) (py_sort (<) ys)"
    proof (subst lt_order.nsmallest_base_take)
      show "r < s \<or> s < r" if "r \<in> set (zip_count 0 1 ys)" "s \<in> set (zip_count 0 1 ys)"
        "r \<noteq> s" for r s using that(3) by auto
    qed (use False in \<open>auto simp: take_map [symmetric] sort_plain\<close>)
    then show ?thesis using False by (simp add: nsmallest_plain_def sort_eq_py_sort)
  qed
qed

text \<open>C36: \<open>nsmallest\<close>, with and without a key, for a list or an iterator and for every \<open>n\<close> that is not
  negative, is the first \<open>n\<close> items of the stable sort, as its docstring promises. For a negative \<open>n\<close> it is
  empty, where \<open>sorted(iterable)[:n]\<close> of the docstring has all items but the last \<open>-n\<close>.\<close>

theorem nsmallest_is_sorted_prefix:
  "if n < 0 then nsmallest_key key n sized xs = [] \<and> nsmallest_plain n sized ys = []
   else nsmallest_key key n sized xs = take (nat n) (sort_key key xs) \<and> nsmallest_plain n sized ys = take (nat n) (sort ys)"
  using nsmallest_take [of key n sized xs ys] by simp

text \<open>\<open>nlargest\<close> is the first \<open>n\<close> items of \<open>sorted(iterable, key=key, reverse=True)\<close>, the stable
  sort by descending key; without a key, of the reversed sorted list.\<close>

theorem nlargest_is_sorted_prefix:
  "nlargest_key key n sized xs = take (nat n) (py_sort (\<lambda>a b. key b < key a) xs) \<and>
   nlargest_plain n sized ys = take (nat n) (rev (sort ys))"
proof
  show "nlargest_key key n sized xs = take (nat n) (py_sort (\<lambda>a b. key b < key a) xs)"
  proof (cases "n = 1 \<or> n < 0")
    case True
    then show ?thesis
      using take_one_sort_desc [of xs key]
      by (auto simp: nlargest_key_def nlargest_base_def split: list.splits)
  next
    case False
    have "map (\<lambda>r. snd (snd r)) (nlargest_base tuple_lt n (zip_key_count key 0 (-1) xs)) =
        take (nat n) (py_sort (\<lambda>a b. key b < key a) xs)"
    proof (subst nlargest_base_flip, subst tuple_order.flip.nsmallest_base_take)
      show "tuple_lt s r \<or> tuple_lt r s" if "r \<in> set (zip_key_count key 0 (-1) xs)"
        "s \<in> set (zip_key_count key 0 (-1) xs)" "r \<noteq> s" for r s
        using tuple_lt_total [OF that] by auto
    qed (use False in \<open>auto simp: take_map [symmetric] sort_decorated_desc\<close>)
    then show ?thesis using False by (simp add: nlargest_key_def)
  qed
  show "nlargest_plain n sized ys = take (nat n) (rev (sort ys))"
  proof (cases "n = 1 \<or> n < 0")
    case True
    then show ?thesis
      using take_one_sort_desc [of ys "\<lambda>x. x"]
      by (auto simp: nlargest_plain_def nlargest_base_def py_sort_desc_plain [symmetric] split: list.splits)
  next
    case False
    have "map fst (nlargest_base (<) n (zip_count 0 (-1) ys)) = take (nat n) (py_sort (\<lambda>a b. b < a) ys)"
    proof (subst nlargest_base_flip, subst lt_order.flip.nsmallest_base_take)
      show "s < r \<or> r < s" if "r \<in> set (zip_count 0 (-1) ys)" "s \<in> set (zip_count 0 (-1) ys)"
        "r \<noteq> s" for r s using that(3) by auto
    qed (use False in \<open>auto simp: take_map [symmetric] sort_plain_desc\<close>)
    then show ?thesis using False by (simp add: nlargest_plain_def py_sort_desc_plain)
  qed
qed

text \<open>C37: \<open>merge\<close> of sorted inputs yields all their values, sorted, whatever their number and
  lengths.\<close>

theorem merge_sorts:
  assumes "\<forall>it\<in>set iterables. sorted it"
  shows "merge iterables = sort (concat iterables)"
proof (rule sorted_mset_unique)
  let ?h = "heapify entry_lt (merge_entries 0 iterables)"
  have "set ?h = set (merge_entries 0 iterables)" by (metis mset_heapify set_mset_mset)
  then have "entries_sorted ?h"
    using entries_sorted_merge_entries [OF assms, of 0] by (simp add: entries_sorted_def)
  from merge_loop_correct [OF entry_order.heapify_heap this] have
    "mset (merge_loop ?h) = mset (concat iterables)" "sorted (merge_loop ?h)"
    by (simp_all add: entries_values_merge_entries)
  then show "sorted (merge iterables)" "mset (merge iterables) = mset (concat iterables)"
    by (simp_all add: merge_def)
qed

theorem merge_sorts_witness:
  "merge [[1, 3, 5, 7], [0, 2, 4, 8], [5, 10], [], [25 :: int]] = [0, 1, 2, 3, 4, 5, 5, 7, 8, 10, 25]"
  using merge_sorts [of "[[1, 3, 5, 7], [0, 2, 4, 8], [5, 10], [], [25 :: int]]"] by simp

end
