(* ===== verification/Calendar.thy ===== *)
theory Calendar
  imports Prelude
begin

unbundle bit_operations_syntax

text \<open>
  The calendar functions of \<open>python-stdlib/datetime/datetime.py\<close>: \<open>_leap\<close>, \<open>_dim\<close>, \<open>_dbm\<close>,
  \<open>_o2ymd\<close> and \<open>_date\<close>, on Python integers, against a specification that knows only which day
  follows which (\<open>next_day\<close>). The table lookups are by months 1 to 12 in every call:
  \<open>_date\<close> checks the month first, and \<open>o2ymd_valid\<close> shows the month of \<open>_o2ymd\<close> is one.
\<close>

section \<open>The functions of the module\<close>

definition leap :: "int \<Rightarrow> bool" where
  "leap y \<longleftrightarrow> y mod 4 = 0 \<and> (y mod 100 \<noteq> 0 \<or> y mod 400 = 0)"

definition dim :: "int \<Rightarrow> int \<Rightarrow> int" where
  "dim y m =
     (if m = 2 \<and> leap y then 29
      else [0, 31, 28, 31, 30, 31, 30, 31, 31, 30, 31, 30, 31] ! nat m)"

definition dbm :: "int \<Rightarrow> int \<Rightarrow> int" where
  "dbm y m =
     [0, 0, 31, 59, 90, 120, 151, 181, 212, 243, 273, 304, 334] ! nat m +
     (if m > 2 \<and> leap y then 1 else 0)"

definition o2ymd :: "int \<Rightarrow> int \<times> int \<times> int" where
  "o2ymd ordinal =
     (let n = ordinal - 1;
          n400 = n div 146097; n = n mod 146097;
          y = n400 * 400 + 1;
          n100 = n div 36524; n = n mod 36524;
          n4 = n div 1461; n = n mod 1461;
          n1 = n div 365; n = n mod 365;
          y = y + (n100 * 100 + n4 * 4 + n1)
      in if n1 = 4 \<or> n100 = 4 then (y - 1, 12, 31)
         else let m = drop_bit 5 (n + 50);
                  prec = dbm y m;
                  (m, prec) = (if prec > n then (m - 1, prec - dim y (m - 1)) else (m, prec))
              in (y, m, n - prec + 1))"

definition MINYEAR :: int where "MINYEAR = 1"
definition MAXYEAR :: int where "MAXYEAR = 9999"

definition date_ordinal :: "int \<Rightarrow> int \<Rightarrow> int \<Rightarrow> int result" where
  "date_ordinal y m d =
     (if MINYEAR \<le> y \<and> y \<le> MAXYEAR \<and> 1 \<le> m \<and> m \<le> 12 \<and> 1 \<le> d \<and> d \<le> dim y m then
        let Y = y - 1;
            dby = Y * 365 + Y div 4 - Y div 100 + Y div 400
        in Inr (dby + dbm y m + d)
      else if y = 0 \<and> m = 0 \<and> 1 \<le> d \<and> d \<le> 3652059 then Inr d
      else Inl ValueError)"

lemma mod_Suc_int: "0 < k \<Longrightarrow> (x + 1) mod k = (if x mod k = k - 1 then 0 else x mod k + (1 :: int))"
proof -
  assume k: "0 < k"
  have x: "x + 1 = k * (x div k) + (x mod k + 1)" using mult_div_mod_eq [of k x] by simp
  show ?thesis
  proof (cases "x mod k = k - 1")
    case True
    then have "x + 1 = k * (x div k + 1)" using x by (simp add: algebra_simps)
    then show ?thesis using True by simp
  next
    case False
    then have "(x + 1) mod k = x mod k + 1"
      using k pos_mod_bound [OF k, of x] pos_mod_sign [OF k, of x]
      by (intro int_mod_pos_eq [OF x]) linarith+
    then show ?thesis using False by simp
  qed
qed

section \<open>The specification: which day follows which\<close>

definition valid_ymd :: "int \<times> int \<times> int \<Rightarrow> bool" where
  "valid_ymd t = (case t of (y, m, d) \<Rightarrow> 1 \<le> y \<and> 1 \<le> m \<and> m \<le> 12 \<and> 1 \<le> d \<and> d \<le> dim y m)"

definition next_day :: "int \<times> int \<times> int \<Rightarrow> int \<times> int \<times> int" where
  "next_day t = (case t of (y, m, d) \<Rightarrow>
     if d < dim y m then (y, m, d + 1)
     else if m < 12 then (y, m + 1, 1)
     else (y + 1, 1, 1))"

text \<open>The days before a year, and the ordinal of a date without \<open>_date\<close>'s range checks.\<close>

definition days_before_year :: "int \<Rightarrow> int" where
  "days_before_year y = (y - 1) * 365 + (y - 1) div 4 - (y - 1) div 100 + (y - 1) div 400"

definition ymd_ord :: "int \<times> int \<times> int \<Rightarrow> int" where
  "ymd_ord t = (case t of (y, m, d) \<Rightarrow> days_before_year y + dbm y m + d)"

lemma months: "1 \<le> m \<Longrightarrow> m \<le> 12 \<Longrightarrow>
    m = 1 \<or> m = 2 \<or> m = 3 \<or> m = 4 \<or> m = 5 \<or> m = 6 \<or> m = 7 \<or> m = 8 \<or> m = 9 \<or>
    m = 10 \<or> m = 11 \<or> m = (12 :: int)"
  by presburger

lemma dim_pos: "1 \<le> m \<Longrightarrow> m \<le> 12 \<Longrightarrow> 28 \<le> dim y m \<and> dim y m \<le> 31"
  using months [of m] by (auto simp: dim_def)

lemma dim_ge_1 [simp]: "1 \<le> m \<Longrightarrow> m \<le> 12 \<Longrightarrow> 1 \<le> dim y m"
  using dim_pos [of m y] by simp

lemma dbm_Suc: "1 \<le> m \<Longrightarrow> m < 12 \<Longrightarrow> dbm y (m + 1) = dbm y m + dim y m"
  using months [of m] by (auto simp: dim_def dbm_def)

lemma dbm_December: "dbm y 12 + dim y 12 = (if leap y then 366 else 365)" "dbm y 1 = 0"
  by (auto simp: dim_def dbm_def)

lemma div_mod_step:
  assumes "0 < (k :: int)"
  shows "y div k = (y - 1) div k + (if y mod k = 0 then 1 else 0)"
proof -
  define q r where "q = (y - 1) div k" and "r = (y - 1) mod k"
  have y: "y = k * q + (r + 1)" using mult_div_mod_eq [of k "y - 1"] by (simp add: q_def r_def)
  have r: "0 \<le> r" "r < k" using assms by (simp_all add: r_def)
  show ?thesis
  proof (cases "r + 1 = k")
    case True
    then have "y = k * (q + 1)" using y by (simp add: algebra_simps)
    then have "y div k = q + 1" "y mod k = 0" using assms by simp_all
    then show ?thesis by (simp add: q_def [symmetric])
  next
    case False
    then have "y div k = q" "y mod k = r + 1"
      using y r by (simp_all add: int_div_pos_eq int_mod_pos_eq)
    then show ?thesis using r by (simp add: q_def [symmetric])
  qed
qed

lemma days_before_year_Suc:
  "days_before_year (y + 1) = days_before_year y + (if leap y then 366 else 365)"
proof -
  note div_step = div_mod_step [of 4 y] div_mod_step [of 100 y] div_mod_step [of 400 y]
  have "y mod 400 mod 100 = y mod 100" "y mod 100 mod 4 = y mod 4" by (simp_all add: mod_mod_cancel)
  then have "y mod 400 = 0 \<longrightarrow> y mod 100 = 0" "y mod 100 = 0 \<longrightarrow> y mod 4 = 0" by auto
  then have "(if leap y then 366 else 365) =
      365 + (if y mod 4 = 0 then 1 else 0) - (if y mod 100 = 0 then 1 else 0) +
      (if y mod 400 = 0 then 1 else (0 :: int))"
    unfolding leap_def by (smt (verit))
  moreover have "y * 365 + y4 - y100 + y400 = (y - 1) * 365 + z4 - z100 + z400 + (365 + i4 - i100 + i400)"
    if "y4 = z4 + i4" "y100 = z100 + i100" "y400 = z400 + i400" for y4 z4 i4 y100 z100 i100 y400 z400 i400 :: int
    using that by simp
  from this [OF div_step] have "days_before_year (y + 1) =
      days_before_year y + (365 + (if y mod 4 = 0 then 1 else 0) - (if y mod 100 = 0 then 1 else 0) +
      (if y mod 400 = 0 then 1 else 0))"
    unfolding days_before_year_def by (simp only: add_diff_cancel_right')
  ultimately show ?thesis by (simp only:)
qed

lemma next_day_valid: "valid_ymd t \<Longrightarrow> valid_ymd (next_day t)"
  by (auto simp: valid_ymd_def next_day_def split: prod.splits)

lemma next_day_ord: "valid_ymd t \<Longrightarrow> ymd_ord (next_day t) = ymd_ord t + 1"
  by (auto simp: valid_ymd_def next_day_def ymd_ord_def dbm_Suc days_before_year_Suc dbm_December
      split: prod.splits)


section \<open>\<open>_o2ymd\<close> inverts the ordinal\<close>

text \<open>A year splits into 400-, 100-, 4- and 1-year parts; so do the days before it.\<close>

lemma year_parts:
  obtains a b c e where "y = 400 * a + 100 * b + 4 * c + e + (1 :: int)"
    "0 \<le> b" "b < 4" "0 \<le> c" "c < 25" "0 \<le> e" "e < 4"
    "days_before_year y = 146097 * a + 36524 * b + 1461 * c + 365 * e"
    "leap y \<longleftrightarrow> e = 3 \<and> (c \<noteq> 24 \<or> b = 3)"
proof -
  define Y where "Y = y - 1"
  define a where "a = Y div 400"
  define b where "b = Y mod 400 div 100"
  define c where "c = Y mod 100 div 4"
  define e where "e = Y mod 4"
  have bounds: "0 \<le> b" "b < 4" "0 \<le> c" "c < 25" "0 \<le> e" "e < 4"
    unfolding b_def c_def e_def
    using pos_mod_bound [of 400 Y] pos_mod_sign [of 400 Y] pos_mod_bound [of 100 Y] pos_mod_sign [of 100 Y]
    by linarith+
  have "Y mod 100 mod 4 = Y mod 4" "Y mod 400 mod 100 = Y mod 100" by (simp_all add: mod_mod_cancel)
  then have s: "Y mod 100 = 4 * c + e" and r: "Y mod 400 = 100 * b + Y mod 100"
    unfolding b_def c_def e_def
    by (metis mult_div_mod_eq)+
  have Y: "Y = 400 * a + 100 * b + 4 * c + e"
    using s r mult_div_mod_eq [of 400 Y] by (simp add: a_def)
  have divs: "Y div 400 = a" "Y div 100 = 4 * a + b" "Y div 4 = 100 * a + 25 * b + c"
    using Y bounds int_div_pos_eq [of Y 100 "4 * a + b" "4 * c + e"]
      int_div_pos_eq [of Y 4 "100 * a + 25 * b + c" e] by (simp_all add: a_def [symmetric])
  have Suc_mod: "(Y + 1) mod k = 0 \<longleftrightarrow> Y mod k = k - 1" if "1 < k" for k
  proof -
    have "0 \<le> Y mod k" using that by simp
    then show ?thesis using that mod_Suc_int [of k Y] by (smt (verit))
  qed
  have mods: "(Y + 1) mod 4 = 0 \<longleftrightarrow> e = 3" "(Y + 1) mod 100 = 0 \<longleftrightarrow> c = 24 \<and> e = 3"
    "(Y + 1) mod 400 = 0 \<longleftrightarrow> b = 3 \<and> c = 24 \<and> e = 3"
    using s r bounds by (auto simp: Suc_mod e_def)
  show thesis
  proof (rule that [of a b c e])
    show "y = 400 * a + 100 * b + 4 * c + e + 1" using Y by (simp add: Y_def)
    show "days_before_year y = 146097 * a + 36524 * b + 1461 * c + 365 * e"
      using divs Y by (simp add: days_before_year_def Y_def)
    show "leap y \<longleftrightarrow> e = 3 \<and> (c \<noteq> 24 \<or> b = 3)"
      using mods by (auto simp: leap_def Y_def)
  qed (use bounds in auto)
qed

text \<open>The month of a day of the year, as \<open>_o2ymd\<close> guesses and corrects it.\<close>

definition month_of :: "int \<Rightarrow> int \<Rightarrow> int \<times> int" where
  "month_of y n =
     (let m = drop_bit 5 (n + 50); prec = dbm y m
      in if prec > n then (m - 1, prec - dim y (m - 1)) else (m, prec))"

lemma div_32_eq: "32 * q \<le> x \<Longrightarrow> x < 32 * q + 32 \<Longrightarrow> x div 32 = (q :: int)"
  using int_div_pos_eq [of x 32 q "x - 32 * q"] by simp

lemma month_bounds:
  assumes "1 \<le> m" "m \<le> 12"
  shows "32 * m \<le> dbm y m + 50" "dbm y m + dim y m + 49 < 32 * m + 64"
    "m = 12 \<Longrightarrow> dbm y m + dim y m + 49 < 32 * m + 32"
  using months [OF assms] by (elim disjE; simp add: dbm_def dim_def)+

lemma year_day_range:
  assumes "1 \<le> m" "m \<le> 12"
  shows "0 \<le> dbm y m" "dbm y m + dim y m \<le> (if leap y then 366 else 365)"
    "m < 12 \<Longrightarrow> dbm y m + dim y m < (if leap y then 366 else 365)"
  using months [OF assms] by (elim disjE; simp add: dbm_def dim_def)+

lemma month_of_day:
  assumes "1 \<le> m" "m \<le> 12" "dbm y m \<le> n" "n < dbm y m + dim y m"
  shows "month_of y n = (m, dbm y m)"
proof -
  have "32 * m \<le> n + 50" "n + 50 < 32 * m + 64" "m = 12 \<Longrightarrow> n + 50 < 32 * m + 32"
    using month_bounds [OF assms(1,2), of y] assms(3,4) by linarith+
  then have "(n + 50) div 32 = m \<or> (n + 50) div 32 = m + 1 \<and> m < 12"
    using div_32_eq [of m "n + 50"] div_32_eq [of "m + 1" "n + 50"] assms(2) by linarith
  moreover have "month_of y n = (m, dbm y m)" if "(n + 50) div 32 = m"
    using that assms by (simp add: month_of_def drop_bit_eq_div Let_def)
  moreover have "month_of y n = (m, dbm y m)" if "(n + 50) div 32 = m + 1" "m < 12"
    using that assms dbm_Suc [of m y] by (simp add: month_of_def drop_bit_eq_div Let_def)
  ultimately show ?thesis by blast
qed


lemma o2ymd_stages:
  assumes "(ordinal - 1) div 146097 = a" "(ordinal - 1) mod 146097 = r400"
    "r400 div 36524 = b" "r400 mod 36524 = r100"
    "r100 div 1461 = c" "r100 mod 1461 = r4" "r4 div 365 = e" "r4 mod 365 = r1"
  shows "o2ymd ordinal =
     (let y = a * 400 + 1 + (b * 100 + c * 4 + e)
      in if e = 4 \<or> b = 4 then (y - 1, 12, 31)
         else case month_of y r1 of (m, prec) \<Rightarrow> (y, m, r1 - prec + 1))"
  by (simp add: o2ymd_def assms month_of_def Let_def)

lemma div_mod_stage:
  assumes "x = k * q + r" "0 \<le> r" "r < (k :: int)"
  shows "x div k = q" "x mod k = r"
  using assms by (simp_all add: int_div_pos_eq int_mod_pos_eq)

lemma o2ymd_ord:
  assumes "valid_ymd (y, m, d)"
  shows "o2ymd (ymd_ord (y, m, d)) = (y, m, d)"
proof -
  obtain a b c e where y: "y = 400 * a + 100 * b + 4 * c + e + 1"
    and parts: "0 \<le> b" "b < 4" "0 \<le> c" "c < 25" "0 \<le> e" "e < 4"
    and dby: "days_before_year y = 146097 * a + 36524 * b + 1461 * c + 365 * e"
    and leap: "leap y \<longleftrightarrow> e = 3 \<and> (c \<noteq> 24 \<or> b = 3)"
    using year_parts by metis
  define t where "t = dbm y m + d - 1"
  have m: "1 \<le> m" "m \<le> 12" and d: "1 \<le> d" "d \<le> dim y m"
    using assms by (auto simp: valid_ymd_def)
  have t: "0 \<le> t" "t < (if leap y then 366 else 365)"
    using year_day_range [OF m, of y] d by (auto simp: t_def)
  have month: "month_of y t = (m, dbm y m)"
    by (rule month_of_day [OF m]) (use d in \<open>auto simp: t_def\<close>)
  define r4 where "r4 = 365 * e + t"
  define r100 where "r100 = 1461 * c + r4"
  define r400 where "r400 = 36524 * b + r100"
  have n: "ymd_ord (y, m, d) - 1 = 146097 * a + r400"
    by (simp add: r400_def r100_def r4_def ymd_ord_def dby t_def)
  have r4: "0 \<le> r4" "r4 < 1461" using parts t leap by (auto simp: r4_def split: if_splits)
  have r400: "0 \<le> r400" "r400 < 146097"
    using parts t leap by (auto simp: r400_def r100_def r4_def split: if_splits)
  show ?thesis
  proof (cases "t = 365")
    case False
    then have "t < 365" using t by (auto split: if_splits)
    then have "r100 < 36524" "0 \<le> r100" using parts t by (auto simp: r100_def r4_def)
    then have "o2ymd (ymd_ord (y, m, d)) = (let y = a * 400 + 1 + (b * 100 + c * 4 + e)
        in if e = 4 \<or> b = 4 then (y - 1, 12, 31)
           else case month_of y t of (m, prec) \<Rightarrow> (y, m, t - prec + 1))"
      using r4 r400 \<open>t < 365\<close> t(1)
      by (intro o2ymd_stages [of _ a r400 b r100 c r4 e t] div_mod_stage [OF n]
          div_mod_stage [OF r400_def] div_mod_stage [OF r100_def] div_mod_stage [OF r4_def]) auto
    moreover have "a * 400 + 1 + (b * 100 + c * 4 + e) = y" by (simp add: y)
    ultimately show ?thesis using parts month by (simp add: t_def)
  next
    case True
    then have ly: "leap y" and e: "e = 3" using t leap by (auto split: if_splits)
    have "\<not> m < 12" using True year_day_range(3) [OF m, of y] ly d by (auto simp: t_def)
    with m(2) have "m = 12" by simp
    then have d31: "d = 31" using True ly by (simp add: t_def dbm_def)
    show ?thesis
    proof (cases "c = 24")
      case c: True
      then have b: "b = 3" using ly leap by simp
      have "r400 = 36524 * 4 + 0" by (simp add: r400_def r100_def r4_def True e c b)
      then have "o2ymd (ymd_ord (y, m, d)) = (let y = a * 400 + 1 + (4 * 100 + 0 * 4 + 0)
          in if (0 :: int) = 4 \<or> (4 :: int) = 4 then (y - 1, 12, 31)
             else case month_of y 0 of (m, prec) \<Rightarrow> (y, m, 0 - prec + 1))"
        using r400 by (intro o2ymd_stages [of _ a r400 4 0 0 0 0 0] div_mod_stage [OF n]) auto
      then show ?thesis using \<open>m = 12\<close> d31 y e c b by simp
    next
      case c: False
      then have "r100 < 36524" "0 \<le> r100" using parts r4 by (auto simp: r100_def)
      moreover have "r4 = 365 * 4 + 0" by (simp add: r4_def True e)
      ultimately have "o2ymd (ymd_ord (y, m, d)) = (let y = a * 400 + 1 + (b * 100 + c * 4 + 4)
          in if (4 :: int) = 4 \<or> b = 4 then (y - 1, 12, 31)
             else case month_of y 0 of (m, prec) \<Rightarrow> (y, m, 0 - prec + 1))"
        using r4 r400
        by (intro o2ymd_stages [of _ a r400 b r100 c r4 4 0] div_mod_stage [OF n]
            div_mod_stage [OF r400_def] div_mod_stage [OF r100_def]) auto
      then show ?thesis using \<open>m = 12\<close> d31 y e by simp
    qed
  qed
qed

section \<open>Counting days\<close>

text \<open>The date \<open>k\<close> days after 0001-01-01.\<close>

abbreviation day_number :: "nat \<Rightarrow> int \<times> int \<times> int" where
  "day_number k \<equiv> (next_day ^^ k) (1, 1, 1)"

lemma day_number_ord: "valid_ymd (day_number k) \<and> ymd_ord (day_number k) = int k + 1"
proof (induction k)
  case 0
  show ?case by (simp add: valid_ymd_def ymd_ord_def dim_def dbm_def days_before_year_def)
next
  case (Suc k)
  then show ?case using next_day_valid next_day_ord by simp
qed

lemma o2ymd_day_number: "1 \<le> n \<Longrightarrow> o2ymd n = day_number (nat (n - 1))"
proof -
  assume "1 \<le> n"
  then have "valid_ymd (day_number (nat (n - 1)))" "ymd_ord (day_number (nat (n - 1))) = n"
    using day_number_ord [of "nat (n - 1)"] by auto
  then show ?thesis by (metis o2ymd_ord prod_cases3)
qed

lemma o2ymd_valid: "1 \<le> n \<Longrightarrow> valid_ymd (o2ymd n) \<and> ymd_ord (o2ymd n) = n"
  using o2ymd_day_number [of n] day_number_ord [of "nat (n - 1)"] by simp

lemma ymd_ord_pos: "valid_ymd t \<Longrightarrow> 1 \<le> ymd_ord t"
proof -
  assume "valid_ymd t"
  then obtain y m d where t: "t = (y, m, d)" "1 \<le> y" "1 \<le> m" "m \<le> 12" "1 \<le> d"
    by (cases t) (auto simp: valid_ymd_def)
  obtain a b c e where "y = 400 * a + 100 * b + 4 * c + e + 1"
    "0 \<le> b" "b < 4" "0 \<le> c" "c < 25" "0 \<le> e" "e < 4"
    "days_before_year y = 146097 * a + 36524 * b + 1461 * c + 365 * e"
    using year_parts by metis
  moreover from this have "0 \<le> a" using t(2) by linarith
  ultimately have "0 \<le> days_before_year y" by linarith
  then show ?thesis using t year_day_range(1) [OF t(3,4), of y] by (simp add: ymd_ord_def)
qed


lemma days_before_year_mono: "y \<le> z \<Longrightarrow> days_before_year y \<le> days_before_year z"
proof (induction z rule: int_ge_induct)
  case (step z)
  then show ?case using days_before_year_Suc [of z] by (simp split: if_splits)
qed simp

lemma days_before_10000: "days_before_year 10000 = 3652059"
  by (simp add: days_before_year_def)

lemma year_le_MAXYEAR_iff:
  assumes "valid_ymd (y, m, d)"
  shows "y \<le> MAXYEAR \<longleftrightarrow> ymd_ord (y, m, d) \<le> 3652059"
proof -
  have m: "1 \<le> m" "m \<le> 12" and d: "1 \<le> d" "d \<le> dim y m"
    using assms by (auto simp: valid_ymd_def)
  have ord: "days_before_year y < ymd_ord (y, m, d)" "ymd_ord (y, m, d) \<le> days_before_year (y + 1)"
    using year_day_range(1,2) [OF m, of y] d
    by (auto simp: ymd_ord_def days_before_year_Suc split: if_splits)
  show ?thesis
  proof (cases "y \<le> 9999")
    case True
    then have "days_before_year (y + 1) \<le> 3652059"
      using days_before_year_mono [of "y + 1" 10000] days_before_10000 by simp
    with ord True show ?thesis by (simp add: MAXYEAR_def)
  next
    case False
    then have "3652059 \<le> days_before_year y"
      using days_before_year_mono [of 10000 y] days_before_10000 by simp
    with ord False show ?thesis by (simp add: MAXYEAR_def)
  qed
qed

lemma date_ordinal_valid:
  "valid_ymd (y, m, d) \<Longrightarrow> y \<le> MAXYEAR \<Longrightarrow> date_ordinal y m d = Inr (ymd_ord (y, m, d))"
  by (simp add: date_ordinal_def valid_ymd_def MINYEAR_def ymd_ord_def days_before_year_def Let_def)

lemma date_ordinal_cases:
  "date_ordinal y m d =
     (if valid_ymd (y, m, d) \<and> y \<le> MAXYEAR then Inr (ymd_ord (y, m, d))
      else if y = 0 \<and> m = 0 \<and> 1 \<le> d \<and> d \<le> 3652059 then Inr d else Inl ValueError)"
  by (simp add: date_ordinal_def valid_ymd_def MINYEAR_def ymd_ord_def days_before_year_def Let_def)

lemma date_ordinal_range: "date_ordinal y m d = Inr n \<Longrightarrow> 1 \<le> n \<and> n \<le> 3652059"
  using year_le_MAXYEAR_iff [of y m d] ymd_ord_pos [of "(y, m, d)"]
  by (auto simp: date_ordinal_cases split: if_splits)

lemma date_ordinal_of_ordinal: "date_ordinal 0 0 n = (if 1 \<le> n \<and> n \<le> 3652059 then Inr n else Inl ValueError)"
  by (simp add: date_ordinal_cases valid_ymd_def)

lemma date_ordinal_o2ymd:
  assumes "1 \<le> n" "n \<le> 3652059" "o2ymd n = (y, m, d)"
  shows "date_ordinal y m d = Inr n"
  using o2ymd_valid [OF assms(1)] year_le_MAXYEAR_iff [of y m d] assms(2,3)
  by (simp add: date_ordinal_valid)

section \<open>Properties\<close>

text \<open>C15: \<open>_o2ymd(n)\<close> is the date reached from 0001-01-01 by moving \<open>n - 1\<close> times to the next day
  of the Gregorian calendar, for every positive ordinal, without an upper limit.\<close>

theorem o2ymd_counts_days:
  assumes "1 \<le> n"
  shows "o2ymd n = (next_day ^^ nat (n - 1)) (1, 1, 1)"
  by (rule o2ymd_day_number) (rule assms)

theorem o2ymd_counts_days_witness: "o2ymd 5 = (1, 1, 5) \<and> o2ymd 60 = (next_day ^^ 59) (1, 1, 1)"
  using o2ymd_counts_days [of 5] o2ymd_counts_days [of 60]
  by (simp add: next_day_def dim_def numeral_eq_Suc)

text \<open>C18: \<open>_date(y, m, d)\<close> returns \<open>n\<close> exactly for the ordinals 1 to 3652059, when \<open>_o2ymd(n)\<close> is
  that date or when the arguments are the escape \<open>(0, 0, n)\<close>; everything else is a ValueError.\<close>

theorem date_ordinal_roundtrip:
  "(date_ordinal y m d = Inr n \<longleftrightarrow>
      1 \<le> n \<and> n \<le> 3652059 \<and> (o2ymd n = (y, m, d) \<or> (y, m, d) = (0, 0, n))) \<and>
   (date_ordinal y m d = Inl ValueError \<or> (\<exists>k. date_ordinal y m d = Inr k))"
proof (intro conjI iffI)
  assume n: "date_ordinal y m d = Inr n"
  show "1 \<le> n" "n \<le> 3652059" using date_ordinal_range [OF n] by auto
  show "o2ymd n = (y, m, d) \<or> (y, m, d) = (0, 0, n)"
    using n o2ymd_ord [of y m d] by (auto simp: date_ordinal_cases split: if_splits)
next
  assume "1 \<le> n \<and> n \<le> 3652059 \<and> (o2ymd n = (y, m, d) \<or> (y, m, d) = (0, 0, n))"
  then show "date_ordinal y m d = Inr n"
    using date_ordinal_o2ymd [of n y m d] date_ordinal_of_ordinal [of n] by auto
next
  show "date_ordinal y m d = Inl ValueError \<or> (\<exists>k. date_ordinal y m d = Inr k)"
    by (simp add: date_ordinal_cases)
qed

end
