(* ===== verification/Pytext.thy ===== *)
theory Pytext
  imports Prelude
begin

text \<open>
  Python's conversions between integers and text, as the modelled modules use them:
  \<open>str(n)\<close>, \<open>f"{n:0wd}"\<close> and \<open>int(s)\<close>. A Python string is a list of characters.
\<close>

section \<open>Integers to text\<close>

definition digit_char :: "nat \<Rightarrow> char" where
  "digit_char d = char_of (48 + d)"

fun nat_str :: "nat \<Rightarrow> string" where
  "nat_str n = (if n < 10 then [digit_char n] else nat_str (n div 10) @ [digit_char (n mod 10)])"

declare nat_str.simps [simp del]

definition int_str :: "int \<Rightarrow> string" where
  "int_str i = (if i < 0 then CHR ''-'' # nat_str (nat (- i)) else nat_str (nat i))"

definition zeros_to :: "nat \<Rightarrow> string \<Rightarrow> string" where
  "zeros_to w s = replicate (w - length s) (CHR ''0'') @ s"

text \<open>\<open>f"{n:0wd}"\<close>: the sign counts in the width and stands before the zeros.\<close>

definition fmt_pad :: "nat \<Rightarrow> int \<Rightarrow> string" where
  "fmt_pad w i =
     (if i < 0 then CHR ''-'' # zeros_to (w - 1) (nat_str (nat (- i))) else zeros_to w (nat_str (nat i)))"

section \<open>Text to integers\<close>

text \<open>
  \<open>int(s)\<close> in base 10: white space around, an optional sign, decimal digits with single
  underscores between them; anything else is a ValueError.
\<close>

definition is_digit :: "char \<Rightarrow> bool" where
  "is_digit c \<longleftrightarrow> 48 \<le> (of_char c :: nat) \<and> (of_char c :: nat) \<le> 57"

definition digit_val :: "char \<Rightarrow> nat" where
  "digit_val c = of_char c - 48"

definition is_space :: "char \<Rightarrow> bool" where
  "is_space c \<longleftrightarrow> (of_char c :: nat) \<in> {9, 10, 11, 12, 13, 32}"

definition strip :: "string \<Rightarrow> string" where
  "strip s = rev (dropWhile is_space (rev (dropWhile is_space s)))"

fun int_digits :: "nat \<Rightarrow> string \<Rightarrow> nat option" where
  "int_digits acc [] = Some acc"
| "int_digits acc (c # cs) =
     (if is_digit c then int_digits (10 * acc + digit_val c) cs
      else if c = CHR ''_''
      then (case cs of [] \<Rightarrow> None | d # _ \<Rightarrow> if is_digit d then int_digits acc cs else None)
      else None)"

definition int_body :: "string \<Rightarrow> int result" where
  "int_body s =
     (case s of [] \<Rightarrow> Inl ValueError
      | c # _ \<Rightarrow> if is_digit c
          then (case int_digits 0 s of None \<Rightarrow> Inl ValueError | Some n \<Rightarrow> Inr (int n))
          else Inl ValueError)"

definition py_int :: "string \<Rightarrow> int result" where
  "py_int str =
     (case strip str of [] \<Rightarrow> Inl ValueError
      | c # cs \<Rightarrow>
          if c = CHR ''-'' then rbind (int_body cs) (\<lambda>n. Inr (- n))
          else if c = CHR ''+'' then int_body cs
          else int_body (c # cs))"

section \<open>Reading back what was written\<close>

lemma of_char_digit [simp]: "d < 10 \<Longrightarrow> (of_char (digit_char d) :: nat) = 48 + d"
  by (simp add: digit_char_def)

lemma digit_char_props [simp]:
  assumes "d < 10"
  shows "is_digit (digit_char d)" "digit_val (digit_char d) = d" "\<not> is_space (digit_char d)"
    "digit_char d \<noteq> CHR ''-''" "digit_char d \<noteq> CHR ''+''" "digit_char d \<noteq> CHR '':''"
    "digit_char d \<noteq> CHR ''.''"
  using assms by (auto simp: is_digit_def digit_val_def is_space_def dest: arg_cong [where f = "of_char :: char \<Rightarrow> nat"])

lemma digit_char_0: "CHR ''0'' = digit_char 0"
  by code_simp

definition all_digits :: "string \<Rightarrow> bool" where
  "all_digits s \<longleftrightarrow> s \<noteq> [] \<and> (\<forall>c\<in>set s. is_digit c)"

lemma all_digits_nat_str: "all_digits (nat_str n)"
proof (induction n rule: nat_str.induct)
  case (1 n)
  show ?case
    using 1 by (subst nat_str.simps) (auto simp: all_digits_def)
qed

lemma all_digits_zeros_to: "all_digits s \<Longrightarrow> all_digits (zeros_to w s)"
  using digit_char_props(1) [of 0] by (auto simp: all_digits_def zeros_to_def digit_char_0)

lemma int_digits_all: "\<forall>c\<in>set s. is_digit c \<Longrightarrow>
    int_digits acc s = Some (foldl (\<lambda>a c. 10 * a + digit_val c) acc s)"
  by (induction s arbitrary: acc) auto

lemma is_digit_no_space: "is_digit c \<Longrightarrow> \<not> is_space c \<and> c \<noteq> CHR ''-'' \<and> c \<noteq> CHR ''+''"
  by (auto simp: is_digit_def is_space_def)

lemma strip_all_digits: "all_digits s \<Longrightarrow> strip s = s"
proof -
  assume s: "all_digits s"
  then have "dropWhile is_space s = s" "dropWhile is_space (rev s) = rev s"
    using is_digit_no_space
    by (cases s, auto simp: all_digits_def) (cases "rev s"; force simp: all_digits_def)
  then show ?thesis by (simp add: strip_def)
qed

lemma py_int_digits: "all_digits s \<Longrightarrow> py_int s = Inr (int (foldl (\<lambda>a c. 10 * a + digit_val c) 0 s))"
  using is_digit_no_space by (cases s) (auto simp: py_int_def strip_all_digits all_digits_def int_body_def int_digits_all)

lemma value_nat_str: "foldl (\<lambda>a c. 10 * a + digit_val c) 0 (nat_str n) = n"
proof (induction n rule: nat_str.induct)
  case (1 n)
  show ?case
    using 1 by (subst nat_str.simps) auto
qed

lemma value_zeros_to:
  "foldl (\<lambda>a c. 10 * a + digit_val c) 0 (zeros_to w s) = foldl (\<lambda>a c. 10 * a + digit_val c) 0 s"
proof -
  have "foldl (\<lambda>a c. 10 * a + digit_val c) 0 (replicate k (CHR ''0'')) = 0" for k
    by (induction k) (simp_all add: digit_val_def)
  then show ?thesis by (simp add: zeros_to_def)
qed

lemma py_int_fmt_pad: "0 \<le> i \<Longrightarrow> py_int (fmt_pad w i) = Inr i"
  by (simp add: fmt_pad_def py_int_digits all_digits_zeros_to all_digits_nat_str value_zeros_to value_nat_str)

lemma py_int_int_str: "py_int (int_str i) = Inr i"
proof (cases "i < 0")
  case True
  have s: "all_digits (nat_str (nat (- i)))" by (rule all_digits_nat_str)
  then have "strip (CHR ''-'' # nat_str (nat (- i))) = CHR ''-'' # nat_str (nat (- i))"
    using is_digit_no_space
    by (cases "rev (nat_str (nat (- i)))") (auto simp: strip_def all_digits_def is_space_def dropWhile_append)
  moreover have "int_body (nat_str (nat (- i))) = Inr (- i)"
    using s True value_nat_str [of "nat (- i)"]
    by (cases "nat_str (nat (- i))") (auto simp: int_body_def all_digits_def int_digits_all)
  ultimately show ?thesis using True by (simp add: int_str_def py_int_def)
next
  case False
  then show ?thesis by (simp add: int_str_def py_int_digits all_digits_nat_str value_nat_str)
qed

lemma length_nat_str_le: "n < 10 ^ k \<Longrightarrow> 0 < k \<Longrightarrow> length (nat_str n) \<le> k"
proof (induction k arbitrary: n)
  case (Suc k)
  then show ?case
  proof (cases "n < 10")
    case True
    then show ?thesis by (subst nat_str.simps) simp
  next
    case False
    then have "n div 10 < 10 ^ k" "0 < k" using Suc.prems by (auto intro: gr0I)
    then have "length (nat_str (n div 10)) \<le> k" by (rule Suc.IH)
    with False show ?thesis by (subst nat_str.simps) simp
  qed
qed simp

lemma length_fmt_pad: "0 \<le> i \<Longrightarrow> i < 10 ^ w \<Longrightarrow> 0 < w \<Longrightarrow> length (fmt_pad w i) = w"
  using length_nat_str_le [of "nat i" w] by (simp add: fmt_pad_def zeros_to_def nat_less_iff)

lemma all_digits_fmt_pad: "0 \<le> i \<Longrightarrow> all_digits (fmt_pad w i)"
  by (simp add: fmt_pad_def all_digits_zeros_to all_digits_nat_str)

end
