(* ===== verification/Timedelta.thy ===== *)
theory Timedelta
  imports Pytext
begin

unbundle bit_operations_syntax

text \<open>
  The classes \<open>timedelta\<close> and \<open>timezone\<close> of \<open>python-stdlib/datetime/datetime.py\<close>. A timedelta is
  its field \<open>_us\<close>, an unbounded number of microseconds; arguments are integers, on which
  \<open>round\<close> is the identity. The two operations that return a float (\<open>total_seconds\<close> and the
  true division) are not modelled.
\<close>

section \<open>\<open>timedelta\<close>\<close>

record timedelta =
  us_of :: int

definition td_new :: "int \<Rightarrow> int \<Rightarrow> int \<Rightarrow> int \<Rightarrow> int \<Rightarrow> int \<Rightarrow> int \<Rightarrow> timedelta" where
  "td_new days seconds microseconds milliseconds minutes hours weeks =
     (let s = (((weeks * 7 + days) * 24 + hours) * 60 + minutes) * 60 + seconds
      in \<lparr>us_of = (s * 1000 + milliseconds) * 1000 + microseconds\<rparr>)"

abbreviation td_us :: "int \<Rightarrow> timedelta" where
  "td_us us \<equiv> td_new 0 0 us 0 0 0 0"

text \<open>\<open>_tuple(n)\<close>, for the three lengths it is called with.\<close>

definition td_tuple1 :: "timedelta \<Rightarrow> int" where
  "td_tuple1 td = us_of td div 86400000000"

definition td_tuple3 :: "timedelta \<Rightarrow> int \<times> int \<times> int" where
  "td_tuple3 td =
     (let d = us_of td div 86400000000; us = us_of td mod 86400000000;
          s = us div 1000000; us = us mod 1000000
      in (d, s, us))"

definition td_tuple5 :: "timedelta \<Rightarrow> int \<times> int \<times> int \<times> int \<times> int" where
  "td_tuple5 td =
     (let d = us_of td div 86400000000; us = us_of td mod 86400000000;
          s = us div 1000000; us = us mod 1000000;
          h = s div 3600; s = s mod 3600;
          m = s div 60; s = s mod 60
      in (d, h, m, s, us))"

definition td_days :: "timedelta \<Rightarrow> int" where
  "td_days td = td_tuple1 td"

definition td_seconds :: "timedelta \<Rightarrow> int" where
  "td_seconds td = fst (snd (td_tuple3 td))"

definition td_microseconds :: "timedelta \<Rightarrow> int" where
  "td_microseconds td = snd (snd (td_tuple3 td))"

definition td_add :: "timedelta \<Rightarrow> timedelta \<Rightarrow> timedelta" where
  "td_add a b = td_us (us_of a + us_of b)"

definition td_sub :: "timedelta \<Rightarrow> timedelta \<Rightarrow> timedelta" where
  "td_sub a b = td_us (us_of a - us_of b)"

definition td_neg :: "timedelta \<Rightarrow> timedelta" where
  "td_neg a = td_us (- us_of a)"

definition td_pos :: "timedelta \<Rightarrow> timedelta" where
  "td_pos a = a"

definition td_abs :: "timedelta \<Rightarrow> timedelta" where
  "td_abs a = (if us_of a < 0 then td_neg a else a)"

definition td_mul :: "timedelta \<Rightarrow> int \<Rightarrow> timedelta" where
  "td_mul a k = td_us (k * us_of a)"

definition td_floordiv :: "timedelta \<Rightarrow> timedelta \<Rightarrow> int result" where
  "td_floordiv a b = (if us_of b = 0 then Inl ZeroDivisionError else Inr (us_of a div us_of b))"

definition td_floordiv_int :: "timedelta \<Rightarrow> int \<Rightarrow> timedelta result" where
  "td_floordiv_int a k = (if k = 0 then Inl ZeroDivisionError else Inr (td_us (us_of a div k)))"

definition td_mod :: "timedelta \<Rightarrow> timedelta \<Rightarrow> timedelta result" where
  "td_mod a b = (if us_of b = 0 then Inl ZeroDivisionError else Inr (td_us (us_of a mod us_of b)))"

definition td_divmod :: "timedelta \<Rightarrow> timedelta \<Rightarrow> (int \<times> timedelta) result" where
  "td_divmod a b =
     (if us_of b = 0 then Inl ZeroDivisionError
      else let q = us_of a div us_of b; r = us_of a mod us_of b in Inr (q, td_us r))"

definition td_eq :: "timedelta \<Rightarrow> timedelta \<Rightarrow> bool" where
  "td_eq a b \<longleftrightarrow> us_of a = us_of b"

definition td_le :: "timedelta \<Rightarrow> timedelta \<Rightarrow> bool" where
  "td_le a b \<longleftrightarrow> us_of a \<le> us_of b"

definition td_lt :: "timedelta \<Rightarrow> timedelta \<Rightarrow> bool" where
  "td_lt a b \<longleftrightarrow> us_of a < us_of b"

definition td_ge :: "timedelta \<Rightarrow> timedelta \<Rightarrow> bool" where
  "td_ge a b \<longleftrightarrow> us_of a \<ge> us_of b"

definition td_gt :: "timedelta \<Rightarrow> timedelta \<Rightarrow> bool" where
  "td_gt a b \<longleftrightarrow> us_of a > us_of b"

definition td_bool :: "timedelta \<Rightarrow> bool" where
  "td_bool a \<longleftrightarrow> us_of a \<noteq> 0"

text \<open>
  \<open>_fmt(spec)\<close>: the low bits of \<open>spec\<close> choose how many fields are printed at least, 0x40 the
  hour without padding, 0x20 the prefix UTC (and 0x10), 0x10 a sign in any case.
\<close>

definition td_fmt :: "int \<Rightarrow> timedelta \<Rightarrow> string" where
  "td_fmt spec self =
     (let (td, g) = (if us_of self \<ge> 0 then (self, []) else (td_neg self, ''-''));
          (d, h, m, s, us) = td_tuple5 td;
          ms = us div 1000; us = us mod 1000;
          r = [];
          (spec, hr) = (if spec AND 0x40 \<noteq> 0 then (spec AND NOT 0x40, int_str h)
                        else (spec, fmt_pad 2 h));
          (spec, r) = (if spec AND 0x20 \<noteq> 0 then ((spec AND NOT 0x20) OR 0x10, r @ ''UTC'')
                       else (spec, r));
          (spec, g) = (if spec AND 0x10 \<noteq> 0 then (spec AND NOT 0x10, if g = [] then ''+'' else g)
                       else (spec, g));
          (r, g) = (if d \<noteq> 0
                    then (r @ g @ int_str d @ '' day'' @ (if d > 1 then ''s'' else []) @ '', '', [])
                    else (r, g));
          spec = (if spec = 0 then (if ms \<noteq> 0 \<or> us \<noteq> 0 then 5 else 3) else spec)
      in if spec \<ge> 1 \<or> h \<noteq> 0 then
           let r = r @ g @ hr in
           if spec \<ge> 2 \<or> m \<noteq> 0 then
             let r = r @ '':'' @ fmt_pad 2 m in
             if spec \<ge> 3 \<or> s \<noteq> 0 then
               let r = r @ '':'' @ fmt_pad 2 s in
               if spec \<ge> 4 \<or> ms \<noteq> 0 then
                 let r = r @ ''.'' @ fmt_pad 3 ms in
                 if spec \<ge> 5 \<or> us \<noteq> 0 then r @ fmt_pad 3 us else r
               else r
             else r
           else r
         else r)"

definition td_str :: "timedelta \<Rightarrow> string" where
  "td_str td = td_fmt 0x40 td"

definition td_isoformat :: "timedelta \<Rightarrow> string" where
  "td_isoformat td = td_fmt 0 td"

section \<open>\<open>timezone\<close>\<close>

record timezone =
  tz_offset :: timedelta
  tz_label :: "string option"

definition timezone_new :: "timedelta \<Rightarrow> string option \<Rightarrow> timezone result" where
  "timezone_new offset name =
     (if \<not> \<bar>us_of offset\<bar> < 86400000000 then Inl ValueError
      else Inr \<lparr>tz_offset = offset, tz_label = name\<rparr>)"

definition tz_eq :: "timezone \<Rightarrow> timezone \<Rightarrow> bool" where
  "tz_eq a b \<longleftrightarrow> td_eq (tz_offset a) (tz_offset b)"

definition tz_utcoffset :: "timezone \<Rightarrow> timedelta" where
  "tz_utcoffset tz = tz_offset tz"

text \<open>An empty name is false, so the offset is printed for it too.\<close>

definition tz_tzname :: "timezone \<Rightarrow> string" where
  "tz_tzname tz =
     (case tz_label tz of
        Some name \<Rightarrow> if name \<noteq> [] then name else td_fmt 0x22 (tz_offset tz)
      | None \<Rightarrow> td_fmt 0x22 (tz_offset tz))"

text \<open>\<open>tzinfo.isoformat\<close>, which \<open>timezone\<close> inherits.\<close>

definition tz_isoformat :: "timezone \<Rightarrow> string" where
  "tz_isoformat tz = td_fmt 0x12 (tz_utcoffset tz)"

section \<open>Normal form and arithmetic\<close>

lemma us_of_td_new [simp]:
  "us_of (td_new days seconds microseconds milliseconds minutes hours weeks) =
     ((((weeks * 7 + days) * 24 + hours) * 60 + minutes) * 60 + seconds) * 1000000 +
     milliseconds * 1000 + microseconds"
  by (simp add: td_new_def)

lemma td_eqI: "us_of a = us_of b \<Longrightarrow> a = (b :: timedelta)"
  by simp

lemma td_us_us_of [simp]: "td_us (us_of a) = a"
  by (simp add: td_new_def)

lemma us_of_ops [simp]:
  "us_of (td_add a b) = us_of a + us_of b" "us_of (td_sub a b) = us_of a - us_of b"
  "us_of (td_neg a) = - us_of a" "us_of (td_mul a k) = k * us_of a"
  by (simp_all add: td_add_def td_sub_def td_neg_def td_mul_def)

lemma fields_of_day:
  assumes "0 \<le> h" "h < 24" "0 \<le> m" "m < 60" "0 \<le> s" "s < 60" "0 \<le> us" "us < 1000000"
  shows "td_tuple5 \<lparr>us_of = ((d * 24 + h) * 3600 + m * 60 + s) * 1000000 + us\<rparr> = (d, h, m, s, us)"
proof -
  define x where "x = ((d * 24 + h) * 3600 + m * 60 + s) * 1000000 + us"
  define y where "y = h * 3600 + m * 60 + s"
  define z where "z = m * 60 + s"
  have 1: "x = 86400000000 * d + (y * 1000000 + us)" "0 \<le> y * 1000000 + us" "y * 1000000 + us < 86400000000"
    using assms by (auto simp: x_def y_def)
  have 2: "y * 1000000 + us = 1000000 * y + us" by simp
  have 3: "y = 3600 * h + z" "0 \<le> z" "z < 3600" using assms by (auto simp: y_def z_def)
  have 4: "z = 60 * m + s" by (simp add: z_def)
  note stages = int_div_pos_eq [OF 1] int_mod_pos_eq [OF 1] int_div_pos_eq [OF 2 assms(7,8)]
    int_mod_pos_eq [OF 2 assms(7,8)] int_div_pos_eq [OF 3] int_mod_pos_eq [OF 3]
    int_div_pos_eq [OF 4 assms(5,6)] int_mod_pos_eq [OF 4 assms(5,6)]
  show ?thesis
    by (simp only: td_tuple5_def Let_def timedelta.select_convs x_def [symmetric] stages)
qed

lemma td_tuple5_range:
  assumes "td_tuple5 td = (d, h, m, s, us)"
  shows "0 \<le> h" "h < 24" "0 \<le> m" "m < 60" "0 \<le> s" "s < 60" "0 \<le> us" "us < 1000000"
    "us_of td = ((d * 24 + h) * 3600 + m * 60 + s) * 1000000 + us"
proof -
  define a where "a = us_of td mod 86400000000"
  define b where "b = a div 1000000"
  have a: "0 \<le> a" "a < 86400000000" by (simp_all add: a_def)
  have b: "0 \<le> b" "b < 86400" using a by (auto simp: b_def)
  have t: "d = us_of td div 86400000000" "us = a mod 1000000" "h = b div 3600"
    "m = b mod 3600 div 60" "s = b mod 3600 mod 60"
    using assms by (auto simp: td_tuple5_def Let_def a_def b_def)
  show "0 \<le> h" "h < 24" "0 \<le> m" "m < 60" "0 \<le> s" "s < 60" "0 \<le> us" "us < 1000000"
    using b by (auto simp: t)
  have "us_of td = 86400000000 * d + a" "a = 1000000 * b + us"
    "b = 3600 * h + b mod 3600" "b mod 3600 = 60 * m + s"
    by (simp_all add: t a_def b_def)
  then show "us_of td = ((d * 24 + h) * 3600 + m * 60 + s) * 1000000 + us" by simp
qed


lemma td_tuple3_range:
  assumes "td_tuple3 td = (d, s, us)"
  shows "0 \<le> s" "s < 86400" "0 \<le> us" "us < 1000000" "us_of td = (d * 86400 + s) * 1000000 + us"
proof -
  define a where "a = us_of td mod 86400000000"
  have a: "0 \<le> a" "a < 86400000000" by (simp_all add: a_def)
  have t: "d = us_of td div 86400000000" "us = a mod 1000000" "s = a div 1000000"
    using assms by (auto simp: td_tuple3_def Let_def a_def)
  show "0 \<le> s" "s < 86400" "0 \<le> us" "us < 1000000" using a by (auto simp: t)
  have "us_of td = 86400000000 * d + a" "a = 1000000 * s + us" by (simp_all add: t a_def)
  then show "us_of td = (d * 86400 + s) * 1000000 + us" by simp
qed

section \<open>What \<open>_fmt\<close> prints\<close>

text \<open>The fields \<open>hh:mm:ss\<close> of a time of day, and the fraction when there is one.\<close>

definition hms_text :: "int \<Rightarrow> int \<Rightarrow> int \<Rightarrow> string" where
  "hms_text h m s = fmt_pad 2 h @ '':'' @ fmt_pad 2 m @ '':'' @ fmt_pad 2 s"

lemma td_fmt_time_of_day:
  assumes "td_tuple5 td = (0, h, m, s, us)"
  shows "td_fmt 0 td = hms_text h m s @
     (if us = 0 then [] else ''.'' @ fmt_pad 3 (us div 1000) @ fmt_pad 3 (us mod 1000))"
proof -
  have r: "0 \<le> us_of td" "0 \<le> us"
    using td_tuple5_range [OF assms] by simp_all
  show ?thesis
  proof (cases "us = 0")
    case True
    then show ?thesis using r(1) by (simp add: td_fmt_def assms hms_text_def)
  next
    case False
    have "us = us div 1000 * 1000 + us mod 1000" by simp
    with False have "us div 1000 \<noteq> 0 \<or> us mod 1000 \<noteq> 0" by auto
    then have "(if us div 1000 \<noteq> 0 \<or> us mod 1000 \<noteq> 0 then 5 else 3) = (5 :: int)"
      by (simp only: if_True)
    moreover define ms where "ms = us div 1000"
    moreover define us' where "us' = us mod 1000"
    ultimately show ?thesis using r(1) False by (simp add: td_fmt_def assms hms_text_def)
  qed
qed

text \<open>The offset of a time zone: a sign, hours and minutes, and the seconds when there are any.\<close>

lemma td_fmt_offset:
  assumes "td_tuple5 (td_abs td) = (0, h, m, s, 0)"
  shows "td_fmt 0x12 td = (if us_of td < 0 then ''-'' else ''+'') @
     fmt_pad 2 h @ '':'' @ fmt_pad 2 m @ (if s = 0 then [] else '':'' @ fmt_pad 2 s)"
  using assms by (auto simp: td_fmt_def Let_def td_abs_def split: if_splits)

section \<open>Properties\<close>

text \<open>The days, seconds and microseconds of any timedelta are in normal form (the seconds of one
  day, the microseconds of one second, also for negative values) and the constructor rebuilds
  the timedelta from them; the five fields of \<open>tuple()\<close> are the same split further.\<close>

theorem timedelta_normal_form:
  "(case td_tuple3 td of (d, s, us) \<Rightarrow>
      td_days td = d \<and> td_seconds td = s \<and> td_microseconds td = us \<and>
      0 \<le> s \<and> s < 86400 \<and> 0 \<le> us \<and> us < 1000000 \<and> td_new d s us 0 0 0 0 = td) \<and>
   (case td_tuple5 td of (d, h, m, s, us) \<Rightarrow>
      0 \<le> h \<and> h < 24 \<and> 0 \<le> m \<and> m < 60 \<and> 0 \<le> s \<and> s < 60 \<and> 0 \<le> us \<and> us < 1000000 \<and>
      td_new d s us 0 m h 0 = td)"
proof
  obtain d s us where t: "td_tuple3 td = (d, s, us)" by (cases "td_tuple3 td")
  have "td_days td = d" using t by (simp add: td_days_def td_tuple1_def td_tuple3_def Let_def)
  then show "case td_tuple3 td of (d, s, us) \<Rightarrow>
      td_days td = d \<and> td_seconds td = s \<and> td_microseconds td = us \<and>
      0 \<le> s \<and> s < 86400 \<and> 0 \<le> us \<and> us < 1000000 \<and> td_new d s us 0 0 0 0 = td"
    using td_tuple3_range [OF t]
    by (simp add: t td_seconds_def td_microseconds_def td_eqI algebra_simps)
  obtain d h m s us where t: "td_tuple5 td = (d, h, m, s, us)" by (cases "td_tuple5 td")
  show "case td_tuple5 td of (d, h, m, s, us) \<Rightarrow>
      0 \<le> h \<and> h < 24 \<and> 0 \<le> m \<and> m < 60 \<and> 0 \<le> s \<and> s < 60 \<and> 0 \<le> us \<and> us < 1000000 \<and>
      td_new d s us 0 m h 0 = td"
    using td_tuple5_range [OF t] by (simp add: t td_eqI algebra_simps)
qed

text \<open>\<open>divmod\<close> of timedeltas agrees with \<open>//\<close> and \<open>%\<close>, recombines to the dividend and leaves a
  remainder with the sign and within the size of the divisor; a zero divisor raises in all three.\<close>

theorem timedelta_divmod_law:
  "case td_divmod a b of
     Inr (q, r) \<Rightarrow> td_floordiv a b = Inr q \<and> td_mod a b = Inr r \<and>
       td_add (td_mul b q) r = a \<and>
       (if td_gt b (td_us 0) then td_ge r (td_us 0) \<and> td_lt r b
        else td_lt b (td_us 0) \<and> td_le r (td_us 0) \<and> td_gt r b)
   | Inl e \<Rightarrow> e = ZeroDivisionError \<and> \<not> td_bool b \<and>
       td_floordiv a b = Inl e \<and> td_mod a b = Inl e"
proof (cases "us_of b = 0")
  case False
  then have "us_of b < 0 \<or> 0 < us_of b" by linarith
  then show ?thesis
    using neg_mod_bound [of "us_of b" "us_of a"] neg_mod_sign [of "us_of b" "us_of a"]
    by (auto simp: td_divmod_def td_floordiv_def td_mod_def td_gt_def td_ge_def td_lt_def td_le_def
        Let_def intro!: td_eqI)
qed (simp add: td_divmod_def td_floordiv_def td_mod_def td_bool_def)

end
