(* ===== verification/Isoparse.thy ===== *)
theory Isoparse
  imports Calendar Timedelta
begin

text \<open>
  The ISO 8601 readers and writers of \<open>python-stdlib/datetime/datetime.py\<close>: \<open>_iso2d\<close>, \<open>_d2iso\<close>,
  \<open>_iso2t\<close> and \<open>_t2iso\<close>. \<open>_iso2t\<close> walks an index over the text; each nested \<open>if\<close> of the
  function is one definition here, which returns the fields it read and the new index.
\<close>

section \<open>Dates\<close>

definition iso2d :: "string \<Rightarrow> (int \<times> int \<times> int) result" where
  "iso2d s =
     (if length s < 10 \<or> s ! 4 \<noteq> CHR ''-'' \<or> s ! 7 \<noteq> CHR ''-'' then Inl ValueError
      else rbind (py_int (slice s 0 4)) (\<lambda>y.
           rbind (py_int (slice s 5 7)) (\<lambda>m.
           rbind (py_int (slice s 8 10)) (\<lambda>d. Inr (y, m, d)))))"

text \<open>\<open>"%04d-%02d-%02d" % _o2ymd(o)\<close>\<close>

definition d2iso :: "int \<Rightarrow> string" where
  "d2iso ord =
     (case o2ymd ord of (y, m, d) \<Rightarrow> fmt_pad 4 y @ ''-'' @ fmt_pad 2 m @ ''-'' @ fmt_pad 2 d)"

section \<open>Times\<close>

definition iso2t_usec :: "string \<Rightarrow> nat \<Rightarrow> (int \<times> nat) result" where
  "iso2t_usec s i =
     (if length s > i \<and> s ! i = CHR ''.'' then
        let i = i + 4 in
        if length s < i then Inl ValueError
        else rbind (py_int (slice s (i - 3) i)) (\<lambda>ms.
             let usec = 1000 * ms in
             if length s > i \<and> s ! i \<noteq> CHR ''+'' then
               let i = i + 3 in
               if length s < i then Inl ValueError
               else rbind (py_int (slice s (i - 3) i)) (\<lambda>us. Inr (usec + us, i))
             else Inr (usec, i))
      else Inr (0, i))"

definition iso2t_sec :: "string \<Rightarrow> nat \<Rightarrow> (int \<times> int \<times> nat) result" where
  "iso2t_sec s i =
     (if length s > i \<and> s ! i = CHR '':'' then
        let i = i + 3 in
        if length s < i then Inl ValueError
        else rbind (py_int (slice s (i - 2) i)) (\<lambda>sec.
             rbind (iso2t_usec s i) (\<lambda>(usec, i). Inr (sec, usec, i)))
      else Inr (0, 0, i))"

definition iso2t_min :: "string \<Rightarrow> nat \<Rightarrow> (int \<times> int \<times> int \<times> nat) result" where
  "iso2t_min s i =
     (if length s > i \<and> s ! i = CHR '':'' then
        let i = i + 3 in
        if length s < i then Inl ValueError
        else rbind (py_int (slice s (i - 2) i)) (\<lambda>minute.
             rbind (iso2t_sec s i) (\<lambda>(sec, usec, i). Inr (minute, sec, usec, i)))
      else Inr (0, 0, 0, i))"

definition iso2t_tz_usec :: "string \<Rightarrow> nat \<Rightarrow> (int \<times> nat) result" where
  "iso2t_tz_usec s i =
     (if length s > i \<and> s ! i = CHR ''.'' then
        let i = i + 7 in
        if length s < i then Inl ValueError
        else rbind (py_int (slice s (i - 6) i)) (\<lambda>tz_usec. Inr (tz_usec, i))
      else Inr (0, i))"

definition iso2t_tz_sec :: "string \<Rightarrow> nat \<Rightarrow> (int \<times> int \<times> nat) result" where
  "iso2t_tz_sec s i =
     (if length s > i \<and> s ! i = CHR '':'' then
        let i = i + 3 in
        if length s < i then Inl ValueError
        else rbind (py_int (slice s (i - 2) i)) (\<lambda>tz_sec.
             rbind (iso2t_tz_usec s i) (\<lambda>(tz_usec, i). Inr (tz_sec, tz_usec, i)))
      else Inr (0, 0, i))"

text \<open>\<open>None\<close> for the sign is the empty \<open>tz_sign\<close>: no offset in the text.\<close>

definition iso2t_tz ::
    "string \<Rightarrow> nat \<Rightarrow> (char option \<times> int \<times> int \<times> int \<times> int \<times> nat) result" where
  "iso2t_tz s i =
     (if length s > i then
        if s ! i \<notin> {CHR ''+'', CHR ''-''} then Inl ValueError
        else
          let tz_sign = s ! i; i = i + 6 in
          if length s < i then Inl ValueError
          else rbind (py_int (slice s (i - 5) (i - 3))) (\<lambda>tz_hour.
               rbind (py_int (slice s (i - 2) i)) (\<lambda>tz_minute.
               rbind (iso2t_tz_sec s i) (\<lambda>(tz_sec, tz_usec, i).
               Inr (Some tz_sign, tz_hour, tz_minute, tz_sec, tz_usec, i))))
      else Inr (None, 0, 0, 0, 0, i))"

definition iso2t :: "string \<Rightarrow> (int \<times> int \<times> int \<times> int \<times> timezone option) result" where
  "iso2t s =
     (if length s < 2 then Inl ValueError
      else rbind (py_int (slice s 0 2)) (\<lambda>hour.
           rbind (iso2t_min s 2) (\<lambda>(minute, sec, usec, i).
           rbind (iso2t_tz s i) (\<lambda>(tz_sign, tz_hour, tz_minute, tz_sec, tz_usec, i).
           if length s \<noteq> i then Inl ValueError
           else
             (case tz_sign of
                Some sign \<Rightarrow>
                  let td = td_new 0 tz_sec tz_usec 0 tz_minute tz_hour 0;
                      td = (if sign = CHR ''-'' then td_neg td else td)
                  in rbind (timezone_new td None) (\<lambda>tz. Inr (hour, minute, sec, usec, Some tz))
              | None \<Rightarrow> Inr (hour, minute, sec, usec, None))))))"

text \<open>\<open>(...).index(timespec)\<close>: the position in the tuple of names, a ValueError for any other text.\<close>

definition timespecs :: "string list" where
  "timespecs = [''auto'', ''hours'', ''minutes'', ''seconds'', ''milliseconds'', ''microseconds'']"

fun py_index :: "'a list \<Rightarrow> 'a \<Rightarrow> nat result" where
  "py_index [] x = Inl ValueError"
| "py_index (y # ys) x = (if y = x then Inr 0 else rbind (py_index ys x) (\<lambda>i. Inr (Suc i)))"

definition t2iso :: "timedelta \<Rightarrow> string \<Rightarrow> timezone option \<Rightarrow> string result" where
  "t2iso td timespec tz =
     rbind (py_index timespecs timespec) (\<lambda>spec.
     let s = td_fmt (int spec) td
     in Inr (case tz of None \<Rightarrow> s | Some z \<Rightarrow> s @ tz_isoformat z))"

section \<open>Reading texts with a known prefix\<close>

lemma slice_mid: "length p = a \<Longrightarrow> length q + a = b \<Longrightarrow> slice (p @ q @ r) a b = q"
  by (auto simp: slice_def)

lemma slice_after: "b = Suc (length p + length q) \<Longrightarrow> slice (p @ c # q @ r) (Suc (length p)) b = q"
  using slice_mid [of "p @ [c]" "Suc (length p)" q "Suc (length p + length q)" r] by simp

lemma nth_after [simp]: "(p @ c # r) ! length p = c"
  by (rule nth_append_length)

lemma length_fmt_pad_2 [simp]: "0 \<le> i \<Longrightarrow> i < 100 \<Longrightarrow> length (fmt_pad 2 i) = 2"
  using length_fmt_pad [of i 2] by simp

lemma length_fmt_pad_3 [simp]: "0 \<le> i \<Longrightarrow> i < 1000 \<Longrightarrow> length (fmt_pad 3 i) = 3"
  using length_fmt_pad [of i 3] by simp

lemma length_fmt_pad_4 [simp]: "0 \<le> i \<Longrightarrow> i < 10000 \<Longrightarrow> length (fmt_pad 4 i) = 4"
  using length_fmt_pad [of i 4] by simp

lemma iso2d_d2iso:
  assumes "1 \<le> n" "n \<le> 3652059"
  shows "iso2d (d2iso n @ r) = Inr (o2ymd n)" "length (d2iso n) = 10"
proof -
  obtain y m d where t: "o2ymd n = (y, m, d)" by (cases "o2ymd n")
  have "valid_ymd (y, m, d)" using o2ymd_valid [OF assms(1)] t by simp
  moreover have "y \<le> 9999"
    using date_ordinal_o2ymd [OF assms t] calculation by (auto simp: date_ordinal_def MAXYEAR_def valid_ymd_def split: if_splits)
  ultimately have v: "1 \<le> y" "y < 10000" "1 \<le> m" "m < 100" "1 \<le> d" "d < 100"
    using dim_pos [of m y] by (auto simp: valid_ymd_def)
  define Y M D where "Y = fmt_pad 4 y" and "M = fmt_pad 2 m" and "D = fmt_pad 2 d"
  have l: "length Y = 4" "length M = 2" "length D = 2" using v by (simp_all add: Y_def M_def D_def)
  show "length (d2iso n) = 10" using l by (simp add: d2iso_def t Y_def M_def D_def)
  have e: "d2iso n @ r = Y @ CHR ''-'' # M @ CHR ''-'' # D @ r"
    by (simp add: d2iso_def t Y_def M_def D_def)
  have "(d2iso n @ r) ! 4 = CHR ''-''" "(d2iso n @ r) ! 7 = CHR ''-''"
    using l by (simp_all add: e nth_append)
  moreover have "slice (d2iso n @ r) 0 4 = Y"
    using l slice_mid [of "[]" 0 Y 4] by (simp add: e)
  moreover have "slice (d2iso n @ r) 5 7 = M"
    using l slice_mid [of "Y @ ''-''" 5 M 7 "''-'' @ D @ r"] by (simp add: e)
  moreover have "slice (d2iso n @ r) 8 10 = D"
    using l slice_mid [of "Y @ ''-'' @ M @ ''-''" 8 D 10 r] by (simp add: e)
  ultimately show "iso2d (d2iso n @ r) = Inr (o2ymd n)"
    using v l by (simp add: iso2d_def t e) (simp add: Y_def M_def D_def py_int_fmt_pad)
qed

lemma stage_usec:
  assumes "s = p @ CHR ''.'' # a @ b @ r" "i = length p" "length a = 3" "length b = 3" "hd b \<noteq> CHR ''+''"
  shows "iso2t_usec s i = rbind (py_int a) (\<lambda>ms. rbind (py_int b) (\<lambda>us. Inr (1000 * ms + us, i + 7)))"
proof -
  have 1: "slice s (Suc i) (i + 4) = a" using assms slice_after [of "i + 4" p a _ "b @ r"] by simp
  have 2: "slice s (i + 4) (i + 7) = b" using assms slice_mid [of "p @ CHR ''.'' # a" "i + 4" b "i + 7" r] by simp
  have 3: "s ! (i + 4) = hd b"
    using assms nth_append [of "p @ CHR ''.'' # a" "b @ r" "i + 4"] by (cases b) auto
  show ?thesis using 1 2 3 assms by (simp add: iso2t_usec_def Let_def numeral_eq_Suc)
qed

lemma stage_usec_none: "s = p @ r \<Longrightarrow> i = length p \<Longrightarrow> r = [] \<or> hd r \<noteq> CHR ''.'' \<Longrightarrow> iso2t_usec s i = Inr (0, i)"
  by (cases r) (auto simp: iso2t_usec_def)

lemma stage_sec:
  assumes "s = p @ CHR '':'' # a @ r" "i = length p" "length a = 2"
  shows "iso2t_sec s i = rbind (py_int a) (\<lambda>sec. rbind (iso2t_usec s (i + 3)) (\<lambda>(usec, i). Inr (sec, usec, i)))"
  using assms slice_after [of "i + 3" p a _ r] by (simp add: iso2t_sec_def Let_def numeral_eq_Suc)

lemma stage_min:
  assumes "s = p @ CHR '':'' # a @ r" "i = length p" "length a = 2"
  shows "iso2t_min s i = rbind (py_int a) (\<lambda>minute. rbind (iso2t_sec s (i + 3)) (\<lambda>(sec, usec, i). Inr (minute, sec, usec, i)))"
  using assms slice_after [of "i + 3" p a _ r] by (simp add: iso2t_min_def Let_def numeral_eq_Suc)

lemma stage_tz_sec:
  assumes "s = p @ CHR '':'' # a" "i = length p" "length a = 2"
  shows "iso2t_tz_sec s i = rbind (py_int a) (\<lambda>sec. Inr (sec, 0, i + 3))"
  using assms slice_after [of "i + 3" p a _ "[]"] by (simp add: iso2t_tz_sec_def iso2t_tz_usec_def Let_def numeral_eq_Suc)

lemma stage_tz:
  assumes "s = p @ c # a @ CHR '':'' # b @ r" "i = length p" "length a = 2" "length b = 2" "c = CHR ''+'' \<or> c = CHR ''-''"
  shows "iso2t_tz s i = rbind (py_int a) (\<lambda>tz_hour. rbind (py_int b) (\<lambda>tz_minute.
      rbind (iso2t_tz_sec s (i + 6)) (\<lambda>(tz_sec, tz_usec, i). Inr (Some c, tz_hour, tz_minute, tz_sec, tz_usec, i))))"
proof -
  have 1: "slice s (Suc i) (i + 3) = a" using assms slice_after [of "i + 3" p a] by simp
  have 2: "slice s (i + 4) (i + 6) = b" using assms slice_mid [of "p @ c # a @ '':''" "i + 4" b "i + 6" r] by simp
  have 3: "s ! i = c" using assms by simp
  have 4: "i + 6 \<le> length s" using assms by simp
  show ?thesis using 1 2 3 4 assms(5) by (auto simp: iso2t_tz_def Let_def numeral_eq_Suc)
qed

section \<open>A time and its offset, written and read\<close>

text \<open>The offsets that \<open>tz_isoformat\<close> writes in full: whole seconds, less than a day, no label.\<close>

definition plain_tz :: "timezone option \<Rightarrow> bool" where
  "plain_tz tz = (case tz of None \<Rightarrow> True
     | Some z \<Rightarrow> tz_label z = None \<and> \<bar>us_of (tz_offset z)\<bar> < 86400000000 \<and> us_of (tz_offset z) mod 1000000 = 0)"

definition tz_text :: "timezone option \<Rightarrow> string" where
  "tz_text tz = (case tz of None \<Rightarrow> [] | Some z \<Rightarrow> tz_isoformat z)"

definition usec_text :: "int \<Rightarrow> string" where
  "usec_text us = (if us = 0 then [] else ''.'' @ fmt_pad 3 (us div 1000) @ fmt_pad 3 (us mod 1000))"

lemma plain_offset_fields:
  assumes "\<bar>us_of td\<bar> < 86400000000" "us_of td mod 1000000 = 0"
  obtains h m s where "td_tuple5 (td_abs td) = (0, h, m, s, 0)" "0 \<le> h" "h < 24" "0 \<le> m" "m < 60"
    "0 \<le> s" "s < 60" "\<bar>us_of td\<bar> = (h * 3600 + m * 60 + s) * 1000000"
proof -
  obtain d h m s us where t: "td_tuple5 (td_abs td) = (d, h, m, s, us)" by (cases "td_tuple5 (td_abs td)")
  note r = td_tuple5_range [OF t]
  have a: "us_of (td_abs td) = \<bar>us_of td\<bar>" by (simp add: td_abs_def)
  define x where "x = h * 3600 + m * 60 + s"
  have x: "0 \<le> x" "x < 86400" using r(1-6) by (auto simp: x_def)
  have u: "\<bar>us_of td\<bar> = d * 86400000000 + x * 1000000 + us" using r(9) a by (simp add: x_def)
  have "\<not> d \<le> -1" "\<not> 1 \<le> d" using u x r(7,8) assms(1) by linarith+
  then have "d = 0" by linarith
  moreover have "us = 0"
  proof -
    have "1000000 dvd us_of td" using assms(2) by (rule mod_0_imp_dvd)
    then have "1000000 dvd \<bar>us_of td\<bar>" by simp
    moreover have "\<bar>us_of td\<bar> = 1000000 * (d * 86400 + x) + us" using u by simp
    ultimately have "1000000 dvd us" by (metis dvd_add_right_iff dvd_triv_left)
    then show ?thesis using r(7,8) zdvd_imp_le [of 1000000 us] by linarith
  qed
  ultimately show ?thesis using that [of h m s] t r a by simp
qed

lemma iso2t_tz_text:
  assumes "plain_tz tz" "s = p @ tz_text tz" "i = length p"
  shows "(case tz of None \<Rightarrow> iso2t_tz s i = Inr (None, 0, 0, 0, 0, i)
    | Some z \<Rightarrow> \<exists>h m sec. iso2t_tz s i =
         Inr (Some (if us_of (tz_offset z) < 0 then CHR ''-'' else CHR ''+''), h, m, sec, 0, length s) \<and>
         \<bar>us_of (tz_offset z)\<bar> = (h * 3600 + m * 60 + sec) * 1000000)"
proof (cases tz)
  case None
  then show ?thesis using assms by (simp add: tz_text_def iso2t_tz_def)
next
  case (Some z)
  then obtain h m sec where f: "td_tuple5 (td_abs (tz_offset z)) = (0, h, m, sec, 0)"
    "0 \<le> h" "h < 24" "0 \<le> m" "m < 60" "0 \<le> sec" "sec < 60"
    "\<bar>us_of (tz_offset z)\<bar> = (h * 3600 + m * 60 + sec) * 1000000"
    using assms(1) plain_offset_fields [of "tz_offset z"] by (auto simp: plain_tz_def)
  define c where "c = (if us_of (tz_offset z) < 0 then CHR ''-'' else CHR ''+'')"
  define r where "r = (if sec = 0 then [] else CHR '':'' # fmt_pad 2 sec)"
  have s: "s = p @ c # fmt_pad 2 h @ CHR '':'' # fmt_pad 2 m @ r"
    using assms(2) Some td_fmt_offset [OF f(1)] by (simp add: tz_text_def tz_isoformat_def tz_utcoffset_def c_def r_def)
  have "iso2t_tz_sec s (i + 6) = Inr (sec, 0, length s)"
  proof (cases "sec = 0")
    case True
    then show ?thesis using s assms(3) f by (simp add: r_def iso2t_tz_sec_def)
  next
    case False
    then show ?thesis
      using stage_tz_sec [of s "p @ c # fmt_pad 2 h @ CHR '':'' # fmt_pad 2 m" "fmt_pad 2 sec" "i + 6"] s assms(3) f
      by (simp add: r_def py_int_fmt_pad)
  qed
  then have "iso2t_tz s i = Inr (Some c, h, m, sec, 0, length s)"
    using stage_tz [of s p c "fmt_pad 2 h" "fmt_pad 2 m" r i] s assms(3) f by (simp add: c_def py_int_fmt_pad)
  then have "iso2t_tz s i = Inr (Some c, h, m, sec, 0, length s) \<and>
      \<bar>us_of (tz_offset z)\<bar> = (h * 3600 + m * 60 + sec) * 1000000" using f(8) by simp
  then show ?thesis unfolding c_def Some option.case by blast
qed

lemma hd_fmt_pad: "0 \<le> i \<Longrightarrow> hd (fmt_pad w i) \<noteq> CHR ''+'' \<and> fmt_pad w i \<noteq> []"
  using all_digits_fmt_pad [of i w] is_digit_no_space by (auto simp: all_digits_def)

lemma hd_tz_text:
  assumes "plain_tz tz" shows "tz_text tz = [] \<or> hd (tz_text tz) \<noteq> CHR ''.''"
proof (cases tz)
  case (Some z)
  then have "\<bar>us_of (tz_offset z)\<bar> < 86400000000" "us_of (tz_offset z) mod 1000000 = 0"
    using assms by (simp_all add: plain_tz_def)
  then obtain h m s where "td_tuple5 (td_abs (tz_offset z)) = (0, h, m, s, 0)"
    by (rule plain_offset_fields)
  then show ?thesis using Some by (simp add: tz_text_def tz_isoformat_def tz_utcoffset_def td_fmt_offset)
qed (simp add: tz_text_def)

lemma iso2t_text:
  assumes tz: "plain_tz tz"
    and f: "0 \<le> h" "h < 24" "0 \<le> m" "m < 60" "0 \<le> sec" "sec < 60" "0 \<le> us" "us < 1000000"
    and s: "s = hms_text h m sec @ usec_text us @ tz_text tz"
  shows "iso2t s = Inr (h, m, sec, us, tz)"
proof -
  have l: "2 \<le> length s" "slice s 0 2 = fmt_pad 2 h"
    using s f slice_mid [of "[]" 0 "fmt_pad 2 h" 2] by (simp_all add: hms_text_def)
  have s': "s = fmt_pad 2 h @ CHR '':'' # fmt_pad 2 m @ CHR '':'' # fmt_pad 2 sec @ usec_text us @ tz_text tz"
    using s by (simp add: hms_text_def)
  have us: "iso2t_usec s 8 = Inr (us, 8 + length (usec_text us))"
  proof (cases "us = 0")
    case True
    then show ?thesis
      using stage_usec_none [of s "hms_text h m sec" "tz_text tz" 8] hd_tz_text [OF tz] f s
      by (simp add: usec_text_def hms_text_def)
  next
    case False
    have b: "0 \<le> us div 1000" "us div 1000 < 1000" "0 \<le> us mod 1000" "us mod 1000 < 1000"
      using f by auto
    then show ?thesis
      using stage_usec [of s "hms_text h m sec" "fmt_pad 3 (us div 1000)" "fmt_pad 3 (us mod 1000)" "tz_text tz" 8]
        False f s hd_fmt_pad [OF b(3), of 3]
      by (simp add: usec_text_def hms_text_def py_int_fmt_pad)
  qed
  have m: "iso2t_min s 2 = Inr (m, sec, us, 8 + length (usec_text us))"
    using stage_min [OF s', of 2] f us
      stage_sec [of s "fmt_pad 2 h @ CHR '':'' # fmt_pad 2 m" "fmt_pad 2 sec" "usec_text us @ tz_text tz" 5] s'
    by (simp add: py_int_fmt_pad)
  have z: "s = (hms_text h m sec @ usec_text us) @ tz_text tz" "8 + length (usec_text us) = length (hms_text h m sec @ usec_text us)"
    using s f by (simp_all add: hms_text_def)
  show ?thesis
  proof (cases tz)
    case None
    then show ?thesis
      using iso2t_tz_text [OF tz z] l m f s by (simp add: iso2t_def py_int_fmt_pad z(2) tz_text_def)
  next
    case (Some off)
    obtain th tm ts where t: "iso2t_tz s (8 + length (usec_text us)) =
         Inr (Some (if us_of (tz_offset off) < 0 then CHR ''-'' else CHR ''+''), th, tm, ts, 0, length s)"
         "\<bar>us_of (tz_offset off)\<bar> = (th * 3600 + tm * 60 + ts) * 1000000"
      using iso2t_tz_text [OF tz z] Some by auto
    define td where "td = (if us_of (tz_offset off) < 0 then td_neg (td_new 0 ts 0 0 tm th 0) else td_new 0 ts 0 0 tm th 0)"
    have td: "td = tz_offset off" using t(2) by (auto simp: td_def algebra_simps intro!: td_eqI)
    have "timezone_new td None = Inr off"
      using tz Some td by (simp add: timezone_new_def plain_tz_def)
    then show ?thesis
      using t(1) l m f Some by (simp add: iso2t_def py_int_fmt_pad td_def split: if_splits)
  qed
qed

end
