(* ===== verification/Datetime.thy ===== *)
theory Datetime
  imports Isoparse
begin

text \<open>
  The classes \<open>date\<close>, \<open>time\<close> and \<open>datetime\<close> of \<open>python-stdlib/datetime/datetime.py\<close>. A date is an
  ordinal, a time is the timedelta since midnight, a datetime is both; \<open>tzinfo\<close> is \<open>None\<close> or a
  \<open>timezone\<close>, the only concrete subclass the module has. \<open>localtime\<close> and \<open>gmtime\<close> of the C module
  \<open>time\<close> are arguments of the definitions that call them. Optional arguments whose default means
  "keep" are options. The float results (\<open>timestamp\<close>, \<open>total_seconds\<close>), hashing and \<open>repr\<close> are
  not modelled.
\<close>

section \<open>\<open>date\<close>\<close>

record date =
  d_ord :: int

definition date_new :: "int \<Rightarrow> int \<Rightarrow> int \<Rightarrow> date result" where
  "date_new year month day = rbind (date_ordinal year month day) (\<lambda>n. Inr \<lparr>d_ord = n\<rparr>)"

definition date_fromordinal :: "int \<Rightarrow> date result" where
  "date_fromordinal n = date_new 0 0 n"

definition date_fromisoformat :: "string \<Rightarrow> date result" where
  "date_fromisoformat s = rbind (iso2d s) (\<lambda>(y, m, d). date_new y m d)"

definition date_tuple :: "date \<Rightarrow> int \<times> int \<times> int" where
  "date_tuple self = o2ymd (d_ord self)"

definition date_year :: "date \<Rightarrow> int" where "date_year self = fst (date_tuple self)"
definition date_month :: "date \<Rightarrow> int" where "date_month self = fst (snd (date_tuple self))"
definition date_day :: "date \<Rightarrow> int" where "date_day self = snd (snd (date_tuple self))"

definition date_toordinal :: "date \<Rightarrow> int" where
  "date_toordinal self = d_ord self"

definition date_weekday :: "date \<Rightarrow> int" where
  "date_weekday self = (d_ord self + 6) mod 7"

definition date_isoweekday :: "date \<Rightarrow> int" where
  "date_isoweekday self = (if d_ord self mod 7 \<noteq> 0 then d_ord self mod 7 else 7)"

definition date_timetuple :: "date \<Rightarrow> int list" where
  "date_timetuple self =
     (case date_tuple self of (y, m, d) \<Rightarrow>
        let yday = dbm y m + d in [y, m, d, 0, 0, 0, date_weekday self, yday, -1])"

definition date_replace :: "date \<Rightarrow> int option \<Rightarrow> int option \<Rightarrow> int option \<Rightarrow> date result" where
  "date_replace self year month day =
     (case date_tuple self of (year', month', day') \<Rightarrow>
        let year = (case year of None \<Rightarrow> year' | Some y \<Rightarrow> y);
            month = (case month of None \<Rightarrow> month' | Some m \<Rightarrow> m);
            day = (case day of None \<Rightarrow> day' | Some d \<Rightarrow> d)
        in date_new year month day)"

definition date_add :: "date \<Rightarrow> timedelta \<Rightarrow> date result" where
  "date_add self other = date_fromordinal (d_ord self + td_days other)"

definition date_sub_date :: "date \<Rightarrow> date \<Rightarrow> timedelta" where
  "date_sub_date self other = td_new (d_ord self - d_ord other) 0 0 0 0 0 0"

definition date_sub :: "date \<Rightarrow> timedelta \<Rightarrow> date result" where
  "date_sub self other = date_fromordinal (d_ord self - td_days other)"

definition date_eq :: "date \<Rightarrow> date \<Rightarrow> bool" where "date_eq a b \<longleftrightarrow> d_ord a = d_ord b"
definition date_le :: "date \<Rightarrow> date \<Rightarrow> bool" where "date_le a b \<longleftrightarrow> d_ord a \<le> d_ord b"
definition date_lt :: "date \<Rightarrow> date \<Rightarrow> bool" where "date_lt a b \<longleftrightarrow> d_ord a < d_ord b"
definition date_ge :: "date \<Rightarrow> date \<Rightarrow> bool" where "date_ge a b \<longleftrightarrow> d_ord a \<ge> d_ord b"
definition date_gt :: "date \<Rightarrow> date \<Rightarrow> bool" where "date_gt a b \<longleftrightarrow> d_ord a > d_ord b"

definition date_isoformat :: "date \<Rightarrow> string" where
  "date_isoformat self = d2iso (d_ord self)"

section \<open>\<open>time\<close>\<close>

text \<open>
  \<open>_time\<close>; the second disjunct is the escape for a time given in microseconds, which does not
  look at \<open>fold\<close>.
\<close>

definition time_check :: "int \<Rightarrow> int \<Rightarrow> int \<Rightarrow> int \<Rightarrow> int \<Rightarrow> timedelta result" where
  "time_check h m s us fld =
     (if (0 \<le> h \<and> h < 24 \<and> 0 \<le> m \<and> m < 60 \<and> 0 \<le> s \<and> s < 60 \<and> 0 \<le> us \<and> us < 1000000 \<and>
          (fld = 0 \<or> fld = 1)) \<or>
         (h = 0 \<and> m = 0 \<and> s = 0 \<and> 0 < us \<and> us < 86400000000)
      then Inr (td_new 0 s us 0 m h 0) else Inl ValueError)"

record time =
  t_td :: timedelta
  t_tz :: "timezone option"
  t_fd :: int

definition time_new :: "int \<Rightarrow> int \<Rightarrow> int \<Rightarrow> int \<Rightarrow> timezone option \<Rightarrow> int \<Rightarrow> time result" where
  "time_new hour minute second microsecond tzinfo fld =
     rbind (time_check hour minute second microsecond fld)
       (\<lambda>td. Inr \<lparr>t_td = td, t_tz = tzinfo, t_fd = fld\<rparr>)"

definition time_fromisoformat :: "string \<Rightarrow> time result" where
  "time_fromisoformat s = rbind (iso2t s) (\<lambda>(h, m, sec, us, tz). time_new h m sec us tz 0)"

definition time_tuple :: "time \<Rightarrow> int \<times> int \<times> int \<times> int \<times> timezone option \<times> int" where
  "time_tuple self = (case td_tuple5 (t_td self) of (d, h, m, s, us) \<Rightarrow> (h, m, s, us, t_tz self, t_fd self))"

definition time_replace ::
    "time \<Rightarrow> int option \<Rightarrow> int option \<Rightarrow> int option \<Rightarrow> int option \<Rightarrow> timezone option option \<Rightarrow>
     int option \<Rightarrow> time result" where
  "time_replace self hour minute second microsecond tzinfo fld =
     (case time_tuple self of (h, m, s, us, tz, fl) \<Rightarrow>
        time_new (case hour of None \<Rightarrow> h | Some x \<Rightarrow> x) (case minute of None \<Rightarrow> m | Some x \<Rightarrow> x)
          (case second of None \<Rightarrow> s | Some x \<Rightarrow> x) (case microsecond of None \<Rightarrow> us | Some x \<Rightarrow> x)
          (case tzinfo of None \<Rightarrow> tz | Some x \<Rightarrow> x) (case fld of None \<Rightarrow> fl | Some x \<Rightarrow> x))"

definition time_isoformat :: "time \<Rightarrow> string \<Rightarrow> string result" where
  "time_isoformat self timespec = t2iso (t_td self) timespec (t_tz self)"

definition time_utcoffset :: "time \<Rightarrow> timedelta option" where
  "time_utcoffset self = (case t_tz self of None \<Rightarrow> None | Some tz \<Rightarrow> Some (tz_utcoffset tz))"

definition time_tzname :: "time \<Rightarrow> string option" where
  "time_tzname self = (case t_tz self of None \<Rightarrow> None | Some tz \<Rightarrow> Some (tz_tzname tz))"

text \<open>\<open>_sub\<close>: the difference in microseconds, an int.\<close>

definition time_diff :: "time \<Rightarrow> time \<Rightarrow> int result" where
  "time_diff self other =
     (case (t_tz self, t_tz other) of
        (None, None) \<Rightarrow> Inr (us_of (t_td self) - us_of (t_td other))
      | (Some tz1, Some tz2) \<Rightarrow>
          let us1 = us_of (t_td self); us2 = us_of (t_td other);
              os1 = us_of (tz_utcoffset tz1); os2 = us_of (tz_utcoffset tz2)
          in if os1 \<noteq> os2 then Inr ((us1 - os1) - (us2 - os2)) else Inr (us1 - us2)
      | _ \<Rightarrow> Inl TypeError)"

definition time_eq :: "time \<Rightarrow> time \<Rightarrow> bool result" where
  "time_eq self other =
     (if (t_tz self = None) \<noteq> (t_tz other = None) then Inr False
      else rbind (time_diff self other) (\<lambda>r. Inr (r = 0)))"

definition time_le :: "time \<Rightarrow> time \<Rightarrow> bool result" where
  "time_le a b = rbind (time_diff a b) (\<lambda>r. Inr (r \<le> 0))"
definition time_lt :: "time \<Rightarrow> time \<Rightarrow> bool result" where
  "time_lt a b = rbind (time_diff a b) (\<lambda>r. Inr (r < 0))"
definition time_ge :: "time \<Rightarrow> time \<Rightarrow> bool result" where
  "time_ge a b = rbind (time_diff a b) (\<lambda>r. Inr (r \<ge> 0))"
definition time_gt :: "time \<Rightarrow> time \<Rightarrow> bool result" where
  "time_gt a b = rbind (time_diff a b) (\<lambda>r. Inr (r > 0))"

section \<open>\<open>datetime\<close>\<close>

record datetime =
  dt_d :: int
  dt_t :: timedelta
  dt_tz :: "timezone option"
  dt_fd :: int

definition datetime_new ::
    "int \<Rightarrow> int \<Rightarrow> int \<Rightarrow> int \<Rightarrow> int \<Rightarrow> int \<Rightarrow> int \<Rightarrow> timezone option \<Rightarrow> int \<Rightarrow> datetime result" where
  "datetime_new year month day hour minute second microsecond tzinfo fld =
     rbind (date_ordinal year month day) (\<lambda>d.
     rbind (time_check hour minute second microsecond fld) (\<lambda>t.
     Inr \<lparr>dt_d = d, dt_t = t, dt_tz = tzinfo, dt_fd = fld\<rparr>))"

definition datetime_fromordinal :: "int \<Rightarrow> datetime result" where
  "datetime_fromordinal n = datetime_new 0 0 n 0 0 0 0 None 0"

text \<open>Up to 12 characters only the date is read.\<close>

definition datetime_fromisoformat :: "string \<Rightarrow> datetime result" where
  "datetime_fromisoformat s =
     rbind (iso2d s) (\<lambda>(y, m, d).
     if length s \<le> 12 then datetime_new y m d 0 0 0 0 None 0
     else rbind (iso2t (drop 11 s)) (\<lambda>(h, mi, sec, us, tz). datetime_new y m d h mi sec us tz 0))"

definition datetime_combine :: "date \<Rightarrow> time \<Rightarrow> timezone option \<Rightarrow> datetime result" where
  "datetime_combine dat tim tzinfo =
     datetime_new 0 0 (date_toordinal dat) 0 0 0 (us_of (t_td tim))
       (case tzinfo of None \<Rightarrow> t_tz tim | Some tz \<Rightarrow> Some tz) (t_fd tim)"

definition datetime_tuple ::
    "datetime \<Rightarrow> int \<times> int \<times> int \<times> int \<times> int \<times> int \<times> int \<times> timezone option \<times> int" where
  "datetime_tuple self =
     (case o2ymd (dt_d self) of (y, mo, d) \<Rightarrow>
      case td_tuple5 (dt_t self) of (_, h, m, s, us) \<Rightarrow> (y, mo, d, h, m, s, us, dt_tz self, dt_fd self))"

definition datetime_year :: "datetime \<Rightarrow> int" where "datetime_year self = fst (o2ymd (dt_d self))"
definition datetime_month :: "datetime \<Rightarrow> int" where "datetime_month self = fst (snd (o2ymd (dt_d self)))"
definition datetime_day :: "datetime \<Rightarrow> int" where "datetime_day self = snd (snd (o2ymd (dt_d self)))"
definition datetime_hour :: "datetime \<Rightarrow> int" where
  "datetime_hour self = fst (snd (td_tuple5 (dt_t self)))"
definition datetime_minute :: "datetime \<Rightarrow> int" where
  "datetime_minute self = fst (snd (snd (td_tuple5 (dt_t self))))"
definition datetime_second :: "datetime \<Rightarrow> int" where
  "datetime_second self = fst (snd (snd (snd (td_tuple5 (dt_t self)))))"
definition datetime_microsecond :: "datetime \<Rightarrow> int" where
  "datetime_microsecond self = snd (snd (snd (snd (td_tuple5 (dt_t self)))))"

definition datetime_add :: "datetime \<Rightarrow> timedelta \<Rightarrow> datetime result" where
  "datetime_add self other =
     (let us = us_of (dt_t self) + us_of other;
          d = us div 86400000000; us = us mod 86400000000;
          d = d + dt_d self
      in datetime_new 0 0 d 0 0 0 us (dt_tz self) 0)"

text \<open>\<open>datetime - timedelta\<close>\<close>

definition datetime_sub :: "datetime \<Rightarrow> timedelta \<Rightarrow> datetime result" where
  "datetime_sub self other = datetime_add self (td_neg other)"

definition datetime_utcoffset :: "datetime \<Rightarrow> timedelta option" where
  "datetime_utcoffset self = (case dt_tz self of None \<Rightarrow> None | Some tz \<Rightarrow> Some (tz_utcoffset tz))"

definition datetime_tzname :: "datetime \<Rightarrow> string option" where
  "datetime_tzname self = (case dt_tz self of None \<Rightarrow> None | Some tz \<Rightarrow> Some (tz_tzname tz))"

text \<open>\<open>_sub\<close>: days and microseconds between two datetimes.\<close>

definition datetime_diff :: "datetime \<Rightarrow> datetime \<Rightarrow> (int \<times> int) result" where
  "datetime_diff self other =
     (if (dt_tz self = None) \<noteq> (dt_tz other = None) then Inl TypeError
      else
        rbind
          (case (datetime_utcoffset self, datetime_utcoffset other) of
             (Some os1, Some os2) \<Rightarrow>
               if \<not> td_eq os1 os2 then
                 rbind (datetime_sub self os1) (\<lambda>dt1.
                 rbind (datetime_sub other os2) (\<lambda>dt2. Inr (dt1, dt2)))
               else Inr (self, other)
           | _ \<Rightarrow> Inr (self, other))
          (\<lambda>(dt1, dt2).
             let D = dt_d dt1 - dt_d dt2;
                 us = us_of (dt_t dt1) - us_of (dt_t dt2);
                 d = us div 86400000000; us = us mod 86400000000
             in Inr (D + d, us)))"

text \<open>\<open>datetime - datetime\<close>\<close>

definition datetime_sub_datetime :: "datetime \<Rightarrow> datetime \<Rightarrow> timedelta result" where
  "datetime_sub_datetime self other =
     rbind (datetime_diff self other) (\<lambda>(d, us). Inr (td_new d 0 us 0 0 0 0))"

definition datetime_cmp :: "datetime \<Rightarrow> datetime \<Rightarrow> int result" where
  "datetime_cmp self other =
     rbind (datetime_diff self other) (\<lambda>(d, us).
       Inr (if d < 0 then -1 else if d > 0 then 1 else if us < 0 then -1 else if us > 0 then 1 else 0))"

definition datetime_eq :: "datetime \<Rightarrow> datetime \<Rightarrow> bool result" where
  "datetime_eq self other =
     (if (dt_tz self = None) \<noteq> (dt_tz other = None) then Inr False
      else rbind (datetime_cmp self other) (\<lambda>c. Inr (c = 0)))"

definition datetime_le :: "datetime \<Rightarrow> datetime \<Rightarrow> bool result" where
  "datetime_le a b = rbind (datetime_cmp a b) (\<lambda>c. Inr (c \<le> 0))"
definition datetime_lt :: "datetime \<Rightarrow> datetime \<Rightarrow> bool result" where
  "datetime_lt a b = rbind (datetime_cmp a b) (\<lambda>c. Inr (c < 0))"
definition datetime_ge :: "datetime \<Rightarrow> datetime \<Rightarrow> bool result" where
  "datetime_ge a b = rbind (datetime_cmp a b) (\<lambda>c. Inr (c \<ge> 0))"
definition datetime_gt :: "datetime \<Rightarrow> datetime \<Rightarrow> bool result" where
  "datetime_gt a b = rbind (datetime_cmp a b) (\<lambda>c. Inr (c > 0))"

definition datetime_date :: "datetime \<Rightarrow> date result" where
  "datetime_date self = date_fromordinal (dt_d self)"

definition datetime_time :: "datetime \<Rightarrow> time result" where
  "datetime_time self = time_new 0 0 0 (us_of (dt_t self)) None (dt_fd self)"

definition datetime_timetz :: "datetime \<Rightarrow> time result" where
  "datetime_timetz self = time_new 0 0 0 (us_of (dt_t self)) (dt_tz self) (dt_fd self)"

definition datetime_replace ::
    "datetime \<Rightarrow> int option \<Rightarrow> int option \<Rightarrow> int option \<Rightarrow> int option \<Rightarrow> int option \<Rightarrow> int option \<Rightarrow>
     int option \<Rightarrow> timezone option option \<Rightarrow> int option \<Rightarrow> datetime result" where
  "datetime_replace self year month day hour minute second microsecond tzinfo fld =
     (case datetime_tuple self of (Y, M, D, h, m, s, us, tz, fl) \<Rightarrow>
        datetime_new (case year of None \<Rightarrow> Y | Some x \<Rightarrow> x) (case month of None \<Rightarrow> M | Some x \<Rightarrow> x)
          (case day of None \<Rightarrow> D | Some x \<Rightarrow> x) (case hour of None \<Rightarrow> h | Some x \<Rightarrow> x)
          (case minute of None \<Rightarrow> m | Some x \<Rightarrow> x) (case second of None \<Rightarrow> s | Some x \<Rightarrow> x)
          (case microsecond of None \<Rightarrow> us | Some x \<Rightarrow> x) (case tzinfo of None \<Rightarrow> tz | Some x \<Rightarrow> x)
          (case fld of None \<Rightarrow> fl | Some x \<Rightarrow> x))"

definition datetime_toordinal :: "datetime \<Rightarrow> int" where
  "datetime_toordinal self = dt_d self"

definition datetime_weekday :: "datetime \<Rightarrow> int" where
  "datetime_weekday self = (dt_d self + 6) mod 7"

definition datetime_isoweekday :: "datetime \<Rightarrow> int" where
  "datetime_isoweekday self = (if dt_d self mod 7 \<noteq> 0 then dt_d self mod 7 else 7)"

definition datetime_isoformat :: "datetime \<Rightarrow> string \<Rightarrow> string \<Rightarrow> string result" where
  "datetime_isoformat self sep timespec =
     rbind (t2iso (dt_t self) timespec (dt_tz self)) (\<lambda>t. Inr (d2iso (dt_d self) @ sep @ t))"

definition datetime_str :: "datetime \<Rightarrow> string result" where
  "datetime_str self = datetime_isoformat self '' '' ''auto''"

text \<open>\<open>timezone.fromutc\<close> (which overrides the method of \<open>tzinfo\<close>).\<close>

definition tz_fromutc :: "timezone \<Rightarrow> datetime \<Rightarrow> datetime result" where
  "tz_fromutc tz dt = datetime_add dt (tz_offset tz)"

section \<open>Local time\<close>

text \<open>
  The first six fields that \<open>localtime\<close> or \<open>gmtime\<close> return; the constructor on them. The class
  attribute \<open>datetime.EPOCH\<close> is read below but nothing in the module sets it: it is an argument,
  \<open>None\<close> while no program has assigned it.
\<close>

type_synonym fields = "int \<times> int \<times> int \<times> int \<times> int \<times> int"

definition datetime_of_fields :: "fields \<Rightarrow> timezone option \<Rightarrow> datetime result" where
  "datetime_of_fields f tz = (case f of (Y, M, D, h, m, s) \<Rightarrow> datetime_new Y M D h m s 0 tz 0)"

definition mktime_local :: "(int \<Rightarrow> fields) \<Rightarrow> datetime \<Rightarrow> int \<Rightarrow> int result" where
  "mktime_local localtime epoch u =
     rbind (datetime_of_fields (localtime u) None) (\<lambda>dt.
     rbind (datetime_sub_datetime dt epoch) (\<lambda>td. Inr (us_of td div 1000000)))"

text \<open>The search of \<open>_mktime\<close> for the seconds \<open>ts\<close> with \<open>local(ts) = t\<close>.\<close>

definition mktime_second ::
    "(int \<Rightarrow> int result) \<Rightarrow> int \<Rightarrow> int \<Rightarrow> int \<Rightarrow> int \<Rightarrow> int \<Rightarrow> int result" where
  "mktime_second local fld t u1 t1 b =
     (let u2 = t - b in
      rbind (local u2) (\<lambda>t2.
        Inr (if t2 = t then u2
             else if t1 = t then u1
             else if fld \<noteq> 0 then min u1 u2
             else max u1 u2)))"

definition mktime_search :: "(int \<Rightarrow> int result) \<Rightarrow> int \<Rightarrow> int \<Rightarrow> int result" where
  "mktime_search local fld t =
     rbind (local t) (\<lambda>lt.
     let a = lt - t; u1 = t - a in
     rbind (local u1) (\<lambda>t1.
       if t1 = t then
         let u2 = u1 + (if fld \<noteq> 0 then 86400 else -86400) in
         rbind (local u2) (\<lambda>l2.
         let b = l2 - u2 in
         if a = b then Inr u1 else mktime_second local fld t u1 t1 b)
       else let b = t1 - u1 in mktime_second local fld t u1 t1 b))"

definition naive_epoch :: "datetime option \<Rightarrow> datetime result" where
  "naive_epoch EPOCH =
     (case EPOCH of None \<Rightarrow> Inl AttributeError
      | Some e \<Rightarrow> datetime_replace e None None None None None None None (Some None) None)"

text \<open>\<open>_mktime\<close> up to its float division: the seconds \<open>ts\<close> and the microseconds added to them.\<close>

definition datetime_mktime :: "(int \<Rightarrow> fields) \<Rightarrow> datetime option \<Rightarrow> datetime \<Rightarrow> (int \<times> int) result" where
  "datetime_mktime localtime EPOCH self =
     rbind (naive_epoch EPOCH) (\<lambda>epoch.
     rbind (datetime_sub_datetime self epoch) (\<lambda>td.
     let t = us_of td div 1000000; us = us_of td mod 1000000 in
     rbind (mktime_search (mktime_local localtime epoch) (dt_fd self) t) (\<lambda>ts. Inr (ts, us))))"

text \<open>\<open>fromtimestamp\<close> for an integer \<open>ts\<close>.\<close>

definition datetime_fromtimestamp ::
    "(int \<Rightarrow> fields) \<Rightarrow> (int \<Rightarrow> fields) \<Rightarrow> int \<Rightarrow> timezone option \<Rightarrow> datetime result" where
  "datetime_fromtimestamp localtime gmtime ts tz =
     (case tz of
        None \<Rightarrow>
          rbind (datetime_of_fields (localtime ts) None) (\<lambda>dt.
          rbind (datetime_of_fields (localtime (ts - 86400)) None) (\<lambda>before.
          rbind (datetime_sub_datetime dt before) (\<lambda>td.
          let s = us_of td div 1000000 - 86400 in
          if s < 0 then
            rbind (datetime_of_fields (localtime (ts + s)) None) (\<lambda>dt'.
            rbind (datetime_eq dt dt') (\<lambda>same. Inr (if same then dt\<lparr>dt_fd := 1\<rparr> else dt)))
          else Inr dt)))
      | Some z \<Rightarrow> rbind (datetime_of_fields (gmtime ts) tz) (\<lambda>dt. tz_fromutc z dt))"

text \<open>
  \<open>astimezone\<close> to a timezone \<open>tz\<close>; \<open>same\<close> says that \<open>tz\<close> is the very object the datetime carries.
  \<open>int(self._mktime())\<close> truncates towards zero.
\<close>

definition datetime_astimezone ::
    "(int \<Rightarrow> fields) \<Rightarrow> (int \<Rightarrow> fields) \<Rightarrow> datetime option \<Rightarrow> bool \<Rightarrow> datetime \<Rightarrow> timezone \<Rightarrow> datetime result" where
  "datetime_astimezone localtime gmtime EPOCH same self tz =
     (if same then Inr self
      else
        rbind
          (case dt_tz self of
             None \<Rightarrow>
               rbind (datetime_mktime localtime EPOCH self) (\<lambda>(sec, us).
               let ts = (if sec < 0 \<and> us \<noteq> 0 then sec + 1 else sec) in
               rbind (datetime_of_fields (localtime ts) None) (\<lambda>l.
               rbind (datetime_of_fields (gmtime ts) None) (\<lambda>g.
               datetime_sub_datetime l g)))
           | Some z \<Rightarrow> Inr (tz_utcoffset z))
          (\<lambda>os.
             rbind (datetime_sub self os) (\<lambda>utc.
             rbind (datetime_replace utc None None None None None None None (Some (Some tz)) None) (\<lambda>utc.
             tz_fromutc tz utc))))"

section \<open>The point in time of a datetime\<close>

text \<open>
  The abstract value of a datetime is one integer, the microseconds since the day before
  0001-01-01; in UTC the offset is subtracted. \<open>dt_of\<close> goes back.
\<close>

definition dt_abs :: "datetime \<Rightarrow> int" where
  "dt_abs dt = dt_d dt * 86400000000 + us_of (dt_t dt)"

definition offset_us :: "timezone option \<Rightarrow> int" where
  "offset_us tz = (case tz of None \<Rightarrow> 0 | Some z \<Rightarrow> us_of (tz_offset z))"

definition dt_utc :: "datetime \<Rightarrow> int" where
  "dt_utc dt = dt_abs dt - offset_us (dt_tz dt)"

definition dt_of :: "int \<Rightarrow> timezone option \<Rightarrow> datetime" where
  "dt_of n tz = \<lparr>dt_d = n div 86400000000, dt_t = td_us (n mod 86400000000), dt_tz = tz, dt_fd = 0\<rparr>"

definition representable :: "int \<Rightarrow> bool" where
  "representable n \<longleftrightarrow> 86400000000 \<le> n \<and> n < 315537984000000000"

definition wf_datetime :: "datetime \<Rightarrow> bool" where
  "wf_datetime dt \<longleftrightarrow> 1 \<le> dt_d dt \<and> dt_d dt \<le> 3652059 \<and> 0 \<le> us_of (dt_t dt) \<and> us_of (dt_t dt) < 86400000000"

lemma time_check_us [simp]:
  "0 \<le> us \<Longrightarrow> us < 86400000000 \<Longrightarrow> time_check 0 0 0 us 0 = Inr (td_us us)"
  by (auto simp: time_check_def)

lemma time_check_range: "time_check h m s us f = Inr td \<Longrightarrow> 0 \<le> us_of td \<and> us_of td < 86400000000"
  by (auto simp: time_check_def split: if_splits)

lemma time_check_error: "time_check h m s us f = Inl e \<Longrightarrow> e = ValueError"
  by (auto simp: time_check_def split: if_splits)

lemma datetime_new_us:
  assumes "0 \<le> us" "us < 86400000000"
  shows "datetime_new 0 0 d 0 0 0 us tz 0 =
     (if 1 \<le> d \<and> d \<le> 3652059 then Inr \<lparr>dt_d = d, dt_t = td_us us, dt_tz = tz, dt_fd = 0\<rparr> else Inl ValueError)"
  using assms by (simp add: datetime_new_def date_ordinal_of_ordinal)

lemma div_day_range: "1 \<le> n div 86400000000 \<and> n div 86400000000 \<le> 3652059 \<longleftrightarrow> representable n"
proof -
  define q r where "q = n div 86400000000" and "r = n mod 86400000000"
  have "n = 86400000000 * q + r" "0 \<le> r" "r < 86400000000" by (simp_all add: q_def r_def)
  then show ?thesis by (auto simp: representable_def q_def [symmetric])
qed

lemma datetime_add_eq:
  "datetime_add dt td =
     (if representable (dt_abs dt + us_of td) then Inr (dt_of (dt_abs dt + us_of td) (dt_tz dt))
      else Inl ValueError)"
proof -
  define us where "us = us_of (dt_t dt) + us_of td"
  have n: "dt_abs dt + us_of td = us + dt_d dt * 86400000000" by (simp add: dt_abs_def us_def)
  have m: "us mod 86400000000 = (dt_abs dt + us_of td) mod 86400000000"
    unfolding n by (rule mod_mult_self3 [symmetric, where b = 86400000000 and c = "dt_d dt", simplified add.commute])
  have d: "us div 86400000000 + dt_d dt = (dt_abs dt + us_of td) div 86400000000"
    unfolding n by simp
  show ?thesis
    unfolding datetime_add_def Let_def us_def [symmetric] m d
    by (subst datetime_new_us) (simp_all add: div_day_range dt_of_def)
qed

lemma dt_of_simps [simp]:
  "dt_abs (dt_of n tz) = n" "dt_tz (dt_of n tz) = tz" "dt_fd (dt_of n tz) = 0"
  "dt_d (dt_of n tz) = n div 86400000000" "dt_t (dt_of n tz) = td_us (n mod 86400000000)"
  by (simp_all add: dt_of_def dt_abs_def)

lemma wf_dt_of: "wf_datetime (dt_of n tz) \<longleftrightarrow> representable n"
  using div_day_range [of n] by (simp add: wf_datetime_def)

lemma dt_of_dt_abs: "wf_datetime dt \<Longrightarrow> dt_of (dt_abs dt) (dt_tz dt) = dt\<lparr>dt_fd := 0\<rparr>"
proof -
  assume w: "wf_datetime dt"
  have a: "dt_abs dt = 86400000000 * dt_d dt + us_of (dt_t dt)" by (simp add: dt_abs_def)
  have "dt_abs dt div 86400000000 = dt_d dt" "dt_abs dt mod 86400000000 = us_of (dt_t dt)"
    using w by (simp_all only: wf_datetime_def int_div_pos_eq [OF a] int_mod_pos_eq [OF a])
  then show ?thesis by (cases dt) (simp add: dt_of_def)
qed

lemma datetime_new_wf: "datetime_new y mo d h m s us tz f = Inr dt \<Longrightarrow>
    wf_datetime dt \<and> dt_tz dt = tz \<and> dt_fd dt = f"
  by (auto simp: datetime_new_def wf_datetime_def dest: date_ordinal_range time_check_range)

text \<open>The difference of two datetimes is the difference of their points in time.\<close>

definition same_zone :: "datetime \<Rightarrow> datetime \<Rightarrow> bool" where
  "same_zone a b \<longleftrightarrow> offset_us (dt_tz a) = offset_us (dt_tz b)"

lemma diff_days:
  "(let us = ua - ub in (da - db + us div 86400000000, us mod 86400000000)) =
     (let n = (da * 86400000000 + ua) - (db * 86400000000 + ub :: int) in (n div 86400000000, n mod 86400000000))"
proof -
  define c where "c = da - db"
  have n: "(da * 86400000000 + ua) - (db * 86400000000 + ub) = (ua - ub) + c * 86400000000"
    by (simp add: c_def algebra_simps)
  show ?thesis unfolding n Let_def c_def [symmetric] by simp
qed

lemma datetime_diff_eq:
  "datetime_diff a b =
     (if (dt_tz a = None) \<noteq> (dt_tz b = None) then Inl TypeError
      else if same_zone a b \<or> representable (dt_utc a) \<and> representable (dt_utc b) then
        Inr ((dt_utc a - dt_utc b) div 86400000000, (dt_utc a - dt_utc b) mod 86400000000)
      else Inl ValueError)"
proof -
  have k: "(let D = dt_d x - dt_d y; us = us_of (dt_t x) - us_of (dt_t y); d = us div 86400000000;
        us = us mod 86400000000 in Inr (D + d, us)) =
      Inr ((dt_abs x - dt_abs y) div 86400000000, (dt_abs x - dt_abs y) mod 86400000000)" for x y
    using diff_days [where da = "dt_d x" and db = "dt_d y" and ua = "us_of (dt_t x)" and ub = "us_of (dt_t y)"]
    by (simp add: Let_def dt_abs_def)
  show ?thesis
    unfolding datetime_diff_def k
    by (cases "dt_tz a"; cases "dt_tz b")
      (auto simp: datetime_utcoffset_def tz_utcoffset_def td_eq_def same_zone_def offset_us_def
        datetime_sub_def datetime_add_eq dt_utc_def algebra_simps)
qed

lemma sgn_div_mod:
  fixes n :: int
  shows "(n div 86400000000 < 0 \<longleftrightarrow> n < 0)" "n div 86400000000 > 0 \<or> \<not> n div 86400000000 < 0 \<and> n mod 86400000000 > 0 \<longleftrightarrow> n > 0"
proof -
  define q r where "q = n div 86400000000" and "r = n mod 86400000000"
  have n: "n = 86400000000 * q + r" "0 \<le> r" "r < 86400000000" by (simp_all add: q_def r_def)
  show "n div 86400000000 < 0 \<longleftrightarrow> n < 0" using n by (auto simp: q_def [symmetric])
  show "n div 86400000000 > 0 \<or> \<not> n div 86400000000 < 0 \<and> n mod 86400000000 > 0 \<longleftrightarrow> n > 0"
    unfolding q_def [symmetric] r_def [symmetric] using n by arith
qed

lemma cmp_sign:
  fixes n :: int
  shows "(if n div 86400000000 < 0 then -1 else if n div 86400000000 > 0 then 1
     else if n mod 86400000000 < 0 then -1 else if n mod 86400000000 > 0 then 1 else (0 :: int)) = sgn n"
  using sgn_div_mod [of n] pos_mod_sign [of 86400000000 n] by (auto simp: sgn_if)

lemma sgn_diff:
  fixes x y :: int
  shows "sgn (x - y) < 0 \<longleftrightarrow> x < y" "sgn (x - y) \<le> 0 \<longleftrightarrow> x \<le> y" "sgn (x - y) > 0 \<longleftrightarrow> x > y"
    "sgn (x - y) \<ge> 0 \<longleftrightarrow> x \<ge> y" "sgn (x - y) = 0 \<longleftrightarrow> x = y"
  by (simp_all add: sgn_if)

lemma datetime_cmp_eq: "datetime_cmp a b = rbind (datetime_diff a b) (\<lambda>_. Inr (sgn (dt_utc a - dt_utc b)))"
  by (auto simp: datetime_cmp_def datetime_diff_eq cmp_sign)

lemma datetime_sub_datetime_eq:
  "datetime_sub_datetime a b = rbind (datetime_diff a b) (\<lambda>_. Inr (td_us (dt_utc a - dt_utc b)))"
proof -
  have "td_new (n div 86400000000) 0 (n mod 86400000000) 0 0 0 0 = td_us n" for n
    by (rule td_eqI) (simp add: algebra_simps)
  then show ?thesis by (auto simp: datetime_sub_datetime_def datetime_diff_eq)
qed

text \<open>The fields of a datetime rebuild it.\<close>

lemma td_of_fields:
  assumes "0 \<le> us_of td" "us_of td < 86400000000" "td_tuple5 td = (d, h, m, s, us)" "f = 0 \<or> f = 1"
  shows "d = 0" "time_check h m s us f = Inr td"
proof -
  note r = td_tuple5_range [OF assms(3)]
  show "d = 0"
  proof -
    define x where "x = (h * 3600 + m * 60 + s) * 1000000 + us"
    have "0 \<le> x" "x < 86400000000" "us_of td = d * 86400000000 + x"
      using r by (auto simp: x_def)
    then have "\<not> d \<le> -1" "\<not> 1 \<le> d" using assms(1,2) by linarith+
    then show ?thesis by linarith
  qed
  then show "time_check h m s us f = Inr td"
    using r assms(4) by (auto simp: time_check_def intro!: td_eqI)
qed

lemma datetime_new_tuple:
  assumes "wf_datetime dt" "dt_fd dt = 0 \<or> dt_fd dt = 1"
    "datetime_tuple dt = (y, mo, d, h, m, s, us, tz, f)"
  shows "datetime_new y mo d h m s us tz' f = Inr (dt\<lparr>dt_tz := tz'\<rparr>)" "tz = dt_tz dt"
proof -
  obtain x where t: "o2ymd (dt_d dt) = (y, mo, d)" "td_tuple5 (dt_t dt) = (x, h, m, s, us)"
    "tz = dt_tz dt" "f = dt_fd dt"
    using assms(3) by (auto simp: datetime_tuple_def split: prod.splits)
  show "datetime_new y mo d h m s us tz' f = Inr (dt\<lparr>dt_tz := tz'\<rparr>)"
    using assms(1,2) t date_ordinal_o2ymd [OF _ _ t(1)] td_of_fields(2) [OF _ _ t(2)]
    by (simp add: datetime_new_def wf_datetime_def)
  show "tz = dt_tz dt" by (rule t(3))
qed

lemma datetime_replace_tz:
  assumes "wf_datetime dt" "dt_fd dt = 0 \<or> dt_fd dt = 1"
  shows "datetime_replace dt None None None None None None None (Some tz) None = Inr (dt\<lparr>dt_tz := tz\<rparr>)"
proof -
  obtain y mo d h m s us z f where t: "datetime_tuple dt = (y, mo, d, h, m, s, us, z, f)"
    by (cases "datetime_tuple dt") auto
  show ?thesis using datetime_new_tuple(1) [OF assms t, of tz] by (simp add: datetime_replace_def t)
qed

section \<open>Local time with one transition\<close>

text \<open>
  \<open>time.localtime\<close> is a parameter of the code's model; the lemmas of this section are about one instance of it, a zone with one change of offset,
  and only show that the search of \<open>_mktime\<close> does what it is for there.
\<close>

definition fields_of :: "int \<Rightarrow> fields" where
  "fields_of n = (case datetime_tuple (dt_of n None) of (Y, M, D, h, m, s, _) \<Rightarrow> (Y, M, D, h, m, s))"

definition zone_offset :: "int \<Rightarrow> int \<Rightarrow> int \<Rightarrow> int \<Rightarrow> int" where
  "zone_offset T A B u = (if u < T then A else B)"

definition zone_localtime :: "int \<Rightarrow> int \<Rightarrow> int \<Rightarrow> int \<Rightarrow> int \<Rightarrow> fields" where
  "zone_localtime E T A B u = fields_of (E + (u + zone_offset T A B u) * 1000000)"

lemma day_second_dvd: "1000000 dvd n mod 86400000000 \<longleftrightarrow> 1000000 dvd (n :: int)"
  by (simp add: dvd_mod_iff)

lemma datetime_of_fields_of:
  assumes "representable n" "1000000 dvd n"
  shows "datetime_of_fields (fields_of n) tz = Inr (dt_of n tz)"
proof -
  obtain y mo d h m s us z f where t: "datetime_tuple (dt_of n None) = (y, mo, d, h, m, s, us, z, f)"
    by (cases "datetime_tuple (dt_of n None)") auto
  then obtain x where x: "td_tuple5 (td_us (n mod 86400000000)) = (x, h, m, s, us)" "f = 0"
    by (auto simp: datetime_tuple_def split: prod.splits)
  have "us = 0"
  proof -
    have "1000000 dvd us_of (td_us (n mod 86400000000))" using assms(2) by (simp add: day_second_dvd)
    then have "1000000 dvd ((x * 24 + h) * 3600 + m * 60 + s) * 1000000 + us"
      unfolding td_tuple5_range(9) [OF x(1)] .
    then have "1000000 dvd us" by (metis dvd_add_right_iff dvd_triv_right)
    then show ?thesis using td_tuple5_range(7,8) [OF x(1)] zdvd_imp_le [of 1000000 us] by linarith
  qed
  then show ?thesis
    using datetime_new_tuple(1) [OF _ _ t, of tz] assms(1) x(2)
    by (simp add: wf_dt_of datetime_of_fields_def fields_of_def t)
qed

lemma naive_sub:
  "dt_tz a = None \<Longrightarrow> dt_tz b = None \<Longrightarrow> datetime_sub_datetime a b = Inr (td_us (dt_abs a - dt_abs b))"
  by (simp add: datetime_sub_datetime_eq datetime_diff_eq same_zone_def dt_utc_def offset_us_def)

lemma naive_eq: "dt_tz a = None \<Longrightarrow> dt_tz b = None \<Longrightarrow> datetime_eq a b = Inr (dt_abs a = dt_abs b)"
  by (simp add: datetime_eq_def datetime_cmp_eq datetime_diff_eq same_zone_def dt_utc_def offset_us_def sgn_diff)

lemma mktime_search_one:
  assumes "\<bar>A - B\<bar> \<le> 86400" and l: "\<And>u. \<bar>u - t\<bar> \<le> 4 * 86400 \<Longrightarrow> local u = Inr (u + (if u < T then A else B))"
    and "\<bar>A\<bar> \<le> 86400" "\<bar>B\<bar> \<le> 86400"
  shows "mktime_search local f t =
     Inr (if t < T + min A B then t - A else if T + max A B \<le> t then t - B
          else if f = 0 then t - A else t - B)"
proof -
  have "mktime_search local f t = mktime_search (\<lambda>u. Inr (u + (if u < T then A else B))) f t"
  proof -
    define g where "g u = u + (if u < T then A else B)" for u
    have "local u = Inr (g u)" if "\<bar>u - t\<bar> \<le> 4 * 86400" for u using l [OF that] by (simp add: g_def)
    moreover have g: "\<bar>g u - u\<bar> \<le> 86400" for u using assms(3,4) by (simp add: g_def)
    define u1 where "u1 = t - (g t - t)"
    define u2 where "u2 = u1 + (if f \<noteq> 0 then 86400 else -86400)"
    have "\<bar>u1 - t\<bar> \<le> 4 * 86400" "\<bar>u2 - t\<bar> \<le> 4 * 86400" "\<bar>(t - (g u1 - u1)) - t\<bar> \<le> 4 * 86400"
      "\<bar>(t - (g u2 - u2)) - t\<bar> \<le> 4 * 86400" "\<bar>t - t\<bar> \<le> 4 * 86400"
      using g [of t] g [of u1] g [of u2] by (auto simp: u1_def u2_def)
    ultimately have "local t = Inr (g t)" "local u1 = Inr (g u1)" "local u2 = Inr (g u2)"
      "local (t - (g u1 - u1)) = Inr (g (t - (g u1 - u1)))" "local (t - (g u2 - u2)) = Inr (g (t - (g u2 - u2)))"
      by blast+
    then have "mktime_search local f t = mktime_search (\<lambda>u. Inr (g u)) f t"
      unfolding mktime_search_def mktime_second_def Let_def rbind.simps
      by (simp only: u1_def [symmetric] u2_def [symmetric] rbind.simps)
    then show ?thesis by (simp add: g_def)
  qed
  also have "\<dots> = Inr (if t < T + min A B then t - A else if T + max A B \<le> t then t - B
          else if f = 0 then t - A else t - B)"
    using assms(1) unfolding mktime_search_def mktime_second_def Let_def rbind.simps min_def max_def
    by (smt (verit))
  finally show ?thesis .
qed

lemma zone_local:
  assumes "E mod 1000000 = 0" "representable (E + (u + zone_offset T A B u) * 1000000)"
  shows "datetime_of_fields (zone_localtime E T A B u) None = Inr (dt_of (E + (u + zone_offset T A B u) * 1000000) None)"
  using assms by (simp add: zone_localtime_def datetime_of_fields_of mod_0_imp_dvd)

text \<open>The seconds around \<open>ts\<close> that the two functions look at stay inside the calendar.\<close>

lemma zone_representable:
  assumes "representable (E + (ts - 7 * 86400) * 1000000)" "representable (E + (ts + 7 * 86400) * 1000000)"
    "\<bar>A\<bar> \<le> 86400" "\<bar>B\<bar> \<le> 86400" "\<bar>u - ts\<bar> \<le> 6 * 86400"
  shows "representable (E + (u + zone_offset T A B u) * 1000000)"
proof -
  have "\<bar>zone_offset T A B u\<bar> \<le> 86400" using assms(3,4) by (simp add: zone_offset_def)
  then show ?thesis using assms(1,2,5) unfolding representable_def by auto
qed

lemma zone_fromtimestamp:
  assumes E: "E mod 1000000 = 0" and o: "\<bar>A\<bar> \<le> 86400" "\<bar>B\<bar> \<le> 86400" "\<bar>A - B\<bar> \<le> 86400"
    and r: "representable (E + (ts - 7 * 86400) * 1000000)" "representable (E + (ts + 7 * 86400) * 1000000)"
  shows "datetime_fromtimestamp (zone_localtime E T A B) gmtime ts None =
     Inr ((dt_of (E + (ts + zone_offset T A B ts) * 1000000) None)
       \<lparr>dt_fd := if T \<le> ts \<and> ts < T + (A - B) then 1 else 0\<rparr>)"
proof -
  define off where "off = zone_offset T A B"
  have loc: "datetime_of_fields (zone_localtime E T A B u) None = Inr (dt_of (E + (u + off u) * 1000000) None)"
    if "\<bar>u - ts\<bar> \<le> 2 * 86400" for u
    unfolding off_def using that zone_local [OF E zone_representable [OF r o(1,2)]] by simp
  define s where "s = off ts - off (ts - 86400)"
  have s: "(E + (ts + off ts) * 1000000 - (E + (ts - 86400 + off (ts - 86400)) * 1000000)) div 1000000 - 86400 = s"
  proof -
    have "E + (ts + off ts) * 1000000 - (E + (ts - 86400 + off (ts - 86400)) * 1000000) = (86400 + s) * 1000000"
      by (simp add: s_def algebra_simps)
    then show ?thesis by simp
  qed
  have sb: "\<bar>(ts + s) - ts\<bar> \<le> 2 * 86400" using o by (auto simp: s_def off_def zone_offset_def)
  have l: "datetime_of_fields (zone_localtime E T A B ts) None = Inr (dt_of (E + (ts + off ts) * 1000000) None)"
    "datetime_of_fields (zone_localtime E T A B (ts - 86400)) None =
       Inr (dt_of (E + (ts - 86400 + off (ts - 86400)) * 1000000) None)"
    "datetime_of_fields (zone_localtime E T A B (ts + s)) None =
       Inr (dt_of (E + (ts + s + off (ts + s)) * 1000000) None)"
    using loc [of ts] loc [of "ts - 86400"] loc [OF sb] by simp_all
  have c: "(s < 0 \<and> ts + off ts = ts + s + off (ts + s)) \<longleftrightarrow> T \<le> ts \<and> ts < T + (A - B)"
    using o(3) by (auto simp: s_def off_def zone_offset_def)
  have cancel: "E + v * 1000000 = E + w * 1000000 \<longleftrightarrow> v = w" for v w :: int by simp
  note e = cancel [of "ts + off ts" "ts + s + off (ts + s)"]
  have u: "us_of (td_us x) = x" for x by simp
  have "datetime_fromtimestamp (zone_localtime E T A B) gmtime ts None =
     Inr (if s < 0 \<and> ts + off ts = ts + s + off (ts + s)
          then (dt_of (E + (ts + off ts) * 1000000) None)\<lparr>dt_fd := 1\<rparr>
          else dt_of (E + (ts + off ts) * 1000000) None)"
    unfolding datetime_fromtimestamp_def option.case l rbind.simps naive_sub [OF dt_of_simps(2) dt_of_simps(2)]
      naive_eq [OF dt_of_simps(2) dt_of_simps(2)] dt_of_simps(1) u s Let_def e
    by (cases "s < 0"; cases "ts + off ts = ts + s + off (ts + s)") (simp_all only: rbind.simps if_True if_False simp_thms)
  note this [unfolded c]
  then show ?thesis unfolding off_def [symmetric] by (simp add: dt_of_def)
qed

section \<open>Properties\<close>

text \<open>C20: adding a timedelta adds its microseconds to the point in time, keeps the time zone and
  clears \<open>fold\<close>; the result is a ValueError exactly outside the years 1 to 9999. Subtracting is
  adding the negation, and \<open>dt_of\<close> is the well-formed datetime at that point.\<close>

theorem datetime_add_refines:
  "datetime_add dt td =
     (let n = dt_abs dt + us_of td in
      if representable n then Inr (dt_of n (dt_tz dt)) else Inl ValueError) \<and>
   datetime_sub dt td =
     (let n = dt_abs dt - us_of td in
      if representable n then Inr (dt_of n (dt_tz dt)) else Inl ValueError) \<and>
   dt_abs (dt_of n tz) = n \<and> (wf_datetime (dt_of n tz) \<longleftrightarrow> representable n)"
  by (simp add: datetime_add_eq datetime_sub_def wf_dt_of Let_def)

text \<open>C21: subtracting and comparing datetimes reads the difference of their points in UTC. Mixing
  naive and aware ones is a TypeError (unequal for \<open>==\<close>); with different offsets a point whose
  UTC value leaves the years 1 to 9999 is a ValueError, which \<open>==\<close> and \<open><\<close> let through.\<close>

theorem datetime_order_refines:
  "datetime_sub_datetime a b =
     (if (dt_tz a = None) \<noteq> (dt_tz b = None) then Inl TypeError
      else if same_zone a b \<or> representable (dt_utc a) \<and> representable (dt_utc b)
      then Inr (td_us (dt_utc a - dt_utc b)) else Inl ValueError) \<and>
   datetime_lt a b = rbind (datetime_sub_datetime a b) (\<lambda>_. Inr (dt_utc a < dt_utc b)) \<and>
   datetime_le a b = rbind (datetime_sub_datetime a b) (\<lambda>_. Inr (dt_utc a \<le> dt_utc b)) \<and>
   datetime_gt a b = rbind (datetime_sub_datetime a b) (\<lambda>_. Inr (dt_utc a > dt_utc b)) \<and>
   datetime_ge a b = rbind (datetime_sub_datetime a b) (\<lambda>_. Inr (dt_utc a \<ge> dt_utc b)) \<and>
   datetime_eq a b =
     (if (dt_tz a = None) \<noteq> (dt_tz b = None) then Inr False
      else rbind (datetime_sub_datetime a b) (\<lambda>_. Inr (dt_utc a = dt_utc b)))"
  by (auto simp: datetime_sub_datetime_eq datetime_lt_def datetime_le_def datetime_gt_def
      datetime_ge_def datetime_eq_def datetime_cmp_eq datetime_diff_eq sgn_diff)

lemma t2iso_auto:
  assumes "wf_datetime dt" "td_tuple5 (dt_t dt) = (0, h, m, s, us)"
  shows "t2iso (dt_t dt) ''auto'' tz = Inr (hms_text h m s @ usec_text us @ tz_text tz)"
  using td_fmt_time_of_day [OF assms(2)]
  by (auto simp: t2iso_def timespecs_def usec_text_def tz_text_def split: option.split)

lemma datetime_isoformat_auto:
  assumes "wf_datetime dt" "plain_tz (dt_tz dt)" "dt_fd dt = 0"
  shows "rbind (datetime_isoformat dt [sep] ''auto'') datetime_fromisoformat = Inr dt"
proof -
  obtain d h m s us where t: "td_tuple5 (dt_t dt) = (d, h, m, s, us)" by (cases "td_tuple5 (dt_t dt)")
  obtain y mo dd where o: "o2ymd (dt_d dt) = (y, mo, dd)" by (cases "o2ymd (dt_d dt)")
  have w: "1 \<le> dt_d dt" "dt_d dt \<le> 3652059" "0 \<le> us_of (dt_t dt)" "us_of (dt_t dt) < 86400000000"
    using assms(1) by (simp_all add: wf_datetime_def)
  have d: "d = 0" using td_of_fields(1) [OF w(3,4) t, of 0] by simp
  define x where "x = hms_text h m s @ usec_text us @ tz_text (dt_tz dt)"
  have x: "iso2t x = Inr (h, m, s, us, dt_tz dt)"
    using iso2t_text [OF assms(2) td_tuple5_range(1-8) [OF t] x_def] .
  have l: "2 < length x" using td_tuple5_range [OF t] by (simp add: x_def hms_text_def)
  have i: "datetime_isoformat dt [sep] ''auto'' = Inr (d2iso (dt_d dt) @ sep # x)"
    using t2iso_auto [OF assms(1) t [unfolded d], of "dt_tz dt"] by (simp add: datetime_isoformat_def x_def)
  have "datetime_fromisoformat (d2iso (dt_d dt) @ sep # x) = datetime_new y mo dd h m s us (dt_tz dt) 0"
    using iso2d_d2iso [OF w(1,2)] l by (simp add: datetime_fromisoformat_def o x)
  moreover have "datetime_tuple dt = (y, mo, dd, h, m, s, us, dt_tz dt, 0)"
    using t o assms(3) by (simp add: datetime_tuple_def)
  ultimately show ?thesis
    using datetime_new_tuple(1) [OF assms(1)] assms(3) by (simp add: i)
qed

text \<open>C7: \<open>fromisoformat\<close> reads back what \<open>isoformat\<close> writes, with any separator character, for
  every representable naive datetime and every offset of whole seconds.\<close>

theorem datetime_iso_roundtrip:
  assumes "wf_datetime dt" "plain_tz (dt_tz dt)" "dt_fd dt = 0"
  shows "rbind (datetime_isoformat dt [sep] ''auto'') datetime_fromisoformat = Inr dt"
  by (rule datetime_isoformat_auto) (rule assms)+

theorem datetime_iso_roundtrip_witness:
  "\<exists>dt. dt_tz dt = Some \<lparr>tz_offset = td_new 0 0 0 0 (-210) 0 0, tz_label = None\<rparr> \<and> dt_d dt = 737425 \<and>
     us_of (dt_t dt) = 45296789012 \<and>
     rbind (datetime_isoformat dt ''T'' ''auto'') datetime_fromisoformat = Inr dt"
  using datetime_iso_roundtrip [of "\<lparr>dt_d = 737425, dt_t = td_us 45296789012,
      dt_tz = Some \<lparr>tz_offset = td_new 0 0 0 0 (-210) 0 0, tz_label = None\<rparr>, dt_fd = 0\<rparr>" "CHR ''T''"]
  by (intro exI conjI) (auto simp: wf_datetime_def plain_tz_def)

text \<open>Converting an aware datetime to another time zone keeps the point in UTC and carries the
  new zone; a ValueError is raised exactly when the UTC value or the result leaves the calendar.\<close>

theorem astimezone_keeps_instant:
  "datetime_astimezone localtime gmtime EPOCH False (dt\<lparr>dt_tz := Some z\<rparr>) tz =
     (let utc = dt_abs dt - us_of (tz_offset z); n = utc + us_of (tz_offset tz) in
      if representable utc \<and> representable n then Inr (dt_of n (Some tz)) else Inl ValueError) \<and>
   dt_utc (dt_of (utc + us_of (tz_offset tz)) (Some tz)) = utc"
proof -
  have *: "datetime_replace (dt_of n x) None None None None None None None (Some (Some tz)) None = Inr (dt_of n (Some tz))"
    if "representable n" for n x
    using datetime_replace_tz [of "dt_of n x" "Some tz"] that by (simp add: wf_dt_of)
  have "dt_abs (dt\<lparr>dt_tz := Some z\<rparr>) = dt_abs dt" by (simp add: dt_abs_def)
  then show ?thesis
    by (auto simp: datetime_astimezone_def tz_utcoffset_def datetime_sub_def datetime_add_eq *
        tz_fromutc_def Let_def dt_utc_def offset_us_def)
qed

text \<open>In a zone whose offset changes once, at \<open>T\<close>, from \<open>A\<close> to \<open>B\<close>, the search of
  \<open>_mktime\<close> finds the seconds of every local time \<open>t\<close>; a time that occurs twice or not at all is
  read with the offset before the change when \<open>fold\<close> is 0, after it otherwise.\<close>

theorem mktime_search_one_transition:
  assumes "\<bar>A - B\<bar> \<le> 86400" "\<bar>A\<bar> \<le> 86400" "\<bar>B\<bar> \<le> 86400"
  shows "mktime_search (\<lambda>u. Inr (u + zone_offset T A B u)) f t =
     Inr (if t < T + min A B then t - A
          else if T + max A B \<le> t then t - B
          else if f = 0 then t - A else t - B)"
  by (rule mktime_search_one) (use assms in \<open>simp_all add: zone_offset_def\<close>)

theorem mktime_search_one_transition_witness:
  "mktime_search (\<lambda>u. Inr (u + zone_offset 1000000 7200 3600 u)) 1 1005000 = Inr 1001400 \<and>
   mktime_search (\<lambda>u. Inr (u + zone_offset 1000000 7200 3600 u)) 0 1005000 = Inr 997800"
  using mktime_search_one_transition [of 7200 3600 1000000 1 1005000]
    mktime_search_one_transition [of 7200 3600 1000000 0 1005000] by simp

text \<open>\<open>_mktime\<close> inverts \<open>fromtimestamp\<close>, in a zone whose offset changes once: every
  timestamp comes back, also from a local time that occurs twice, by the \<open>fold\<close> that
  \<open>fromtimestamp\<close> sets. \<open>EPOCH\<close> has to be set to the datetime \<open>epoch\<close> of second 0 before.\<close>

theorem mktime_inverts_fromtimestamp:
  assumes "wf_datetime epoch" "dt_abs epoch mod 1000000 = 0" "dt_fd epoch = 0"
    and "\<bar>A\<bar> \<le> 86400" "\<bar>B\<bar> \<le> 86400" "\<bar>A - B\<bar> \<le> 86400"
    and "representable (dt_abs epoch + (ts - 7 * 86400) * 1000000)"
    and "representable (dt_abs epoch + (ts + 7 * 86400) * 1000000)"
  shows "rbind (datetime_fromtimestamp (zone_localtime (dt_abs epoch) T A B) gmtime ts None)
     (datetime_mktime (zone_localtime (dt_abs epoch) T A B) (Some epoch)) = Inr (ts, 0)"
proof -
  define E where "E = dt_abs epoch"
  define t where "t = ts + zone_offset T A B ts"
  define f :: int where "f = (if T \<le> ts \<and> ts < T + (A - B) then 1 else 0)"
  define dt where "dt = (dt_of (E + t * 1000000) None)\<lparr>dt_fd := f\<rparr>"
  define ep where "ep = epoch\<lparr>dt_tz := None\<rparr>"
  have dt: "datetime_fromtimestamp (zone_localtime E T A B) gmtime ts None = Inr dt"
    unfolding dt_def t_def f_def E_def by (rule zone_fromtimestamp) (rule assms)+
  have ep: "naive_epoch (Some epoch) = Inr ep" "dt_tz ep = None" "dt_abs ep = E"
    using assms(1,3) by (simp_all add: naive_epoch_def datetime_replace_tz ep_def E_def dt_abs_def)
  have a: "dt_tz dt = None" "dt_abs dt = E + t * 1000000" "dt_fd dt = f"
    by (simp_all add: dt_def) (simp add: dt_abs_def dt_of_def)
  have sub: "datetime_sub_datetime dt ep = Inr (td_us (t * 1000000))"
    using naive_sub [OF a(1) ep(2)] by (simp add: a(2) ep(3))
  have l: "mktime_local (zone_localtime E T A B) ep u = Inr (u + (if u < T then A else B))"
    if "\<bar>u - t\<bar> \<le> 4 * 86400" for u
  proof -
    have "\<bar>zone_offset T A B ts\<bar> \<le> 86400" using assms(4,5) by (simp add: zone_offset_def)
    then have "\<bar>u - ts\<bar> \<le> 6 * 86400" using that unfolding t_def by linarith
    then have "datetime_of_fields (zone_localtime E T A B u) None = Inr (dt_of (E + (u + zone_offset T A B u) * 1000000) None)"
      using zone_local zone_representable [OF assms(7,8,4,5)] assms(2) by (simp add: E_def)
    then show ?thesis
      by (simp add: mktime_local_def naive_sub ep) (simp add: zone_offset_def)
  qed
  have "mktime_search (mktime_local (zone_localtime E T A B) ep) f t =
     Inr (if t < T + min A B then t - A else if T + max A B \<le> t then t - B
          else if f = 0 then t - A else t - B)"
    by (rule mktime_search_one [OF assms(6) l assms(4,5)])
  also have "\<dots> = Inr ts"
    using assms(6) by (auto simp: t_def f_def zone_offset_def)
  finally have "datetime_mktime (zone_localtime E T A B) (Some epoch) dt = Inr (ts, 0)"
    by (simp add: datetime_mktime_def ep(1) sub a)
  then show ?thesis using dt by (simp add: E_def)
qed

theorem mktime_inverts_fromtimestamp_witness:
  "rbind (datetime_fromtimestamp (zone_localtime (719163 * 86400000000) 1698541200 7200 3600) (\<lambda>_. (0, 0, 0, 0, 0, 0)) 1698542000 None)
     (datetime_mktime (zone_localtime (719163 * 86400000000) 1698541200 7200 3600) (Some (dt_of (719163 * 86400000000) None)))
   = Inr (1698542000, 0)"
  using mktime_inverts_fromtimestamp [of "dt_of (719163 * 86400000000) None" 7200 3600 1698542000 1698541200
      "\<lambda>_. (0, 0, 0, 0, 0, 0)"]
  by (simp add: wf_dt_of representable_def)

section \<open>Behaviours to know\<close>

text \<open>While \<open>datetime.EPOCH\<close> is not set, a naive datetime has no \<open>_mktime\<close>.\<close>

lemma mktime_without_EPOCH: "datetime_mktime localtime None self = Inl AttributeError"
  by (simp add: datetime_mktime_def naive_epoch_def)

text \<open>A time of day given in microseconds alone is accepted with any \<open>fold\<close>.\<close>

lemma fold_not_checked: "0 < us \<Longrightarrow> us < 86400000000 \<Longrightarrow> \<exists>t. time_new 0 0 0 us tz f = Inr t \<and> t_fd t = f"
  by (simp add: time_new_def time_check_def)

text \<open>The text that \<open>isoformat(timespec="milliseconds")\<close> writes for a negative offset is refused.\<close>

lemma milliseconds_negative_offset:
  "t2iso (td_us 123000) ''milliseconds'' (Some \<lparr>tz_offset = td_new 0 0 0 0 0 (-5) 0, tz_label = None\<rparr>) =
     Inr ''00:00:00.123-05:00'' \<and>
   time_fromisoformat ''00:00:00.123-05:00'' = Inl ValueError \<and>
   (case time_fromisoformat ''00:00:00.123+05:00'' of Inr t \<Rightarrow> us_of (t_td t) = 123000 | Inl e \<Rightarrow> False)"
  by code_simp

end
