(* ===== verification/Binascii.thy ===== *)
theory Binascii
  imports Prelude
begin

unbundle bit_operations_syntax

text \<open>
  \<open>python-stdlib/binascii/binascii.py\<close>: the base64 line codec and \<open>unhexlify\<close>. Bytes are
  \<open>8 word\<close>s, the bit buffer \<open>leftchar\<close> is an unbounded Python integer. \<open>hexlify\<close>, which the
  module takes from the C module, is modelled by its documentation: two lower case digits a byte.
\<close>

section \<open>Hexadecimal\<close>

definition hex_digit :: "nat \<Rightarrow> char" where
  "hex_digit d = ''0123456789abcdef'' ! d"

definition hexlify :: "bytes \<Rightarrow> bytes" where
  "hexlify bs = ascii (concat (map (\<lambda>b. [hex_digit (unat b div 16), hex_digit (unat b mod 16)]) bs))"

definition hex_value :: "nat \<Rightarrow> nat option" where
  "hex_value c =
     (if 48 \<le> c \<and> c \<le> 57 then Some (c - 48)
      else if 97 \<le> c \<and> c \<le> 102 then Some (c - 87)
      else if 65 \<le> c \<and> c \<le> 70 then Some (c - 55)
      else None)"

text \<open>
  \<open>int(pair, 16)\<close> for two characters: two digits, or one digit with a sign before it or white
  space beside it. \<open>bytes([...])\<close> refuses a negative number.
\<close>

definition is_white :: "nat \<Rightarrow> bool" where
  "is_white c \<longleftrightarrow> c \<in> {9, 10, 11, 12, 13, 32}"

definition int16_pair :: "byte \<Rightarrow> byte \<Rightarrow> int result" where
  "int16_pair a b =
     (case (hex_value (unat a), hex_value (unat b)) of
        (Some x, Some y) \<Rightarrow> Inr (int (16 * x + y))
      | (None, Some y) \<Rightarrow>
          if unat a = 43 \<or> is_white (unat a) then Inr (int y)
          else if unat a = 45 then Inr (- int y)
          else Inl ValueError
      | (Some x, None) \<Rightarrow> if is_white (unat b) then Inr (int x) else Inl ValueError
      | (None, None) \<Rightarrow> Inl ValueError)"

fun unhexlify_pairs :: "bytes \<Rightarrow> bytes result" where
  "unhexlify_pairs (a # b # rest) =
     rbind (int16_pair a b) (\<lambda>n.
     rbind (unhexlify_pairs rest) (\<lambda>bs.
       if 0 \<le> n \<and> n < 256 then Inr (of_int n # bs) else Inl ValueError))"
| "unhexlify_pairs _ = Inr []"

definition unhexlify :: "bytes \<Rightarrow> bytes result" where
  "unhexlify dat = (if length dat mod 2 \<noteq> 0 then Inl ValueError else unhexlify_pairs dat)"

section \<open>Decoding base64\<close>

definition PAD :: char where
  "PAD = CHR ''=''"

text \<open>The table as the module holds it after \<open>_transform\<close>: the codes, 0xFF for -1.\<close>

definition table_a2b_base64 :: "nat list" where
  "table_a2b_base64 =
     map (\<lambda>n. if n = -1 then 255 else nat n)
       (replicate 43 (-1) @ [62] @ replicate 3 (-1) @ [63] @
        [52, 53, 54, 55, 56, 57, 58, 59, 60, 61] @ replicate 7 (-1) @
        [0, 1, 2, 3, 4, 5, 6, 7, 8, 9, 10, 11, 12, 13, 14, 15, 16, 17, 18, 19, 20, 21, 22, 23, 24, 25] @
        replicate 6 (-1) @
        [26, 27, 28, 29, 30, 31, 32, 33, 34, 35, 36, 37, 38, 39, 40, 41, 42, 43, 44, 45, 46, 47, 48, 49,
         50, 51] @ replicate 133 (-1 :: int))"

text \<open>\<open>n.to_bytes(1, "big")\<close>\<close>

definition to_byte :: "nat \<Rightarrow> byte result" where
  "to_byte n = (if n < 256 then Inr (of_nat n) else Inl OverflowError)"

fun a2b_loop :: "bytes \<Rightarrow> nat \<Rightarrow> nat \<Rightarrow> nat \<Rightarrow> bool \<Rightarrow> bytes \<Rightarrow> bytes result" where
  "a2b_loop [] quad_pos leftchar leftbits last_char_was_a_pad res =
     (if leftbits \<noteq> 0 then Inl AnyException else Inr res)"
| "a2b_loop (c # cs) quad_pos leftchar leftbits last_char_was_a_pad res =
     (if c = byte_of_char PAD then
        if quad_pos > 2 \<or> (quad_pos = 2 \<and> last_char_was_a_pad) then Inr res
        else a2b_loop cs quad_pos leftchar leftbits True res
      else
        let n = table_a2b_base64 ! unat c in
        if n = 0xFF then a2b_loop cs quad_pos leftchar leftbits last_char_was_a_pad res
        else
          let quad_pos = (quad_pos + 1) AND 3;
              leftchar = push_bit 6 leftchar OR n;
              leftbits = leftbits + 6
          in
          if leftbits \<ge> 8 then
            let leftbits = leftbits - 8 in
            rbind (to_byte (drop_bit leftbits leftchar)) (\<lambda>b.
            a2b_loop cs quad_pos (leftchar AND (push_bit leftbits 1 - 1)) leftbits False (res @ [b]))
          else a2b_loop cs quad_pos leftchar leftbits False res)"

definition a2b_base64 :: "bytes \<Rightarrow> bytes result" where
  "a2b_base64 line = a2b_loop line 0 0 0 False []"

section \<open>Encoding base64\<close>

definition table_b2a_base64 :: string where
  "table_b2a_base64 = ''ABCDEFGHIJKLMNOPQRSTUVWXYZabcdefghijklmnopqrstuvwxyz0123456789+/''"

fun b2a_loop :: "bytes \<Rightarrow> nat \<Rightarrow> nat \<Rightarrow> string \<Rightarrow> nat \<times> nat \<times> string" where
  "b2a_loop [] leftchar leftbits res = (leftchar, leftbits, res)"
| "b2a_loop (c # cs) leftchar leftbits res =
     (let leftchar = push_bit 8 leftchar OR unat c;
          leftbits = leftbits + 8;
          res = res @ [table_b2a_base64 ! (drop_bit (leftbits - 6) leftchar AND 0x3F)];
          leftbits = leftbits - 6
      in if leftbits \<ge> 6 then
           let res = res @ [table_b2a_base64 ! (drop_bit (leftbits - 6) leftchar AND 0x3F)];
               leftbits = leftbits - 6
           in b2a_loop cs leftchar leftbits res
         else b2a_loop cs leftchar leftbits res)"

definition b2a_base64 :: "bytes \<Rightarrow> bool \<Rightarrow> bytes" where
  "b2a_base64 bin newline =
     (case b2a_loop bin 0 0 [] of (leftchar, leftbits, res) \<Rightarrow>
        let res = (if leftbits = 2 then res @ [table_b2a_base64 ! push_bit 4 (leftchar AND 3), PAD, PAD]
                   else if leftbits = 4 then res @ [table_b2a_base64 ! push_bit 2 (leftchar AND 0xF), PAD]
                   else res);
            res = (if newline then res @ [CHR 0x0A] else res)
        in ascii res)"

section \<open>Bits and division\<close>

lemma or_shift_add: "b < 2 ^ n \<Longrightarrow> push_bit n a OR b = a * 2 ^ n + (b :: nat)"
proof -
  assume b: "b < 2 ^ n"
  then have "take_bit n b = b" by (simp add: take_bit_nat_eq_self)
  then have "\<not> bit (push_bit n a) k \<or> \<not> bit b k" for k
    by (metis bit_push_bit_iff bit_take_bit_iff leD)
  then have "push_bit n a + b = push_bit n a OR b" by (rule disjunctive_add)
  then show ?thesis by (simp add: push_bit_eq_mult)
qed

lemma and_masks [simp]:
  "n AND 3 = n mod 4" "n AND 15 = n mod 16" "n AND 63 = n mod (64 :: nat)"
proof -
  have m: "n AND mask k = n mod 2 ^ k" for k by (simp add: take_bit_eq_mod flip: take_bit_eq_mask)
  have "mask 2 = (3 :: nat)" "mask 4 = (15 :: nat)" "mask 6 = (63 :: nat)" by (simp_all add: mask_eq_exp_minus_1)
  with m [of 2] m [of 4] m [of 6] show "n AND 3 = n mod 4" "n AND 15 = n mod 16" "n AND 63 = n mod 64"
    by simp_all
qed

lemma and_low_mask: "n AND (push_bit k 1 - 1) = n mod (2 ^ k :: nat)"
proof -
  have "push_bit k (1 :: nat) - 1 = mask k" by (simp add: mask_eq_exp_minus_1 push_bit_eq_mult)
  then show ?thesis by (simp only: take_bit_eq_mod flip: take_bit_eq_mask)
qed

lemma unat_byte_less [simp]: "unat (b :: byte) < 256"
  using unsigned_less [of b] by simp

section \<open>The tables are inverse\<close>

definition b64_char :: "nat \<Rightarrow> byte" where
  "b64_char k = byte_of_char (table_b2a_base64 ! k)"

lemma table_a2b_literal:
  "table_a2b_base64 = replicate 43 255 @ 62 # replicate 3 255 @ 63 # [52..<62] @ replicate 7 255 @
     [0..<26] @ replicate 6 255 @ [26..<52] @ replicate 133 255"
  by (simp add: table_a2b_base64_def upt_rec)

lemma length_table_a2b: "length table_a2b_base64 = 256"
  by (simp add: table_a2b_literal)

lemma table_b2a_codes:
  "map (\<lambda>c. of_char c :: nat) table_b2a_base64 = [65..<91] @ [97..<123] @ [48..<58] @ [43, 47]"
  by (simp add: table_b2a_base64_def upt_rec)

lemma table_a2b_codes:
  "map ((!) table_a2b_base64) ([65..<91] @ [97..<123] @ [48..<58] @ [43, 47]) = [0..<64]"
  unfolding table_a2b_literal by code_simp

lemma unat_byte_of_char [simp]: "unat (byte_of_char c) = of_char c"
proof -
  have "(of_char c :: nat) < 2 ^ 8" using nat_of_char_less_256 [of c] by simp
  then show ?thesis by (simp add: byte_of_char_def unat_of_nat)
qed

lemma tables_inverse: "k < 64 \<Longrightarrow> table_a2b_base64 ! unat (b64_char k) = k \<and> b64_char k \<noteq> byte_of_char PAD"
proof -
  assume k: "k < 64"
  have l: "length table_b2a_base64 = 64" by (simp add: table_b2a_base64_def)
  have "map ((!) table_a2b_base64) (map of_char table_b2a_base64) ! k = k"
    unfolding table_b2a_codes table_a2b_codes using k by simp
  then have 1: "table_a2b_base64 ! unat (b64_char k) = k" using k l by (simp add: b64_char_def)
  have "table_a2b_base64 ! unat (byte_of_char PAD) = 255"
    unfolding table_a2b_literal PAD_def unat_byte_of_char by code_simp
  then show ?thesis using 1 k by auto
qed

section \<open>The encoding by RFC 4648\<close>

text \<open>The specification: three bytes are four six-bit numbers; a rest of one or two is padded.\<close>

fun rfc_base64 :: "bytes \<Rightarrow> bytes" where
  "rfc_base64 (a # b # c # rest) =
     [b64_char (unat a div 4), b64_char (unat a mod 4 * 16 + unat b div 16),
      b64_char (unat b mod 16 * 4 + unat c div 64), b64_char (unat c mod 64)] @ rfc_base64 rest"
| "rfc_base64 [a, b] =
     [b64_char (unat a div 4), b64_char (unat a mod 4 * 16 + unat b div 16),
      b64_char (unat b mod 16 * 4), byte_of_char PAD]"
| "rfc_base64 [a] =
     [b64_char (unat a div 4), b64_char (unat a mod 4 * 16), byte_of_char PAD, byte_of_char PAD]"
| "rfc_base64 [] = []"

lemma shift_div_mod:
  fixes x b :: nat
  assumes b: "b < m * k" and k: "0 < k"
  shows "(x * (m * k) + b) div k mod (n * m) = x mod n * m + b div k"
proof -
  have "(x * (m * k) + b) div k = x * m + b div k"
    using div_mult_self1 [of k b "x * m"] k by (simp add: algebra_simps)
  also have "\<dots> = n * m * (x div n) + (x mod n * m + b div k)"
    using mult_div_mod_eq [of n x] by (metis add.assoc distrib_right mult.assoc mult.commute)
  finally have e: "(x * (m * k) + b) div k = n * m * (x div n) + (x mod n * m + b div k)" .
  show ?thesis
  proof (cases "n = 0")
    case True
    then show ?thesis using e by simp
  next
    case False
    have d: "b div k < m" using b k by (simp add: less_mult_imp_div_less)
    have "x mod n * m + b div k < (x mod n + 1) * m" using d by simp
    also have "\<dots> \<le> n * m" using False by (intro mult_right_mono) (simp_all add: Suc_leI)
    finally show ?thesis by (simp add: e)
  qed
qed

lemma sextets:
  fixes x b :: nat assumes "b < 256"
  shows "(x * 256 + b) div 4 mod 64 = b div 4"
    "(x * 256 + b) div 16 mod 64 = x mod 4 * 16 + b div 16"
    "(x * 256 + b) div 64 mod 64 = x mod 16 * 4 + b div 64"
    "(x * 256 + b) mod 4 = b mod 4" "(x * 256 + b) mod 16 = b mod 16" "(x * 256 + b) mod 64 = b mod 64"
proof -
  show "(x * 256 + b) div 4 mod 64 = b div 4" using shift_div_mod [of b 64 4 x 1] assms by simp
  show "(x * 256 + b) div 16 mod 64 = x mod 4 * 16 + b div 16" using shift_div_mod [of b 16 16 x 4] assms by simp
  show "(x * 256 + b) div 64 mod 64 = x mod 16 * 4 + b div 64" using shift_div_mod [of b 4 64 x 16] assms by simp
  have "(x * 256 + b) mod k = b mod k" if "256 = j * k" for j k
    unfolding that using mod_mult_self1 [of b "x * j" k] by (simp add: algebra_simps)
  from this [of 64 4] this [of 16 16] this [of 4 64]
  show "(x * 256 + b) mod 4 = b mod 4" "(x * 256 + b) mod 16 = b mod 16" "(x * 256 + b) mod 64 = b mod 64"
    by simp_all
qed

lemma shift_byte: "push_bit 8 x OR unat (b :: byte) = x * 256 + unat b"
  using or_shift_add [of "unat b" 8 x] by simp

definition enc_char :: "nat \<Rightarrow> char" where
  "enc_char k = table_b2a_base64 ! k"

lemma b2a_step:
  "b2a_loop (c # cs) x 0 res = b2a_loop cs (x * 256 + unat c) 2 (res @ [enc_char (unat c div 4)])"
  "b2a_loop (c # cs) x 2 res =
     b2a_loop cs (x * 256 + unat c) 4 (res @ [enc_char (x mod 4 * 16 + unat c div 16)])"
  "b2a_loop (c # cs) x 4 res =
     b2a_loop cs (x * 256 + unat c) 0 (res @ [enc_char (x mod 16 * 4 + unat c div 64), enc_char (unat c mod 64)])"
  by (simp_all add: Let_def shift_byte drop_bit_eq_div sextets [OF unat_byte_less] enc_char_def)

lemmas mod_byte = sextets(4-6) [OF unat_byte_less]

lemma b2a_rfc: "b2a_base64 bin False = rfc_base64 bin"
proof -
  have "(case b2a_loop bin x 0 res of (leftchar, leftbits, res) \<Rightarrow>
      ascii (if leftbits = 2 then res @ [enc_char (push_bit 4 (leftchar AND 3)), PAD, PAD]
       else if leftbits = 4 then res @ [enc_char (push_bit 2 (leftchar AND 0xF)), PAD] else res)) =
      ascii res @ rfc_base64 bin" for x res
  proof (induction bin arbitrary: x res rule: rfc_base64.induct)
    case (1 a b c rest)
    show ?case
      unfolding b2a_step mod_byte 1
      by (simp add: ascii_def b64_char_def enc_char_def)
  qed (simp_all only: b2a_step b2a_loop.simps(1) prod.case and_masks mod_byte,
       simp_all add: ascii_def b64_char_def enc_char_def push_bit_eq_mult)
  note loop = this [of 0 "[]"]
  obtain lc lb r where "b2a_loop bin 0 0 [] = (lc, lb, r)" by (cases "b2a_loop bin 0 0 []")
  with loop show ?thesis
    by (cases "lb = 2"; cases "lb = 4") (simp_all add: b2a_base64_def enc_char_def ascii_def)
qed

lemma b2a_newline: "b2a_base64 bin True = b2a_base64 bin False @ [0x0A]"
  by (simp add: b2a_base64_def ascii_def byte_of_char_def Let_def split: prod.split)

section \<open>Decoding what was encoded\<close>

text \<open>One step of the decoder on a character of the alphabet, by the state of the quad.\<close>

lemma to_byte_small: "n < 256 \<Longrightarrow> to_byte n = Inr (of_nat n)"
  by (simp add: to_byte_def)

lemma shift_sextet: "(k :: nat) < 64 \<Longrightarrow> push_bit 6 x OR k = x * 64 + k"
  using or_shift_add [of k 6 x] by simp

lemma a2b_step:
  assumes k: "k < 64"
  shows "a2b_loop (b64_char k # cs) 0 0 0 f res = a2b_loop cs 1 k 6 False res"
    "x * 64 + k = y * 16 + z \<Longrightarrow> z < 16 \<Longrightarrow> y < 256 \<Longrightarrow>
       a2b_loop (b64_char k # cs) 1 x 6 f res = a2b_loop cs 2 z 4 False (res @ [of_nat y])"
    "x * 64 + k = y * 4 + z \<Longrightarrow> z < 4 \<Longrightarrow> y < 256 \<Longrightarrow>
       a2b_loop (b64_char k # cs) 2 x 4 f res = a2b_loop cs 3 z 2 False (res @ [of_nat y])"
    "x * 64 + k = y \<Longrightarrow> y < 256 \<Longrightarrow>
       a2b_loop (b64_char k # cs) 3 x 2 f res = a2b_loop cs 0 0 0 False (res @ [of_nat y])"
proof -
  have t: "table_a2b_base64 ! unat (b64_char k) = k" "b64_char k \<noteq> byte_of_char PAD" "k \<noteq> 255"
    using tables_inverse [OF k] k by auto
  have q: "(1 + 1) AND 3 = (2 :: nat)" "(2 + 1) AND 3 = (3 :: nat)" "(3 + 1) AND 3 = (0 :: nat)"
    "6 + 6 = (12 :: nat)" "12 - 8 = (4 :: nat)" "4 + 6 = (10 :: nat)" "10 - 8 = (2 :: nat)" "2 + 6 = (8 :: nat)"
    by simp_all
  show "a2b_loop (b64_char k # cs) 0 0 0 f res = a2b_loop cs 1 k 6 False res"
    using or_shift_add [of k 6 0] k by (simp add: t Let_def)
  show "a2b_loop (b64_char k # cs) 1 x 6 f res = a2b_loop cs 2 z 4 False (res @ [of_nat y])"
    if e: "x * 64 + k = y * 16 + z" "z < 16" "y < 256"
    unfolding a2b_loop.simps Let_def q t(1) shift_sextet [OF k] e(1) and_low_mask drop_bit_eq_div
    using t(2,3) e(2,3) by (simp add: to_byte_small)
  show "a2b_loop (b64_char k # cs) 2 x 4 f res = a2b_loop cs 3 z 2 False (res @ [of_nat y])"
    if e: "x * 64 + k = y * 4 + z" "z < 4" "y < 256"
    unfolding a2b_loop.simps Let_def q t(1) shift_sextet [OF k] e(1) and_low_mask drop_bit_eq_div
    using t(2,3) e(2,3) by (simp add: to_byte_small)
  show "a2b_loop (b64_char k # cs) 3 x 2 f res = a2b_loop cs 0 0 0 False (res @ [of_nat y])"
    if e: "x * 64 + k = y" "y < 256"
    unfolding a2b_loop.simps Let_def q t(1) shift_sextet [OF k] e(1) and_low_mask drop_bit_eq_div
    using t(2,3) e(2) by (simp add: to_byte_small)
qed

lemma a2b_pad:
  "a2b_loop (byte_of_char PAD # cs) 2 x l False res = a2b_loop cs 2 x l True res"
  "a2b_loop (byte_of_char PAD # cs) 2 x l True res = Inr res"
  "a2b_loop (byte_of_char PAD # cs) 3 x l f res = Inr res"
  by simp_all

lemma split_byte:
  fixes a y :: nat
  shows "a div 4 * 64 + (a mod 4 * 16 + y) = a * 16 + y" "a div 16 * 64 + (a mod 16 * 4 + y) = a * 4 + y"
    "a div 64 * 64 + a mod 64 = a"
  using mult_div_mod_eq [of 4 a] mult_div_mod_eq [of 16 a] mult_div_mod_eq [of 64 a] by linarith+

lemma byte_parts:
  fixes b :: byte
  shows "unat b div 4 < 64" "unat b mod 4 * 16 + 15 < 64" "unat b div 16 < 16" "unat b mod 16 * 4 + 3 < 64"
    "unat b div 64 < 4" "unat b mod 64 < 64"
  using unat_byte_less [of b] by (auto simp: less_mult_imp_div_less)

lemma a2b_three:
  "a2b_loop (rfc_base64 [a, b, c] @ cs) 0 0 0 f res = a2b_loop cs 0 0 0 False (res @ [a, b, c])"
proof -
  have k: "unat a div 4 < 64" "unat a mod 4 * 16 + unat b div 16 < 64"
    "unat b mod 16 * 4 + unat c div 64 < 64" "unat c mod 64 < 64"
    using byte_parts [of a] byte_parts [of b] byte_parts [of c] by linarith+
  show ?thesis
    using a2b_step(1) [OF k(1)] a2b_step(2) [OF k(2) split_byte(1) byte_parts(3) unat_byte_less]
      a2b_step(3) [OF k(3) split_byte(2) byte_parts(5) unat_byte_less]
      a2b_step(4) [OF k(4) split_byte(3) unat_byte_less]
    by simp
qed

lemma a2b_tail:
  "a2b_loop (rfc_base64 [a, b]) 0 0 0 f res = Inr (res @ [a, b])"
  "a2b_loop (rfc_base64 [a]) 0 0 0 f res = Inr (res @ [a])"
proof -
  have k: "unat a div 4 < 64" "unat a mod 4 * 16 + unat b div 16 < 64" "unat b mod 16 * 4 < 64" "unat a mod 4 * 16 < 64"
    using byte_parts [of a] byte_parts [of b] by linarith+
  have s: "a div 16 * 64 + a mod 16 * 4 = a * 4 + 0" "a div 4 * 64 + a mod 4 * 16 = a * 16 + 0" for a :: nat
    using split_byte(1,2) [of a 0] by simp_all
  show "a2b_loop (rfc_base64 [a, b]) 0 0 0 f res = Inr (res @ [a, b])"
    using a2b_step(1) [OF k(1)] a2b_step(2) [OF k(2) split_byte(1) byte_parts(3) unat_byte_less]
      a2b_step(3) [OF k(3) s(1) zero_less_numeral unat_byte_less] a2b_pad
    by (simp del: a2b_loop.simps)
  show "a2b_loop (rfc_base64 [a]) 0 0 0 f res = Inr (res @ [a])"
    using a2b_step(1) [OF k(1)] a2b_step(2) [OF k(4) s(2) zero_less_numeral unat_byte_less] a2b_pad
    by (simp del: a2b_loop.simps)
qed

lemma a2b_rfc: "a2b_loop (rfc_base64 s) 0 0 0 f res = Inr (res @ s)"
proof (induction s arbitrary: res f rule: rfc_base64.induct)
  case (1 a b c rest)
  have "rfc_base64 (a # b # c # rest) = rfc_base64 [a, b, c] @ rfc_base64 rest" by simp
  then show ?case using 1 a2b_three by simp
qed (simp_all only: a2b_tail, simp)

lemma a2b_rfc_append:
  "length s mod 3 = 0 \<Longrightarrow> a2b_loop (rfc_base64 s @ cs) 0 0 0 False res = a2b_loop cs 0 0 0 False (res @ s)"
proof (induction s arbitrary: res rule: rfc_base64.induct)
  case (1 a b c rest)
  have "rfc_base64 (a # b # c # rest) @ cs = rfc_base64 [a, b, c] @ rfc_base64 rest @ cs" by simp
  moreover have "length rest mod 3 = 0" using 1(2) by (simp add: mod_Suc split: if_splits)
  ultimately show ?case using 1(1) a2b_three [where cs = "rfc_base64 rest @ cs"] by simp
qed simp_all

text \<open>Characters outside the alphabet are passed over.\<close>

text \<open>The alphabet of RFC 4648: \<open>A\<close> to \<open>Z\<close>, \<open>a\<close> to \<open>z\<close>, \<open>0\<close> to \<open>9\<close>, \<open>+\<close> and \<open>/\<close>, and the padding \<open>=\<close>.\<close>

definition b64_alphabet :: "byte \<Rightarrow> bool" where
  "b64_alphabet c \<longleftrightarrow>
     65 \<le> unat c \<and> unat c \<le> 90 \<or> 97 \<le> unat c \<and> unat c \<le> 122 \<or> 48 \<le> unat c \<and> unat c \<le> 57 \<or> unat c \<in> {43, 47, 61}"

lemma set_positions: "set (map fst (filter (\<lambda>p. P (snd p)) (enumerate 0 xs))) = {k. k < length xs \<and> P (xs ! k)}"
proof (rule set_eqI)
  fix k
  show "k \<in> set (map fst (filter (\<lambda>p. P (snd p)) (enumerate 0 xs))) \<longleftrightarrow> k \<in> {k. k < length xs \<and> P (xs ! k)}"
    by (auto simp: in_set_enumerate_eq intro!: image_eqI [of k fst "(k, xs ! k)"])
qed

text \<open>The table of the decoder knows exactly these characters.\<close>

lemma table_alphabet: "b64_alphabet c \<longleftrightarrow> c = byte_of_char PAD \<or> table_a2b_base64 ! unat c \<noteq> 255"
proof -
  have "map fst (filter (\<lambda>p. snd p \<noteq> 255) (enumerate 0 table_a2b_base64)) = [43] @ [47..<58] @ [65..<91] @ [97..<123]"
    unfolding table_a2b_literal by code_simp
  then have "set (map fst (filter (\<lambda>p. snd p \<noteq> 255) (enumerate 0 table_a2b_base64))) = {43} \<union> {47..<58} \<union> {65..<91} \<union> {97..<123}"
    by (simp only: set_append set_upt list.set Un_assoc)
  moreover have "set (map fst (filter (\<lambda>p. snd p \<noteq> 255) (enumerate 0 table_a2b_base64))) = {k. k < 256 \<and> table_a2b_base64 ! k \<noteq> 255}"
    using set_positions [of "\<lambda>n. n \<noteq> 255" table_a2b_base64] by (simp only: length_table_a2b)
  ultimately have "k < 256 \<Longrightarrow> table_a2b_base64 ! k \<noteq> 255 \<longleftrightarrow> k \<in> {43} \<union> {47..<58} \<union> {65..<91} \<union> {97..<123}" for k by blast
  from this [of "unat c"] have "table_a2b_base64 ! unat c \<noteq> 255 \<longleftrightarrow> unat c \<in> {43} \<union> {47..<58} \<union> {65..<91} \<union> {97..<123}" by simp
  moreover have "k \<in> {43} \<union> {47..<58} \<union> {65..<91} \<union> {97..<123} \<or> k = 61 \<longleftrightarrow>
      65 \<le> k \<and> k \<le> 90 \<or> 97 \<le> k \<and> k \<le> 122 \<or> 48 \<le> k \<and> k \<le> 57 \<or> k \<in> {43, 47, 61}" for k :: nat
    unfolding Un_iff atLeastLessThan_iff insert_iff empty_iff by presburger
  moreover have "c = byte_of_char PAD \<longleftrightarrow> unat c = 61"
    using unat_byte_of_char [of PAD] by (simp add: word_unat_eq_iff PAD_def)
  ultimately show ?thesis unfolding b64_alphabet_def by blast
qed

lemma a2b_filter:
  "a2b_loop (filter b64_alphabet cs) q x l f res = a2b_loop cs q x l f res"
  by (induction cs arbitrary: q x l f res)
    (auto simp: table_alphabet Let_def simp del: and_masks intro!: rbind_cong)

end
