(* ===== verification/Base64.thy ===== *)
theory Base64
  imports Binascii
begin

unbundle bit_operations_syntax

text \<open>
  \<open>python-stdlib/base64/base64.py\<close>: base64, base32 and base16 and the line oriented interface.
  Arguments are byte strings (the \<open>isinstance\<close> tests hold); an argument that may also be a \<open>str\<close>
  has the type \<open>text_or_bytes\<close>. \<open>binascii.Error\<close> is \<open>BinasciiError\<close>.
\<close>

section \<open>Arguments\<close>

datatype text_or_bytes = Text string | Bytes bytes

text \<open>\<open>s.encode("ascii")\<close> fails above code 127; every failure is turned into a ValueError.\<close>

definition bytes_from_decode_data :: "text_or_bytes \<Rightarrow> bytes result" where
  "bytes_from_decode_data s =
     (case s of
        Text t \<Rightarrow> if \<forall>c\<in>set t. (of_char c :: nat) < 128 then Inr (ascii t) else Inl ValueError
      | Bytes b \<Rightarrow> Inr b)"

text \<open>\<open>dict(zip(f, t))\<close>: a later pair wins.\<close>

definition maketrans :: "bytes \<Rightarrow> bytes \<Rightarrow> (byte \<rightharpoonup> byte) result" where
  "maketrans f t = (if length f \<noteq> length t then Inl ValueError else Inr (map_of (rev (zip f t))))"

definition translate :: "bytes \<Rightarrow> (byte \<rightharpoonup> byte) \<Rightarrow> bytes" where
  "translate input_bytes trans_table =
     map (\<lambda>byte. case trans_table byte of None \<Rightarrow> byte | Some b \<Rightarrow> b) input_bytes"

text \<open>\<open>s.upper()\<close> on bytes\<close>

definition upper_byte :: "byte \<Rightarrow> byte" where
  "upper_byte c = (if 97 \<le> unat c \<and> unat c \<le> 122 then c - 32 else c)"

section \<open>Base 64\<close>

definition b64encode :: "bytes \<Rightarrow> bytes option \<Rightarrow> bytes result" where
  "b64encode s altchars =
     (let encoded = drop_last 1 (b2a_base64 s True) in
      case altchars of
        None \<Rightarrow> Inr encoded
      | Some alt \<Rightarrow>
          if length alt \<noteq> 2 then Inl AssertionError
          else rbind (maketrans (ascii ''+/'') alt) (\<lambda>t. Inr (translate encoded t)))"

text \<open>\<open>re.match(b"^[A-Za-z0-9+/]*=*$", s)\<close>; \<open>$\<close> is the end of the string.\<close>

definition b64_digit :: "byte \<Rightarrow> bool" where
  "b64_digit c \<longleftrightarrow> 65 \<le> unat c \<and> unat c \<le> 90 \<or> 97 \<le> unat c \<and> unat c \<le> 122 \<or>
     48 \<le> unat c \<and> unat c \<le> 57 \<or> unat c = 43 \<or> unat c = 47"

definition b64_shape :: "bytes \<Rightarrow> bool" where
  "b64_shape s \<longleftrightarrow> list_all (\<lambda>c. c = byte_of_char CHR ''='') (dropWhile b64_digit s)"

definition b64decode :: "text_or_bytes \<Rightarrow> text_or_bytes option \<Rightarrow> bool \<Rightarrow> bytes result" where
  "b64decode s altchars validate =
     rbind (bytes_from_decode_data s) (\<lambda>s.
     rbind
       (case altchars of
          None \<Rightarrow> Inr s
        | Some alt \<Rightarrow>
            rbind (bytes_from_decode_data alt) (\<lambda>alt.
            if length alt \<noteq> 2 then Inl AssertionError
            else rbind (maketrans alt (ascii ''+/'')) (\<lambda>t. Inr (translate s t))))
       (\<lambda>s. if validate \<and> \<not> b64_shape s then Inl BinasciiError else a2b_base64 s))"

definition standard_b64encode :: "bytes \<Rightarrow> bytes result" where
  "standard_b64encode s = b64encode s None"

definition standard_b64decode :: "text_or_bytes \<Rightarrow> bytes result" where
  "standard_b64decode s = b64decode s None False"

definition rstrip_newline :: "bytes \<Rightarrow> bytes" where
  "rstrip_newline s = rev (dropWhile (\<lambda>c. c = 0x0A) (rev s))"

definition urlsafe_b64encode :: "bytes \<Rightarrow> bytes result" where
  "urlsafe_b64encode s = rbind (b64encode s (Some (ascii ''-_''))) (\<lambda>e. Inr (rstrip_newline e))"

definition urlsafe_b64decode :: "text_or_bytes \<Rightarrow> bytes result" where
  "urlsafe_b64decode s = Inl NotImplementedError"

section \<open>Base 32\<close>

text \<open>\<open>_b32alphabet\<close> in the order of its keys, which is \<open>_b32tab\<close>; \<open>_b32rev\<close> is its inverse.\<close>

definition b32alphabet :: "(nat \<times> string) list" where
  "b32alphabet =
     [(0, ''A''), (9, ''J''), (18, ''S''), (27, ''3''), (1, ''B''), (10, ''K''), (19, ''T''), (28, ''4''),
      (2, ''C''), (11, ''L''), (20, ''U''), (29, ''5''), (3, ''D''), (12, ''M''), (21, ''V''), (30, ''6''),
      (4, ''E''), (13, ''N''), (22, ''W''), (31, ''7''), (5, ''F''), (14, ''O''), (23, ''X''),
      (6, ''G''), (15, ''P''), (24, ''Y''), (7, ''H''), (16, ''Q''), (25, ''Z''), (8, ''I''), (17, ''R''), (26, ''2'')]"

definition b32tab :: bytes where
  "b32tab = map (\<lambda>(k, v). byte_of_char (v ! 0)) (sort_key fst b32alphabet)"

definition b32rev :: "byte \<rightharpoonup> nat" where
  "b32rev = map_of (rev (map (\<lambda>(k, v). (byte_of_char (v ! 0), k)) b32alphabet))"

text \<open>One quantum: \<open>struct.unpack("!HHB", ...)\<close> of five bytes, cut into eight numbers of five bits.\<close>

definition b32_quantum :: "bytes \<Rightarrow> bytes" where
  "b32_quantum q =
     (let c1 = unat (q ! 0) * 256 + unat (q ! 1);
          c2 = unat (q ! 2) * 256 + unat (q ! 3);
          c3 = unat (q ! 4);
          c2 = c2 + push_bit 16 (c1 AND 1);
          c3 = c3 + push_bit 8 (c2 AND 3)
      in [b32tab ! drop_bit 11 c1, b32tab ! (drop_bit 6 c1 AND 0x1F), b32tab ! (drop_bit 1 c1 AND 0x1F),
          b32tab ! drop_bit 12 c2, b32tab ! (drop_bit 7 c2 AND 0x1F), b32tab ! (drop_bit 2 c2 AND 0x1F),
          b32tab ! drop_bit 5 c3, b32tab ! (c3 AND 0x1F)])"

fun b32_quanta :: "nat \<Rightarrow> nat \<Rightarrow> bytes \<Rightarrow> bytes" where
  "b32_quanta 0 i s = []"
| "b32_quanta (Suc n) i s = b32_quantum (slice s (i * 5) ((i + 1) * 5)) @ b32_quanta n (i + 1) s"

definition b32encode :: "bytes \<Rightarrow> bytes" where
  "b32encode s =
     (let quanta = length s div 5; leftover = length s mod 5;
          (s, quanta) = (if leftover \<noteq> 0 then (s @ replicate (5 - leftover) 0, quanta + 1) else (s, quanta));
          encoded = b32_quanta quanta 0 s
      in if leftover = 1 then drop_last 6 encoded @ ascii ''======''
         else if leftover = 2 then drop_last 4 encoded @ ascii ''====''
         else if leftover = 3 then drop_last 3 encoded @ ascii ''===''
         else if leftover = 4 then drop_last 1 encoded @ ascii ''=''
         else encoded)"

text \<open>\<open>bytes("%010x" % acc, "ascii")\<close>: at least ten digits.\<close>

fun hex_str :: "nat \<Rightarrow> string" where
  "hex_str n = (if n < 16 then [hex_digit n] else hex_str (n div 16) @ [hex_digit (n mod 16)])"

declare hex_str.simps [simp del]

definition format_010x :: "nat \<Rightarrow> bytes" where
  "format_010x n = ascii (replicate (10 - length (hex_str n)) CHR ''0'' @ hex_str n)"

text \<open>The loop over the characters; the shift counts down from 35 and may become negative.\<close>

fun b32_loop :: "bytes \<Rightarrow> nat \<Rightarrow> int \<Rightarrow> bytes list \<Rightarrow> (bytes list \<times> nat) result" where
  "b32_loop [] acc shift parts = Inr (parts, acc)"
| "b32_loop (c # cs) acc shift parts =
     (case b32rev c of
        None \<Rightarrow> Inl BinasciiError
      | Some val \<Rightarrow>
          let acc = acc + push_bit (nat shift) val; shift = shift - 5 in
          if shift < 0 then
            rbind (unhexlify (format_010x acc)) (\<lambda>part. b32_loop cs 0 35 (parts @ [part]))
          else b32_loop cs acc shift parts)"

definition find_byte :: "bytes \<Rightarrow> byte \<Rightarrow> int" where
  "find_byte s c = (if c \<in> set s then int (length (takeWhile (\<lambda>x. x \<noteq> c) s)) else -1)"

definition b32decode :: "text_or_bytes \<Rightarrow> bool \<Rightarrow> text_or_bytes option \<Rightarrow> bytes result" where
  "b32decode s casefold map01 =
     rbind (bytes_from_decode_data s) (\<lambda>s.
     if length s mod 8 \<noteq> 0 then Inl BinasciiError
     else
       rbind
         (case map01 of
            None \<Rightarrow> Inr s
          | Some m \<Rightarrow>
              rbind (bytes_from_decode_data m) (\<lambda>m.
              if length m \<noteq> 1 then Inl AssertionError
              else rbind (maketrans (ascii ''01'') (ascii ''O'' @ m)) (\<lambda>t. Inr (translate s t))))
         (\<lambda>s.
            let s = (if casefold then map upper_byte s else s);
                p = find_byte s (byte_of_char CHR ''='');
                (padchars, s) =
                  (if p > 0 then let padchars = length s - nat p in (padchars, drop_last padchars s)
                   else (0, s))
            in
            rbind (b32_loop s 0 35 []) (\<lambda>(parts, acc).
            rbind (unhexlify (format_010x acc)) (\<lambda>last.
            rbind
              (if padchars = 0 then Inr []
               else if padchars = 1 then Inr (drop_last 1 last)
               else if padchars = 3 then Inr (drop_last 2 last)
               else if padchars = 4 then Inr (drop_last 3 last)
               else if padchars = 6 then Inr (drop_last 4 last)
               else Inl BinasciiError)
              (\<lambda>last. Inr (concat (parts @ [last])))))))"

section \<open>Base 16\<close>

definition b16encode :: "bytes \<Rightarrow> bytes" where
  "b16encode s = map upper_byte (hexlify s)"

definition b16_digit :: "byte \<Rightarrow> bool" where
  "b16_digit c \<longleftrightarrow> 48 \<le> unat c \<and> unat c \<le> 57 \<or> 65 \<le> unat c \<and> unat c \<le> 70"

definition b16decode :: "text_or_bytes \<Rightarrow> bool \<Rightarrow> bytes result" where
  "b16decode s casefold =
     rbind (bytes_from_decode_data s) (\<lambda>s.
     let s = (if casefold then map upper_byte s else s) in
     if \<not> list_all b16_digit s then Inl BinasciiError else unhexlify s)"

section \<open>Lines and files\<close>

definition MAXLINESIZE :: nat where "MAXLINESIZE = 76"
definition MAXBINSIZE :: nat where "MAXBINSIZE = (MAXLINESIZE div 4) * 3"

text \<open>
  A binary input file is the list of the pieces its \<open>read\<close> can deliver at once: \<open>read(n)\<close> returns at
  most \<open>n\<close> bytes of the next piece that is not empty, and the empty string only at the end.
\<close>

fun file_read :: "nat \<Rightarrow> bytes list \<Rightarrow> bytes \<times> bytes list" where
  "file_read n [] = ([], [])"
| "file_read n (p # ps) = (if p = [] then file_read n ps else (take n p, drop n p # ps))"

definition file_readline :: "bytes \<Rightarrow> bytes \<times> bytes" where
  "file_readline s =
     (let l = takeWhile (\<lambda>c. c \<noteq> 0x0A) s in
      if length l < length s then (l @ [0x0A], drop (length l + 1) s) else (l, []))"

text \<open>The inner loop of \<open>encode\<close>: read on until a whole line is there or the file ends.\<close>

lemma file_read_split: "(b, f') = file_read n f \<Longrightarrow> concat f = b @ concat f'"
  by (induction n f rule: file_read.induct) (auto split: if_splits)

lemma file_read_length: "(b, f') = file_read n f \<Longrightarrow> length b \<le> n"
  by (induction n f rule: file_read.induct) (auto split: if_splits)

lemma file_read_end: "(b, f') = file_read n f \<Longrightarrow> 0 < n \<Longrightarrow> b = [] \<Longrightarrow> concat f = []"
  by (induction n f rule: file_read.induct) (auto split: if_splits)

function fill_line :: "bytes \<Rightarrow> bytes list \<Rightarrow> bytes \<times> bytes list" where
  "fill_line s input =
     (if length s < MAXBINSIZE then
        case file_read (MAXBINSIZE - length s) input of
          (ns, input') \<Rightarrow> if ns = [] then (s, input') else fill_line (s @ ns) input'
      else (s, input))"
  by auto
termination
proof (relation "measure (\<lambda>(s, f). MAXBINSIZE - length s)", goal_cases)
  case (2 s input x y)
  then show ?case by (cases x) auto
qed simp

declare fill_line.simps [simp del]

lemma fill_line_split: "fill_line s f = (t, f') \<Longrightarrow> \<exists>u. t = s @ u \<and> concat f = u @ concat f'"
proof (induction s f rule: fill_line.induct)
  case (1 s f)
  show ?case
  proof (cases "length s < MAXBINSIZE")
    case True
    obtain ns g where r: "(ns, g) = file_read (MAXBINSIZE - length s) f"
      by (metis surj_pair)
    show ?thesis
    proof (cases "ns = []")
      case True
      then have "t = s" "f' = g"
        using 1(2) \<open>length s < MAXBINSIZE\<close> r [symmetric] by (simp_all add: fill_line.simps [of s f])
      then show ?thesis using file_read_split [OF r] True by simp
    next
      case False
      then have "fill_line (s @ ns) g = (t, f')"
        using 1(2) \<open>length s < MAXBINSIZE\<close> r [symmetric] by (simp add: fill_line.simps [of s f])
      then show ?thesis using 1(1) [OF True r False] file_read_split [OF r] by auto
    qed
  next
    case False
    then show ?thesis using 1(2) by (simp add: fill_line.simps [of s f])
  qed
qed

function encode :: "bytes list \<Rightarrow> bytes list" where
  "encode input =
     (case file_read MAXBINSIZE input of
        (s, input') \<Rightarrow>
          if s = [] then []
          else case fill_line s input' of (s, input'') \<Rightarrow> b2a_base64 s True # encode input'')"
  by auto
termination
proof (relation "measure (\<lambda>f. length (concat f))", goal_cases)
  case (2 input s g t g')
  then have "concat input = s @ concat g" "fill_line s g = (t, g')"
    using file_read_split [of s g MAXBINSIZE input] by auto
  then show ?case using fill_line_split [of s g t g'] 2 by (cases s) auto
qed simp

declare encode.simps [simp del]

text \<open>\<open>decode\<close> writes the decoded lines one by one; the second result is an exception that ended it.\<close>

function decode :: "bytes \<Rightarrow> bytes list \<times> exn option" where
  "decode input =
     (case file_readline input of
        (line, input') \<Rightarrow>
          if line = [] then ([], None)
          else case a2b_base64 line of
                 Inl e \<Rightarrow> ([], Some e)
               | Inr s \<Rightarrow> (case decode input' of (out, e) \<Rightarrow> (s # out, e)))"
  by auto
termination
  by (relation "measure length") (auto simp: file_readline_def Let_def split: if_splits)

declare decode.simps [simp del]

fun encode_chunks :: "nat \<Rightarrow> bytes \<Rightarrow> nat \<Rightarrow> bytes list" where
  "encode_chunks 0 s i = []"
| "encode_chunks (Suc n) s i = b2a_base64 (slice s i (i + MAXBINSIZE)) True # encode_chunks n s (i + MAXBINSIZE)"

text \<open>\<open>range(0, len(s), MAXBINSIZE)\<close> has as many elements as there are lines.\<close>

definition encodebytes :: "bytes \<Rightarrow> bytes" where
  "encodebytes s = concat (encode_chunks ((length s + MAXBINSIZE - 1) div MAXBINSIZE) s 0)"

definition decodebytes :: "bytes \<Rightarrow> bytes result" where
  "decodebytes s = a2b_base64 s"

definition encodestring :: "bytes \<Rightarrow> bytes" where
  "encodestring s = encodebytes s"

definition decodestring :: "bytes \<Rightarrow> bytes result" where
  "decodestring s = decodebytes s"

section \<open>Base64: translation and padding\<close>

lemma b64_char_digit: "k < 64 \<Longrightarrow> b64_digit (b64_char k)"
proof -
  assume k: "k < 64"
  have "list_all (\<lambda>n. 65 \<le> n \<and> n \<le> 90 \<or> 97 \<le> n \<and> n \<le> 122 \<or> 48 \<le> n \<and> n \<le> 57 \<or> n = 43 \<or> n = (47 :: nat))
      (map of_char table_b2a_base64)"
    unfolding table_b2a_codes by (auto simp: list_all_iff)
  moreover have "of_char (table_b2a_base64 ! k) \<in> set (map of_char table_b2a_base64 :: nat list)"
  proof -
    have "k < length table_b2a_base64" using k by (simp add: table_b2a_base64_def)
    then show ?thesis unfolding set_map by (intro imageI nth_mem)
  qed
  ultimately show ?thesis
    unfolding b64_digit_def b64_char_def unat_byte_of_char list_all_iff by (rule bspec)
qed

text \<open>The text of an encoding: digits of the alphabet, then padding.\<close>

definition b64_text :: "bytes \<Rightarrow> bool" where
  "b64_text t \<longleftrightarrow> (\<exists>ds n. t = ds @ replicate n (byte_of_char PAD) \<and> (\<forall>c\<in>set ds. b64_digit c))"

lemma b64_text_digit: "b64_digit c \<Longrightarrow> b64_text t \<Longrightarrow> b64_text (c # t)"
  unfolding b64_text_def by (metis append_Cons set_ConsD)

lemma b64_text_pad: "b64_text [byte_of_char PAD]" "b64_text [byte_of_char PAD, byte_of_char PAD]" "b64_text []"
  unfolding b64_text_def
  by (rule exI [of _ "[]"], rule exI [of _ 1], simp)
    (rule exI [of _ "[]"], rule exI [of _ 2], simp add: numeral_2_eq_2, rule exI [of _ "[]"], rule exI [of _ 0], simp)

lemma sextets_less:
  fixes a b :: byte
  shows "unat a div 4 < 64" "unat a mod 4 * 16 + unat b div 16 < 64" "unat a mod 16 * 4 + unat b div 64 < 64"
    "unat a mod 64 < 64" "unat a mod 16 * 4 < 64" "unat a mod 4 * 16 < 64"
  using byte_parts [of a] byte_parts [of b] by linarith+

lemma rfc_base64_text: "b64_text (rfc_base64 s)"
  by (induction s rule: rfc_base64.induct)
    (simp_all add: b64_text_digit b64_char_digit sextets_less b64_text_pad)

lemma b64_text_shape: "b64_text t \<Longrightarrow> b64_shape t"
proof -
  assume "b64_text t"
  then obtain ds n where t: "t = ds @ replicate n (byte_of_char PAD)" "\<forall>c\<in>set ds. b64_digit c"
    by (auto simp: b64_text_def)
  have "\<not> b64_digit (byte_of_char PAD)" by (simp add: b64_digit_def PAD_def)
  then have "dropWhile b64_digit t = replicate n (byte_of_char PAD)"
    using t by (cases n) (simp_all add: dropWhile_append2)
  then show ?thesis by (simp add: b64_shape_def PAD_def list_all_iff)
qed

lemma b64_text_chars: "b64_text t \<Longrightarrow> c \<in> set t \<Longrightarrow> b64_digit c \<or> c = byte_of_char PAD"
  by (auto simp: b64_text_def)

text \<open>Alternative characters that are neither digits of the rest of the alphabet nor padding.\<close>

definition good_altchars :: "bytes \<Rightarrow> bool" where
  "good_altchars alt \<longleftrightarrow> length alt = 2 \<and> distinct alt \<and>
     (\<forall>c\<in>set alt. c \<noteq> byte_of_char PAD \<and> (b64_digit c \<longrightarrow> c \<in> set (ascii ''+/'')))"

lemma ascii_plus_slash: "ascii ''+/'' = [43, 47]"
  by (simp add: ascii_def byte_of_char_def)

lemma translate_back:
  assumes alt: "good_altchars alt" and t: "b64_text t"
    and e: "maketrans (ascii ''+/'') alt = Inr e" and d: "maketrans alt (ascii ''+/'') = Inr d"
  shows "translate (translate t e) d = t"
proof -
  obtain x y where xy: "alt = [x, y]" "x \<noteq> y"
    using alt by (auto simp: good_altchars_def length_Suc_conv numeral_2_eq_2)
  have g: "x \<noteq> byte_of_char PAD" "y \<noteq> byte_of_char PAD" "b64_digit x \<Longrightarrow> x = 43 \<or> x = 47" "b64_digit y \<Longrightarrow> y = 43 \<or> y = 47"
    using alt xy by (auto simp: good_altchars_def ascii_plus_slash)
  have "e = map_of [(47, y), (43, x)]" "d = map_of [(y, 47), (x, 43)]"
    using e d xy(1) by (simp_all add: maketrans_def ascii_plus_slash)
  then have m: "e = (\<lambda>c. if c = 43 then Some x else if c = 47 then Some y else None)"
    "d = (\<lambda>c. if c = x then Some 43 else if c = y then Some 47 else None)"
    using xy(2) by (auto simp: fun_eq_iff)
  have "(case d (case e c of None \<Rightarrow> c | Some b \<Rightarrow> b) of None \<Rightarrow> (case e c of None \<Rightarrow> c | Some b \<Rightarrow> b) | Some b \<Rightarrow> b) = c"
    if "c \<in> set t" for c
    using b64_text_chars [OF t that] g xy(2) by (auto simp: m)
  then show ?thesis by (simp add: translate_def map_idI)
qed

section \<open>Base64 over several lines\<close>

lemma a2b_newline [simp]: "a2b_loop (0x0A # cs) q x l f res = a2b_loop cs q x l f res"
proof -
  have "table_a2b_base64 ! unat (0x0A :: byte) = 255"
    unfolding table_a2b_literal by code_simp
  then show ?thesis by (simp add: PAD_def byte_of_char_def)
qed

lemma a2b_line: "a2b_loop (b2a_base64 s True) 0 0 0 f res = Inr (res @ s)"
proof -
  have "\<not> b64_alphabet 0x0A" by (simp add: b64_alphabet_def)
  then have "filter b64_alphabet (b2a_base64 s True) = filter b64_alphabet (rfc_base64 s)"
    by (simp add: b2a_newline b2a_rfc)
  then show ?thesis by (metis a2b_filter a2b_rfc)
qed

lemma MAXBINSIZE_57: "MAXBINSIZE = 57"
  by (simp add: MAXBINSIZE_def MAXLINESIZE_def)

lemma encode_chunks_drop: "encode_chunks n s (i + k) = encode_chunks n (drop k s) i"
proof (induction n arbitrary: i)
  case (Suc n)
  have "slice s (i + k) (i + k + MAXBINSIZE) = slice (drop k s) i (i + MAXBINSIZE)"
    by (simp add: slice_def)
  moreover have "encode_chunks n s (i + k + MAXBINSIZE) = encode_chunks n (drop k s) (i + MAXBINSIZE)"
    using Suc [of "i + MAXBINSIZE"] by (simp only: add.assoc add.commute [of k])
  ultimately show ?case by simp
qed simp

lemma lines_step: "0 < l \<Longrightarrow> (l + 57 - 1) div 57 = Suc ((l - 57 + 57 - 1) div (57 :: nat))"
proof (cases "l \<le> 57")
  case True
  moreover assume "0 < l"
  ultimately have "(l + 57 - 1) div 57 = 1" by (intro div_nat_eqI) simp_all
  then show ?thesis using True by simp
next
  case False
  then have "l + 57 - 1 = (l - 57 + 57 - 1) + 57" by simp
  then show ?thesis by (simp only: div_add_self2 [of 57])
qed

lemma encodebytes_step:
  "encodebytes s = (if s = [] then [] else b2a_base64 (take MAXBINSIZE s) True @ encodebytes (drop MAXBINSIZE s))"
proof (cases "s = []")
  case False
  then have l: "0 < length s" by simp
  then have n: "(length s + MAXBINSIZE - 1) div MAXBINSIZE =
      Suc ((length (drop MAXBINSIZE s) + MAXBINSIZE - 1) div MAXBINSIZE)"
    unfolding MAXBINSIZE_57 length_drop by (rule lines_step)
  show ?thesis
    using False encode_chunks_drop [of _ s 0 MAXBINSIZE] unfolding encodebytes_def n by (simp add: slice_def)
qed (simp add: encodebytes_def MAXBINSIZE_57)

lemma a2b_encodebytes: "a2b_loop (encodebytes s) 0 0 0 False res = Inr (res @ s)"
proof (induction s arbitrary: res rule: length_induct)
  case (1 s)
  show ?case
  proof (cases "length s < MAXBINSIZE")
    case True
    then show ?thesis
      using encodebytes_step [of s] encodebytes_step [of "[]"] a2b_line [of s False res] by (cases "s = []") simp_all
  next
    case False
    then have l: "length (take MAXBINSIZE s) mod 3 = 0" "s \<noteq> []" "length (drop MAXBINSIZE s) < length s"
      by (auto simp: MAXBINSIZE_57)
    then show ?thesis
      using 1 a2b_rfc_append [OF l(1)] encodebytes_step [of s] by (simp add: b2a_newline b2a_rfc del: a2b_loop.simps)
  qed
qed

lemma fill_line_full:
  assumes "fill_line s f = (t, f')" "length s \<le> MAXBINSIZE"
  shows "length t \<le> MAXBINSIZE \<and> (length t = MAXBINSIZE \<or> concat f' = [])"
  using assms
proof (induction s f rule: fill_line.induct)
  case (1 s f)
  show ?case
  proof (cases "length s < MAXBINSIZE")
    case True
    obtain ns g where r: "(ns, g) = file_read (MAXBINSIZE - length s) f"
      by (metis surj_pair)
    show ?thesis
    proof (cases "ns = []")
      case True
      then have "t = s" "f' = g"
        using 1(2) \<open>length s < MAXBINSIZE\<close> r [symmetric] by (simp_all add: fill_line.simps [of s f])
      then show ?thesis
        using file_read_end [OF r] file_read_split [OF r] True \<open>length s < MAXBINSIZE\<close> by simp
    next
      case False
      then have "fill_line (s @ ns) g = (t, f')"
        using 1(2) \<open>length s < MAXBINSIZE\<close> r [symmetric] by (simp add: fill_line.simps [of s f])
      then show ?thesis using 1(1) [OF True r False] file_read_length [OF r] True by auto
    qed
  next
    case False
    then show ?thesis using 1(2,3) by (simp add: fill_line.simps [of s f])
  qed
qed

lemma encode_pieces: "concat (encode f) = encodebytes (concat f)"
proof (induction f rule: encode.induct)
  case (1 f)
  obtain s g where r: "(s, g) = file_read MAXBINSIZE f" by (metis surj_pair)
  note cf = file_read_split [OF r]
  show ?case
  proof (cases "s = []")
    case True
    then have "concat f = []" using file_read_end [OF r] by (simp add: MAXBINSIZE_57)
    moreover have "encode f = []" using r [symmetric] True by (simp add: encode.simps [of f])
    ultimately show ?thesis using encodebytes_step [of "[]"] by (simp only: concat.simps if_True simp_thms)
  next
    case False
    obtain t h where t: "fill_line s g = (t, h)" by (cases "fill_line s g")
    obtain u where u: "t = s @ u" "concat g = u @ concat h" using fill_line_split [OF t] by auto
    then have c: "concat f = t @ concat h" "t \<noteq> []" using cf False by simp_all
    have "length t \<le> MAXBINSIZE" "length t = MAXBINSIZE \<or> concat h = []"
      using fill_line_full [OF t] file_read_length [OF r] by simp_all
    then have "take MAXBINSIZE (concat f) = t" "drop MAXBINSIZE (concat f) = concat h"
      by (auto simp: c simp del: concat_eq_Nil_conv)
    moreover have "concat (encode h) = encodebytes (concat h)"
      using 1 [OF r False t [symmetric]] .
    ultimately show ?thesis
      using encodebytes_step [of "concat f"] c False r [symmetric] t by (simp add: encode.simps [of f])
  qed
qed

lemma readline_of_line:
  "file_readline (b2a_base64 s True @ cs) = (b2a_base64 s True, cs)"
proof -
  have "\<forall>c\<in>set (rfc_base64 s). c \<noteq> 0x0A"
    using b64_text_chars [OF rfc_base64_text] by (fastforce simp: b64_digit_def PAD_def byte_of_char_def)
  then have "takeWhile (\<lambda>c. c \<noteq> 0x0A) (rfc_base64 s @ [0x0A] @ cs) = rfc_base64 s"
    by (simp add: takeWhile_append)
  then show ?thesis by (simp add: file_readline_def b2a_newline b2a_rfc)
qed

lemma decode_lines: "\<exists>outs. decode (encodebytes s) = (outs, None) \<and> concat outs = s"
proof (induction s rule: length_induct)
  case (1 s)
  show ?case
  proof (cases "s = []")
    case True
    then show ?thesis
      using encodebytes_step [of "[]"] by (simp add: decode.simps file_readline_def)
  next
    case False
    then have "length (drop MAXBINSIZE s) < length s" by (simp add: MAXBINSIZE_57)
    then obtain outs where o: "decode (encodebytes (drop MAXBINSIZE s)) = (outs, None)" "concat outs = drop MAXBINSIZE s"
      using 1 by blast
    have "decode (encodebytes s) = (take MAXBINSIZE s # outs, None)"
      using encodebytes_step [of s] False readline_of_line o a2b_line [of "take MAXBINSIZE s" False "[]"]
      by (subst decode.simps) (simp add: a2b_base64_def b2a_newline)
    then show ?thesis using o(2) by simp
  qed
qed

end
