(* ===== verification/Base64_Correct.thy ===== *)
theory Base64_Correct
  imports Base64
begin

unbundle bit_operations_syntax

text \<open>
  The base32 and base16 codecs of \<open>Base64\<close> read back what they write: the hexadecimal text in
  between, the eight five-bit numbers of a quantum, and the loop over the characters.
\<close>

section \<open>Hexadecimal text\<close>

fun hexw :: "nat \<Rightarrow> nat \<Rightarrow> string" where
  "hexw 0 n = []"
| "hexw (Suc k) n = hexw k (n div 16) @ [hex_digit (n mod 16)]"

lemma hex_digit_0: "CHR ''0'' = hex_digit 0"
  by (simp add: hex_digit_def)

lemma hexw_0: "hexw k 0 = replicate k (hex_digit 0)"
  by (induction k) (simp_all add: replicate_append_same)

lemma hexw_hex_str: "n < 16 ^ k \<Longrightarrow> 0 < k \<Longrightarrow>
    length (hex_str n) \<le> k \<and> replicate (k - length (hex_str n)) (CHR ''0'') @ hex_str n = hexw k n"
proof (induction k arbitrary: n)
  case (Suc k)
  show ?case
  proof (cases "n < 16")
    case True
    then show ?thesis by (subst (1 2 3) hex_str.simps) (simp add: hex_digit_0 hexw_0)
  next
    case False
    then have "n div 16 < 16 ^ k" "0 < k" using Suc.prems by (auto intro: gr0I)
    with Suc.IH [of "n div 16"] False show ?thesis
      by (subst (1 2 3) hex_str.simps) simp
  qed
qed simp

lemma hexw_byte: "b < 256 \<Longrightarrow> hexw (Suc (Suc k)) (x * 256 + b) = hexw k x @ [hex_digit (b div 16), hex_digit (b mod 16)]"
proof -
  assume b: "b < 256"
  have "x * 256 + b = b + (x * 16) * 16" by simp
  then have 1: "(x * 256 + b) div 16 = b div 16 + x * 16" "(x * 256 + b) mod 16 = b mod 16"
    by (simp_all only: div_mult_self1 mod_mult_self1)
  have "b div 16 < 16" using b by (simp add: less_mult_imp_div_less)
  then have 2: "(b div 16 + x * 16) div 16 = x" "(b div 16 + x * 16) mod 16 = b div 16" by simp_all
  show ?thesis by (simp only: hexw.simps 1 2 append.simps append_assoc)
qed

definition bytes_value :: "bytes \<Rightarrow> nat" where
  "bytes_value bs = foldl (\<lambda>n b. n * 256 + unat b) 0 bs"

lemma hexlify_append: "hexlify (xs @ ys) = hexlify xs @ hexlify ys"
  by (simp add: hexlify_def ascii_def)

lemma hexw_bytes: "ascii (hexw (2 * length bs) (bytes_value bs)) = hexlify bs"
proof (induction bs rule: rev_induct)
  case (snoc b bs)
  then show ?case
    using hexw_byte [OF unat_byte_less, of "2 * length bs" "bytes_value bs" b]
    by (simp add: bytes_value_def hexlify_append) (simp add: hexlify_def ascii_def)
qed (simp add: bytes_value_def hexlify_def ascii_def)

lemma bytes_value_less: "bytes_value bs < 256 ^ length bs"
proof (induction bs rule: rev_induct)
  case (snoc b bs)
  then have "bytes_value bs * 256 + unat b < (bytes_value bs + 1) * 256" by simp
  also have "\<dots> \<le> 256 ^ length bs * 256" using snoc by (intro mult_right_mono) simp_all
  finally show ?case by (simp add: bytes_value_def mult.commute)
qed (simp add: bytes_value_def)

lemma format_010x_bytes: "length bs = 5 \<Longrightarrow> format_010x (bytes_value bs) = hexlify bs"
proof -
  assume l: "length bs = 5"
  then have "bytes_value bs < 16 ^ 10" using bytes_value_less [of bs] by simp
  then show ?thesis
    using hexw_hex_str [of "bytes_value bs" 10] hexw_bytes [of bs] l by (simp add: format_010x_def)
qed

lemma hex_value_digit: "d < 16 \<Longrightarrow> hex_value (of_char (hex_digit d)) = Some d"
proof -
  assume "d < 16"
  moreover have "list_all (\<lambda>d. hex_value (of_char (hex_digit d)) = Some d) [0..<16]" by code_simp
  ultimately show ?thesis by (simp add: list_all_iff)
qed

lemma uint_byte_less [simp]: "uint (b :: byte) < 256"
  using unsigned_less [of b, where ?'a = int] by simp

lemma unhexlify_pairs_hexlify: "unhexlify_pairs (hexlify bs) = Inr bs"
proof (induction bs)
  case (Cons b bs)
  have "unat b div 16 < 16" "unat b mod 16 < 16" using unat_byte_less [of b] by (simp_all add: less_mult_imp_div_less)
  moreover have "hexlify (b # bs) =
      byte_of_char (hex_digit (unat b div 16)) # byte_of_char (hex_digit (unat b mod 16)) # hexlify bs"
    by (simp add: hexlify_def ascii_def)
  ultimately show ?case
    using Cons by (simp add: int16_pair_def hex_value_digit mult.commute)
qed (simp add: hexlify_def ascii_def)

lemma unhexlify_hexlify [simp]: "unhexlify (hexlify bs) = Inr bs"
proof -
  have "length (hexlify bs) = 2 * length bs" by (induction bs) (simp_all add: hexlify_def ascii_def)
  then show ?thesis by (simp add: unhexlify_def unhexlify_pairs_hexlify)
qed

section \<open>A quantum and its eight digits\<close>

definition b32_char :: "nat \<Rightarrow> byte" where
  "b32_char v = b32tab ! v"

lemma b32tab_code: "map unat b32tab = [65..<91] @ [50..<56]"
  by code_simp

lemma b32rev_tab: "v < 32 \<Longrightarrow> b32rev (b32_char v) = Some v \<and> b32_char v \<noteq> byte_of_char CHR ''=''"
proof -
  have "list_all (\<lambda>v. b32rev (b32_char v) = Some v \<and> b32_char v \<noteq> byte_of_char CHR ''='') [0..<32]"
    by code_simp
  then show "v < 32 \<Longrightarrow> ?thesis" by (simp add: list_all_iff)
qed

definition quintets :: "nat \<Rightarrow> nat \<Rightarrow> nat \<Rightarrow> nat \<Rightarrow> nat \<Rightarrow> nat list" where
  "quintets a b c d e =
     [a div 8, a mod 8 * 4 + b div 64, b div 2 mod 32, b mod 2 * 16 + c div 16,
      c mod 16 * 2 + d div 128, d div 4 mod 32, d mod 4 * 8 + e div 32, e mod 32]"

lemma quintets_less:
  assumes "a < 256" "b < 256" "c < 256" "d < 256" "e < 256"
  shows "\<forall>v\<in>set (quintets a b c d e). v < 32"
proof -
  have 1: "a div 8 < 32" "b div 64 < 4" "c div 16 < 16" "d div 128 < 2" "e div 32 < 8"
    using assms by (auto simp: less_mult_imp_div_less)
  have 2: "a mod 8 < 8" "b mod 2 < 2" "c mod 16 < 16" "d mod 4 < 4" by simp_all
  have "a mod 8 * 4 + b div 64 < 32" "b mod 2 * 16 + c div 16 < 32" "c mod 16 * 2 + d div 128 < 32"
    "d mod 4 * 8 + e div 32 < 32"
    using 1 2 by linarith+
  then show ?thesis using 1 by (simp add: quintets_def)
qed

lemma and_masks32 [simp]: "n AND 1 = n mod 2" "n AND 31 = n mod (32 :: nat)"
proof -
  have m: "n AND mask k = n mod 2 ^ k" for k by (simp add: take_bit_eq_mod flip: take_bit_eq_mask)
  have "mask 1 = (1 :: nat)" "mask 5 = (31 :: nat)" by (simp_all add: mask_eq_exp_minus_1)
  with m [of 1] m [of 5] show "n AND 1 = n mod 2" "n AND 31 = n mod 32" by simp_all
qed

lemma div_mod_low:
  fixes x b :: nat
  assumes "0 < k"
  shows "(x * (m * k) + b) div k = x * m + b div k" "(x * (j * m) + y) mod m = y mod m"
proof -
  show "(x * (m * k) + b) div k = x * m + b div k"
    using div_mult_self1 [of k b "x * m"] assms by (simp add: algebra_simps)
  show "(x * (j * m) + y) mod m = y mod m"
    using mod_mult_self1 [of y "x * j" m] by (simp add: algebra_simps)
qed

text \<open>The three numbers of \<open>struct.unpack\<close> with the carried bits are cut at the five-bit borders.\<close>

lemma cut_quintets:
  fixes a b c d e :: nat
  assumes l: "a < 256" "b < 256" "c < 256" "d < 256" "e < 256"
    and c1: "c1 = a * 256 + b" and c2: "c2 = (c * 256 + d) + 65536 * (c1 mod 2)" and c3: "c3 = e + 256 * (c2 mod 4)"
  shows "[c1 div 2048, c1 div 64 mod 32, c1 div 2 mod 32, c2 div 4096, c2 div 128 mod 32, c2 div 4 mod 32,
    c3 div 32, c3 mod 32] = quintets a b c d e"
proof -
  have b0: "c1 mod 2 = b mod 2" using div_mod_low(2) [of 2 a 128 2 b] by (simp add: c1)
  have 0: "c1 div 2048 = a div 8"
  proof -
    have "c1 div 2048 = c1 div 256 div 8" by (simp flip: div_mult2_eq)
    also have "c1 div 256 = a" using div_mod_low(1) [of 256 a 1 b] l by (simp add: c1)
    finally show ?thesis .
  qed
  have 1: "c1 div 64 mod 32 = a mod 8 * 4 + b div 64"
    using shift_div_mod [of b 4 64 a 8] l by (simp add: c1)
  have 2: "c1 div 2 mod 32 = b div 2 mod 32"
    using div_mod_low(1) [of 2 a 128 b] div_mod_low(2) [of 32 a 4 32 "b div 2"] by (simp add: c1)
  have c2': "c2 = ((b mod 2) * 256 + c) * 256 + d" using b0 by (simp add: c2)
  define x where "x = (b mod 2) * 256 + c"
  have c2x: "c2 = x * 256 + d" by (simp add: c2' x_def)
  have x16: "x div 16 = b mod 2 * 16 + c div 16" "x mod 16 = c mod 16" "x mod 2 = c mod 2"
    using div_mod_low(1) [of 16 "b mod 2" 16 c] div_mod_low(2) [of 16 "b mod 2" 16 16 c]
      div_mod_low(2) [of 2 "b mod 2" 128 2 c] by (simp_all add: x_def)
  have 3: "c2 div 4096 = b mod 2 * 16 + c div 16"
  proof -
    have "c2 div 4096 = c2 div 256 div 16" by (simp flip: div_mult2_eq)
    also have "c2 div 256 = x" using div_mod_low(1) [of 256 x 1 d] l by (simp add: c2x)
    finally show ?thesis by (simp add: x16)
  qed
  have 4: "c2 div 128 mod 32 = c mod 16 * 2 + d div 128"
    using shift_div_mod [of d 2 128 x 16] l x16 by (simp add: c2x)
  have 5: "c2 div 4 mod 32 = d div 4 mod 32"
    using div_mod_low(1) [of 4 x 64 d] div_mod_low(2) [of 32 x 2 32 "d div 4"] by (simp add: c2x)
  have d0: "c2 mod 4 = d mod 4" using div_mod_low(2) [of 4 x 64 4 d] by (simp add: c2x)
  have c3': "c3 = (d mod 4) * 256 + e" by (simp add: c3 d0)
  have 6: "c3 div 32 = d mod 4 * 8 + e div 32" using div_mod_low(1) [of 32 "d mod 4" 8 e] by (simp add: c3')
  have 7: "c3 mod 32 = e mod 32" using div_mod_low(2) [of 32 "d mod 4" 8 32 e] by (simp add: c3')
  show ?thesis unfolding quintets_def 0 1 2 3 4 5 6 7 ..
qed

lemma b32_quantum_eq:
  "b32_quantum [a, b, c, d, e] = map b32_char (quintets (unat a) (unat b) (unat c) (unat d) (unat e))"
proof -
  have "map b32_char
     (let c1 = unat a * 256 + unat b; c2 = (unat c * 256 + unat d) + 65536 * (c1 mod 2);
          c3 = unat e + 256 * (c2 mod 4)
      in [c1 div 2048, c1 div 64 mod 32, c1 div 2 mod 32, c2 div 4096, c2 div 128 mod 32, c2 div 4 mod 32,
          c3 div 32, c3 mod 32]) = map b32_char (quintets (unat a) (unat b) (unat c) (unat d) (unat e))"
    unfolding Let_def
    by (subst cut_quintets [OF unat_byte_less unat_byte_less unat_byte_less unat_byte_less unat_byte_less refl refl refl]) (rule refl)
  moreover have "[a, b, c, d, e] ! 0 = a" "[a, b, c, d, e] ! 1 = b" "[a, b, c, d, e] ! 2 = c"
    "[a, b, c, d, e] ! 3 = d" "[a, b, c, d, e] ! 4 = e"
    by simp_all
  moreover have "drop_bit 11 n = n div 2048" "drop_bit 6 n = n div 64" "drop_bit 1 n = n div 2"
    "drop_bit 12 n = n div 4096" "drop_bit 7 n = n div 128" "drop_bit 2 n = n div 4" "drop_bit 5 n = n div 32"
    "push_bit 16 n = 65536 * n" "push_bit 8 n = 256 * n" for n :: nat
    by (simp_all add: drop_bit_eq_div push_bit_eq_mult)
  ultimately show ?thesis
    unfolding b32_quantum_def Let_def by (simp only: and_masks and_masks32 b32_char_def list.map)
qed

section \<open>The loop over the characters\<close>

fun vsum :: "nat \<Rightarrow> nat list \<Rightarrow> nat" where
  "vsum s [] = 0"
| "vsum s (v # vs) = v * 2 ^ s + vsum (s - 5) vs"

lemma vsum_append: "vsum s (xs @ ys) = vsum s xs + vsum (s - 5 * length xs) ys"
  by (induction xs arbitrary: s) (simp_all add: algebra_simps)

lemma vsum_zeros: "vsum s (replicate n 0) = 0"
  by (induction n arbitrary: s) simp_all

lemma b32_loop_digits:
  assumes "\<forall>v\<in>set vs. v < 32" "5 * length vs \<le> s"
  shows "b32_loop (map b32_char vs @ cs) acc (int s) parts =
     b32_loop cs (acc + vsum s vs) (int (s - 5 * length vs)) parts"
  using assms
proof (induction vs arbitrary: acc s)
  case (Cons v vs)
  have r: "b32rev (b32_char v) = Some v" using Cons.prems(1) b32rev_tab by simp
  have i: "int s - 5 = int (s - 5)" "\<not> int (s - 5) < 0" using Cons.prems(2) by simp_all
  have "b32_loop (map b32_char (v # vs) @ cs) acc (int s) parts =
     b32_loop (map b32_char vs @ cs) (acc + v * 2 ^ s) (int (s - 5)) parts"
    by (simp only: list.map append_Cons b32_loop.simps r option.case Let_def i if_False nat_int push_bit_eq_mult)
  then show ?case using Cons.IH [of "s - 5" "acc + v * 2 ^ s"] Cons.prems by (simp add: add.assoc)
qed simp

lemma b32_loop_last:
  assumes "v < 32" "acc + v = bytes_value q" "length q = 5"
  shows "b32_loop (b32_char v # cs) acc 0 parts = b32_loop cs 0 35 (parts @ [q])"
  using assms b32rev_tab [of v] by (simp add: format_010x_bytes)

lemma vsum_quintets:
  fixes a b c d e :: nat
  assumes "a < 256" "b < 256" "c < 256" "d < 256" "e < 256"
  shows "vsum 35 (quintets a b c d e) = (((a * 256 + b) * 256 + c) * 256 + d) * 256 + e"
proof -
  have a: "a = 8 * (a div 8) + a mod 8" and c: "c = 16 * (c div 16) + c mod 16"
    and e: "e = 32 * (e div 32) + e mod 32" by simp_all
  have dd: "b div 64 = b div 2 div 32" "d div 128 = d div 4 div 32" by (simp_all flip: div_mult2_eq)
  have b: "b = 64 * (b div 64) + 2 * (b div 2 mod 32) + b mod 2"
    using mult_div_mod_eq [of 2 b] mult_div_mod_eq [of 32 "b div 2"] dd(1) by linarith
  have d: "d = 128 * (d div 128) + 4 * (d div 4 mod 32) + d mod 4"
    using mult_div_mod_eq [of 4 d] mult_div_mod_eq [of 32 "d div 4"] dd(2) by linarith
  have "vsum 35 [a1, a2 * 4 + b1, b2, b3 * 16 + c1, c2 * 2 + d1, d2, d3 * 8 + e1, e2] =
      ((((8 * a1 + a2) * 256 + (64 * b1 + 2 * b2 + b3)) * 256 + (16 * c1 + c2)) * 256 + (128 * d1 + 4 * d2 + d3)) * 256 + (32 * e1 + e2)"
    for a1 a2 b1 b2 b3 c1 c2 d1 d2 d3 e1 e2 by (simp add: algebra_simps)
  from this [of "a div 8" "a mod 8" "b div 64" "b div 2 mod 32" "b mod 2" "c div 16" "c mod 16" "d div 128" "d div 4 mod 32"
      "d mod 4" "e div 32" "e mod 32"]
  show ?thesis unfolding quintets_def by (simp only: a [symmetric] b [symmetric] c [symmetric] d [symmetric] e [symmetric])
qed

definition bytes_quintets :: "bytes \<Rightarrow> nat list" where
  "bytes_quintets q = quintets (unat (q ! 0)) (unat (q ! 1)) (unat (q ! 2)) (unat (q ! 3)) (unat (q ! 4))"

lemma five: "length q = 5 \<Longrightarrow> \<exists>a b c d e. q = [a, b, c, d, e]"
  by (auto simp: length_Suc_conv numeral_eq_Suc)

lemma bytes_quintets:
  assumes "length q = 5"
  shows "b32_quantum q = map b32_char (bytes_quintets q)" "vsum 35 (bytes_quintets q) = bytes_value q"
    "\<forall>v\<in>set (bytes_quintets q). v < 32" "length (bytes_quintets q) = 8"
proof -
  obtain a b c d e where q: "q = [a, b, c, d, e]" using five [OF assms] by blast
  have v: "bytes_quintets q = quintets (unat a) (unat b) (unat c) (unat d) (unat e)"
    by (simp add: q bytes_quintets_def)
  show "b32_quantum q = map b32_char (bytes_quintets q)" unfolding v unfolding q by (rule b32_quantum_eq)
  show "vsum 35 (bytes_quintets q) = bytes_value q"
    unfolding v by (simp add: vsum_quintets q bytes_value_def)
  show "\<forall>v\<in>set (bytes_quintets q). v < 32" unfolding v by (rule quintets_less) simp_all
  show "length (bytes_quintets q) = 8" by (simp add: v quintets_def)
qed

lemma b32_loop_quantum:
  assumes "length q = 5"
  shows "b32_loop (b32_quantum q @ cs) 0 35 parts = b32_loop cs 0 35 (parts @ [q])"
proof -
  define vs where "vs = bytes_quintets q"
  have l: "length vs = 8" unfolding vs_def by (rule bytes_quintets(4) [OF assms])
  then obtain us v where u: "vs = us @ [v]" "length us = 7" by (cases vs rule: rev_cases) simp_all
  have less: "\<forall>v\<in>set us. v < 32" "v < 32" using bytes_quintets(3) [OF assms] u by (simp_all add: vs_def)
  have "vsum 35 us + v = bytes_value q"
    using bytes_quintets(2) [OF assms] u vsum_append [of 35 us "[v]"] by (simp add: vs_def)
  then have "b32_loop (b32_char v # cs) (vsum 35 us) 0 parts = b32_loop cs 0 35 (parts @ [q])"
    using b32_loop_last [OF less(2)] assms by simp
  moreover have "b32_quantum q @ cs = map b32_char us @ b32_char v # cs"
    using bytes_quintets(1) [OF assms] u by (simp add: vs_def)
  ultimately show ?thesis using b32_loop_digits [OF less(1), of 35 "b32_char v # cs" 0 parts] u(2) by simp
qed

lemma b32_quanta_drop: "b32_quanta n (i + k) s = b32_quanta n i (drop (k * 5) s)"
proof (induction n arbitrary: i)
  case (Suc n)
  have "slice s ((i + k) * 5) ((i + k + 1) * 5) = slice (drop (k * 5) s) (i * 5) ((i + 1) * 5)"
    by (simp add: slice_def algebra_simps)
  moreover have "b32_quanta n (i + k + 1) s = b32_quanta n (i + 1) (drop (k * 5) s)"
    using Suc [of "i + 1"] by (simp only: add.assoc add.commute [of k])
  ultimately show ?case by simp
qed simp

lemma b32_quanta_Suc: "b32_quanta (Suc n) 0 s = b32_quantum (take 5 s) @ b32_quanta n 0 (drop 5 s)"
  using b32_quanta_drop [of n 0 1 s] by (simp add: slice_def)

lemma b32_quanta_append:
  "length s = 5 * n \<Longrightarrow> b32_quanta (n + m) 0 (s @ t) = b32_quanta n 0 s @ b32_quanta m 0 t"
  by (induction n arbitrary: s) (simp_all add: b32_quanta_Suc del: b32_quanta.simps(2))

lemma b32_loop_quanta:
  "length s = 5 * n \<Longrightarrow> \<exists>ps. concat ps = s \<and>
     (\<forall>cs parts. b32_loop (b32_quanta n 0 s @ cs) 0 35 parts = b32_loop cs 0 35 (parts @ ps))"
proof (induction n arbitrary: s)
  case (Suc n)
  then have "length (drop 5 s) = 5 * n" "length (take 5 s) = 5" by simp_all
  with Suc.IH obtain ps where "concat ps = drop 5 s"
    "\<forall>cs parts. b32_loop (b32_quanta n 0 (drop 5 s) @ cs) 0 35 parts = b32_loop cs 0 35 (parts @ ps)" by blast
  then show ?case
    using b32_loop_quantum [OF \<open>length (take 5 s) = 5\<close>]
    by (intro exI [of _ "take 5 s # ps"]) (simp add: b32_quanta_Suc del: b32_quanta.simps(2))
qed (auto intro: exI [of _ "[]"])

lemma drop_last_len: "k \<le> length ys \<Longrightarrow> drop_last k (xs @ ys) = xs @ drop_last k ys"
  by (simp add: drop_last_def)

lemma length_b32_quanta: "length (b32_quanta n i s) = 8 * n"
  by (induction n i s rule: b32_quanta.induct) (simp_all add: b32_quantum_def Let_def)

text \<open>The characters of the digits lie outside the lower case letters and are not the pad.\<close>

definition b32_ok :: "byte \<Rightarrow> bool" where
  "b32_ok c \<longleftrightarrow> c \<noteq> byte_of_char CHR ''='' \<and> upper_byte c = c"

lemma b32_char_ok: "v < 32 \<Longrightarrow> b32_ok (b32_char v)"
proof -
  have "list_all (\<lambda>v. b32_ok (b32_char v)) [0..<32]" by code_simp
  then show "v < 32 \<Longrightarrow> ?thesis" by (simp add: list_all_iff)
qed

lemma b32_quanta_ok: "length s = 5 * n \<Longrightarrow> list_all b32_ok (b32_quanta n 0 s)"
proof (induction n arbitrary: s)
  case (Suc n)
  then have q: "length (take 5 s) = 5" and "length (drop 5 s) = 5 * n" by simp_all
  then have "list_all b32_ok (b32_quanta n 0 (drop 5 s))" using Suc.IH by blast
  moreover have "list_all b32_ok (b32_quantum (take 5 s))"
    using bytes_quintets(1,3) [OF q] b32_char_ok by (auto simp: list_all_iff)
  ultimately show ?case by (simp only: b32_quanta_Suc list_all_append)
qed simp

lemma find_pad:
  assumes "list_all b32_ok xs"
  shows "find_byte (xs @ replicate (Suc k) (byte_of_char CHR ''='')) (byte_of_char CHR ''='') = int (length xs)"
    "find_byte xs (byte_of_char CHR ''='') = -1"
proof -
  have n: "byte_of_char CHR ''='' \<notin> set xs" using assms by (auto simp: b32_ok_def list_all_iff)
  then have "takeWhile (\<lambda>x. x \<noteq> byte_of_char CHR ''='') xs = xs" by (auto simp: takeWhile_eq_all_conv)
  then show "find_byte (xs @ replicate (Suc k) (byte_of_char CHR ''='')) (byte_of_char CHR ''='') = int (length xs)"
    by (simp add: find_byte_def takeWhile_append)
  show "find_byte xs (byte_of_char CHR ''='') = -1" using n by (simp add: find_byte_def)
qed

lemma upper_ok: "list_all b32_ok xs \<Longrightarrow> map upper_byte xs = xs"
  by (induction xs) (simp_all add: b32_ok_def)

lemma upper_pad [simp]: "upper_byte (byte_of_char CHR ''='') = byte_of_char CHR ''=''"
  by (simp add: upper_byte_def)

text \<open>The last quantum of \<open>t\<close> bytes and \<open>5 - t\<close> zeros: \<open>k\<close> digits carry it, the others are zero.\<close>

lemma replicate_small:
  "replicate 2 x = [x, x]" "replicate 3 x = [x, x, x]" "replicate 4 x = [x, x, x, x]"
  "replicate 6 x = [x, x, x, x, x, x]"
  by (simp_all add: eval_nat_numeral)

lemma zero_quintets:
  "drop 2 (quintets a 0 0 0 0) = replicate 6 0" "drop 4 (quintets a b 0 0 0) = replicate 4 0"
  "drop 5 (quintets a b c 0 0) = replicate 3 0" "drop 7 (quintets a b c d 0) = replicate 1 0"
  by (simp_all add: quintets_def replicate_small)

lemma bytes_quintets_Cons: "bytes_quintets [a, b, c, d, e] = quintets (unat a) (unat b) (unat c) (unat d) (unat e)"
  by (simp add: bytes_quintets_def)

lemma tail_digits:
  assumes "(t, k) \<in> {(1, 2), (2, 4), (3, 5), (4, 7)}" "length q = t"
  shows "drop k (bytes_quintets (q @ replicate (5 - t) 0)) = replicate (8 - k) 0"
proof -
  note z = replicate_small
  consider a where "q = [a]" "t = 1" "k = 2" | a b where "q = [a, b]" "t = 2" "k = 4"
    | a b c where "q = [a, b, c]" "t = 3" "k = 5" | a b c d where "q = [a, b, c, d]" "t = 4" "k = 7"
    using assms by (auto simp: length_Suc_conv eval_nat_numeral)
  then show ?thesis
  proof cases
    case 1
    then show ?thesis by (simp add: z bytes_quintets_Cons zero_quintets)
  next
    case 2
    then show ?thesis by (simp add: z bytes_quintets_Cons zero_quintets)
  next
    case 3
    then show ?thesis by (simp add: z bytes_quintets_Cons zero_quintets)
  next
    case 4
    then show ?thesis using zero_quintets(4) by (simp add: bytes_quintets_Cons)
  qed
qed

lemma b32_loop_tail:
  assumes tk: "(t, k) \<in> {(1, 2), (2, 4), (3, 5), (4, 7)}" and q: "length q = t"
  shows "b32_loop (take k (b32_quantum (q @ replicate (5 - t) 0))) 0 35 parts =
    Inr (parts, bytes_value (q @ replicate (5 - t) 0))"
proof -
  define z where "z = q @ replicate (5 - t) 0"
  have l: "length z = 5" using tk q by (auto simp: z_def)
  define vs where "vs = bytes_quintets z"
  have "vsum 35 vs = vsum 35 (take k vs) + vsum (35 - 5 * length (take k vs)) (drop k vs)"
    using vsum_append [of 35 "take k vs" "drop k vs"] by simp
  also have "vsum (35 - 5 * length (take k vs)) (drop k vs) = 0"
    using tail_digits [OF tk q] by (simp add: vs_def z_def vsum_zeros)
  finally have v: "vsum 35 (take k vs) = bytes_value z" using bytes_quintets(2) [OF l] by (simp add: vs_def)
  have "\<forall>v\<in>set (take k vs). v < 32" using bytes_quintets(3) [OF l] set_take_subset [of k vs] by (auto simp: vs_def)
  moreover have "5 * length (take k vs) \<le> 35" using tk by auto
  moreover have "take k (b32_quantum z) = map b32_char (take k vs)"
    using bytes_quintets(1) [OF l] by (simp add: vs_def take_map)
  ultimately show ?thesis
    using b32_loop_digits [of "take k vs" 35 "[]" 0 parts] v by (simp add: z_def)
qed

section \<open>Base 32 and base 16 read back\<close>

lemma b32encode_eq:
  assumes "s = s1 @ q" "length s1 = 5 * n" "length q < 5"
  shows "b32encode s =
    (if q = [] then b32_quanta n 0 s1
     else b32_quanta n 0 s1 @ drop_last ([0, 6, 4, 3, 1] ! length q) (b32_quantum (q @ replicate (5 - length q) 0)) @
       replicate ([0, 6, 4, 3, 1] ! length q) (byte_of_char CHR ''=''))"
proof -
  have d: "length s div 5 = n" "length s mod 5 = length q" using assms by simp_all
  have l8: "length (b32_quantum z) = 8" for z by (simp add: b32_quantum_def Let_def)
  show ?thesis
  proof (cases "q = []")
    case True
    then show ?thesis using d assms(1) by (simp add: b32encode_def)
  next
    case False
    define z where "z = q @ replicate (5 - length q) 0"
    have "length z = 5" using assms(3) by (simp add: z_def)
    then have enc: "b32_quanta (n + 1) 0 (s @ replicate (5 - length q) 0) = b32_quanta n 0 s1 @ b32_quantum z"
      using b32_quanta_append [OF assms(2), of 1 z] b32_quanta_Suc [of 0 z] by (simp add: assms(1) z_def)
    have "length q \<noteq> 0" using False by simp
    then have e: "b32encode s =
       (let encoded = b32_quanta n 0 s1 @ b32_quantum z in
        if length q = 1 then drop_last 6 encoded @ ascii ''======''
         else if length q = 2 then drop_last 4 encoded @ ascii ''====''
         else if length q = 3 then drop_last 3 encoded @ ascii ''===''
         else if length q = 4 then drop_last 1 encoded @ ascii ''=''
         else encoded)"
      by (simp only: b32encode_def d Let_def if_True not_False_eq_True prod.case enc)
    have "length q = 1 \<or> length q = 2 \<or> length q = 3 \<or> length q = 4" using \<open>length q \<noteq> 0\<close> assms(3) by arith
    then show ?thesis
      unfolding e z_def [symmetric] Let_def using False
      by (elim disjE) (simp_all add: drop_last_len l8 ascii_def replicate_small)
  qed
qed

lemma b32_roundtrip_lemma: "b32decode (Bytes (b32encode s)) casefold None = Inr s"
proof -
  define n where "n = length s div 5"
  define s1 where "s1 = take (5 * n) s"
  define q where "q = drop (5 * n) s"
  have s: "s = s1 @ q" "length s1 = 5 * n" "length q < 5"
    by (auto simp: s1_def q_def n_def)
  obtain ps where ps: "concat ps = s1"
    "\<And>cs parts. b32_loop (b32_quanta n 0 s1 @ cs) 0 35 parts = b32_loop cs 0 35 (parts @ ps)"
    using b32_loop_quanta [OF s(2)] by blast
  have ok1: "list_all b32_ok (b32_quanta n 0 s1)" by (rule b32_quanta_ok [OF s(2)])
  show ?thesis
  proof (cases "q = []")
    case True
    have e: "b32encode s = b32_quanta n 0 s1" using b32encode_eq [OF s] True by simp
    have "format_010x 0 = hexlify (replicate 5 0)" using format_010x_bytes [of "replicate 5 0"] by (simp add: bytes_value_def eval_nat_numeral)
    then have u: "unhexlify (format_010x 0) = Inr (replicate 5 0)" by simp
    have c: "concat ps = s" using ps(1) s(1) True by simp
    show ?thesis
      using ps(2) [of "[]" "[]"] c find_pad(2) [OF ok1]
      by (simp add: b32decode_def e bytes_from_decode_data_def length_b32_quanta upper_ok [OF ok1] u Let_def)
  next
    case False
    define k :: nat where "k = [0, 6, 4, 3, 1] ! length q"
    define z where "z = q @ replicate (5 - length q) 0"
    have tk: "(length q, 8 - k) \<in> {(1, 2), (2, 4), (3, 5), (4, 7)}" and k: "0 < k" "k < 8"
      using False s(3) by (auto simp: k_def nth_Cons split: nat.splits)
    have lz: "length z = 5" using s(3) by (simp add: z_def)
    define x where "x = b32_quanta n 0 s1 @ take (8 - k) (b32_quantum z)"
    have lq: "length (b32_quantum z) = 8" by (simp add: b32_quantum_def Let_def)
    have e: "b32encode s = x @ replicate (Suc (k - 1)) (byte_of_char CHR ''='')"
      using b32encode_eq [OF s, folded k_def z_def] False k lq by (simp add: x_def drop_last_def)
    have "list_all b32_ok (b32_quantum z)" using b32_quanta_ok [of z 1] lz by (simp add: b32_quanta_Suc del: b32_quanta.simps(2))
    then have okx: "list_all b32_ok x"
      using ok1 set_take_subset [of "8 - k" "b32_quantum z"] by (auto simp: x_def list_all_iff)
    have up: "map upper_byte (b32encode s) = b32encode s" using upper_ok [OF okx] by (simp add: e)
    have lx: "0 < length x" using k lq by (simp add: x_def)
    have len: "length (b32encode s) = length x + k" "length (b32encode s) mod 8 = 0"
      using k lq by (simp_all add: e) (simp add: x_def length_b32_quanta)
    have dl: "drop_last k (b32encode s) = x" using k by (simp add: e)
    have loop: "b32_loop x 0 35 [] = Inr (ps, bytes_value z)"
      using b32_loop_tail [OF tk refl, of ps] ps(2) [of "take (8 - k) (b32_quantum z)" "[]"] by (simp add: x_def z_def)
    have u: "unhexlify (format_010x (bytes_value z)) = Inr z" using format_010x_bytes [OF lz] by simp
    have tail: "(if k = 0 then Inr [] else if k = 1 then Inr (drop_last 1 z) else if k = 3 then Inr (drop_last 2 z)
        else if k = 4 then Inr (drop_last 3 z) else if k = 6 then Inr (drop_last 4 z) else Inl BinasciiError) = Inr q"
      using tk k by (auto simp: z_def)
    have "b32decode (Bytes (b32encode s)) casefold None =
        rbind (b32_loop x 0 35 []) (\<lambda>(parts, acc). rbind (unhexlify (format_010x acc)) (\<lambda>last.
          rbind (if k = 0 then Inr [] else if k = 1 then Inr (drop_last 1 last) else if k = 3 then Inr (drop_last 2 last)
        else if k = 4 then Inr (drop_last 3 last) else if k = 6 then Inr (drop_last 4 last) else Inl BinasciiError)
          (\<lambda>last. Inr (concat (parts @ [last])))))"
    proof -
      have f: "find_byte (b32encode s) (byte_of_char CHR ''='') = int (length x)"
        unfolding e by (rule find_pad(1) [OF okx])
      show ?thesis
        using lx len(2) by (simp add: b32decode_def bytes_from_decode_data_def up f len(1) dl Let_def cong: if_cong)
    qed
    then show ?thesis using ps(1) s(1) by (simp add: loop u tail)
  qed
qed

lemma hexlify_upper: "b16decode (Bytes (b16encode s)) casefold = Inr s"
proof -
  have c: "list_all (\<lambda>d. b16_digit (upper_byte (byte_of_char (hex_digit d))) \<and>
      upper_byte (upper_byte (byte_of_char (hex_digit d))) = upper_byte (byte_of_char (hex_digit d)) \<and>
      hex_value (unat (upper_byte (byte_of_char (hex_digit d)))) = Some d) [0..<16]"
    by code_simp
  have n: "unat b div 16 < 16" "unat b mod 16 < 16" for b :: byte
    using unat_byte_less [of b] by (simp_all add: less_mult_imp_div_less)
  have e: "b16encode (b # bs) = upper_byte (byte_of_char (hex_digit (unat b div 16))) #
      upper_byte (byte_of_char (hex_digit (unat b mod 16))) # b16encode bs" for b bs
    by (simp add: b16encode_def hexlify_def ascii_def)
  have c': "b16_digit (upper_byte (byte_of_char (hex_digit d)))"
      "upper_byte (upper_byte (byte_of_char (hex_digit d))) = upper_byte (byte_of_char (hex_digit d))"
      "hex_value (unat (upper_byte (byte_of_char (hex_digit d)))) = Some d" if "d < 16" for d
    using c that by (auto simp: list_all_iff)
  have e0: "b16encode [] = []" by (simp add: b16encode_def hexlify_def ascii_def)
  have up: "map upper_byte (b16encode s) = b16encode s" by (induction s) (simp_all add: e0 e c' n)
  have dig: "list_all b16_digit (b16encode s)" by (induction s) (simp_all add: e0 e c' n)
  have len: "length (b16encode s) mod 2 = 0" by (induction s) (simp_all add: e0 e mod_Suc)
  have "unhexlify_pairs (b16encode s) = Inr s"
    by (induction s) (simp_all add: e0 e int16_pair_def c' n mult.commute)
  then show ?thesis using up dig len by (simp add: b16decode_def bytes_from_decode_data_def unhexlify_def)
qed

section \<open>Properties\<close>

text \<open>C4: \<open>b2a_base64\<close> is the encoding of RFC 4648 (and a newline), \<open>a2b_base64\<close> reads it back with or
  without the newline, and it passes over every byte outside the alphabet.\<close>

theorem base64_roundtrip:
  "b2a_base64 s newline = rfc_base64 s @ (if newline then [0x0A] else []) \<and>
   a2b_base64 (b2a_base64 s newline) = Inr s \<and>
   a2b_base64 (filter b64_alphabet t) = a2b_base64 t"
  using a2b_line [of s False "[]"]
  by (cases newline) (simp_all add: b2a_newline b2a_rfc a2b_base64_def a2b_rfc a2b_filter)

text \<open>With an alternative alphabet for \<open>+\<close> and \<open>/\<close>, \<open>b64decode\<close> reads back what \<open>b64encode\<close>
  writes, also when it validates the text; the alphabet must not clash with the other digits.\<close>

theorem b64_altchars_roundtrip:
  assumes "case altchars of None \<Rightarrow> True | Some alt \<Rightarrow> good_altchars alt"
  shows "\<exists>e. b64encode s altchars = Inr e \<and> b64decode (Bytes e) (map_option Bytes altchars) validate = Inr s"
proof (cases altchars)
  case None
  have "drop_last 1 (b2a_base64 s True) = rfc_base64 s" by (simp add: b2a_newline b2a_rfc)
  then show ?thesis
    using None b64_text_shape [OF rfc_base64_text]
    by (simp add: b64encode_def b64decode_def bytes_from_decode_data_def a2b_base64_def a2b_rfc)
next
  case (Some alt)
  then have g: "good_altchars alt" "length alt = 2" using assms by (simp_all add: good_altchars_def)
  obtain e d where m: "maketrans (ascii ''+/'') alt = Inr e" "maketrans alt (ascii ''+/'') = Inr d"
    using g(2) by (simp add: maketrans_def ascii_plus_slash)
  have "drop_last 1 (b2a_base64 s True) = rfc_base64 s" by (simp add: b2a_newline b2a_rfc)
  moreover have "translate (translate (rfc_base64 s) e) d = rfc_base64 s"
    by (rule translate_back [OF g(1) rfc_base64_text m])
  ultimately show ?thesis
    using Some g(2) m b64_text_shape [OF rfc_base64_text]
    by (simp add: b64encode_def b64decode_def bytes_from_decode_data_def a2b_base64_def a2b_rfc)
qed

theorem b64_altchars_roundtrip_witness:
  "\<exists>e. b64encode [255, 239, 190, 1] (Some (ascii ''-_'')) = Inr e \<and>
     b64decode (Bytes e) (Some (Bytes (ascii ''-_''))) True = Inr [255, 239, 190, 1]"
proof -
  have "good_altchars (ascii ''-_'')" by code_simp
  then show ?thesis using b64_altchars_roundtrip [of "Some (ascii ''-_'')" "[255, 239, 190, 1]" True] by simp
qed

text \<open>\<open>encodebytes\<close> and the file function \<open>encode\<close> write the same lines, however the input file
  cuts the data into pieces, and \<open>decodebytes\<close> and \<open>decode\<close> read the data back from them.\<close>

theorem base64_lines_roundtrip:
  "concat (encode pieces) = encodebytes (concat pieces) \<and>
   decodebytes (encodebytes s) = Inr s \<and>
   (case decode (encodebytes s) of (outs, err) \<Rightarrow> err = None \<and> concat outs = s)"
  using decode_lines [of s] by (auto simp: encode_pieces decodebytes_def a2b_base64_def a2b_encodebytes)

text \<open>\<open>b32decode\<close> and \<open>b16decode\<close> read back what \<open>b32encode\<close> and \<open>b16encode\<close> write, for every
  length and with case folding on or off.\<close>

theorem base32_base16_roundtrip:
  "b32decode (Bytes (b32encode s)) casefold None = Inr s \<and> b16decode (Bytes (b16encode s)) casefold = Inr s"
  by (simp add: b32_roundtrip_lemma hexlify_upper)

end
