(* ===== verification/Container.thy ===== *)
theory Container
  imports Heapq
begin

text \<open>
  The storage of the queue classes. \<open>Queue\<close>, \<open>LifoQueue\<close> and \<open>PriorityQueue\<close> (in
  \<open>python-stdlib/queue/queue.py\<close> and in \<open>python-stdlib/asyncio/queues.py\<close>) differ only in \<open>_init\<close>,
  \<open>_put\<close> and \<open>_get\<close>; \<open>qkind\<close> names the class. The interface that the queue code relies on is the
  locale \<open>container\<close>, interpreted below on the three classes.
\<close>

section \<open>\<open>_put\<close> and \<open>_get\<close>\<close>

datatype qkind = Fifo | Lifo | Prio

fun kind_put :: "qkind \<Rightarrow> ('a \<Rightarrow> 'a \<Rightarrow> bool) \<Rightarrow> 'a list \<Rightarrow> 'a \<Rightarrow> 'a list" where
  "kind_put Fifo lt q item = q @ [item]"
| "kind_put Lifo lt q item = q @ [item]"
| "kind_put Prio lt q item = heappush lt q item"

text \<open>\<open>popleft()\<close> and \<open>pop()\<close> of an empty deque raise an IndexError.\<close>

fun kind_get :: "qkind \<Rightarrow> ('a \<Rightarrow> 'a \<Rightarrow> bool) \<Rightarrow> 'a list \<Rightarrow> ('a \<times> 'a list) result" where
  "kind_get Fifo lt q = (case q of [] \<Rightarrow> Inl IndexError | x # xs \<Rightarrow> Inr (x, xs))"
| "kind_get Lifo lt q = (if q = [] then Inl IndexError else Inr (last q, butlast q))"
| "kind_get Prio lt q = heappop lt q"

section \<open>The interface of the queues to their storage\<close>

text \<open>
  \<open>ok\<close> is the invariant of the representation, \<open>next_out q x\<close> says that \<open>x\<close> is an item the class
  may hand out next.
\<close>

locale container =
  fixes ok :: "'a list \<Rightarrow> bool"
    and put :: "'a list \<Rightarrow> 'a \<Rightarrow> 'a list"
    and get :: "'a list \<Rightarrow> ('a \<times> 'a list) result"
    and next_out :: "'a list \<Rightarrow> 'a \<Rightarrow> bool"
  assumes ok_empty: "ok []"
    and ok_put: "ok q \<Longrightarrow> ok (put q x)"
    and mset_put: "mset (put q x) = add_mset x (mset q)"
    and get_empty: "get [] = Inl IndexError"
    and get_some: "q \<noteq> [] \<Longrightarrow> \<exists>x q'. get q = Inr (x, q')"
    and ok_get: "ok q \<Longrightarrow> get q = Inr (x, q') \<Longrightarrow> ok q' \<and> next_out q x"
    and mset_get: "get q = Inr (x, q') \<Longrightarrow> mset q = add_mset x (mset q')"
begin

lemma length_put [simp]: "length (put q x) = Suc (length q)"
  using arg_cong [OF mset_put, of size q x] by simp

lemma length_get: "get q = Inr (x, q') \<Longrightarrow> length q = Suc (length q')"
  using arg_cong [OF mset_get, of q x q' size] by simp

lemma get_error: "get q = Inl e \<Longrightarrow> q = [] \<and> e = IndexError"
  using get_some [of q] get_empty by (cases "q = []") auto

text \<open>Any sequence of puts and gets: what was put and not yet got is what the storage holds.\<close>

fun run_ops :: "'a option list \<Rightarrow> 'a list \<Rightarrow> 'a list \<Rightarrow> 'a list \<times> 'a list" where
  "run_ops [] q out = (q, out)"
| "run_ops (Some x # ops) q out = run_ops ops (put q x) out"
| "run_ops (None # ops) q out =
     (case get q of Inl _ \<Rightarrow> run_ops ops q out | Inr (x, q') \<Rightarrow> run_ops ops q' (out @ [x]))"

lemma run_ops_conserve:
  "run_ops ops q out = (q', out') \<Longrightarrow>
     mset q' + mset out' = mset q + mset out + mset (map the (filter (\<lambda>x. x \<noteq> None) ops))"
proof (induction ops q out arbitrary: q' out' rule: run_ops.induct)
  case (3 ops q out)
  then show ?case by (cases "get q") (auto dest!: mset_get split: prod.splits)
qed (auto simp: mset_put)

end

interpretation fifo: container "\<lambda>_. True" "kind_put Fifo lt" "kind_get Fifo lt" "\<lambda>q x. x = hd q"
  by unfold_locales (auto split: list.splits)

interpretation lifo: container "\<lambda>_. True" "kind_put Lifo lt" "kind_get Lifo lt" "\<lambda>q x. x = last q"
proof unfold_locales
  fix q q' :: "'a list" and x
  assume "kind_get Lifo lt q = Inr (x, q')"
  then have "q = q' @ [x]" by (auto split: if_splits)
  then show "mset q = add_mset x (mset q')" by simp
qed (auto split: if_splits)

interpretation prio: container "is_heap (<)" "kind_put Prio ((<) :: 'a::linorder \<Rightarrow> 'a \<Rightarrow> bool)" "kind_get Prio (<)"
  "\<lambda>q x. x = Min_mset (mset q)"
proof unfold_locales
  fix q :: "'a list"
  show "\<exists>x q'. kind_get Prio (<) q = Inr (x, q')" if "q \<noteq> []"
    using that heappop_Inl_iff [of "(<)" q] by (cases "heappop (<) q") auto
next
  fix q q' :: "'a list" and x
  show "is_heap (<) q' \<and> x = Min_mset (mset q)" if "is_heap (<) q" "kind_get Prio (<) q = Inr (x, q')"
    using heappop_Min(1,3) [of q x q'] that by simp
qed (simp_all add: lt_order.heappush_heap heappop_mset heappop_def)

text \<open>The laws by kind, as the queues use them: the storage invariant of a kind, and its contents.\<close>

definition kind_ok :: "qkind \<Rightarrow> 'a::linorder list \<Rightarrow> bool" where
  "kind_ok kind q \<longleftrightarrow> (kind = Prio \<longrightarrow> is_heap (<) q)"

definition kind_next :: "qkind \<Rightarrow> 'a::linorder list \<Rightarrow> 'a \<Rightarrow> bool" where
  "kind_next kind q x \<longleftrightarrow>
     x = (case kind of Fifo \<Rightarrow> hd q | Lifo \<Rightarrow> last q | Prio \<Rightarrow> Min_mset (mset q))"

lemma kind_laws:
  fixes q q' :: "'a::linorder list"
  shows "kind_ok kind ([] :: 'a list)"
  "kind_ok kind q \<Longrightarrow> kind_ok kind (kind_put kind (<) q x)"
  "mset (kind_put kind (<) q x) = add_mset x (mset q)"
  "kind_get kind (<) ([] :: 'a list) = Inl IndexError"
  "q \<noteq> [] \<Longrightarrow> \<exists>x q'. kind_get kind (<) q = Inr (x, q')"
  "kind_ok kind q \<Longrightarrow> kind_get kind (<) q = Inr (x, q') \<Longrightarrow> kind_ok kind q' \<and> kind_next kind q x"
  "kind_get kind (<) q = Inr (x, q') \<Longrightarrow> mset q = add_mset x (mset q')"
proof -
  show "kind_ok kind ([] :: 'a list)" using prio.ok_empty by (simp add: kind_ok_def)
  show "kind_ok kind q \<Longrightarrow> kind_ok kind (kind_put kind (<) q x)"
    using prio.ok_put by (auto simp: kind_ok_def)
  show "mset (kind_put kind (<) q x) = add_mset x (mset q)"
    using fifo.mset_put lifo.mset_put prio.mset_put by (cases kind) auto
  show "kind_get kind (<) ([] :: 'a list) = Inl IndexError"
    using fifo.get_empty lifo.get_empty prio.get_empty by (cases kind) auto
  show "q \<noteq> [] \<Longrightarrow> \<exists>x q'. kind_get kind (<) q = Inr (x, q')"
    using fifo.get_some lifo.get_some prio.get_some by (cases kind) auto
  show "kind_ok kind q \<Longrightarrow> kind_get kind (<) q = Inr (x, q') \<Longrightarrow> kind_ok kind q' \<and> kind_next kind q x"
    using fifo.ok_get [of "(<)" q x q'] lifo.ok_get [of "(<)" q x q'] prio.ok_get [of q x q'] by (cases kind) (auto simp: kind_ok_def kind_next_def)
  show "kind_get kind (<) q = Inr (x, q') \<Longrightarrow> mset q = add_mset x (mset q')"
    using fifo.mset_get lifo.mset_get prio.mset_get by (cases kind) auto
qed

interpretation kinds: container "kind_ok kind" "kind_put kind (<)" "kind_get kind (<)" "kind_next kind"
  for kind :: qkind
  by unfold_locales (rule kind_laws; assumption)+

end
