(* ===== verification/Wakeup.thy ===== *)
theory Wakeup
  imports Main
begin

text \<open>
  What every blocking class of the library promises: a resource is counted (items in a queue, free
  slots, the value of a semaphore), consumers that find none are parked in a line, a supplier takes
  one consumer out of the line and rouses it, and a roused consumer tries again. The abstract state
  has the three counts; \<open>wake_step\<close> is the contract; \<open>no_lost_wakeup\<close> is what it buys: while somebody
  is parked, every available unit has a roused consumer that will run. The locale \<open>wakeup\<close> is the
  interface to the concrete machines, which are shown to simulate the contract in their theories.
\<close>

section \<open>The contract\<close>

record wake =
  avail :: nat
  parked :: nat
  roused :: nat

text \<open>
  \<open>supply\<close> adds a unit and rouses a parked consumer if there is one; \<open>take_new\<close> is a consumer that
  found a unit at once, \<open>park\<close> one that did not; a roused consumer takes a unit or, when a newcomer
  was faster, parks again; \<open>barge\<close> is a parked consumer that takes a unit without having been roused
  (its wait timed out); \<open>leave\<close> is a parked consumer that gives up. A roused consumer that gives up
  hands its turn to a parked one, which for the counts is \<open>leave\<close> again, and only quits silently
  when nobody is parked or nothing is available.
\<close>

inductive wake_step :: "wake \<Rightarrow> wake \<Rightarrow> bool" where
  supply_rouse: "avail t = Suc (avail s) \<Longrightarrow> parked s = Suc (parked t) \<Longrightarrow> roused t = Suc (roused s) \<Longrightarrow> wake_step s t"
| supply_idle: "avail t = Suc (avail s) \<Longrightarrow> parked s = 0 \<Longrightarrow> parked t = 0 \<Longrightarrow> roused t = roused s \<Longrightarrow> wake_step s t"
| take_new: "avail s = Suc (avail t) \<Longrightarrow> parked t = parked s \<Longrightarrow> roused t = roused s \<Longrightarrow> wake_step s t"
| park: "avail s = 0 \<Longrightarrow> avail t = 0 \<Longrightarrow> parked t = Suc (parked s) \<Longrightarrow> roused t = roused s \<Longrightarrow> wake_step s t"
| roused_take: "avail s = Suc (avail t) \<Longrightarrow> parked t = parked s \<Longrightarrow> roused s = Suc (roused t) \<Longrightarrow> wake_step s t"
| roused_park: "avail s = 0 \<Longrightarrow> avail t = 0 \<Longrightarrow> parked t = Suc (parked s) \<Longrightarrow> roused s = Suc (roused t) \<Longrightarrow> wake_step s t"
| barge: "avail s = Suc (avail t) \<Longrightarrow> parked s = Suc (parked t) \<Longrightarrow> roused t = roused s \<Longrightarrow> wake_step s t"
| leave: "avail t = avail s \<Longrightarrow> parked s = Suc (parked t) \<Longrightarrow> roused t = roused s \<Longrightarrow> wake_step s t"
| quit_idle: "avail t = avail s \<Longrightarrow> parked s = 0 \<Longrightarrow> parked t = 0 \<Longrightarrow> roused s = Suc (roused t) \<Longrightarrow> wake_step s t"
| quit_empty: "avail s = 0 \<Longrightarrow> avail t = 0 \<Longrightarrow> parked t = parked s \<Longrightarrow> roused s = Suc (roused t) \<Longrightarrow> wake_step s t"
| idle: "avail t = avail s \<Longrightarrow> parked t = parked s \<Longrightarrow> roused t = roused s \<Longrightarrow> wake_step s t"

definition no_lost_wakeup :: "wake \<Rightarrow> bool" where
  "no_lost_wakeup s \<longleftrightarrow> (parked s > 0 \<longrightarrow> avail s \<le> roused s)"

lemma wake_step_safe: "wake_step s t \<Longrightarrow> no_lost_wakeup s \<Longrightarrow> no_lost_wakeup t"
  by (induction rule: wake_step.induct) (auto simp: no_lost_wakeup_def)

section \<open>Machines that keep the contract\<close>

inductive reachable :: "('s \<Rightarrow> bool) \<Rightarrow> ('s \<Rightarrow> 's \<Rightarrow> bool) \<Rightarrow> 's \<Rightarrow> bool" for init step where
  start: "init s \<Longrightarrow> reachable init step s"
| more: "reachable init step s \<Longrightarrow> step s t \<Longrightarrow> reachable init step t"

lemma reachable_one: "init s \<Longrightarrow> step s t \<Longrightarrow> reachable init step t"
  by (rule more [OF start])

lemma reachable_invariant:
  assumes "reachable init step s"
    and "\<And>s. init s \<Longrightarrow> invar s" and "\<And>s t. invar s \<Longrightarrow> step s t \<Longrightarrow> invar t"
  shows "invar s"
  using assms by (induction rule: reachable.induct) auto

locale wakeup =
  fixes init :: "'s \<Rightarrow> bool" and step :: "'s \<Rightarrow> 's \<Rightarrow> bool"
    and invar :: "'s \<Rightarrow> bool" and view :: "'s \<Rightarrow> wake"
  assumes init_inv: "init s \<Longrightarrow> invar s"
    and step_inv: "invar s \<Longrightarrow> step s t \<Longrightarrow> invar t"
    and init_safe: "init s \<Longrightarrow> no_lost_wakeup (view s)"
    and simulates: "invar s \<Longrightarrow> step s t \<Longrightarrow> wake_step (view s) (view t)"
begin

lemma reachable_inv: "reachable init step s \<Longrightarrow> invar s"
  by (erule reachable_invariant) (erule init_inv, erule step_inv)

lemma reachable_safe: "reachable init step s \<Longrightarrow> no_lost_wakeup (view s)"
proof (induction rule: reachable.induct)
  case (more s t)
  then show ?case using simulates [OF reachable_inv] wake_step_safe by blast
qed (rule init_safe)

lemma parked_implies_roused:
  "reachable init step s \<Longrightarrow> 0 < parked (view s) \<Longrightarrow> 0 < avail (view s) \<Longrightarrow> 0 < roused (view s)"
  using reachable_safe [of s] by (simp add: no_lost_wakeup_def)

end

end
