(* ===== verification/Async_Line.thy ===== *)
theory Async_Line
  imports Prelude Wakeup
begin

text \<open>
  Futures and lines of waiters, the mechanism that \<open>python-stdlib/asyncio/queues.py\<close> and
  \<open>python-stdlib/asyncio/locks.py\<close> share. Every \<open>await\<close> of these modules creates a future of its own
  (numbered in the order of creation) and appends it to a deque; the coroutine that waits for a
  future is identified with it. asyncio runs one coroutine at a time, so the code between two
  \<open>await\<close>s is one atomic step.
\<close>

section \<open>Futures\<close>

text \<open>\<open>Future\<close> in \<open>python-stdlib/asyncio/futures.py\<close>: pending, or done with a result, or cancelled.\<close>

datatype fstate = Pending | Result | Cancelled

type_synonym futs = "nat \<Rightarrow> fstate"

definition fut_done :: "futs \<Rightarrow> nat \<Rightarrow> bool" where
  "fut_done fut f \<longleftrightarrow> fut f \<noteq> Pending"

definition fut_cancelled :: "futs \<Rightarrow> nat \<Rightarrow> bool" where
  "fut_cancelled fut f \<longleftrightarrow> fut f = Cancelled"

text \<open>\<open>cancel()\<close> of a future that is done has no effect.\<close>

definition fut_cancel :: "futs \<Rightarrow> nat \<Rightarrow> futs" where
  "fut_cancel fut f = (if fut_done fut f then fut else fut(f := Cancelled))"

text \<open>What a coroutine does until it next gives up control: return, wait for a future, or raise.\<close>

datatype 'r outcome = Ret 'r | Wait nat | Raise exn

text \<open>\<open>_wakeup_next\<close>: take waiters out of the line until one is not done, and give it a result.\<close>

fun wakeup_next :: "futs \<Rightarrow> nat list \<Rightarrow> futs \<times> nat list" where
  "wakeup_next fut [] = (fut, [])"
| "wakeup_next fut (waiter # waiters) =
     (if \<not> fut_done fut waiter then (fut(waiter := Result), waiters) else wakeup_next fut waiters)"

section \<open>A line of waiters\<close>

text \<open>
  \<open>W\<close> is the set of coroutines that wait in the line \<open>ws\<close>, all numbered below \<open>n\<close>. Who is pending
  stands in the line, who has a result has left it.
\<close>

definition pending :: "futs \<Rightarrow> nat list \<Rightarrow> nat list" where
  "pending fut ws = filter (\<lambda>f. fut f = Pending) ws"

definition line_ok :: "nat \<Rightarrow> futs \<Rightarrow> nat list \<Rightarrow> nat set \<Rightarrow> bool" where
  "line_ok n fut ws W \<longleftrightarrow> distinct ws \<and> set ws \<subseteq> {..<n} \<and> W \<subseteq> {..<n} \<and>
     (\<forall>f\<in>set ws. fut f \<noteq> Result) \<and> set (pending fut ws) = {f \<in> W. fut f = Pending}"

definition woken :: "futs \<Rightarrow> nat set \<Rightarrow> nat" where
  "woken fut W = card {f \<in> W. fut f = Result}"

definition parked_in :: "futs \<Rightarrow> nat list \<Rightarrow> nat" where
  "parked_in fut ws = length (pending fut ws)"

lemma pending_simps [simp]:
  "pending fut [] = []"
  "pending fut (w # ws) = (if fut w = Pending then w # pending fut ws else pending fut ws)"
  "pending fut (vs @ ws) = pending fut vs @ pending fut ws"
  by (simp_all add: pending_def)

lemma set_pending: "set (pending fut ws) = {f \<in> set ws. fut f = Pending}"
  by (auto simp: pending_def)

lemma pending_cong: "(\<And>f. f \<in> set ws \<Longrightarrow> fut' f = fut f) \<Longrightarrow> pending fut' ws = pending fut ws"
  by (simp add: pending_def cong: filter_cong)

lemma pending_update: "f \<notin> set ws \<Longrightarrow> pending (fut(f := s)) ws = pending fut ws"
  by (rule pending_cong) auto

lemma pending_done: "s \<noteq> Pending \<Longrightarrow> pending (fut(f := s)) ws = removeAll f (pending fut ws)"
  by (induction ws) auto

lemma pending_remove1: "fut f \<noteq> Pending \<Longrightarrow> pending fut (remove1 f ws) = pending fut ws"
  by (induction ws) auto

lemma distinct_pending: "distinct ws \<Longrightarrow> distinct (pending fut ws)"
  by (simp add: pending_def)

lemma line_finite: "line_ok n fut ws W \<Longrightarrow> finite {f \<in> W. fut f = Result}"
  by (rule finite_subset [of _ "{..<n}"]) (auto simp: line_ok_def)

lemma line_empty: "line_ok n fut [] {}" "woken fut {} = 0" "parked_in fut [] = 0"
  by (simp_all add: line_ok_def pending_def woken_def parked_in_def)

lemma wakeup_next_eq:
  "distinct ws \<Longrightarrow> wakeup_next fut ws = (fut', ws') \<Longrightarrow>
     (if pending fut ws = [] then fut' = fut \<and> ws' = []
      else fut' = fut(hd (pending fut ws) := Result) \<and> pending fut' ws' = tl (pending fut ws) \<and>
        hd (pending fut ws) \<notin> set ws') \<and> set ws' \<subseteq> set ws \<and> distinct ws'"
proof (induction ws)
  case (Cons w ws)
  then show ?case
    by (auto simp: fut_done_def pending_update split: if_splits)
qed simp

lemma line_wakeup:
  assumes l: "line_ok n fut ws W" and w: "wakeup_next fut ws = (fut', ws')"
  shows "line_ok n fut' ws' W"
    and "parked_in fut ws = 0 \<Longrightarrow> parked_in fut' ws' = 0 \<and> woken fut' W = woken fut W"
    and "0 < parked_in fut ws \<Longrightarrow> parked_in fut ws = Suc (parked_in fut' ws') \<and> woken fut' W = Suc (woken fut W)"
    and "\<And>f. f \<notin> W \<Longrightarrow> fut' f = fut f" and "\<And>f. fut f \<noteq> Pending \<Longrightarrow> fut' f = fut f"
    and "\<And>f. fut' f = Cancelled \<longleftrightarrow> fut f = Cancelled"
proof -
  have d: "distinct ws" using l by (simp add: line_ok_def)
  note e = wakeup_next_eq [OF d w]
  show "parked_in fut ws = 0 \<Longrightarrow> parked_in fut' ws' = 0 \<and> woken fut' W = woken fut W"
    using e by (auto simp: parked_in_def woken_def)
  have all: "line_ok n fut' ws' W \<and>
      (pending fut ws \<noteq> [] \<longrightarrow> length (pending fut ws) = Suc (length (pending fut' ws')) \<and> woken fut' W = Suc (woken fut W)) \<and>
      (\<forall>f. f \<notin> W \<longrightarrow> fut' f = fut f) \<and> (\<forall>f. fut f \<noteq> Pending \<longrightarrow> fut' f = fut f) \<and>
      (\<forall>f. fut' f = Cancelled \<longleftrightarrow> fut f = Cancelled)"
  proof (cases "pending fut ws")
    case Nil
    then have "fut' = fut" "ws' = []" using e by simp_all
    then show ?thesis using l Nil by (simp add: line_ok_def)
  next
    case (Cons h t)
    then have f: "fut' = fut(h := Result)" "pending fut' ws' = t" "h \<notin> set ws'" "set ws' \<subseteq> set ws" "distinct ws'"
      using e Cons by (simp_all, metis)
    have h: "h \<in> W" "fut h = Pending" "h \<notin> set t"
      using l Cons distinct_pending [OF d, of fut] by (auto simp: line_ok_def)
    have P: "set (pending fut ws) = insert h (set t)" using Cons by simp
    have "{f \<in> W. fut' f = Pending} = {f \<in> W. fut f = Pending} - {h}" using f(1) by auto
    also have "\<dots> = set t" using l P h(3) by (auto simp: line_ok_def)
    finally have "line_ok n fut' ws' W"
      using l f h by (auto simp: line_ok_def)
    moreover have "{f \<in> W. fut' f = Result} = insert h {f \<in> W. fut f = Result}" using f(1) h by auto
    then have "woken fut' W = Suc (woken fut W)"
      using h(2) line_finite [OF l] by (simp add: woken_def)
    ultimately show ?thesis using Cons f(1,2) h by auto
  qed
  then show "line_ok n fut' ws' W"
    and "0 < parked_in fut ws \<Longrightarrow> parked_in fut ws = Suc (parked_in fut' ws') \<and> woken fut' W = Suc (woken fut W)"
    and "\<And>f. f \<notin> W \<Longrightarrow> fut' f = fut f" and "\<And>f. fut f \<noteq> Pending \<Longrightarrow> fut' f = fut f"
    and "\<And>f. fut' f = Cancelled \<longleftrightarrow> fut f = Cancelled"
    by (auto simp: parked_in_def)
qed

lemma line_park:
  assumes "line_ok n fut ws W"
  shows "line_ok (Suc n) (fut(n := Pending)) (ws @ [n]) (insert n W)"
    "parked_in (fut(n := Pending)) (ws @ [n]) = Suc (parked_in fut ws)"
    "woken (fut(n := Pending)) (insert n W) = woken fut W"
proof -
  have n: "n \<notin> set ws" "n \<notin> W" using assms by (auto simp: line_ok_def)
  then have p: "pending (fut(n := Pending)) (ws @ [n]) = pending fut ws @ [n]"
    by (simp add: pending_update)
  have "{f \<in> insert n W. (fut(n := Pending)) f = Pending} = insert n {f \<in> W. fut f = Pending}" by auto
  then show "line_ok (Suc n) (fut(n := Pending)) (ws @ [n]) (insert n W)"
    using assms n p by (auto simp: line_ok_def)
  show "parked_in (fut(n := Pending)) (ws @ [n]) = Suc (parked_in fut ws)" unfolding parked_in_def p by simp
  have "{f \<in> insert n W. (fut(n := Pending)) f = Result} = {f \<in> W. fut f = Result}" using n by auto
  then show "woken (fut(n := Pending)) (insert n W) = woken fut W" by (simp add: woken_def)
qed

text \<open>A future outside the line may change, and the numbering may go on.\<close>

lemma line_frame:
  assumes "line_ok n fut ws W" "\<And>f. f \<in> W \<union> set ws \<Longrightarrow> fut' f = fut f" "n \<le> n'"
  shows "line_ok n' fut' ws W" "parked_in fut' ws = parked_in fut ws" "woken fut' W = woken fut W"
proof -
  have "pending fut' ws = pending fut ws" using assms(2) by (auto intro: pending_cong)
  moreover have "{f \<in> W. fut' f = s} = {f \<in> W. fut f = s}" for s using assms(2) by auto
  ultimately show "line_ok n' fut' ws W" "parked_in fut' ws = parked_in fut ws" "woken fut' W = woken fut W"
    using assms by (auto simp: line_ok_def parked_in_def woken_def)
qed

text \<open>A roused coroutine runs on: it leaves \<open>W\<close>.\<close>

lemma line_resume:
  assumes "line_ok n fut ws W" "f \<in> W" "fut f = Result"
  shows "line_ok n fut ws (W - {f})" "woken fut W = Suc (woken fut (W - {f}))" "f \<notin> set ws"
proof -
  show "f \<notin> set ws" using assms by (auto simp: line_ok_def)
  have "{g \<in> W - {f}. fut g = Pending} = {g \<in> W. fut g = Pending}" using assms(3) by auto
  then show "line_ok n fut ws (W - {f})" using assms(1) by (auto simp: line_ok_def)
  have "{g \<in> W. fut g = Result} = insert f {g \<in> W - {f}. fut g = Result}" using assms(2,3) by auto
  moreover have "finite {g \<in> W - {f}. fut g = Result}"
    using line_finite [OF assms(1)] by (rule rev_finite_subset) auto
  ultimately show "woken fut W = Suc (woken fut (W - {f}))" by (simp add: woken_def)
qed

lemma line_cancel:
  assumes "line_ok n fut ws W" "f \<in> W" "fut f = Pending"
  shows "line_ok n (fut(f := Cancelled)) ws W" "parked_in fut ws = Suc (parked_in (fut(f := Cancelled)) ws)"
    "woken (fut(f := Cancelled)) W = woken fut W"
proof -
  have d: "distinct (pending fut ws)" using assms(1) by (simp add: line_ok_def distinct_pending)
  have f: "f \<in> set (pending fut ws)" using assms by (auto simp: line_ok_def)
  have p: "pending (fut(f := Cancelled)) ws = remove1 f (pending fut ws)"
    by (simp add: pending_done distinct_remove1_removeAll [OF d])
  have W: "{g \<in> W. (fut(f := Cancelled)) g = Pending} = {g \<in> W. fut g = Pending} - {f}" by auto
  show "line_ok n (fut(f := Cancelled)) ws W"
    unfolding line_ok_def p W using assms(1) d by (auto simp: line_ok_def)
  show "parked_in fut ws = Suc (parked_in (fut(f := Cancelled)) ws)"
    using f by (simp add: parked_in_def p length_remove1) (metis Suc_pred length_pos_if_in_set)
  have "{g \<in> W. (fut(f := Cancelled)) g = Result} = {g \<in> W. fut g = Result}" using assms(3) by auto
  then show "woken (fut(f := Cancelled)) W = woken fut W" by (simp add: woken_def)
qed

text \<open>A cancelled coroutine ends; its future may stay in the line or be removed from it.\<close>

lemma line_end_cancelled:
  assumes "line_ok n fut ws W" "fut f = Cancelled"
  shows "line_ok n fut ws (W - {f})" "line_ok n fut (remove1 f ws) (W - {f})"
    "parked_in fut (remove1 f ws) = parked_in fut ws" "woken fut (W - {f}) = woken fut W"
proof -
  have W: "{g \<in> W - {f}. fut g = s} = {g \<in> W. fut g = s}" if "s \<noteq> Cancelled" for s using assms(2) that by auto
  have p: "pending fut (remove1 f ws) = pending fut ws"
    using assms(2) by (simp add: pending_remove1)
  show "line_ok n fut ws (W - {f})" "line_ok n fut (remove1 f ws) (W - {f})"
    using assms(1) W [of Pending] set_remove1_subset [of f ws] p by (auto simp: line_ok_def)
  show "parked_in fut (remove1 f ws) = parked_in fut ws" by (simp add: parked_in_def p)
  show "woken fut (W - {f}) = woken fut W" using W [of Result] by (simp add: woken_def)
qed

end
