(* ===== verification/Item_Store.thy ===== *)
theory Item_Store
  imports Container Async_Line
begin

text \<open>
  What the queues of \<open>python-stdlib/queue/queue.py\<close> and of \<open>python-stdlib/asyncio/queues.py\<close> promise
  about the items. A step of a queue is labelled with what its caller sees: an item went in, an item
  came out, or neither. The locale \<open>item_store\<close> states what a step does to the stored items; from it
  follows what a whole run does, for both implementations.
\<close>

section \<open>Labels\<close>

datatype 'a qevent = Put 'a | Got 'a | Silent

fun put_event :: "'a \<Rightarrow> 'b option outcome \<Rightarrow> 'a qevent" where
  "put_event x (Ret _) = Put x"
| "put_event x _ = Silent"

fun got_event :: "'a option outcome \<Rightarrow> 'a qevent" where
  "got_event (Ret (Some x)) = Got x"
| "got_event _ = Silent"

fun puts :: "'a qevent list \<Rightarrow> 'a list" where
  "puts [] = []"
| "puts (Put x # es) = x # puts es"
| "puts (_ # es) = puts es"

fun gots :: "'a qevent list \<Rightarrow> 'a list" where
  "gots [] = []"
| "gots (Got x # es) = x # gots es"
| "gots (_ # es) = gots es"

lemma puts_append [simp]: "puts (es @ fs) = puts es @ puts fs"
  by (induction es rule: puts.induct) auto

lemma gots_append [simp]: "gots (es @ fs) = gots es @ gots fs"
  by (induction es rule: gots.induct) auto

text \<open>A run of a labelled machine, with the labels in order.\<close>

inductive trace :: "('s \<Rightarrow> bool) \<Rightarrow> ('s \<Rightarrow> 'e \<Rightarrow> 's \<Rightarrow> bool) \<Rightarrow> 'e list \<Rightarrow> 's \<Rightarrow> bool" for init step where
  trace_new: "init s \<Longrightarrow> trace init step [] s"
| trace_more: "trace init step es s \<Longrightarrow> step s e t \<Longrightarrow> trace init step (es @ [e]) t"

section \<open>The interface and what follows from it\<close>

text \<open>What a step does to the items \<open>q\<close> of a queue of the given kind, \<open>q'\<close> being those after it.\<close>

fun item_step :: "qkind \<Rightarrow> 'a::linorder list \<Rightarrow> 'a qevent \<Rightarrow> 'a list \<Rightarrow> bool" where
  "item_step kind q (Put x) q' \<longleftrightarrow> q' = kind_put kind (<) q x"
| "item_step kind q (Got x) q' \<longleftrightarrow> kind_get kind (<) q = Inr (x, q')"
| "item_step kind q Silent q' \<longleftrightarrow> q' = q"

locale item_store =
  fixes init :: "'s \<Rightarrow> bool" and step :: "'s \<Rightarrow> 'a::linorder qevent \<Rightarrow> 's \<Rightarrow> bool"
    and invar :: "'s \<Rightarrow> bool" and kind :: "'s \<Rightarrow> qkind" and items :: "'s \<Rightarrow> 'a list"
  assumes new_inv: "init s \<Longrightarrow> invar s"
    and new_items: "init s \<Longrightarrow> items s = []"
    and inv_kind: "invar s \<Longrightarrow> kind_ok (kind s) (items s)"
    and step_inv: "invar s \<Longrightarrow> step s e t \<Longrightarrow> invar t"
    and step_kind: "invar s \<Longrightarrow> step s e t \<Longrightarrow> kind t = kind s"
    and step_items: "invar s \<Longrightarrow> step s e t \<Longrightarrow> item_step (kind s) (items s) e (items t)"
begin

lemma trace_inv: "trace init step es s \<Longrightarrow> invar s"
  by (induction rule: trace.induct) (auto intro: new_inv step_inv)

lemma trace_items:
  "trace init step es s \<Longrightarrow> mset (puts es) = mset (gots es) + mset (items s) \<and>
     (kind s = Fifo \<longrightarrow> puts es = gots es @ items s)"
proof (induction rule: trace.induct)
  case (trace_more es s e t)
  then show ?case
    using trace_inv [of es s] step_kind [of s e t] step_items [of s e t] kinds.mset_get [of "kind s" "items s"]
    by (cases e) (auto simp: kinds.mset_put split: list.splits)
qed (simp add: new_items)

lemma hands_out: "trace init step es s \<Longrightarrow> step s (Got x) t \<Longrightarrow> kind_next (kind s) (items s) x"
  using trace_inv [of es s] inv_kind [of s] step_items [of s "Got x" t] kinds.ok_get [of "kind s" "items s" x "items t"]
  by simp

end

end
