(* ===== verification/Async_Locks.thy ===== *)
theory Async_Locks
  imports Async_Line
begin

text \<open>
  \<open>Event\<close>, \<open>Lock\<close>, \<open>Condition\<close>, \<open>Semaphore\<close> and \<open>BoundedSemaphore\<close> of
  \<open>python-stdlib/asyncio/locks.py\<close>. Each object keeps its futures and the set of coroutines that are
  suspended in one of its \<open>await\<close>s. A coroutine is resumed when its future has a result, and gets a
  CancelledError thrown in when its task was cancelled: its future is then cancelled, or it has a
  result already that the coroutine has not seen yet.
\<close>

section \<open>\<open>Event\<close>\<close>

record aevent =
  ev_value :: bool
  ev_waiters :: "nat list"
  ev_fut :: futs
  ev_next :: nat

definition aevent_new :: aevent where
  "aevent_new = \<lparr>ev_value = False, ev_waiters = [], ev_fut = (\<lambda>_. Pending), ev_next = 0\<rparr>"

definition aevent_is_set :: "aevent \<Rightarrow> bool" where
  "aevent_is_set s = ev_value s"

fun set_results :: "futs \<Rightarrow> nat list \<Rightarrow> futs" where
  "set_results fut [] = fut"
| "set_results fut (f # ws) = set_results (if \<not> fut_done fut f then fut(f := Result) else fut) ws"

definition aevent_set :: "aevent \<Rightarrow> aevent" where
  "aevent_set s =
     (if \<not> ev_value s then s\<lparr>ev_value := True, ev_fut := set_results (ev_fut s) (ev_waiters s)\<rparr> else s)"

definition aevent_clear :: "aevent \<Rightarrow> aevent" where
  "aevent_clear s = s\<lparr>ev_value := False\<rparr>"

definition aevent_wait :: "aevent \<Rightarrow> bool outcome \<times> aevent" where
  "aevent_wait s =
     (if ev_value s then (Ret True, s)
      else let f = ev_next s in
        (Wait f, s\<lparr>ev_next := f + 1, ev_fut := (ev_fut s)(f := Pending), ev_waiters := ev_waiters s @ [f]\<rparr>))"

text \<open>The coroutine goes on with the result, or with the exception; the \<open>finally\<close> block runs in both cases.\<close>

definition aevent_resume :: "aevent \<Rightarrow> nat \<Rightarrow> bool outcome \<times> aevent" where
  "aevent_resume s f = (Ret True, s\<lparr>ev_waiters := remove1 f (ev_waiters s)\<rparr>)"

definition aevent_throw :: "aevent \<Rightarrow> nat \<Rightarrow> bool outcome \<times> aevent" where
  "aevent_throw s f = (Raise CancelledError, s\<lparr>ev_waiters := remove1 f (ev_waiters s)\<rparr>)"

definition aevent_cancel :: "aevent \<Rightarrow> nat \<Rightarrow> aevent" where
  "aevent_cancel s f = s\<lparr>ev_fut := fut_cancel (ev_fut s) f\<rparr>"

inductive aevent_step :: "aevent \<Rightarrow> aevent \<Rightarrow> bool" where
  ev_set: "aevent_step s (aevent_set s)"
| ev_clear: "aevent_step s (aevent_clear s)"
| ev_wait: "aevent_step s (snd (aevent_wait s))"
| ev_resume: "f \<in> set (ev_waiters s) \<Longrightarrow> ev_fut s f = Result \<Longrightarrow> aevent_step s (snd (aevent_resume s f))"
| ev_cancel: "f \<in> set (ev_waiters s) \<Longrightarrow> aevent_step s (aevent_cancel s f)"
| ev_throw: "f \<in> set (ev_waiters s) \<Longrightarrow> ev_fut s f \<noteq> Pending \<Longrightarrow> aevent_step s (snd (aevent_throw s f))"

section \<open>\<open>Semaphore\<close> and \<open>BoundedSemaphore\<close>\<close>

record asem =
  sm_value :: int
  sm_waiters :: "nat list"
  sm_fut :: futs
  sm_next :: nat
  sm_suspended :: "nat set"

definition asem_new :: "int \<Rightarrow> asem result" where
  "asem_new value =
     (if value < 0 then Inl ValueError
      else Inr \<lparr>sm_value = value, sm_waiters = [], sm_fut = (\<lambda>_. Pending), sm_next = 0, sm_suspended = {}\<rparr>)"

definition asem_wake_up_next :: "asem \<Rightarrow> asem" where
  "asem_wake_up_next s =
     (case wakeup_next (sm_fut s) (sm_waiters s) of (fut, ws) \<Rightarrow> s\<lparr>sm_fut := fut, sm_waiters := ws\<rparr>)"

definition asem_locked :: "asem \<Rightarrow> bool" where
  "asem_locked s \<longleftrightarrow> sm_value s = 0"

text \<open>From the head of the loop of \<open>acquire\<close> to its next \<open>await\<close> or its return.\<close>

definition asem_acquire :: "asem \<Rightarrow> bool outcome \<times> asem" where
  "asem_acquire s =
     (if sm_value s \<le> 0 then
        let f = sm_next s in
        (Wait f, s\<lparr>sm_next := f + 1, sm_fut := (sm_fut s)(f := Pending), sm_waiters := sm_waiters s @ [f],
                  sm_suspended := insert f (sm_suspended s)\<rparr>)
      else (Ret True, s\<lparr>sm_value := sm_value s - 1\<rparr>))"

definition asem_resume :: "asem \<Rightarrow> nat \<Rightarrow> bool outcome \<times> asem" where
  "asem_resume s f = asem_acquire (s\<lparr>sm_suspended := sm_suspended s - {f}\<rparr>)"

definition asem_throw :: "asem \<Rightarrow> nat \<Rightarrow> bool outcome \<times> asem" where
  "asem_throw s f =
     (let s = s\<lparr>sm_suspended := sm_suspended s - {f}, sm_fut := fut_cancel (sm_fut s) f\<rparr>;
          s = (if sm_value s > 0 \<and> \<not> fut_cancelled (sm_fut s) f then asem_wake_up_next s else s)
      in (Raise CancelledError, s))"

definition asem_cancel :: "asem \<Rightarrow> nat \<Rightarrow> asem" where
  "asem_cancel s f = s\<lparr>sm_fut := fut_cancel (sm_fut s) f\<rparr>"

definition asem_release :: "asem \<Rightarrow> asem" where
  "asem_release s = asem_wake_up_next (s\<lparr>sm_value := sm_value s + 1\<rparr>)"

definition bounded_release :: "int \<Rightarrow> asem \<Rightarrow> asem result" where
  "bounded_release bound_value s =
     (if sm_value s \<ge> bound_value then Inl ValueError else Inr (asem_release s))"

inductive asem_step :: "asem \<Rightarrow> asem \<Rightarrow> bool" where
  sm_acquire: "asem_step s (snd (asem_acquire s))"
| sm_release: "asem_step s (asem_release s)"
| sm_resume: "f \<in> sm_suspended s \<Longrightarrow> sm_fut s f = Result \<Longrightarrow> asem_step s (snd (asem_resume s f))"
| sm_cancel: "f \<in> sm_suspended s \<Longrightarrow> asem_step s (asem_cancel s f)"
| sm_throw: "f \<in> sm_suspended s \<Longrightarrow> sm_fut s f \<noteq> Pending \<Longrightarrow> asem_step s (snd (asem_throw s f))"

section \<open>\<open>Lock\<close>\<close>

record alock =
  lk_locked :: bool
  lk_waiters :: "nat list"
  lk_fut :: futs
  lk_next :: nat

definition alock_new :: alock where
  "alock_new = \<lparr>lk_locked = False, lk_waiters = [], lk_fut = (\<lambda>_. Pending), lk_next = 0\<rparr>"

definition alock_acquire :: "alock \<Rightarrow> bool outcome \<times> alock" where
  "alock_acquire s =
     (if \<not> lk_locked s \<and> list_all (fut_cancelled (lk_fut s)) (lk_waiters s)
      then (Ret True, s\<lparr>lk_locked := True\<rparr>)
      else let f = lk_next s in
        (Wait f, s\<lparr>lk_next := f + 1, lk_fut := (lk_fut s)(f := Pending), lk_waiters := lk_waiters s @ [f]\<rparr>))"

definition alock_wake_up_first :: "alock \<Rightarrow> alock" where
  "alock_wake_up_first s =
     (case lk_waiters s of [] \<Rightarrow> s
      | f # _ \<Rightarrow> if \<not> fut_done (lk_fut s) f then s\<lparr>lk_fut := (lk_fut s)(f := Result)\<rparr> else s)"

definition alock_resume :: "alock \<Rightarrow> nat \<Rightarrow> bool outcome \<times> alock" where
  "alock_resume s f = (Ret True, s\<lparr>lk_waiters := remove1 f (lk_waiters s), lk_locked := True\<rparr>)"

definition alock_throw :: "alock \<Rightarrow> nat \<Rightarrow> bool outcome \<times> alock" where
  "alock_throw s f =
     (let s = s\<lparr>lk_waiters := remove1 f (lk_waiters s)\<rparr>
      in (Raise CancelledError, if \<not> lk_locked s then alock_wake_up_first s else s))"

definition alock_release :: "alock \<Rightarrow> alock result" where
  "alock_release s =
     (if lk_locked s then Inr (alock_wake_up_first (s\<lparr>lk_locked := False\<rparr>)) else Inl RuntimeError)"

definition alock_cancel :: "alock \<Rightarrow> nat \<Rightarrow> alock" where
  "alock_cancel s f = s\<lparr>lk_fut := fut_cancel (lk_fut s) f\<rparr>"

text \<open>Steps are labelled with what the callers see: the lock is acquired, released, or neither.\<close>

datatype lock_event = Acquired | Released | Quiet

inductive alock_step :: "alock \<Rightarrow> lock_event \<Rightarrow> alock \<Rightarrow> bool" where
  lk_acquire_now: "alock_acquire s = (Ret b, t) \<Longrightarrow> alock_step s Acquired t"
| lk_acquire_wait: "alock_acquire s = (Wait f, t) \<Longrightarrow> alock_step s Quiet t"
| lk_resume: "f \<in> set (lk_waiters s) \<Longrightarrow> lk_fut s f = Result \<Longrightarrow> alock_step s Acquired (snd (alock_resume s f))"
| lk_throw: "f \<in> set (lk_waiters s) \<Longrightarrow> lk_fut s f \<noteq> Pending \<Longrightarrow> alock_step s Quiet (snd (alock_throw s f))"
| lk_cancel: "f \<in> set (lk_waiters s) \<Longrightarrow> alock_step s Quiet (alock_cancel s f)"
| lk_release: "alock_release s = Inr t \<Longrightarrow> alock_step s Released t"

text \<open>A run from the new lock, with the events in order.\<close>

inductive alock_run :: "lock_event list \<Rightarrow> alock \<Rightarrow> bool" where
  run_new: "alock_run [] alock_new"
| run_step: "alock_run es s \<Longrightarrow> alock_step s e t \<Longrightarrow> alock_run (es @ [e]) t"

section \<open>\<open>Condition\<close>\<close>

text \<open>
  A coroutine in \<open>wait\<close> is first suspended on a future of the condition; then it waits for the lock
  again, and \<open>cd_again\<close> records, for its future in the lock, whether a cancellation is to be raised
  once it has it (\<open>cancelled\<close>) and how the first part ended.
\<close>

record acond =
  cd_lock :: alock
  cd_waiters :: "nat list"
  cd_fut :: futs
  cd_next :: nat
  cd_again :: "nat \<rightharpoonup> bool \<times> bool outcome"

definition acond_new :: "alock \<Rightarrow> acond" where
  "acond_new lock = \<lparr>cd_lock = lock, cd_waiters = [], cd_fut = (\<lambda>_. Pending), cd_next = 0, cd_again = Map.empty\<rparr>"

definition acond_wait :: "acond \<Rightarrow> bool outcome \<times> acond" where
  "acond_wait s =
     (if \<not> lk_locked (cd_lock s) then (Raise RuntimeError, s)
      else case alock_release (cd_lock s) of
        Inl e \<Rightarrow> (Raise e, s)
      | Inr lock \<Rightarrow>
          let f = cd_next s in
          (Wait f, s\<lparr>cd_lock := lock, cd_next := f + 1, cd_fut := (cd_fut s)(f := Pending),
                    cd_waiters := cd_waiters s @ [f]\<rparr>))"

text \<open>The loop of the outer \<open>finally\<close>, from one \<open>acquire\<close> to the next suspension or the end.\<close>

definition acond_reacquire :: "acond \<Rightarrow> bool \<Rightarrow> bool outcome \<Rightarrow> bool outcome \<times> acond" where
  "acond_reacquire s cancelled out =
     (case alock_acquire (cd_lock s) of
        (Wait f, lock) \<Rightarrow> (Wait f, s\<lparr>cd_lock := lock, cd_again := (cd_again s)(f \<mapsto> (cancelled, out))\<rparr>)
      | (_, lock) \<Rightarrow> (if cancelled then Raise CancelledError else out, s\<lparr>cd_lock := lock\<rparr>))"

text \<open>The future of the condition is done: the inner \<open>finally\<close>, then the lock.\<close>

definition acond_resume :: "acond \<Rightarrow> nat \<Rightarrow> bool outcome \<times> acond" where
  "acond_resume s f = acond_reacquire (s\<lparr>cd_waiters := remove1 f (cd_waiters s)\<rparr>) False (Ret True)"

definition acond_throw :: "acond \<Rightarrow> nat \<Rightarrow> bool outcome \<times> acond" where
  "acond_throw s f =
     acond_reacquire (s\<lparr>cd_waiters := remove1 f (cd_waiters s)\<rparr>) False (Raise CancelledError)"

text \<open>The future of the lock is done: the lock is taken, or the loop goes round with \<open>cancelled\<close> set.\<close>

definition acond_lock_resume :: "acond \<Rightarrow> nat \<Rightarrow> bool \<Rightarrow> bool outcome \<Rightarrow> bool outcome \<times> acond" where
  "acond_lock_resume s f cancelled out =
     (if cancelled then Raise CancelledError else out,
      s\<lparr>cd_lock := snd (alock_resume (cd_lock s) f), cd_again := (cd_again s)(f := None)\<rparr>)"

definition acond_lock_throw :: "acond \<Rightarrow> nat \<Rightarrow> bool outcome \<Rightarrow> bool outcome \<times> acond" where
  "acond_lock_throw s f out =
     acond_reacquire (s\<lparr>cd_lock := snd (alock_throw (cd_lock s) f), cd_again := (cd_again s)(f := None)\<rparr>) True out"

text \<open>\<open>notify(n)\<close>: the loop over the waiters with the count \<open>idx\<close>.\<close>

fun notify_loop :: "int \<Rightarrow> int \<Rightarrow> futs \<Rightarrow> nat list \<Rightarrow> futs" where
  "notify_loop n idx fut [] = fut"
| "notify_loop n idx fut (f # ws) =
     (if idx \<ge> n then fut
      else if \<not> fut_done fut f then notify_loop n (idx + 1) (fut(f := Result)) ws
      else notify_loop n idx fut ws)"

definition acond_notify :: "acond \<Rightarrow> int \<Rightarrow> acond result" where
  "acond_notify s n =
     (if \<not> lk_locked (cd_lock s) then Inl RuntimeError
      else Inr (s\<lparr>cd_fut := notify_loop n 0 (cd_fut s) (cd_waiters s)\<rparr>))"

definition acond_notify_all :: "acond \<Rightarrow> acond result" where
  "acond_notify_all s = acond_notify s (int (length (cd_waiters s)))"

section \<open>The lock: acquisitions and releases alternate\<close>

definition alock_ok :: "alock \<Rightarrow> bool" where
  "alock_ok s \<longleftrightarrow> distinct (lk_waiters s) \<and> set (lk_waiters s) \<subseteq> {..<lk_next s} \<and>
     (if lk_locked s then \<forall>f\<in>set (lk_waiters s). lk_fut s f \<noteq> Result
      else (\<forall>f\<in>set (lk_waiters s). lk_fut s f = Result \<longrightarrow> f = hd (lk_waiters s)) \<and>
           (lk_waiters s \<noteq> [] \<longrightarrow> lk_fut s (hd (lk_waiters s)) \<noteq> Pending))"

lemma alock_ok_wake:
  assumes "distinct (lk_waiters s)" "set (lk_waiters s) \<subseteq> {..<lk_next s}" "\<not> lk_locked s"
    "\<forall>f\<in>set (lk_waiters s). lk_fut s f = Result \<longrightarrow> f = hd (lk_waiters s)"
  shows "alock_ok (alock_wake_up_first s)"
  using assms by (cases "lk_waiters s") (auto simp: alock_wake_up_first_def alock_ok_def fut_done_def)

lemma alock_ok_step: "alock_step s e t \<Longrightarrow> alock_ok s \<Longrightarrow> alock_ok t"
proof (induction rule: alock_step.induct)
  case (lk_acquire_now s b t)
  then show ?case
    by (auto simp: alock_acquire_def alock_ok_def list_all_iff fut_cancelled_def Let_def split: if_splits)
next
  case (lk_acquire_wait s f t)
  have "hd (ws @ [f]) = (if ws = [] then f else hd ws)" for ws by (cases ws) auto
  moreover have n: "lk_next s \<notin> set (lk_waiters s)" using lk_acquire_wait(2) by (auto simp: alock_ok_def)
  moreover have "lk_waiters s \<noteq> [] \<Longrightarrow> hd (lk_waiters s) \<noteq> lk_next s" using n hd_in_set by metis
  ultimately show ?case
    using lk_acquire_wait
    by (auto simp: alock_acquire_def alock_ok_def list_all_iff Let_def less_Suc_eq split: if_splits)
next
  case (lk_resume f s)
  then have f: "\<not> lk_locked s" "f = hd (lk_waiters s)" "lk_waiters s \<noteq> []" by (auto simp: alock_ok_def split: if_splits)
  then obtain ws where "lk_waiters s = f # ws" by (cases "lk_waiters s") auto
  then show ?case using lk_resume(3) f(1) by (auto simp: alock_resume_def alock_ok_def)
next
  case (lk_throw f s)
  define s' where "s' = s\<lparr>lk_waiters := remove1 f (lk_waiters s)\<rparr>"
  have d: "distinct (lk_waiters s)" using lk_throw(3) by (simp add: alock_ok_def)
  show ?case
  proof (cases "lk_locked s")
    case True
    then show ?thesis using lk_throw(3) set_remove1_subset [of f "lk_waiters s"]
      by (auto simp: alock_throw_def alock_ok_def Let_def)
  next
    case False
    have "\<forall>g\<in>set (lk_waiters s'). lk_fut s' g = Result \<longrightarrow> g = hd (lk_waiters s')"
      using lk_throw(3) False d by (cases "lk_waiters s") (auto simp: alock_ok_def s'_def)
    moreover have "set (lk_waiters s') \<subseteq> {..<lk_next s'}"
      using lk_throw(3) set_remove1_subset [of f "lk_waiters s"] by (auto simp: alock_ok_def s'_def)
    ultimately have "alock_ok (alock_wake_up_first s')"
      using d False by (intro alock_ok_wake) (simp_all add: s'_def)
    then show ?thesis using False by (simp add: alock_throw_def s'_def)
  qed
next
  case (lk_cancel f s)
  then show ?case by (auto simp: alock_cancel_def alock_ok_def fut_cancel_def fut_done_def split: if_splits)
next
  case (lk_release s t)
  then have "alock_ok (alock_wake_up_first (s\<lparr>lk_locked := False\<rparr>))"
    by (intro alock_ok_wake) (auto simp: alock_ok_def alock_release_def split: if_splits)
  then show ?case using lk_release(1) by (simp add: alock_release_def split: if_splits)
qed

lemma alock_run_ok: "alock_run es s \<Longrightarrow> alock_ok s"
proof (induction rule: alock_run.induct)
  case run_new
  show ?case by (simp add: alock_new_def alock_ok_def)
qed (rule alock_ok_step)

fun alternates :: "bool \<Rightarrow> lock_event list \<Rightarrow> bool option" where
  "alternates locked [] = Some locked"
| "alternates locked (Quiet # es) = alternates locked es"
| "alternates locked (Acquired # es) = (if locked then None else alternates True es)"
| "alternates locked (Released # es) = (if locked then alternates False es else None)"

lemma alternates_append: "alternates b (es @ fs) = Option.bind (alternates b es) (\<lambda>c. alternates c fs)"
  by (induction b es rule: alternates.induct) auto

lemma alock_step_label:
  "alock_step s e t \<Longrightarrow> alock_ok s \<Longrightarrow> alternates (lk_locked s) [e] = Some (lk_locked t)"
  by (induction rule: alock_step.induct)
    (auto simp: alock_acquire_def alock_resume_def alock_throw_def alock_cancel_def alock_release_def
      alock_wake_up_first_def alock_ok_def Let_def split: if_splits list.splits)

lemma alock_run_alternates: "alock_run es s \<Longrightarrow> alternates False es = Some (lk_locked s)"
proof (induction rule: alock_run.induct)
  case (run_step es s e t)
  then show ?case using alock_step_label [OF run_step(2) alock_run_ok [OF run_step(1)]] by (simp add: alternates_append)
qed (simp add: alock_new_def)

section \<open>The semaphore keeps the wake-up contract\<close>

definition asem_ok :: "asem \<Rightarrow> bool" where
  "asem_ok s \<longleftrightarrow> 0 \<le> sm_value s \<and> line_ok (sm_next s) (sm_fut s) (sm_waiters s) (sm_suspended s)"

definition asem_view :: "asem \<Rightarrow> wake" where
  "asem_view s = \<lparr>avail = nat (sm_value s), parked = parked_in (sm_fut s) (sm_waiters s),
                  roused = woken (sm_fut s) (sm_suspended s)\<rparr>"

lemma asem_acquire_sim:
  assumes "asem_ok s" "asem_acquire s = (out, t)"
  shows "asem_ok t"
    "sm_value s = 0 \<Longrightarrow> sm_value t = 0 \<and> parked (asem_view t) = Suc (parked (asem_view s)) \<and> roused (asem_view t) = roused (asem_view s)"
    "0 < sm_value s \<Longrightarrow> sm_value t = sm_value s - 1 \<and> parked (asem_view t) = parked (asem_view s) \<and> roused (asem_view t) = roused (asem_view s)"
proof -
  have l: "line_ok (sm_next s) (sm_fut s) (sm_waiters s) (sm_suspended s)" "0 \<le> sm_value s"
    using assms(1) by (simp_all add: asem_ok_def)
  show "asem_ok t"
    using assms(2) l line_park(1) [OF l(1)] by (auto simp: asem_acquire_def asem_ok_def Let_def split: if_splits)
  show "sm_value s = 0 \<Longrightarrow> sm_value t = 0 \<and> parked (asem_view t) = Suc (parked (asem_view s)) \<and> roused (asem_view t) = roused (asem_view s)"
    using assms(2) line_park(2,3) [OF l(1)] by (auto simp: asem_acquire_def asem_view_def Let_def)
  show "0 < sm_value s \<Longrightarrow> sm_value t = sm_value s - 1 \<and> parked (asem_view t) = parked (asem_view s) \<and> roused (asem_view t) = roused (asem_view s)"
    using assms(2) by (auto simp: asem_acquire_def asem_view_def)
qed

lemma asem_wake_sim:
  assumes "asem_ok s" "asem_wake_up_next s = t"
  shows "asem_ok t" "sm_value t = sm_value s"
    "parked (asem_view s) = 0 \<Longrightarrow> parked (asem_view t) = 0 \<and> roused (asem_view t) = roused (asem_view s)"
    "0 < parked (asem_view s) \<Longrightarrow> parked (asem_view s) = Suc (parked (asem_view t)) \<and> roused (asem_view t) = Suc (roused (asem_view s))"
proof -
  obtain fut ws where w: "wakeup_next (sm_fut s) (sm_waiters s) = (fut, ws)" by (cases "wakeup_next (sm_fut s) (sm_waiters s)")
  have t: "t = s\<lparr>sm_fut := fut, sm_waiters := ws\<rparr>" using assms(2) w by (simp add: asem_wake_up_next_def)
  have l: "line_ok (sm_next s) (sm_fut s) (sm_waiters s) (sm_suspended s)" using assms(1) by (simp add: asem_ok_def)
  show "asem_ok t" "sm_value t = sm_value s"
    "parked (asem_view s) = 0 \<Longrightarrow> parked (asem_view t) = 0 \<and> roused (asem_view t) = roused (asem_view s)"
    "0 < parked (asem_view s) \<Longrightarrow> parked (asem_view s) = Suc (parked (asem_view t)) \<and> roused (asem_view t) = Suc (roused (asem_view s))"
    using assms(1) line_wakeup(1-3) [OF l w] by (auto simp: t asem_ok_def asem_view_def)
qed

lemma asem_ended:
  assumes "asem_ok s" "f \<in> sm_suspended s" "sm_fut s f = Result"
  shows "asem_ok (s\<lparr>sm_suspended := sm_suspended s - {f}\<rparr>)"
    "roused (asem_view s) = Suc (roused (asem_view (s\<lparr>sm_suspended := sm_suspended s - {f}\<rparr>)))"
    "parked (asem_view (s\<lparr>sm_suspended := sm_suspended s - {f}\<rparr>)) = parked (asem_view s)"
  using assms line_resume(1,2) [where f = f and fut = "sm_fut s" and W = "sm_suspended s" and n = "sm_next s" and ws = "sm_waiters s"] by (auto simp: asem_ok_def asem_view_def)

lemma asem_step_sim: "asem_step s t \<Longrightarrow> asem_ok s \<Longrightarrow> asem_ok t \<and> wake_step (asem_view s) (asem_view t)"
proof (induction rule: asem_step.induct)
  case (sm_acquire s)
  obtain out t where a: "asem_acquire s = (out, t)" by (cases "asem_acquire s")
  note sim = asem_acquire_sim [OF sm_acquire a]
  show ?case
  proof (cases "sm_value s = 0")
    case True
    then show ?thesis using sim a by (auto intro!: wake_step.park simp: asem_view_def)
  next
    case False
    then have "0 < sm_value s" using sm_acquire by (simp add: asem_ok_def)
    then show ?thesis using sim a by (auto intro!: wake_step.take_new simp: asem_view_def)
  qed
next
  case (sm_release s)
  define s1 where "s1 = s\<lparr>sm_value := sm_value s + 1\<rparr>"
  have s1: "asem_ok s1" "parked (asem_view s1) = parked (asem_view s)" "roused (asem_view s1) = roused (asem_view s)"
    using sm_release by (simp_all add: s1_def asem_ok_def asem_view_def)
  note sim = asem_wake_sim [OF s1(1) refl]
  have v: "avail (asem_view (asem_release s)) = Suc (avail (asem_view s))"
    using sim(2) sm_release by (simp add: asem_release_def s1_def [symmetric] asem_view_def)
       (simp add: s1_def asem_ok_def nat_add_distrib)
  show ?case
  proof (cases "parked (asem_view s) = 0")
    case True
    then show ?thesis using sim(1,3) s1 v by (auto intro!: wake_step.supply_idle simp: asem_release_def s1_def [symmetric])
  next
    case False
    then show ?thesis using sim(1,4) s1 v by (auto intro!: wake_step.supply_rouse simp: asem_release_def s1_def [symmetric])
  qed
next
  case (sm_resume f s)
  define s1 where "s1 = s\<lparr>sm_suspended := sm_suspended s - {f}\<rparr>"
  note s1 = asem_ended [OF sm_resume(3,1,2), folded s1_def]
  obtain out t where a: "asem_acquire s1 = (out, t)" by (cases "asem_acquire s1")
  note sim = asem_acquire_sim [OF s1(1) a]
  have v: "sm_value s1 = sm_value s" by (simp add: s1_def)
  show ?case
  proof (cases "sm_value s = 0")
    case True
    then show ?thesis using sim(1,2) s1(2,3) v a
      by (auto intro!: wake_step.roused_park simp: asem_resume_def s1_def [symmetric] asem_view_def)
  next
    case False
    then have "0 < sm_value s" using sm_resume by (simp add: asem_ok_def)
    then show ?thesis using sim(1,3) s1(2,3) v a
      by (auto intro!: wake_step.roused_take simp: asem_resume_def s1_def [symmetric] asem_view_def)
  qed
next
  case (sm_cancel f s)
  show ?case
  proof (cases "sm_fut s f = Pending")
    case True
    then show ?thesis using sm_cancel line_cancel [of "sm_next s" "sm_fut s" "sm_waiters s" "sm_suspended s" f]
      by (auto intro!: wake_step.leave simp: asem_cancel_def fut_cancel_def fut_done_def asem_ok_def asem_view_def)
  next
    case False
    then show ?thesis using sm_cancel by (auto intro!: wake_step.idle simp: asem_cancel_def fut_cancel_def fut_done_def)
  qed
next
  case (sm_throw f s)
  define s1 where "s1 = s\<lparr>sm_suspended := sm_suspended s - {f}\<rparr>"
  have th: "snd (asem_throw s f) = (if sm_value s > 0 \<and> sm_fut s f = Result then asem_wake_up_next s1 else s1)"
    using sm_throw(2) by (cases "sm_fut s f") (auto simp: asem_throw_def s1_def fut_cancel_def fut_done_def fut_cancelled_def Let_def)
  show ?case
  proof (cases "sm_fut s f = Result")
    case False
    then have c: "sm_fut s f = Cancelled" using sm_throw(2) by (cases "sm_fut s f") auto
    then show ?thesis using line_end_cancelled(1,4) [where f = f and fut = "sm_fut s" and W = "sm_suspended s" and n = "sm_next s" and ws = "sm_waiters s"] c sm_throw(3) th False
      by (auto intro!: wake_step.idle simp: s1_def asem_ok_def asem_view_def)
  next
    case True
    note s1 = asem_ended [OF sm_throw(3,1) True, folded s1_def]
    have v: "sm_value s1 = sm_value s" "avail (asem_view s1) = avail (asem_view s)" by (simp_all add: s1_def asem_view_def)
    note sim = asem_wake_sim [OF s1(1) refl]
    show ?thesis
    proof (cases "sm_value s > 0")
      case False
      then have "avail (asem_view s) = 0" by (simp add: asem_view_def)
      then show ?thesis using th False s1 v by (auto intro!: wake_step.quit_empty)
    next
      case pos: True
      have av: "avail (asem_view (asem_wake_up_next s1)) = avail (asem_view s)"
        using sim(2) v(1) by (simp add: asem_view_def)
      show ?thesis
      proof (cases "parked (asem_view s) = 0")
        case True
        then show ?thesis using th pos \<open>sm_fut s f = Result\<close> s1 sim av by (auto intro!: wake_step.quit_idle)
      next
        case False
        then show ?thesis using th pos \<open>sm_fut s f = Result\<close> s1 sim av by (auto intro!: wake_step.leave)
      qed
    qed
  qed
qed

interpretation async_semaphore: wakeup "\<lambda>s. \<exists>v. asem_new v = Inr s" asem_step asem_ok asem_view
proof unfold_locales
  fix s assume "\<exists>v. asem_new v = Inr s"
  then show "asem_ok s" "no_lost_wakeup (asem_view s)"
    by (auto simp: asem_new_def asem_ok_def asem_view_def line_empty no_lost_wakeup_def split: if_splits)
qed (use asem_step_sim in blast)+

section \<open>The event and \<open>notify\<close>\<close>

definition aevent_ok :: "aevent \<Rightarrow> bool" where
  "aevent_ok s \<longleftrightarrow> set (ev_waiters s) \<subseteq> {..<ev_next s} \<and> (ev_value s \<longrightarrow> pending (ev_fut s) (ev_waiters s) = [])"

lemma set_results_done: "pending (set_results fut ws) ws = []"
proof -
  have keep: "set_results fut ws f \<noteq> Pending" if "fut f \<noteq> Pending" for fut ws f
    using that by (induction ws arbitrary: fut) (auto simp: fut_done_def)
  have "f \<in> set ws \<Longrightarrow> set_results fut ws f \<noteq> Pending" for f
    by (induction ws arbitrary: fut) (auto simp: fut_done_def keep)
  then show ?thesis by (simp add: pending_def filter_empty_conv)
qed

lemma aevent_ok_step: "aevent_step s t \<Longrightarrow> aevent_ok s \<Longrightarrow> aevent_ok t"
proof (induction rule: aevent_step.induct)
  case (ev_cancel f s)
  then show ?case by (auto simp: aevent_ok_def aevent_cancel_def fut_cancel_def pending_done)
qed (use set_remove1_subset in \<open>fastforce simp: aevent_ok_def aevent_set_def aevent_clear_def aevent_wait_def
    aevent_resume_def aevent_throw_def set_results_done pending_remove1 Let_def less_Suc_eq\<close>)+

lemma notify_loop_eq:
  "distinct ws \<Longrightarrow> pending (notify_loop n idx fut ws) ws = drop (nat (n - idx)) (pending fut ws) \<and>
     (\<forall>f. notify_loop n idx fut ws f = (if f \<in> set (take (nat (n - idx)) (pending fut ws)) then Result else fut f))"
proof (induction ws arbitrary: idx fut)
  case (Cons w ws)
  show ?case
  proof (cases "idx \<ge> n")
    case False
    define k where "k = nat (n - (idx + 1))"
    then have k: "nat (n - idx) = Suc k" "nat (n - (idx + 1)) = k" using False by simp_all
    show ?thesis
      using Cons False k by (auto simp: fut_done_def pending_update)
  qed simp
qed simp

section \<open>Properties\<close>

text \<open>C19: in every run of a \<open>Lock\<close>, whatever the order of acquiring, releasing, waking and cancelling,
  acquisitions and releases alternate, so at most one coroutine holds the lock; and when it is free
  and coroutines wait, the first of them has been woken or cancelled and will run.\<close>

theorem async_lock_alternates:
  assumes "alock_run es s"
  shows "alternates False es = Some (lk_locked s) \<and>
    (lk_locked s \<or> lk_waiters s = [] \<or> fut_done (lk_fut s) (hd (lk_waiters s)))"
  using alock_run_alternates [OF assms] alock_run_ok [OF assms] by (auto simp: alock_ok_def fut_done_def)

theorem async_lock_alternates_witness:
  "\<exists>s. alock_run [Acquired, Quiet, Released] s \<and> alternates False [Acquired, Quiet, Released] = Some (lk_locked s) \<and>
     fut_done (lk_fut s) (hd (lk_waiters s))"
proof -
  define s1 where "s1 = snd (alock_acquire alock_new)"
  define s2 where "s2 = snd (alock_acquire s1)"
  define s3 where "s3 = alock_wake_up_first (s2\<lparr>lk_locked := False\<rparr>)"
  have 1: "alock_run ([] @ [Acquired]) s1"
    by (rule run_step [OF run_new], rule lk_acquire_now [of _ True]) (simp add: s1_def alock_acquire_def alock_new_def)
  have 2: "alock_run (([] @ [Acquired]) @ [Quiet]) s2"
    by (rule run_step [OF 1], rule lk_acquire_wait [of _ 0]) (simp add: s1_def s2_def alock_acquire_def alock_new_def Let_def)
  have 3: "alock_run ((([] @ [Acquired]) @ [Quiet]) @ [Released]) s3"
    by (rule run_step [OF 2], rule lk_release)
      (simp add: s1_def s2_def s3_def alock_release_def alock_acquire_def alock_new_def Let_def)
  have "\<not> lk_locked s3" "lk_waiters s3 \<noteq> []"
    by (simp_all add: s1_def s2_def s3_def alock_wake_up_first_def alock_acquire_def alock_new_def Let_def)
  then show ?thesis using async_lock_alternates [OF 3] 3 by auto
qed

text \<open>C22: in every reachable state of a \<open>Semaphore\<close> the value is not negative, and while coroutines wait
  there are at least as many woken ones as units left, so no wake-up is lost to a newcomer or to a
  cancellation; a \<open>BoundedSemaphore\<close> refuses the release that would exceed its bound.\<close>

theorem async_semaphore_no_lost_wakeup:
  assumes "reachable (\<lambda>s. \<exists>v. asem_new v = Inr s) asem_step s"
  shows "0 \<le> sm_value s \<and> (pending (sm_fut s) (sm_waiters s) = [] \<or> sm_value s \<le> int (woken (sm_fut s) (sm_suspended s))) \<and>
    (case bounded_release bound s of
       Inl e \<Rightarrow> e = ValueError \<and> bound \<le> sm_value s
     | Inr t \<Rightarrow> sm_value t = sm_value s + 1 \<and> sm_value t \<le> bound)"
proof -
  have ok: "asem_ok s" by (rule async_semaphore.reachable_inv [OF assms])
  have "sm_value (asem_release s) = sm_value s + 1"
    using asem_wake_sim(2) [of "s\<lparr>sm_value := sm_value s + 1\<rparr>" "asem_release s"] ok
    by (simp add: asem_release_def asem_ok_def)
  then show ?thesis
    using async_semaphore.reachable_safe [OF assms] ok
    by (auto simp: no_lost_wakeup_def asem_view_def asem_ok_def parked_in_def bounded_release_def)
qed

theorem async_semaphore_no_lost_wakeup_witness:
  "\<exists>s. reachable (\<lambda>s. \<exists>v. asem_new v = Inr s) asem_step s \<and> pending (sm_fut s) (sm_waiters s) = [0] \<and> 0 \<le> sm_value s"
proof -
  obtain s0 where s0: "asem_new 0 = Inr s0" by (simp add: asem_new_def)
  have "reachable (\<lambda>s. \<exists>v. asem_new v = Inr s) asem_step (snd (asem_acquire s0))"
    by (rule reachable_one [of _ s0]) (use s0 sm_acquire in blast)+
  moreover have "pending (sm_fut (snd (asem_acquire s0))) (sm_waiters (snd (asem_acquire s0))) = [0]"
    using s0 by (auto simp: asem_new_def asem_acquire_def Let_def)
  ultimately show ?thesis using async_semaphore_no_lost_wakeup [of "snd (asem_acquire s0)" 0] by blast
qed

text \<open>\<open>Event.set\<close> wakes every coroutine that waits, in every reachable state in which the flag is
  true none is left pending, and \<open>wait\<close> then returns at once.\<close>

theorem async_event_set_wakes_all:
  assumes "reachable (\<lambda>s. s = aevent_new) aevent_step s"
  shows "pending (ev_fut (aevent_set s)) (ev_waiters (aevent_set s)) = [] \<and> ev_value (aevent_set s) \<and>
    aevent_wait (aevent_set s) = (Ret True, aevent_set s) \<and>
    (aevent_wait s = (Ret True, s) \<longleftrightarrow> ev_value s)"
proof -
  have "aevent_ok s"
    by (rule reachable_invariant [OF assms]) (simp add: aevent_ok_def aevent_new_def, rule aevent_ok_step)
  then show ?thesis
    by (auto simp: aevent_ok_def aevent_set_def aevent_wait_def set_results_done Let_def)
qed

theorem async_event_set_wakes_all_witness:
  "pending (ev_fut (aevent_set (snd (aevent_wait aevent_new)))) (ev_waiters (aevent_set (snd (aevent_wait aevent_new)))) = [] \<and>
   ev_waiters (snd (aevent_wait aevent_new)) = [0]"
  using async_event_set_wakes_all [OF reachable_one [of "\<lambda>s. s = aevent_new" aevent_new aevent_step,
      OF refl ev_wait]]
  by (simp add: aevent_wait_def aevent_new_def Let_def)

text \<open>\<open>Condition.notify(n)\<close> wakes exactly the first \<open>n\<close> coroutines that are still pending, in the
  order in which they began to wait, and \<open>notify_all\<close> all of them; without the lock both raise
  RuntimeError and change nothing.\<close>

theorem async_condition_notify_order:
  assumes "distinct (cd_waiters s)"
  shows "case acond_notify s n of
      Inl e \<Rightarrow> e = RuntimeError \<and> \<not> lk_locked (cd_lock s)
    | Inr t \<Rightarrow> lk_locked (cd_lock s) \<and> cd_waiters t = cd_waiters s \<and>
        pending (cd_fut t) (cd_waiters t) = drop (nat n) (pending (cd_fut s) (cd_waiters s)) \<and>
        {f. cd_fut t f \<noteq> cd_fut s f} = set (take (nat n) (pending (cd_fut s) (cd_waiters s))) \<and>
        (case acond_notify_all s of Inl e \<Rightarrow> False | Inr u \<Rightarrow> pending (cd_fut u) (cd_waiters u) = [])"
proof -
  have p: "f \<in> set (take k (pending fut ws)) \<Longrightarrow> fut f = Pending" for f k fut ws
    by (auto dest!: in_set_takeD simp: set_pending)
  have "length (pending (cd_fut s) (cd_waiters s)) \<le> length (cd_waiters s)" by (simp add: pending_def)
  then show ?thesis
    using notify_loop_eq [OF assms, of n 0 "cd_fut s"] notify_loop_eq [OF assms, of "int (length (cd_waiters s))" 0 "cd_fut s"]
    by (auto simp: acond_notify_def acond_notify_all_def dest: p split: if_splits)
qed

theorem async_condition_notify_order_witness:
  "case acond_notify \<lparr>cd_lock = alock_new\<lparr>lk_locked := True\<rparr>, cd_waiters = [0, 1, 2], cd_fut = (\<lambda>f. if f = 0 then Cancelled else Pending),
      cd_next = 3, cd_again = Map.empty\<rparr> 1 of
     Inl e \<Rightarrow> False
   | Inr t \<Rightarrow> pending (cd_fut t) (cd_waiters t) = [2]"
  using async_condition_notify_order [of "\<lparr>cd_lock = alock_new\<lparr>lk_locked := True\<rparr>, cd_waiters = [0, 1, 2],
      cd_fut = (\<lambda>f. if f = 0 then Cancelled else Pending), cd_next = 3, cd_again = Map.empty\<rparr>" 1]
  by (simp add: acond_notify_def)

end
