(* ===== verification/Async_Queue.thy ===== *)
theory Async_Queue
  imports Async_Locks Item_Store
begin

text \<open>
  \<open>Queue\<close>, \<open>PriorityQueue\<close> and \<open>LifoQueue\<close> of \<open>python-stdlib/asyncio/queues.py\<close>. The class is the
  field \<open>aq_kind\<close>; \<open>aq_wait\<close> records for every suspended \<open>put\<close> or \<open>get\<close>, by the future it awaits,
  what it was called for. \<open>_finished\<close> is an \<open>Event\<close> of \<open>Async_Locks\<close>.
\<close>

section \<open>The state and the operations\<close>

datatype 'a qcall = Getting | Putting 'a

record 'a aqueue =
  aq_kind :: qkind
  aq_maxsize :: int
  aq_items :: "'a list"
  aq_getters :: "nat list"
  aq_putters :: "nat list"
  aq_unfinished :: int
  aq_finished :: aevent
  aq_fut :: futs
  aq_next :: nat
  aq_wait :: "nat \<rightharpoonup> 'a qcall"

definition aq_new :: "qkind \<Rightarrow> int \<Rightarrow> 'a aqueue" where
  "aq_new kind maxsize =
     \<lparr>aq_kind = kind, aq_maxsize = maxsize, aq_items = [], aq_getters = [], aq_putters = [],
      aq_unfinished = 0, aq_finished = aevent_set aevent_new, aq_fut = (\<lambda>_. Pending), aq_next = 0,
      aq_wait = Map.empty\<rparr>"

definition aq_qsize :: "'a aqueue \<Rightarrow> nat" where
  "aq_qsize s = length (aq_items s)"

definition aq_empty :: "'a aqueue \<Rightarrow> bool" where
  "aq_empty s \<longleftrightarrow> aq_items s = []"

definition aq_full :: "'a aqueue \<Rightarrow> bool" where
  "aq_full s = (if aq_maxsize s \<le> 0 then False else int (aq_qsize s) \<ge> aq_maxsize s)"

definition aq_wake_getter :: "'a aqueue \<Rightarrow> 'a aqueue" where
  "aq_wake_getter s =
     (case wakeup_next (aq_fut s) (aq_getters s) of (fut, ws) \<Rightarrow> s\<lparr>aq_fut := fut, aq_getters := ws\<rparr>)"

definition aq_wake_putter :: "'a aqueue \<Rightarrow> 'a aqueue" where
  "aq_wake_putter s =
     (case wakeup_next (aq_fut s) (aq_putters s) of (fut, ws) \<Rightarrow> s\<lparr>aq_fut := fut, aq_putters := ws\<rparr>)"

definition aq_put_nowait :: "'a::linorder aqueue \<Rightarrow> 'a \<Rightarrow> 'a aqueue result" where
  "aq_put_nowait s item =
     (if aq_full s then Inl QueueFull
      else Inr (aq_wake_getter
        (s\<lparr>aq_items := kind_put (aq_kind s) (<) (aq_items s) item,
           aq_unfinished := aq_unfinished s + 1,
           aq_finished := aevent_clear (aq_finished s)\<rparr>)))"

definition aq_get_nowait :: "'a::linorder aqueue \<Rightarrow> ('a \<times> 'a aqueue) result" where
  "aq_get_nowait s =
     (if aq_empty s then Inl QueueEmpty
      else rbind (kind_get (aq_kind s) (<) (aq_items s)) (\<lambda>(item, items).
        Inr (item, aq_wake_putter (s\<lparr>aq_items := items\<rparr>))))"

text \<open>
  From the head of the loop of \<open>put\<close> (or \<open>get\<close>) to its next \<open>await\<close> or its end; \<open>Ret (Some x)\<close> is
  the item that \<open>get\<close> returns.
\<close>

definition aq_put :: "'a::linorder aqueue \<Rightarrow> 'a \<Rightarrow> 'a option outcome \<times> 'a aqueue" where
  "aq_put s item =
     (if aq_full s then
        let putter = aq_next s in
        (Wait putter, s\<lparr>aq_next := putter + 1, aq_fut := (aq_fut s)(putter := Pending),
                       aq_putters := aq_putters s @ [putter], aq_wait := (aq_wait s)(putter \<mapsto> Putting item)\<rparr>)
      else case aq_put_nowait s item of Inl e \<Rightarrow> (Raise e, s) | Inr t \<Rightarrow> (Ret None, t))"

definition aq_get :: "'a::linorder aqueue \<Rightarrow> 'a option outcome \<times> 'a aqueue" where
  "aq_get s =
     (if aq_empty s then
        let getter = aq_next s in
        (Wait getter, s\<lparr>aq_next := getter + 1, aq_fut := (aq_fut s)(getter := Pending),
                       aq_getters := aq_getters s @ [getter], aq_wait := (aq_wait s)(getter \<mapsto> Getting)\<rparr>)
      else case aq_get_nowait s of Inl e \<Rightarrow> (Raise e, s) | Inr (x, t) \<Rightarrow> (Ret (Some x), t))"

definition aq_ended :: "'a aqueue \<Rightarrow> nat \<Rightarrow> 'a aqueue" where
  "aq_ended s f = s\<lparr>aq_wait := (aq_wait s)(f := None)\<rparr>"

definition aq_put_resume :: "'a::linorder aqueue \<Rightarrow> nat \<Rightarrow> 'a \<Rightarrow> 'a option outcome \<times> 'a aqueue" where
  "aq_put_resume s f item = aq_put (aq_ended s f) item"

definition aq_get_resume :: "'a::linorder aqueue \<Rightarrow> nat \<Rightarrow> 'a option outcome \<times> 'a aqueue" where
  "aq_get_resume s f = aq_get (aq_ended s f)"

definition aq_put_throw :: "'a aqueue \<Rightarrow> nat \<Rightarrow> 'a option outcome \<times> 'a aqueue" where
  "aq_put_throw s f =
     (let s = (aq_ended s f)\<lparr>aq_fut := fut_cancel (aq_fut s) f, aq_putters := remove1 f (aq_putters s)\<rparr>;
          s = (if \<not> aq_full s \<and> \<not> fut_cancelled (aq_fut s) f then aq_wake_putter s else s)
      in (Raise CancelledError, s))"

definition aq_get_throw :: "'a aqueue \<Rightarrow> nat \<Rightarrow> 'a option outcome \<times> 'a aqueue" where
  "aq_get_throw s f =
     (let s = (aq_ended s f)\<lparr>aq_fut := fut_cancel (aq_fut s) f, aq_getters := remove1 f (aq_getters s)\<rparr>;
          s = (if \<not> aq_empty s \<and> \<not> fut_cancelled (aq_fut s) f then aq_wake_getter s else s)
      in (Raise CancelledError, s))"

definition aq_cancel :: "'a aqueue \<Rightarrow> nat \<Rightarrow> 'a aqueue" where
  "aq_cancel s f = s\<lparr>aq_fut := fut_cancel (aq_fut s) f\<rparr>"

definition aq_task_done :: "'a aqueue \<Rightarrow> 'a aqueue result" where
  "aq_task_done s =
     (if aq_unfinished s \<le> 0 then Inl ValueError
      else let s = s\<lparr>aq_unfinished := aq_unfinished s - 1\<rparr> in
        Inr (if aq_unfinished s = 0 then s\<lparr>aq_finished := aevent_set (aq_finished s)\<rparr> else s))"

definition aq_join :: "'a aqueue \<Rightarrow> bool outcome \<times> 'a aqueue" where
  "aq_join s =
     (if aq_unfinished s > 0 then
        case aevent_wait (aq_finished s) of (out, ev) \<Rightarrow> (out, s\<lparr>aq_finished := ev\<rparr>)
      else (Ret True, s))"

section \<open>The steps\<close>

inductive aq_step :: "'a::linorder aqueue \<Rightarrow> 'a qevent \<Rightarrow> 'a aqueue \<Rightarrow> bool" where
  q_put: "aq_put s x = (out, t) \<Longrightarrow> aq_step s (put_event x out) t"
| q_get: "aq_get s = (out, t) \<Longrightarrow> aq_step s (got_event out) t"
| q_put_nowait: "aq_put_nowait s x = Inr t \<Longrightarrow> aq_step s (Put x) t"
| q_get_nowait: "aq_get_nowait s = Inr (x, t) \<Longrightarrow> aq_step s (Got x) t"
| q_put_resume: "aq_wait s f = Some (Putting x) \<Longrightarrow> aq_fut s f = Result \<Longrightarrow> aq_put_resume s f x = (out, t) \<Longrightarrow>
    aq_step s (put_event x out) t"
| q_get_resume: "aq_wait s f = Some Getting \<Longrightarrow> aq_fut s f = Result \<Longrightarrow> aq_get_resume s f = (out, t) \<Longrightarrow>
    aq_step s (got_event out) t"
| q_cancel: "aq_wait s f \<noteq> None \<Longrightarrow> aq_step s Silent (aq_cancel s f)"
| q_put_throw: "aq_wait s f = Some (Putting x) \<Longrightarrow> aq_fut s f \<noteq> Pending \<Longrightarrow> aq_put_throw s f = (out, t) \<Longrightarrow>
    aq_step s Silent t"
| q_get_throw: "aq_wait s f = Some Getting \<Longrightarrow> aq_fut s f \<noteq> Pending \<Longrightarrow> aq_get_throw s f = (out, t) \<Longrightarrow>
    aq_step s Silent t"
| q_task_done: "aq_task_done s = Inr t \<Longrightarrow> aq_step s Silent t"
| q_join: "aq_join s = (out, t) \<Longrightarrow> aq_step s Silent t"
| q_join_resume: "f \<in> set (ev_waiters (aq_finished s)) \<Longrightarrow> ev_fut (aq_finished s) f = Result \<Longrightarrow>
    aq_step s Silent (s\<lparr>aq_finished := snd (aevent_resume (aq_finished s) f)\<rparr>)"
| q_join_cancel: "f \<in> set (ev_waiters (aq_finished s)) \<Longrightarrow>
    aq_step s Silent (s\<lparr>aq_finished := aevent_cancel (aq_finished s) f\<rparr>)"
| q_join_throw: "f \<in> set (ev_waiters (aq_finished s)) \<Longrightarrow> ev_fut (aq_finished s) f \<noteq> Pending \<Longrightarrow>
    aq_step s Silent (s\<lparr>aq_finished := snd (aevent_throw (aq_finished s) f)\<rparr>)"

abbreviation aq_move :: "'a::linorder aqueue \<Rightarrow> 'a aqueue \<Rightarrow> bool" where
  "aq_move s t \<equiv> \<exists>e. aq_step s e t"

abbreviation aq_init :: "'a::linorder aqueue \<Rightarrow> bool" where
  "aq_init s \<equiv> \<exists>kind maxsize. s = aq_new kind maxsize"

section \<open>The invariant and the two wake-up contracts\<close>

definition getting :: "'a aqueue \<Rightarrow> nat set" where
  "getting s = {f. aq_wait s f = Some Getting}"

definition putting :: "'a aqueue \<Rightarrow> nat set" where
  "putting s = {f. \<exists>x. aq_wait s f = Some (Putting x)}"

definition aq_ok :: "'a::linorder aqueue \<Rightarrow> bool" where
  "aq_ok s \<longleftrightarrow>
     line_ok (aq_next s) (aq_fut s) (aq_getters s) (getting s) \<and> set (aq_getters s) \<subseteq> getting s \<and>
     line_ok (aq_next s) (aq_fut s) (aq_putters s) (putting s) \<and> set (aq_putters s) \<subseteq> putting s \<and>
     kind_ok (aq_kind s) (aq_items s) \<and>
     (if 0 < aq_maxsize s then int (length (aq_items s)) \<le> aq_maxsize s else putting s = {}) \<and>
     0 \<le> aq_unfinished s \<and> (ev_value (aq_finished s) \<longleftrightarrow> aq_unfinished s = 0) \<and>
     aevent_ok (aq_finished s)"

definition get_view :: "'a aqueue \<Rightarrow> wake" where
  "get_view s = \<lparr>avail = length (aq_items s), parked = parked_in (aq_fut s) (aq_getters s),
                 roused = woken (aq_fut s) (getting s)\<rparr>"

definition put_view :: "'a aqueue \<Rightarrow> wake" where
  "put_view s = \<lparr>avail = (if 0 < aq_maxsize s then nat (aq_maxsize s) - length (aq_items s) else 0),
                 parked = parked_in (aq_fut s) (aq_putters s), roused = woken (aq_fut s) (putting s)\<rparr>"

lemma lines_apart: "getting s \<inter> putting s = {}"
  by (auto simp: getting_def putting_def)

text \<open>Waking a getter leaves the putters alone, and the other way round.\<close>

lemma aq_wake_getter_sim:
  assumes "aq_ok s" "aq_wake_getter s = t"
  shows "aq_ok t" "put_view t = put_view s" "avail (get_view t) = avail (get_view s)"
    "parked (get_view s) = 0 \<Longrightarrow> parked (get_view t) = 0 \<and> roused (get_view t) = roused (get_view s)"
    "0 < parked (get_view s) \<Longrightarrow> parked (get_view s) = Suc (parked (get_view t)) \<and> roused (get_view t) = Suc (roused (get_view s))"
    "aq_items t = aq_items s" "aq_kind t = aq_kind s"
proof -
  obtain fut ws where w: "wakeup_next (aq_fut s) (aq_getters s) = (fut, ws)"
    by (cases "wakeup_next (aq_fut s) (aq_getters s)")
  have t: "t = s\<lparr>aq_fut := fut, aq_getters := ws\<rparr>" using assms(2) w by (simp add: aq_wake_getter_def)
  have g: "getting t = getting s" "putting t = putting s" by (simp_all add: t getting_def putting_def)
  have l: "line_ok (aq_next s) (aq_fut s) (aq_getters s) (getting s)" "distinct (aq_getters s)"
    using assms(1) by (simp_all add: aq_ok_def line_ok_def)
  note lw = line_wakeup [OF l(1) w]
  have sub: "set ws \<subseteq> set (aq_getters s)" using wakeup_next_eq [OF l(2) w] by simp
  have p: "line_ok (aq_next s) (aq_fut s) (aq_putters s) (putting s)" "set (aq_putters s) \<subseteq> putting s"
    using assms(1) by (simp_all add: aq_ok_def)
  have same: "fut f = aq_fut s f" if "f \<in> putting s \<union> set (aq_putters s)" for f
    using lw(4) lines_apart that p(2) by blast
  note fr = line_frame [OF p(1) same order_refl]
  show "aq_ok t" using assms(1) lw(1) sub fr(1) g by (auto simp: aq_ok_def t)
  show "put_view t = put_view s" using fr(2,3) g by (simp add: put_view_def t)
  show "avail (get_view t) = avail (get_view s)" "aq_items t = aq_items s" "aq_kind t = aq_kind s"
    by (simp_all add: get_view_def t)
  show "parked (get_view s) = 0 \<Longrightarrow> parked (get_view t) = 0 \<and> roused (get_view t) = roused (get_view s)"
    using lw(2) g by (simp add: get_view_def t)
  show "0 < parked (get_view s) \<Longrightarrow> parked (get_view s) = Suc (parked (get_view t)) \<and> roused (get_view t) = Suc (roused (get_view s))"
    using lw(3) g by (simp add: get_view_def t)
qed

lemma aq_wake_putter_sim:
  assumes "aq_ok s" "aq_wake_putter s = t"
  shows "aq_ok t" "get_view t = get_view s" "avail (put_view t) = avail (put_view s)"
    "parked (put_view s) = 0 \<Longrightarrow> parked (put_view t) = 0 \<and> roused (put_view t) = roused (put_view s)"
    "0 < parked (put_view s) \<Longrightarrow> parked (put_view s) = Suc (parked (put_view t)) \<and> roused (put_view t) = Suc (roused (put_view s))"
    "aq_items t = aq_items s" "aq_kind t = aq_kind s"
proof -
  obtain fut ws where w: "wakeup_next (aq_fut s) (aq_putters s) = (fut, ws)"
    by (cases "wakeup_next (aq_fut s) (aq_putters s)")
  have t: "t = s\<lparr>aq_fut := fut, aq_putters := ws\<rparr>" using assms(2) w by (simp add: aq_wake_putter_def)
  have g: "getting t = getting s" "putting t = putting s" by (simp_all add: t getting_def putting_def)
  have l: "line_ok (aq_next s) (aq_fut s) (aq_putters s) (putting s)" "distinct (aq_putters s)"
    using assms(1) by (simp_all add: aq_ok_def line_ok_def)
  note lw = line_wakeup [OF l(1) w]
  have sub: "set ws \<subseteq> set (aq_putters s)" using wakeup_next_eq [OF l(2) w] by simp
  have p: "line_ok (aq_next s) (aq_fut s) (aq_getters s) (getting s)" "set (aq_getters s) \<subseteq> getting s"
    using assms(1) by (simp_all add: aq_ok_def)
  have same: "fut f = aq_fut s f" if "f \<in> getting s \<union> set (aq_getters s)" for f
    using lw(4) lines_apart that p(2) by blast
  note fr = line_frame [OF p(1) same order_refl]
  show "aq_ok t" using assms(1) lw(1) sub fr(1) g by (auto simp: aq_ok_def t)
  show "get_view t = get_view s" using fr(2,3) g by (simp add: get_view_def t)
  show "avail (put_view t) = avail (put_view s)" "aq_items t = aq_items s" "aq_kind t = aq_kind s"
    by (simp_all add: put_view_def t)
  show "parked (put_view s) = 0 \<Longrightarrow> parked (put_view t) = 0 \<and> roused (put_view t) = roused (put_view s)"
    using lw(2) g by (simp add: put_view_def t)
  show "0 < parked (put_view s) \<Longrightarrow> parked (put_view s) = Suc (parked (put_view t)) \<and> roused (put_view t) = Suc (roused (put_view s))"
    using lw(3) g by (simp add: put_view_def t)
qed


text \<open>What one side does at the storage, seen from both sides.\<close>

lemma view_same:
  assumes "aq_fut t = aq_fut s" "aq_wait t = aq_wait s" "aq_getters t = aq_getters s" "aq_putters t = aq_putters s"
  shows "parked (get_view t) = parked (get_view s)" "roused (get_view t) = roused (get_view s)"
    "parked (put_view t) = parked (put_view s)" "roused (put_view t) = roused (put_view s)"
    "getting t = getting s" "putting t = putting s"
  using assms by (simp_all add: get_view_def put_view_def getting_def putting_def)

lemma wake_supply:
  assumes "avail t = Suc (avail s)"
    "parked s = 0 \<Longrightarrow> parked t = 0 \<and> roused t = roused s"
    "0 < parked s \<Longrightarrow> parked s = Suc (parked t) \<and> roused t = Suc (roused s)"
  shows "wake_step s t"
  using assms by (cases "parked s = 0") (auto intro: wake_step.supply_idle wake_step.supply_rouse)

lemma aq_put_now_sim:
  assumes ok: "aq_ok s" and p: "aq_put_nowait s x = Inr t"
  shows "aq_ok t" "wake_step (get_view s) (get_view t)"
    "parked (put_view t) = parked (put_view s)" "roused (put_view t) = roused (put_view s)"
    "avail (put_view s) = (if 0 < aq_maxsize s then Suc (avail (put_view t)) else 0)"
    "aq_items t = kind_put (aq_kind s) (<) (aq_items s) x" "aq_kind t = aq_kind s"
    "avail (put_view t) \<le> avail (put_view s)"
proof -
  define s1 where "s1 = s\<lparr>aq_items := kind_put (aq_kind s) (<) (aq_items s) x,
           aq_unfinished := aq_unfinished s + 1, aq_finished := aevent_clear (aq_finished s)\<rparr>"
  have t: "aq_wake_getter s1 = t" and nf: "\<not> aq_full s"
    using p by (simp_all add: aq_put_nowait_def s1_def split: if_splits)
  note v = view_same [of s1 s]
  have len: "length (aq_items s1) = Suc (length (aq_items s))" by (simp add: s1_def)
  have av: "avail (get_view s1) = Suc (avail (get_view s))"
    "avail (put_view s) = (if 0 < aq_maxsize s then Suc (avail (put_view s1)) else 0)"
    "avail (put_view s1) \<le> avail (put_view s)"
    using nf len by (auto simp: get_view_def put_view_def aq_full_def aq_qsize_def s1_def)
  have "aq_ok s1"
    using ok nf len v by (auto simp: aq_ok_def s1_def aq_full_def aq_qsize_def kinds.ok_put aevent_ok_def aevent_clear_def)
  note sim = aq_wake_getter_sim [OF this t]
  show "aq_ok t" by (rule sim(1))
  show "wake_step (get_view s) (get_view t)"
    by (rule wake_supply) (use sim(3-5) av v in \<open>simp_all add: s1_def\<close>)
  show "parked (put_view t) = parked (put_view s)" "roused (put_view t) = roused (put_view s)"
    "avail (put_view s) = (if 0 < aq_maxsize s then Suc (avail (put_view t)) else 0)"
    "aq_items t = kind_put (aq_kind s) (<) (aq_items s) x" "aq_kind t = aq_kind s"
    "avail (put_view t) \<le> avail (put_view s)"
    using sim(2,6,7) av v by (simp_all add: s1_def)
qed

lemma aq_get_now_sim:
  assumes ok: "aq_ok s" and p: "aq_get_nowait s = Inr (x, t)"
  shows "aq_ok t" "wake_step (put_view s) (put_view t)"
    "parked (get_view t) = parked (get_view s)" "roused (get_view t) = roused (get_view s)"
    "avail (get_view s) = Suc (avail (get_view t))"
    "kind_get (aq_kind s) (<) (aq_items s) = Inr (x, aq_items t)" "aq_kind t = aq_kind s"
proof -
  obtain q where q: "kind_get (aq_kind s) (<) (aq_items s) = Inr (x, q)" "aq_wake_putter (s\<lparr>aq_items := q\<rparr>) = t"
    using p by (auto simp: aq_get_nowait_def split: if_splits)
  define s1 where "s1 = s\<lparr>aq_items := q\<rparr>"
  have t: "aq_wake_putter s1 = t" using q(2) by (simp add: s1_def)
  note v = view_same [of s1 s]
  have len: "length (aq_items s) = Suc (length (aq_items s1))"
    using kinds.length_get [OF q(1)] by (simp add: s1_def)
  have kq: "kind_ok (aq_kind s) q" using kinds.ok_get [OF _ q(1)] ok by (simp add: aq_ok_def)
  have "aq_ok s1" using ok len v kq by (auto simp: aq_ok_def s1_def)
  note sim = aq_wake_putter_sim [OF this t]
  show "aq_ok t" by (rule sim(1))
  show "wake_step (put_view s) (put_view t)"
  proof (cases "0 < aq_maxsize s")
    case True
    then have "avail (put_view s1) = Suc (avail (put_view s))"
      using ok len by (auto simp: put_view_def aq_ok_def s1_def)
    then show ?thesis by (intro wake_supply) (use sim(3-5) v in \<open>simp_all add: s1_def\<close>)
  next
    case False
    then have "putting s = {}" using ok by (simp add: aq_ok_def)
    then have "set (aq_putters s) \<subseteq> {}" using ok unfolding aq_ok_def by blast
    then have "parked (put_view s) = 0" by (simp add: put_view_def parked_in_def pending_def)
    then have "parked (put_view t) = 0" "roused (put_view t) = roused (put_view s)" "avail (put_view t) = avail (put_view s)"
      using sim(3,4) v False by (simp_all add: s1_def put_view_def)
    then show ?thesis using \<open>parked (put_view s) = 0\<close> by (intro wake_step.idle) simp_all
  qed
  show "parked (get_view t) = parked (get_view s)" "roused (get_view t) = roused (get_view s)"
    "kind_get (aq_kind s) (<) (aq_items s) = Inr (x, aq_items t)" "aq_kind t = aq_kind s"
    using sim(2,6,7) v q(1) by (simp_all add: s1_def)
  show "avail (get_view s) = Suc (avail (get_view t))"
    using sim(2) len by (simp add: get_view_def)
qed


lemma wake_refl: "wake_step v v"
  by (rule wake_step.idle) simp_all

lemma aq_put_sim:
  assumes ok: "aq_ok s" and p: "aq_put s x = (out, t)"
  shows "aq_ok t \<and> wake_step (get_view s) (get_view t) \<and> roused (put_view t) = roused (put_view s) \<and>
    (if aq_full s then 0 < aq_maxsize s \<and> avail (put_view s) = 0 \<and> avail (put_view t) = 0 \<and> parked (put_view t) = Suc (parked (put_view s))
     else parked (put_view t) = parked (put_view s) \<and>
       avail (put_view s) = (if 0 < aq_maxsize s then Suc (avail (put_view t)) else 0) \<and> avail (put_view t) \<le> avail (put_view s))"
proof (cases "aq_full s")
  case True
  have n: "getting s \<subseteq> {..<aq_next s}" "putting s \<subseteq> {..<aq_next s}" "set (aq_getters s) \<subseteq> getting s"
    using ok by (auto simp: aq_ok_def line_ok_def)
  have t: "t = s\<lparr>aq_next := Suc (aq_next s), aq_fut := (aq_fut s)(aq_next s := Pending),
      aq_putters := aq_putters s @ [aq_next s], aq_wait := (aq_wait s)(aq_next s \<mapsto> Putting x)\<rparr>"
    using p True by (simp add: aq_put_def Let_def)
  have g: "getting t = getting s" "putting t = insert (aq_next s) (putting s)"
    using n(1) by (auto simp: t getting_def putting_def)
  have m: "0 < aq_maxsize s" using True by (simp add: aq_full_def split: if_splits)
  have l: "line_ok (aq_next s) (aq_fut s) (aq_getters s) (getting s)" "line_ok (aq_next s) (aq_fut s) (aq_putters s) (putting s)"
    using ok by (simp_all add: aq_ok_def)
  have same: "((aq_fut s)(aq_next s := Pending)) f = aq_fut s f" if "f \<in> getting s \<union> set (aq_getters s)" for f
    using n that by auto
  note fr = line_frame [where fut' = "(aq_fut s)(aq_next s := Pending)" and n' = "Suc (aq_next s)", OF l(1) same le_SucI [OF order_refl]]
  note lp = line_park [OF l(2)]
  have "aq_ok t" using ok fr(1) lp(1) g m by (auto simp: aq_ok_def t)
  moreover have "get_view t = get_view s" using fr(2,3) g by (simp add: get_view_def t)
  moreover have "parked (put_view t) = Suc (parked (put_view s))" "roused (put_view t) = roused (put_view s)"
    "avail (put_view s) = 0" "avail (put_view t) = 0"
    using lp(2,3) g True by (auto simp: put_view_def t aq_full_def aq_qsize_def)
  ultimately show ?thesis using True m wake_refl by simp
next
  case False
  then obtain u where u: "aq_put_nowait s x = Inr u" by (simp add: aq_put_nowait_def)
  then have "t = u" using p False by (simp add: aq_put_def)
  then show ?thesis using aq_put_now_sim [OF ok u] False by simp
qed

lemma aq_get_sim:
  assumes ok: "aq_ok s" and p: "aq_get s = (out, t)"
  shows "aq_ok t \<and> wake_step (put_view s) (put_view t) \<and> roused (get_view t) = roused (get_view s) \<and>
    (if aq_empty s then avail (get_view s) = 0 \<and> avail (get_view t) = 0 \<and> parked (get_view t) = Suc (parked (get_view s))
     else parked (get_view t) = parked (get_view s) \<and> avail (get_view s) = Suc (avail (get_view t)))"
proof (cases "aq_empty s")
  case True
  have n: "getting s \<subseteq> {..<aq_next s}" "putting s \<subseteq> {..<aq_next s}" "set (aq_putters s) \<subseteq> putting s"
    using ok by (auto simp: aq_ok_def line_ok_def)
  have t: "t = s\<lparr>aq_next := Suc (aq_next s), aq_fut := (aq_fut s)(aq_next s := Pending),
      aq_getters := aq_getters s @ [aq_next s], aq_wait := (aq_wait s)(aq_next s \<mapsto> Getting)\<rparr>"
    using p True by (simp add: aq_get_def Let_def)
  have g: "putting t = putting s" "getting t = insert (aq_next s) (getting s)"
    using n(2) by (auto simp: t getting_def putting_def)
  have l: "line_ok (aq_next s) (aq_fut s) (aq_getters s) (getting s)" "line_ok (aq_next s) (aq_fut s) (aq_putters s) (putting s)"
    using ok by (simp_all add: aq_ok_def)
  have same: "((aq_fut s)(aq_next s := Pending)) f = aq_fut s f" if "f \<in> putting s \<union> set (aq_putters s)" for f
    using n that by auto
  note fr = line_frame [where fut' = "(aq_fut s)(aq_next s := Pending)" and n' = "Suc (aq_next s)", OF l(2) same le_SucI [OF order_refl]]
  note lp = line_park [OF l(1)]
  have "aq_ok t" using ok fr(1) lp(1) g by (auto simp: aq_ok_def t)
  moreover have "put_view t = put_view s" using fr(2,3) g by (simp add: put_view_def t)
  moreover have "parked (get_view t) = Suc (parked (get_view s))" "roused (get_view t) = roused (get_view s)"
    "avail (get_view s) = 0" "avail (get_view t) = 0"
    using lp(2,3) g True by (auto simp: get_view_def t aq_empty_def)
  ultimately show ?thesis using True wake_refl by simp
next
  case False
  then obtain y u where u: "aq_get_nowait s = Inr (y, u)"
    using kinds.get_some [of "aq_items s" "aq_kind s"] by (auto simp: aq_get_nowait_def aq_empty_def)
  then have "t = u" using p False by (simp add: aq_get_def)
  then show ?thesis using aq_get_now_sim [OF ok u] False by simp
qed

text \<open>A suspended coroutine that has been woken goes on, or ends.\<close>

lemma aq_ended_put:
  assumes ok: "aq_ok s" and f: "aq_wait s f = Some (Putting x)" "aq_fut s f = Result"
  shows "aq_ok (aq_ended s f)" "get_view (aq_ended s f) = get_view s" "roused (put_view s) = Suc (roused (put_view (aq_ended s f)))"
    "parked (put_view (aq_ended s f)) = parked (put_view s)" "avail (put_view (aq_ended s f)) = avail (put_view s)"
    "f \<notin> set (aq_putters s)" "0 < aq_maxsize s"
proof -
  have l: "line_ok (aq_next s) (aq_fut s) (aq_putters s) (putting s)" "f \<in> putting s"
    using ok f by (auto simp: aq_ok_def putting_def)
  note lr = line_resume [OF l f(2)]
  have g: "getting (aq_ended s f) = getting s" "putting (aq_ended s f) = putting s - {f}"
    using f by (auto simp: getting_def putting_def aq_ended_def)
  show "0 < aq_maxsize s" using ok l(2) by (auto simp: aq_ok_def split: if_splits)
  then show "aq_ok (aq_ended s f)" unfolding aq_ok_def g using ok lr by (auto simp: aq_ok_def aq_ended_def)
  show "get_view (aq_ended s f) = get_view s" unfolding get_view_def g by (simp add: aq_ended_def)
  show "roused (put_view s) = Suc (roused (put_view (aq_ended s f)))" "parked (put_view (aq_ended s f)) = parked (put_view s)"
    "avail (put_view (aq_ended s f)) = avail (put_view s)"
    unfolding put_view_def g using lr by (simp_all add: aq_ended_def)
  show "f \<notin> set (aq_putters s)" by (rule lr(3))
qed

lemma aq_ended_get:
  assumes ok: "aq_ok s" and f: "aq_wait s f = Some Getting" "aq_fut s f = Result"
  shows "aq_ok (aq_ended s f)" "put_view (aq_ended s f) = put_view s" "roused (get_view s) = Suc (roused (get_view (aq_ended s f)))"
    "parked (get_view (aq_ended s f)) = parked (get_view s)" "avail (get_view (aq_ended s f)) = avail (get_view s)"
    "f \<notin> set (aq_getters s)"
proof -
  have l: "line_ok (aq_next s) (aq_fut s) (aq_getters s) (getting s)" "f \<in> getting s"
    using ok f by (auto simp: aq_ok_def getting_def)
  note lr = line_resume [OF l f(2)]
  have g: "putting (aq_ended s f) = putting s" "getting (aq_ended s f) = getting s - {f}"
    using f by (auto simp: getting_def putting_def aq_ended_def)
  show "aq_ok (aq_ended s f)" unfolding aq_ok_def g using ok lr by (auto simp: aq_ok_def aq_ended_def)
  show "put_view (aq_ended s f) = put_view s" unfolding put_view_def g by (simp add: aq_ended_def)
  show "roused (get_view s) = Suc (roused (get_view (aq_ended s f)))" "parked (get_view (aq_ended s f)) = parked (get_view s)"
    "avail (get_view (aq_ended s f)) = avail (get_view s)"
    unfolding get_view_def g using lr by (simp_all add: aq_ended_def)
  show "f \<notin> set (aq_getters s)" by (rule lr(3))
qed


lemma aq_cancel_sim:
  assumes ok: "aq_ok s" and f: "aq_wait s f \<noteq> None"
  shows "aq_ok (aq_cancel s f) \<and> wake_step (get_view s) (get_view (aq_cancel s f)) \<and> wake_step (put_view s) (put_view (aq_cancel s f))"
proof (cases "aq_fut s f = Pending")
  case False
  then show ?thesis using ok wake_refl by (simp add: aq_cancel_def fut_cancel_def fut_done_def)
next
  case True
  define t where "t = s\<lparr>aq_fut := (aq_fut s)(f := Cancelled)\<rparr>"
  have t: "aq_cancel s f = t" using True by (simp add: aq_cancel_def fut_cancel_def fut_done_def t_def)
  have g: "getting t = getting s" "putting t = putting s" by (simp_all add: t_def getting_def putting_def)
  have l: "line_ok (aq_next s) (aq_fut s) (aq_getters s) (getting s)" "line_ok (aq_next s) (aq_fut s) (aq_putters s) (putting s)"
    and sub: "set (aq_getters s) \<subseteq> getting s" "set (aq_putters s) \<subseteq> putting s"
    using ok by (simp_all add: aq_ok_def)
  consider "f \<in> getting s" "f \<notin> putting s" | "f \<in> putting s" "f \<notin> getting s"
    using f lines_apart by (cases "the (aq_wait s f)") (auto simp: getting_def putting_def)
  then show ?thesis
  proof cases
    case 1
    note lc = line_cancel [OF l(1) 1(1) True]
    have same: "((aq_fut s)(f := Cancelled)) g = aq_fut s g" if "g \<in> putting s \<union> set (aq_putters s)" for g
      using that 1(2) sub(2) by auto
    have "line_ok (aq_next s) ((aq_fut s)(f := Cancelled)) (aq_putters s) (putting s)" "put_view t = put_view s"
      using line_frame [where fut' = "(aq_fut s)(f := Cancelled)" and n' = "aq_next s", OF l(2) same order_refl] g
      by (simp_all add: put_view_def t_def)
    moreover have "wake_step (get_view s) (get_view t)"
      by (rule wake_step.leave) (use lc g in \<open>simp_all add: get_view_def t_def\<close>)
    moreover have "aq_ok t" unfolding aq_ok_def g using ok lc(1) calculation(1) by (simp add: aq_ok_def t_def)
    ultimately show ?thesis using t wake_refl by simp
  next
    case 2
    note lc = line_cancel [OF l(2) 2(1) True]
    have same: "((aq_fut s)(f := Cancelled)) g = aq_fut s g" if "g \<in> getting s \<union> set (aq_getters s)" for g
      using that 2(2) sub(1) by auto
    have "line_ok (aq_next s) ((aq_fut s)(f := Cancelled)) (aq_getters s) (getting s)" "get_view t = get_view s"
      using line_frame [where fut' = "(aq_fut s)(f := Cancelled)" and n' = "aq_next s", OF l(1) same order_refl] g
      by (simp_all add: get_view_def t_def)
    moreover have "wake_step (put_view s) (put_view t)"
      by (rule wake_step.leave) (use lc g in \<open>simp_all add: put_view_def t_def\<close>)
    moreover have "aq_ok t" unfolding aq_ok_def g using ok lc(1) calculation(1) by (simp add: aq_ok_def t_def)
    ultimately show ?thesis using t wake_refl by simp
  qed
qed

text \<open>A woken coroutine that ends without taking its turn passes it on.\<close>

lemma wake_pass_on:
  assumes "roused s = Suc (roused s1)" "parked s1 = parked s" "avail s1 = avail s" "avail t = avail s1"
    "parked s1 = 0 \<Longrightarrow> parked t = 0 \<and> roused t = roused s1"
    "0 < parked s1 \<Longrightarrow> parked s1 = Suc (parked t) \<and> roused t = Suc (roused s1)"
  shows "wake_step s t"
  using assms by (cases "parked s1 = 0") (auto intro: wake_step.quit_idle wake_step.leave)

lemma aq_put_throw_sim:
  assumes ok: "aq_ok s" and f: "aq_wait s f = Some (Putting x)" "aq_fut s f \<noteq> Pending"
    and th: "aq_put_throw s f = (out, t)"
  shows "aq_ok t \<and> wake_step (get_view s) (get_view t) \<and> wake_step (put_view s) (put_view t)"
proof (cases "aq_fut s f = Result")
  case True
  note en = aq_ended_put [OF ok f(1) True]
  define s1 where "s1 = aq_ended s f"
  have t: "t = (if aq_full s1 then s1 else aq_wake_putter s1)"
    using th en(6) f(2) True
    by (auto simp: aq_put_throw_def s1_def aq_ended_def fut_cancel_def fut_done_def fut_cancelled_def remove1_idem
        aq_full_def aq_qsize_def Let_def split: if_splits)
  show ?thesis
  proof (cases "aq_full s1")
    case full: True
    then have "avail (put_view s1) = 0" by (auto simp: put_view_def aq_full_def aq_qsize_def split: if_splits)
    then show ?thesis using t full en wake_refl by (auto intro!: wake_step.quit_empty simp: s1_def)
  next
    case False
    note sim = aq_wake_putter_sim [OF en(1) refl, folded s1_def]
    have "wake_step (put_view s) (put_view (aq_wake_putter s1))"
      using wake_pass_on [OF en(3,4,5), folded s1_def, OF sim(3,4,5)] by blast
    then show ?thesis using t False sim(1,2) en(2) wake_refl by (simp add: s1_def)
  qed
next
  case False
  then have c: "aq_fut s f = Cancelled" using f(2) by (cases "aq_fut s f") auto
  have l: "line_ok (aq_next s) (aq_fut s) (aq_putters s) (putting s)" using ok by (simp add: aq_ok_def)
  note le = line_end_cancelled [OF l c]
  have t: "t = (aq_ended s f)\<lparr>aq_putters := remove1 f (aq_putters s)\<rparr>"
    using th c by (simp add: aq_put_throw_def aq_ended_def fut_cancel_def fut_done_def fut_cancelled_def)
  have g: "getting t = getting s" "putting t = putting s - {f}"
    using f by (auto simp: getting_def putting_def aq_ended_def t)
  have "set (remove1 f (aq_putters s)) \<subseteq> putting s - {f}"
    using ok l by (auto simp: aq_ok_def line_ok_def)
  then have "aq_ok t" unfolding aq_ok_def g using ok le(2) by (auto simp: aq_ok_def aq_ended_def t)
  moreover have "get_view t = get_view s" "put_view t = put_view s"
    unfolding get_view_def put_view_def g using le(3,4) by (simp_all add: t aq_ended_def)
  ultimately show ?thesis using wake_refl by simp
qed

lemma aq_get_throw_sim:
  assumes ok: "aq_ok s" and f: "aq_wait s f = Some Getting" "aq_fut s f \<noteq> Pending"
    and th: "aq_get_throw s f = (out, t)"
  shows "aq_ok t \<and> wake_step (get_view s) (get_view t) \<and> wake_step (put_view s) (put_view t)"
proof (cases "aq_fut s f = Result")
  case True
  note en = aq_ended_get [OF ok f(1) True]
  define s1 where "s1 = aq_ended s f"
  have t: "t = (if aq_empty s1 then s1 else aq_wake_getter s1)"
    using th en(6) f(2) True
    by (auto simp: aq_get_throw_def s1_def aq_ended_def fut_cancel_def fut_done_def fut_cancelled_def remove1_idem
        aq_empty_def Let_def split: if_splits)
  show ?thesis
  proof (cases "aq_empty s1")
    case empty: True
    then have "avail (get_view s1) = 0" by (simp add: get_view_def aq_empty_def)
    then show ?thesis using t empty en wake_refl by (auto intro!: wake_step.quit_empty simp: s1_def)
  next
    case False
    note sim = aq_wake_getter_sim [OF en(1) refl, folded s1_def]
    have "wake_step (get_view s) (get_view (aq_wake_getter s1))"
      using wake_pass_on [OF en(3,4,5), folded s1_def, OF sim(3,4,5)] by blast
    then show ?thesis using t False sim(1,2) en(2) wake_refl by (simp add: s1_def)
  qed
next
  case False
  then have c: "aq_fut s f = Cancelled" using f(2) by (cases "aq_fut s f") auto
  have l: "line_ok (aq_next s) (aq_fut s) (aq_getters s) (getting s)" using ok by (simp add: aq_ok_def)
  note le = line_end_cancelled [OF l c]
  have t: "t = (aq_ended s f)\<lparr>aq_getters := remove1 f (aq_getters s)\<rparr>"
    using th c by (simp add: aq_get_throw_def aq_ended_def fut_cancel_def fut_done_def fut_cancelled_def)
  have g: "putting t = putting s" "getting t = getting s - {f}"
    using f by (auto simp: getting_def putting_def aq_ended_def t)
  have "set (remove1 f (aq_getters s)) \<subseteq> getting s - {f}"
    using ok l by (auto simp: aq_ok_def line_ok_def)
  then have "aq_ok t" unfolding aq_ok_def g using ok le(2) by (auto simp: aq_ok_def aq_ended_def t)
  moreover have "get_view t = get_view s" "put_view t = put_view s"
    unfolding get_view_def put_view_def g using le(3,4) by (simp_all add: t aq_ended_def)
  ultimately show ?thesis using wake_refl by simp
qed

text \<open>The other steps touch only the count of unfinished tasks and the event.\<close>

lemma aq_side_sim:
  assumes "aq_ok s" "0 \<le> u" "ev_value ev \<longleftrightarrow> u = 0" "aevent_ok ev"
  shows "aq_ok (s\<lparr>aq_unfinished := u, aq_finished := ev\<rparr>) \<and> get_view (s\<lparr>aq_unfinished := u, aq_finished := ev\<rparr>) = get_view s \<and>
    put_view (s\<lparr>aq_unfinished := u, aq_finished := ev\<rparr>) = put_view s"
proof -
  have g: "getting (s\<lparr>aq_unfinished := u, aq_finished := ev\<rparr>) = getting s" "putting (s\<lparr>aq_unfinished := u, aq_finished := ev\<rparr>) = putting s"
    by (simp_all add: getting_def putting_def)
  show ?thesis unfolding aq_ok_def get_view_def put_view_def g using assms by (simp add: aq_ok_def)
qed

lemma aq_side_event:
  assumes "aq_ok s" "aevent_step (aq_finished s) ev" "ev_value ev = ev_value (aq_finished s)"
  shows "aq_ok (s\<lparr>aq_finished := ev\<rparr>) \<and> get_view (s\<lparr>aq_finished := ev\<rparr>) = get_view s \<and> put_view (s\<lparr>aq_finished := ev\<rparr>) = put_view s"
  using aq_side_sim [of s "aq_unfinished s" ev] assms aevent_ok_step by (auto simp: aq_ok_def)


section \<open>Every step keeps the invariant and both contracts\<close>

lemma aq_step_sim:
  "aq_step s e t \<Longrightarrow> aq_ok s \<Longrightarrow> aq_ok t \<and> wake_step (get_view s) (get_view t) \<and> wake_step (put_view s) (put_view t)"
proof (induction rule: aq_step.induct)
  case (q_put s x out t)
  note sim = aq_put_sim [OF q_put(2,1)]
  have "wake_step (put_view s) (put_view t)"
    using sim by (auto intro: wake_step.park wake_step.take_new wake_step.idle split: if_splits)
  then show ?case using sim by blast
next
  case (q_get s out t)
  note sim = aq_get_sim [OF q_get(2,1)]
  have "wake_step (get_view s) (get_view t)"
    using sim by (auto intro: wake_step.park wake_step.take_new split: if_splits)
  then show ?case using sim by blast
next
  case (q_put_nowait s x t)
  note sim = aq_put_now_sim [OF q_put_nowait(2,1)]
  have "wake_step (put_view s) (put_view t)"
    using sim by (auto intro: wake_step.take_new wake_step.idle split: if_splits)
  then show ?case using sim by blast
next
  case (q_get_nowait s x t)
  note sim = aq_get_now_sim [OF q_get_nowait(2,1)]
  have "wake_step (get_view s) (get_view t)"
    using sim by (auto intro: wake_step.take_new)
  then show ?case using sim by blast
next
  case (q_put_resume s f x out t)
  note en = aq_ended_put [OF q_put_resume(4,1,2)]
  note sim = aq_put_sim [OF en(1) q_put_resume(3) [unfolded aq_put_resume_def]]
  have "aq_maxsize (aq_ended s f) = aq_maxsize s" by (simp add: aq_ended_def)
  then have "wake_step (put_view s) (put_view t)"
    using sim en by (auto intro: wake_step.roused_park wake_step.roused_take split: if_splits)
  then show ?case using sim en(2) by simp
next
  case (q_get_resume s f out t)
  note en = aq_ended_get [OF q_get_resume(4,1,2)]
  note sim = aq_get_sim [OF en(1) q_get_resume(3) [unfolded aq_get_resume_def]]
  have "wake_step (get_view s) (get_view t)"
    using sim en by (auto intro: wake_step.roused_park wake_step.roused_take split: if_splits)
  then show ?case using sim en(2) by simp
next
  case (q_task_done s t)
  show ?case
  proof (cases "aq_unfinished s = 1")
    case True
    then have "t = s\<lparr>aq_unfinished := 0, aq_finished := aevent_set (aq_finished s)\<rparr>"
      using q_task_done(1) by (simp add: aq_task_done_def Let_def)
    moreover have "aevent_ok (aevent_set (aq_finished s))" "ev_value (aevent_set (aq_finished s))"
      using aevent_ok_step [OF ev_set] q_task_done(2) by (simp_all add: aq_ok_def) (simp add: aevent_set_def)
    ultimately show ?thesis
      using aq_side_sim [OF q_task_done(2), of 0 "aevent_set (aq_finished s)"] wake_refl by simp
  next
    case False
    then have "t = s\<lparr>aq_unfinished := aq_unfinished s - 1, aq_finished := aq_finished s\<rparr>" "1 < aq_unfinished s"
      using q_task_done(1) by (auto simp: aq_task_done_def Let_def split: if_splits)
    then show ?thesis
      using aq_side_sim [OF q_task_done(2), of "aq_unfinished s - 1" "aq_finished s"] q_task_done(2) wake_refl
      by (simp add: aq_ok_def)
  qed
next
  case (q_join s out t)
  have "t = s \<or> t = s\<lparr>aq_finished := snd (aevent_wait (aq_finished s))\<rparr>"
    using q_join(1) by (auto simp: aq_join_def split: if_splits prod.splits)
  then show ?case
    using aq_side_event [OF q_join(2) ev_wait] q_join(2) wake_refl
    by (auto simp: aevent_wait_def Let_def)
next
  case (q_join_resume f s)
  then show ?case using aq_side_event [OF q_join_resume(3) ev_resume] wake_refl by (simp add: aevent_resume_def)
next
  case (q_join_cancel f s)
  then show ?case using aq_side_event [OF q_join_cancel(2) ev_cancel] wake_refl by (simp add: aevent_cancel_def)
next
  case (q_join_throw f s)
  then show ?case using aq_side_event [OF q_join_throw(3) ev_throw] wake_refl by (simp add: aevent_throw_def)
qed (use aq_cancel_sim aq_put_throw_sim aq_get_throw_sim in blast)+

lemma aq_init_ok:
  assumes "aq_init s"
  shows "aq_ok s \<and> no_lost_wakeup (get_view s) \<and> no_lost_wakeup (put_view s)"
  using assms
  by (auto simp: aq_new_def aq_ok_def get_view_def put_view_def getting_def putting_def line_empty no_lost_wakeup_def
      kinds.ok_empty aevent_new_def aevent_set_def aevent_ok_def)

interpretation async_getters: wakeup aq_init aq_move aq_ok get_view
  by unfold_locales (use aq_init_ok aq_step_sim in blast)+

interpretation async_putters: wakeup aq_init aq_move aq_ok put_view
  by unfold_locales (use aq_init_ok aq_step_sim in blast)+

section \<open>What goes in comes out\<close>

lemma aq_step_items:
  assumes "aq_step s e t"
  shows "aq_kind t = aq_kind s \<and> item_step (aq_kind s) (aq_items s) e (aq_items t)"
proof -
  have wg: "aq_items (aq_wake_getter s) = aq_items s \<and> aq_kind (aq_wake_getter s) = aq_kind s"
    and wp: "aq_items (aq_wake_putter s) = aq_items s \<and> aq_kind (aq_wake_putter s) = aq_kind s" for s :: "'a aqueue"
    by (simp_all add: aq_wake_getter_def aq_wake_putter_def split: prod.split)
  show ?thesis
    using assms
    by (cases rule: aq_step.cases)
      (auto simp: aq_put_def aq_get_def aq_put_nowait_def aq_get_nowait_def aq_put_resume_def aq_get_resume_def aq_ended_def
        aq_cancel_def aq_put_throw_def aq_get_throw_def aq_task_done_def aq_join_def aq_full_def aq_qsize_def aq_empty_def wg wp Let_def
        split: if_splits sum.splits prod.splits)
qed

interpretation async_queue: item_store aq_init aq_step aq_ok aq_kind aq_items
proof unfold_locales
  fix s assume "aq_init s"
  then show "aq_items s = []" by (auto simp: aq_new_def)
next
  fix s assume "aq_ok s"
  then show "kind_ok (aq_kind s) (aq_items s)" by (simp add: aq_ok_def)
qed (use aq_init_ok aq_step_sim aq_step_items in blast)+

section \<open>Properties\<close>

text \<open>C8: in every reachable state of a queue, whatever coroutines call \<open>put\<close> and \<open>get\<close> and are cancelled,
  a bounded queue holds at most \<open>maxsize\<close> items, nobody waits in \<open>put\<close> of an unbounded one, while
  coroutines wait in \<open>get\<close> there are as many woken ones as items, and while coroutines wait in \<open>put\<close>
  as many woken ones as free slots; and nobody is left waiting in \<open>join\<close> when no task is unfinished.\<close>

theorem async_queue_no_lost_wakeup:
  assumes "reachable aq_init aq_move s"
  shows "(pending (aq_fut s) (aq_getters s) \<noteq> [] \<longrightarrow> length (aq_items s) \<le> woken (aq_fut s) (getting s)) \<and>
    (if 0 < aq_maxsize s
     then int (aq_qsize s) \<le> aq_maxsize s \<and>
       (pending (aq_fut s) (aq_putters s) \<noteq> [] \<longrightarrow> aq_maxsize s - int (aq_qsize s) \<le> int (woken (aq_fut s) (putting s)))
     else aq_putters s = []) \<and>
    (aq_join s = (Ret True, s) \<longleftrightarrow> aq_unfinished s = 0) \<and>
    (aq_unfinished s = 0 \<longrightarrow> pending (ev_fut (aq_finished s)) (ev_waiters (aq_finished s)) = [])"
proof -
  have ok: "aq_ok s" by (rule async_getters.reachable_inv [OF assms])
  have g: "no_lost_wakeup (get_view s)" and p: "no_lost_wakeup (put_view s)"
    by (rule async_getters.reachable_safe [OF assms], rule async_putters.reachable_safe [OF assms])
  have "aq_putters s = []" if "\<not> 0 < aq_maxsize s"
  proof -
    have "putting s = {}" using ok that by (simp add: aq_ok_def)
    then have "set (aq_putters s) \<subseteq> {}" using ok unfolding aq_ok_def by blast
    then show ?thesis by simp
  qed
  then show ?thesis
    using g p ok by (auto simp: no_lost_wakeup_def get_view_def put_view_def parked_in_def aq_ok_def aq_qsize_def
        aq_join_def aevent_ok_def aevent_wait_def Let_def)
qed

theorem async_queue_no_lost_wakeup_witness:
  "\<exists>s :: int aqueue. reachable aq_init aq_move s \<and> pending (aq_fut s) (aq_putters s) = [0] \<and> aq_maxsize s = 1 \<and>
     int (aq_qsize s) \<le> 1"
proof -
  define s0 :: "int aqueue" where "s0 = aq_new Lifo 1"
  define s1 where "s1 = snd (aq_put s0 7)"
  define s2 where "s2 = snd (aq_put s1 8)"
  have m: "aq_move s0 s1" "aq_move s1 s2"
    using q_put [of s0 7 "fst (aq_put s0 7)" s1] q_put [of s1 8 "fst (aq_put s1 8)" s2] by (auto simp: s1_def s2_def)
  have r: "reachable aq_init aq_move s2"
    by (rule more [of _ _ s1], rule reachable_one [of _ s0]) (use m s0_def in blast)+
  have "pending (aq_fut s2) (aq_putters s2) = [0]" "aq_maxsize s2 = 1"
    by (simp_all add: s2_def s1_def s0_def aq_new_def aq_put_def aq_put_nowait_def aq_full_def aq_qsize_def
        aq_wake_getter_def Let_def)
  then show ?thesis using async_queue_no_lost_wakeup [OF r] r by auto
qed

text \<open>C16: in every run of a queue, the items put are, with their multiplicities, the items got and the
  items still in the queue; an ordinary queue hands them out in the order in which they were put; and
  every item a step hands out is the one its class promises (the oldest, the newest, the least).\<close>

theorem async_queue_conserves_items:
  assumes "trace aq_init aq_step es s"
  shows "mset (puts es) = mset (gots es) + mset (aq_items s) \<and>
    (aq_kind s = Fifo \<longrightarrow> puts es = gots es @ aq_items s) \<and>
    (\<forall>x t. aq_step s (Got x) t \<longrightarrow> kind_next (aq_kind s) (aq_items s) x)"
  using async_queue.trace_items [OF assms] async_queue.hands_out [OF assms] by blast

theorem async_queue_conserves_items_witness:
  "\<exists>s :: int aqueue. trace aq_init aq_step [Put 5, Put 3] s \<and> mset [5, 3] = mset (aq_items s)"
proof -
  define s0 :: "int aqueue" where "s0 = aq_new Prio 0"
  define s1 where "s1 = snd (aq_put s0 5)"
  define s2 where "s2 = snd (aq_put s1 3)"
  have 1: "aq_put s0 5 = (Ret None, s1)" "aq_put s1 3 = (Ret None, s2)"
    by (simp_all add: s2_def s1_def s0_def aq_new_def aq_put_def aq_put_nowait_def aq_full_def aq_wake_getter_def)
  have "aq_step s0 (Put 5) s1" "aq_step s1 (Put 3) s2"
    using q_put [OF 1(1)] q_put [OF 1(2)] by simp_all
  then have "trace aq_init aq_step (([] @ [Put 5]) @ [Put 3]) s2"
    using s0_def by (blast intro: trace.intros)
  then show ?thesis using async_queue_conserves_items [of "[Put 5, Put 3]" s2] by auto
qed

end
