(* ===== verification/Thread_Cond.thy ===== *)
theory Thread_Cond
  imports Async_Line
begin

text \<open>
  \<open>Condition\<close> of \<open>python-stdlib/threading/threading.py\<close> over a plain \<open>Lock\<close>, as \<open>Semaphore\<close>,
  \<open>Event\<close> and \<open>Barrier\<close> use it. A thread is a number. \<open>wait\<close> allocates a lock of its own for every
  call; a thread is in at most one call at a time, so the waiter lock is named after its thread.
  Code that holds the lock runs alone, so a method is cut at the points where it does not hold it.
\<close>

section \<open>The state and the operations\<close>

text \<open>
  \<open>tc_owned\<close>: the lock is held. \<open>tc_waiters\<close>: the deque \<open>_waiters\<close>. \<open>tc_free\<close>: the waiter locks
  that \<open>notify\<close> has released. \<open>tc_blocked\<close>: the threads suspended in \<open>wait\<close>, with their timeout.
  \<open>tc_late\<close>: those of them whose timed \<open>waiter.acquire\<close> has failed (\<open>gotit\<close> is false) and which now
  want the lock back.
\<close>

record tcond =
  tc_owned :: bool
  tc_waiters :: "nat list"
  tc_free :: "nat set"
  tc_blocked :: "nat \<rightharpoonup> int option"
  tc_late :: "nat set"

definition tcond_new :: tcond where
  "tcond_new = \<lparr>tc_owned = False, tc_waiters = [], tc_free = {}, tc_blocked = Map.empty, tc_late = {}\<rparr>"

definition tcond_enter :: "tcond \<Rightarrow> tcond" where
  "tcond_enter c = c\<lparr>tc_owned := True\<rparr>"

definition tcond_exit :: "tcond \<Rightarrow> tcond" where
  "tcond_exit c = c\<lparr>tc_owned := False\<rparr>"

text \<open>\<open>_is_owned\<close> of a plain lock: whether anybody holds it.\<close>

definition tcond_is_owned :: "tcond \<Rightarrow> bool" where
  "tcond_is_owned c = tc_owned c"

text \<open>\<open>wait\<close> up to \<open>waiter.acquire\<close>; the two ways in which it goes on, with the lock held again.\<close>

definition tcond_wait :: "nat \<Rightarrow> int option \<Rightarrow> tcond \<Rightarrow> bool outcome \<times> tcond" where
  "tcond_wait me timeout c =
     (if \<not> tcond_is_owned c then (Raise RuntimeError, c)
      else (Wait me, c\<lparr>tc_waiters := tc_waiters c @ [me], tc_free := tc_free c - {me}, tc_owned := False,
                      tc_blocked := (tc_blocked c)(me \<mapsto> timeout), tc_late := tc_late c - {me}\<rparr>))"

definition tcond_got_it :: "nat \<Rightarrow> tcond \<Rightarrow> bool outcome \<times> tcond" where
  "tcond_got_it me c = (Ret True, c\<lparr>tc_owned := True, tc_blocked := (tc_blocked c)(me := None)\<rparr>)"

definition tcond_timed_out :: "nat \<Rightarrow> tcond \<Rightarrow> bool outcome \<times> tcond" where
  "tcond_timed_out me c =
     (Ret False, c\<lparr>tc_owned := True, tc_waiters := remove1 me (tc_waiters c), tc_blocked := (tc_blocked c)(me := None)\<rparr>)"

text \<open>
  \<open>waiter.acquire\<close> succeeds once \<open>notify\<close> has released the waiter lock; with a timeout it may fail
  while it has not, and then the thread has to get the lock before it leaves the deque.
\<close>

definition may_resume :: "nat \<Rightarrow> tcond \<Rightarrow> bool" where
  "may_resume me c \<longleftrightarrow> tc_blocked c me \<noteq> None \<and> me \<in> tc_free c \<and> me \<notin> tc_late c"

definition may_expire :: "nat \<Rightarrow> tcond \<Rightarrow> bool" where
  "may_expire me c \<longleftrightarrow> (\<exists>t. tc_blocked c me = Some (Some t)) \<and> me \<notin> tc_free c \<and> me \<notin> tc_late c"

definition may_give_up :: "nat \<Rightarrow> tcond \<Rightarrow> bool" where
  "may_give_up me c \<longleftrightarrow> tc_blocked c me \<noteq> None \<and> me \<in> tc_late c"

definition tcond_expire :: "nat \<Rightarrow> tcond \<Rightarrow> tcond" where
  "tcond_expire me c = c\<lparr>tc_late := insert me (tc_late c)\<rparr>"

text \<open>The loop of \<open>notify\<close>: \<open>popleft\<close> a waiter and release it, at most \<open>n\<close> times.\<close>

fun notify_pop :: "int \<Rightarrow> nat list \<Rightarrow> nat set \<Rightarrow> nat list \<times> nat set" where
  "notify_pop n [] free = ([], free)"
| "notify_pop n (waiter # waiters) free =
     (if n > 0 then notify_pop (n - 1) waiters (insert waiter free) else (waiter # waiters, free))"

definition tcond_notify :: "int \<Rightarrow> tcond \<Rightarrow> tcond result" where
  "tcond_notify n c =
     (if \<not> tcond_is_owned c then Inl RuntimeError
      else case notify_pop n (tc_waiters c) (tc_free c) of (ws, free) \<Rightarrow> Inr (c\<lparr>tc_waiters := ws, tc_free := free\<rparr>))"

definition tcond_notify_all :: "tcond \<Rightarrow> tcond result" where
  "tcond_notify_all c = tcond_notify (int (length (tc_waiters c))) c"

section \<open>The invariant\<close>

text \<open>Who is suspended stands in the deque or has been notified, and not both.\<close>

definition tc_ok :: "tcond \<Rightarrow> bool" where
  "tc_ok c \<longleftrightarrow> distinct (tc_waiters c) \<and> finite (dom (tc_blocked c)) \<and> set (tc_waiters c) \<subseteq> dom (tc_blocked c) \<and>
     dom (tc_blocked c) \<subseteq> set (tc_waiters c) \<union> tc_free c \<and> set (tc_waiters c) \<inter> tc_free c = {}"

definition tc_roused :: "tcond \<Rightarrow> nat" where
  "tc_roused c = card (dom (tc_blocked c) \<inter> tc_free c)"

lemma notify_pop_eq:
  "notify_pop n ws free = (drop (nat n) ws, free \<union> set (take (nat n) ws))"
proof (induction n ws free rule: notify_pop.induct)
  case (2 n waiter waiters free)
  show ?case
  proof (cases "n > 0")
    case True
    then have "nat n = Suc (nat (n - 1))" by simp
    then show ?thesis using 2 True by simp
  qed simp
qed simp

lemma tc_new: "tc_ok tcond_new" "tc_roused tcond_new = 0" "tc_waiters tcond_new = []"
  by (simp_all add: tc_ok_def tcond_new_def tc_roused_def)

lemma tc_lock [simp]:
  "tc_waiters (tcond_enter c) = tc_waiters c" "tc_waiters (tcond_exit c) = tc_waiters c"
  "tc_free (tcond_enter c) = tc_free c" "tc_free (tcond_exit c) = tc_free c"
  "tc_blocked (tcond_enter c) = tc_blocked c" "tc_blocked (tcond_exit c) = tc_blocked c"
  "tc_owned (tcond_enter c)" "\<not> tc_owned (tcond_exit c)"
  "tc_ok (tcond_enter c) = tc_ok c" "tc_ok (tcond_exit c) = tc_ok c"
  "tc_roused (tcond_enter c) = tc_roused c" "tc_roused (tcond_exit c) = tc_roused c"
  by (simp_all add: tcond_enter_def tcond_exit_def tc_ok_def tc_roused_def)

lemma tc_expire [simp]:
  "tc_waiters (tcond_expire me c) = tc_waiters c" "tc_blocked (tcond_expire me c) = tc_blocked c"
  "tc_free (tcond_expire me c) = tc_free c"
  "tc_owned (tcond_expire me c) = tc_owned c" "tc_ok (tcond_expire me c) = tc_ok c" "tc_roused (tcond_expire me c) = tc_roused c"
  by (simp_all add: tcond_expire_def tc_ok_def tc_roused_def)

lemma tc_wait:
  assumes "tc_ok c" "tc_owned c" "tc_blocked c me = None" "tcond_wait me timeout c = (out, c')"
  shows "out = Wait me" "tc_ok c'" "tc_waiters c' = tc_waiters c @ [me]" "tc_roused c' = tc_roused c" "\<not> tc_owned c'"
    "tc_blocked c' = (tc_blocked c)(me \<mapsto> timeout)" "me \<notin> set (tc_waiters c)"
proof -
  have c': "out = Wait me" "c' = c\<lparr>tc_waiters := tc_waiters c @ [me], tc_free := tc_free c - {me}, tc_owned := False,
                      tc_blocked := (tc_blocked c)(me \<mapsto> timeout), tc_late := tc_late c - {me}\<rparr>"
    using assms(2,4) by (auto simp: tcond_wait_def tcond_is_owned_def)
  have me: "me \<notin> dom (tc_blocked c)" using assms(3) by blast
  then show "me \<notin> set (tc_waiters c)" using assms(1) by (auto simp: tc_ok_def)
  have "insert me (dom (tc_blocked c)) \<inter> (tc_free c - {me}) = dom (tc_blocked c) \<inter> tc_free c" using me by blast
  then show "out = Wait me" "tc_ok c'" "tc_waiters c' = tc_waiters c @ [me]" "tc_roused c' = tc_roused c" "\<not> tc_owned c'"
    "tc_blocked c' = (tc_blocked c)(me \<mapsto> timeout)"
    using c' assms(1) me by (auto simp: tc_ok_def tc_roused_def)
qed

lemma tc_notify:
  assumes "tc_ok c" "tc_owned c"
  shows "\<exists>c'. tcond_notify n c = Inr c' \<and> tc_ok c' \<and> tc_owned c' \<and> tc_waiters c' = drop (nat n) (tc_waiters c) \<and>
    tc_blocked c' = tc_blocked c \<and> tc_free c' = tc_free c \<union> set (take (nat n) (tc_waiters c)) \<and>
    tc_roused c' = tc_roused c + length (take (nat n) (tc_waiters c))"
proof -
  define ws us where "ws = take (nat n) (tc_waiters c)" and "us = drop (nat n) (tc_waiters c)"
  have sp: "tc_waiters c = ws @ us" by (simp add: ws_def us_def)
  define c' where "c' = c\<lparr>tc_waiters := us, tc_free := tc_free c \<union> set ws\<rparr>"
  have c': "tcond_notify n c = Inr c'"
    using assms(2) by (simp add: tcond_notify_def tcond_is_owned_def notify_pop_eq c'_def ws_def us_def)
  have D: "finite (dom (tc_blocked c))" "set ws \<subseteq> dom (tc_blocked c)" "set ws \<inter> tc_free c = {}" "distinct ws" "set ws \<inter> set us = {}"
    using assms(1) by (auto simp: tc_ok_def sp)
  have "dom (tc_blocked c) \<inter> (tc_free c \<union> set ws) = (dom (tc_blocked c) \<inter> tc_free c) \<union> set ws" using D(2) by blast
  moreover have "card ((dom (tc_blocked c) \<inter> tc_free c) \<union> set ws) = card (dom (tc_blocked c) \<inter> tc_free c) + length ws"
    using D by (subst card_Un_disjoint) (auto simp: distinct_card)
  ultimately have "tc_roused c' = tc_roused c + length ws" by (simp add: tc_roused_def c'_def)
  moreover have "tc_ok c'" using assms(1) D by (auto simp: tc_ok_def c'_def sp)
  ultimately show ?thesis using c' assms(2) by (simp add: c'_def ws_def us_def)
qed

text \<open>A thread leaves \<open>wait\<close>: notified, or timed out, in which case it may have been notified too.\<close>

lemma tc_resume:
  assumes "tc_ok c" "may_resume me c" "tcond_got_it me c = (out, c')"
  shows "out = Ret True" "tc_ok c'" "tc_owned c'" "tc_waiters c' = tc_waiters c" "tc_roused c = Suc (tc_roused c')"
    "tc_blocked c' = (tc_blocked c)(me := None)" "me \<notin> set (tc_waiters c)" "tc_free c' = tc_free c"
proof -
  have me: "me \<in> dom (tc_blocked c)" "me \<in> tc_free c" using assms(2) by (auto simp: may_resume_def)
  then show n: "me \<notin> set (tc_waiters c)" using assms(1) by (auto simp: tc_ok_def)
  have c': "out = Ret True" "c' = c\<lparr>tc_owned := True, tc_blocked := (tc_blocked c)(me := None)\<rparr>"
    using assms(3) by (auto simp: tcond_got_it_def)
  have "dom (tc_blocked c) \<inter> tc_free c = insert me ((dom (tc_blocked c) - {me}) \<inter> tc_free c)" using me by blast
  then have "tc_roused c = Suc (tc_roused c')"
    using assms(1) by (simp add: tc_roused_def c' tc_ok_def)
  then show "out = Ret True" "tc_ok c'" "tc_owned c'" "tc_waiters c' = tc_waiters c" "tc_roused c = Suc (tc_roused c')"
    "tc_blocked c' = (tc_blocked c)(me := None)" "tc_free c' = tc_free c"
    using assms(1) n c' by (auto simp: tc_ok_def)
qed

lemma tc_give_up:
  assumes "tc_ok c" "may_give_up me c" "tcond_timed_out me c = (out, c')"
  shows "out = Ret False" "tc_ok c'" "tc_owned c'" "tc_blocked c' = (tc_blocked c)(me := None)" "tc_free c' = tc_free c"
    "tc_waiters c' = remove1 me (tc_waiters c)"
    "me \<in> set (tc_waiters c) \<Longrightarrow> tc_roused c' = tc_roused c \<and> length (tc_waiters c) = Suc (length (tc_waiters c'))"
    "me \<notin> set (tc_waiters c) \<Longrightarrow> tc_waiters c' = tc_waiters c \<and> tc_roused c = Suc (tc_roused c')"
proof -
  have me: "me \<in> dom (tc_blocked c)" using assms(2) by (auto simp: may_give_up_def)
  have ok: "distinct (tc_waiters c)" "finite (dom (tc_blocked c))" "dom (tc_blocked c) \<subseteq> set (tc_waiters c) \<union> tc_free c"
    "set (tc_waiters c) \<inter> tc_free c = {}" using assms(1) by (auto simp: tc_ok_def)
  have c': "out = Ret False"
    "c' = c\<lparr>tc_owned := True, tc_waiters := remove1 me (tc_waiters c), tc_blocked := (tc_blocked c)(me := None)\<rparr>"
    using assms(3) by (auto simp: tcond_timed_out_def)
  show "out = Ret False" "tc_ok c'" "tc_owned c'" "tc_blocked c' = (tc_blocked c)(me := None)" "tc_free c' = tc_free c"
    "tc_waiters c' = remove1 me (tc_waiters c)"
    using assms(1) c' by (auto simp: tc_ok_def)
  show "tc_roused c' = tc_roused c \<and> length (tc_waiters c) = Suc (length (tc_waiters c'))" if "me \<in> set (tc_waiters c)"
  proof -
    have "(dom (tc_blocked c) - {me}) \<inter> tc_free c = dom (tc_blocked c) \<inter> tc_free c" using that ok(4) by blast
    then show ?thesis using that by (simp add: c' tc_roused_def length_remove1) (metis Suc_pred length_pos_if_in_set)
  qed
  show "tc_waiters c' = tc_waiters c \<and> tc_roused c = Suc (tc_roused c')" if "me \<notin> set (tc_waiters c)"
  proof -
    have "dom (tc_blocked c) \<inter> tc_free c = insert me ((dom (tc_blocked c) - {me}) \<inter> tc_free c)" using me that ok(3) by blast
    then show ?thesis using that ok(2) by (simp add: c' tc_roused_def remove1_idem)
  qed
qed

end
