(* ===== verification/Thread_Locks.thy ===== *)
theory Thread_Locks
  imports Thread_Cond
begin

text \<open>
  \<open>Semaphore\<close>, \<open>BoundedSemaphore\<close>, \<open>Event\<close> and \<open>Timer\<close> of
  \<open>python-stdlib/threading/threading.py\<close>. Every method holds the lock of its condition except inside
  \<open>wait\<close>, so it is one step up to its first \<open>wait\<close> and one step from each \<open>wait\<close> to the next. Times
  are integers (ticks of the clock); \<open>now\<close> is what \<open>_time()\<close> returns in the step.
\<close>

section \<open>\<open>Semaphore\<close>\<close>

text \<open>\<open>ts_wait\<close> has the local variables \<open>timeout\<close> and \<open>endtime\<close> of the suspended calls of \<open>acquire\<close>.\<close>

record tsem =
  ts_cond :: tcond
  ts_value :: int
  ts_wait :: "nat \<rightharpoonup> int option \<times> int option"

definition tsem_new :: "int \<Rightarrow> tsem result" where
  "tsem_new value =
     (if value < 0 then Inl ValueError
      else Inr \<lparr>ts_cond = tcond_new, ts_value = value, ts_wait = Map.empty\<rparr>)"

definition tsem_park :: "nat \<Rightarrow> int option \<Rightarrow> int option \<Rightarrow> tsem \<Rightarrow> bool outcome \<times> tsem" where
  "tsem_park me timeout endtime s =
     (case tcond_wait me timeout (ts_cond s) of
        (Wait w, c) \<Rightarrow> (Wait w, s\<lparr>ts_cond := c, ts_wait := (ts_wait s)(w \<mapsto> (timeout, endtime))\<rparr>)
      | (out, c) \<Rightarrow> (out, s\<lparr>ts_cond := tcond_exit c\<rparr>))"

text \<open>The \<open>while ... else\<close> loop of \<open>acquire\<close>, with the lock held, up to the next \<open>wait\<close> or the end.\<close>

definition tsem_loop :: "nat \<Rightarrow> bool \<Rightarrow> int option \<Rightarrow> int option \<Rightarrow> int \<Rightarrow> tsem \<Rightarrow> bool outcome \<times> tsem" where
  "tsem_loop me blocking timeout endtime now s =
     (if ts_value s = 0 then
        if \<not> blocking then (Ret False, s\<lparr>ts_cond := tcond_exit (ts_cond s)\<rparr>)
        else case timeout of
          None \<Rightarrow> tsem_park me None endtime s
        | Some t \<Rightarrow> (case endtime of
            None \<Rightarrow> tsem_park me (Some t) (Some (now + t)) s
          | Some e \<Rightarrow> if e - now \<le> 0 then (Ret False, s\<lparr>ts_cond := tcond_exit (ts_cond s)\<rparr>)
                      else tsem_park me (Some (e - now)) (Some e) s)
      else (Ret True, s\<lparr>ts_value := ts_value s - 1, ts_cond := tcond_exit (ts_cond s)\<rparr>))"

definition tsem_acquire :: "nat \<Rightarrow> bool \<Rightarrow> int option \<Rightarrow> int \<Rightarrow> tsem \<Rightarrow> bool outcome \<times> tsem" where
  "tsem_acquire me blocking timeout now s =
     (if \<not> blocking \<and> timeout \<noteq> None then (Raise ValueError, s)
      else tsem_loop me blocking timeout None now (s\<lparr>ts_cond := tcond_enter (ts_cond s)\<rparr>))"

text \<open>\<open>wait\<close> has returned, because of a \<open>notify\<close> or of the timeout: round the loop again.\<close>

definition tsem_again :: "(nat \<Rightarrow> tcond \<Rightarrow> bool outcome \<times> tcond) \<Rightarrow> nat \<Rightarrow> int \<Rightarrow> tsem \<Rightarrow> bool outcome \<times> tsem" where
  "tsem_again waited me now s =
     (case ts_wait s me of
        None \<Rightarrow> (Ret False, s)
      | Some (timeout, endtime) \<Rightarrow>
          tsem_loop me True timeout endtime now
            (s\<lparr>ts_cond := snd (waited me (ts_cond s)), ts_wait := (ts_wait s)(me := None)\<rparr>))"

definition tsem_release :: "tsem \<Rightarrow> tsem result" where
  "tsem_release s =
     rbind (tcond_notify 1 (tcond_enter (ts_cond s))) (\<lambda>c.
       Inr (s\<lparr>ts_value := ts_value s + 1, ts_cond := tcond_exit c\<rparr>))"

definition tbounded_release :: "int \<Rightarrow> tsem \<Rightarrow> tsem result" where
  "tbounded_release initial_value s =
     (if ts_value s \<ge> initial_value then Inl ValueError else tsem_release s)"

text \<open>The steps, labelled with what the callers see.\<close>

datatype sem_event = Took | Gave | Neither

fun took_event :: "bool outcome \<Rightarrow> sem_event" where
  "took_event (Ret True) = Took"
| "took_event _ = Neither"

inductive tsem_step :: "tsem \<Rightarrow> sem_event \<Rightarrow> tsem \<Rightarrow> bool" where
  ts_acquire: "ts_wait s me = None \<Longrightarrow> tsem_acquire me blocking timeout now s = (out, t) \<Longrightarrow> tsem_step s (took_event out) t"
| ts_notified: "may_resume me (ts_cond s) \<Longrightarrow> tsem_again tcond_got_it me now s = (out, t) \<Longrightarrow> tsem_step s (took_event out) t"
| ts_expire: "may_expire me (ts_cond s) \<Longrightarrow> tsem_step s Neither (s\<lparr>ts_cond := tcond_expire me (ts_cond s)\<rparr>)"
| ts_give_up: "may_give_up me (ts_cond s) \<Longrightarrow> tsem_again tcond_timed_out me now s = (out, t) \<Longrightarrow> tsem_step s (took_event out) t"
| ts_release: "tsem_release s = Inr t \<Longrightarrow> tsem_step s Gave t"

abbreviation tsem_move :: "tsem \<Rightarrow> tsem \<Rightarrow> bool" where
  "tsem_move s t \<equiv> \<exists>e. tsem_step s e t"

abbreviation tsem_init :: "tsem \<Rightarrow> bool" where
  "tsem_init s \<equiv> \<exists>value. tsem_new value = Inr s"

definition tsem_ok :: "tsem \<Rightarrow> bool" where
  "tsem_ok s \<longleftrightarrow> tc_ok (ts_cond s) \<and> \<not> tc_owned (ts_cond s) \<and> 0 \<le> ts_value s \<and> dom (ts_wait s) = dom (tc_blocked (ts_cond s))"

definition tsem_view :: "tsem \<Rightarrow> wake" where
  "tsem_view s = \<lparr>avail = nat (ts_value s), parked = length (tc_waiters (ts_cond s)), roused = tc_roused (ts_cond s)\<rparr>"

lemma tsem_loop_sim:
  assumes c: "tc_ok (ts_cond s)" "tc_owned (ts_cond s)" "0 \<le> ts_value s" "dom (ts_wait s) = dom (tc_blocked (ts_cond s))"
    and me: "ts_wait s me = None" and l: "tsem_loop me blocking timeout endtime now s = (out, t)"
  shows "tsem_ok t" "roused (tsem_view t) = roused (tsem_view s)"
    "0 < ts_value s \<Longrightarrow> out = Ret True \<and> ts_value t = ts_value s - 1 \<and> parked (tsem_view t) = parked (tsem_view s)"
    "ts_value s = 0 \<Longrightarrow> ts_value t = 0 \<and> out \<noteq> Ret True \<and> parked (tsem_view t) \<in> {parked (tsem_view s), Suc (parked (tsem_view s))}"
    "ts_value s = 0 \<Longrightarrow> \<not> blocking \<Longrightarrow> out = Ret False"
proof -
  have b: "tc_blocked (ts_cond s) me = None" using me c(4) by blast
  define t1 where "t1 = s\<lparr>ts_cond := tcond_exit (ts_cond s)\<rparr>"
  have t1: "tsem_ok t1" "tsem_view t1 = tsem_view s" "ts_value t1 = ts_value s"
    using c by (simp_all add: t1_def tsem_ok_def tsem_view_def)
  have P: "p = Wait me \<and> tsem_ok t' \<and> roused (tsem_view t') = roused (tsem_view s) \<and> ts_value t' = ts_value s \<and>
      parked (tsem_view t') = Suc (parked (tsem_view s))"
    if "tsem_park me t0 e0 s = (p, t')" for t0 e0 p t'
  proof -
    obtain o1 c1 where w: "tcond_wait me t0 (ts_cond s) = (o1, c1)" by (cases "tcond_wait me t0 (ts_cond s)")
    note tw = tc_wait [OF c(1,2) b w]
    have "p = Wait me" "t' = s\<lparr>ts_cond := c1, ts_wait := (ts_wait s)(me \<mapsto> (t0, e0))\<rparr>"
      using that w tw(1) by (simp_all add: tsem_park_def)
    then show ?thesis using tw c(3,4) by (simp add: tsem_ok_def tsem_view_def)
  qed
  have "(out, t) = (Ret True, s\<lparr>ts_value := ts_value s - 1, ts_cond := tcond_exit (ts_cond s)\<rparr>)" if "ts_value s \<noteq> 0"
    using l that by (simp add: tsem_loop_def)
  moreover have "(out, t) = (Ret False, t1) \<or> blocking \<and> (\<exists>t0 e0. tsem_park me t0 e0 s = (out, t))" if "ts_value s = 0"
    using l that by (cases blocking; cases timeout; cases endtime) (auto simp: tsem_loop_def t1_def split: if_splits)
  ultimately consider (take) "ts_value s \<noteq> 0" "out = Ret True" "t = s\<lparr>ts_value := ts_value s - 1, ts_cond := tcond_exit (ts_cond s)\<rparr>"
    | (out) "ts_value s = 0" "out = Ret False" "t = t1"
    | (park) t0 e0 where "ts_value s = 0" "blocking" "tsem_park me t0 e0 s = (out, t)"
    by blast
  then have "tsem_ok t \<and> roused (tsem_view t) = roused (tsem_view s) \<and>
    (0 < ts_value s \<longrightarrow> out = Ret True \<and> ts_value t = ts_value s - 1 \<and> parked (tsem_view t) = parked (tsem_view s)) \<and>
    (ts_value s = 0 \<longrightarrow> ts_value t = 0 \<and> out \<noteq> Ret True \<and> parked (tsem_view t) \<in> {parked (tsem_view s), Suc (parked (tsem_view s))}) \<and>
    (ts_value s = 0 \<and> \<not> blocking \<longrightarrow> out = Ret False)"
  proof cases
    case take
    then show ?thesis using c by (auto simp: tsem_ok_def tsem_view_def)
  next
    case out
    then show ?thesis using t1 by simp
  next
    case park
    then show ?thesis using P [OF park(3)] by simp
  qed
  then show "tsem_ok t" "roused (tsem_view t) = roused (tsem_view s)"
    "0 < ts_value s \<Longrightarrow> out = Ret True \<and> ts_value t = ts_value s - 1 \<and> parked (tsem_view t) = parked (tsem_view s)"
    "ts_value s = 0 \<Longrightarrow> ts_value t = 0 \<and> out \<noteq> Ret True \<and> parked (tsem_view t) \<in> {parked (tsem_view s), Suc (parked (tsem_view s))}"
    "ts_value s = 0 \<Longrightarrow> \<not> blocking \<Longrightarrow> out = Ret False"
    by blast+
qed

text \<open>The value counts the units taken and given.\<close>

fun sem_delta :: "sem_event \<Rightarrow> int" where
  "sem_delta Took = -1"
| "sem_delta Gave = 1"
| "sem_delta Neither = 0"

lemma took_event_delta: "sem_delta (took_event out) = (if out = Ret True then -1 else 0)"
  by (cases out rule: took_event.cases) auto

lemma tsem_release_sim:
  assumes "tsem_ok s"
  shows "\<exists>t. tsem_release s = Inr t \<and> tsem_ok t \<and> ts_value t = ts_value s + 1 \<and>
    (if tc_waiters (ts_cond s) = [] then tc_waiters (ts_cond t) = [] \<and> tc_roused (ts_cond t) = tc_roused (ts_cond s)
     else tc_waiters (ts_cond t) = tl (tc_waiters (ts_cond s)) \<and> tc_roused (ts_cond t) = Suc (tc_roused (ts_cond s)))"
proof -
  have ok: "tc_ok (tcond_enter (ts_cond s))" using assms by (simp add: tsem_ok_def)
  obtain c where c: "tcond_notify 1 (tcond_enter (ts_cond s)) = Inr c" "tc_ok c" "tc_waiters c = drop 1 (tc_waiters (ts_cond s))"
    "tc_blocked c = tc_blocked (ts_cond s)" "tc_roused c = tc_roused (ts_cond s) + length (take 1 (tc_waiters (ts_cond s)))"
    using tc_notify [OF ok, of 1] by auto
  then show ?thesis using assms
    by (cases "tc_waiters (ts_cond s)") (simp_all add: tsem_release_def tsem_ok_def)
qed

lemma tsem_step_sim:
  "tsem_step s e t \<Longrightarrow> tsem_ok s \<Longrightarrow> tsem_ok t \<and> wake_step (tsem_view s) (tsem_view t) \<and> ts_value t = ts_value s + sem_delta e"
proof (induction rule: tsem_step.induct)
  case (ts_acquire s me blocking timeout now out t)
  show ?case
  proof (cases "\<not> blocking \<and> timeout \<noteq> None")
    case True
    then show ?thesis using ts_acquire wake_step.idle [OF refl refl refl] by (auto simp: tsem_acquire_def)
  next
    case False
    define s1 where "s1 = s\<lparr>ts_cond := tcond_enter (ts_cond s)\<rparr>"
    have s1: "tc_ok (ts_cond s1)" "tc_owned (ts_cond s1)" "0 \<le> ts_value s1" "dom (ts_wait s1) = dom (tc_blocked (ts_cond s1))"
      "ts_wait s1 me = None" "tsem_view s1 = tsem_view s" "ts_value s1 = ts_value s"
      using ts_acquire(1,3) by (simp_all add: s1_def tsem_ok_def tsem_view_def)
    have "tsem_loop me blocking timeout None now s1 = (out, t)"
      using ts_acquire(2) False by (auto simp: tsem_acquire_def s1_def split: if_splits)
    note sim = tsem_loop_sim [OF s1(1-5) this, unfolded s1(6,7)]
    have "0 \<le> ts_value s" using s1(3,7) by simp
    then consider "0 < ts_value s" | "ts_value s = 0" by linarith
    then show ?thesis
    proof cases
      case 1
      then show ?thesis using sim(1,2,3)
        by (auto intro!: wake_step.take_new simp: tsem_view_def took_event_delta)
    next
      case 2
      then show ?thesis using sim(1,2,4)
        by (auto intro: wake_step.park wake_step.idle simp: tsem_view_def took_event_delta)
    qed
  qed
next
  case (ts_notified me s now out t)
  obtain c1 where r: "tcond_got_it me (ts_cond s) = (Ret True, c1)" by (simp add: tcond_got_it_def)
  have ok: "tc_ok (ts_cond s)" using ts_notified(3) by (simp add: tsem_ok_def)
  note rs = tc_resume [OF ok ts_notified(1) r]
  obtain timeout endtime where w: "ts_wait s me = Some (timeout, endtime)"
    using ts_notified(1,3) by (fastforce simp: may_resume_def tsem_ok_def)
  define s1 where "s1 = s\<lparr>ts_cond := c1, ts_wait := (ts_wait s)(me := None)\<rparr>"
  have s1: "tc_ok (ts_cond s1)" "tc_owned (ts_cond s1)" "0 \<le> ts_value s1" "dom (ts_wait s1) = dom (tc_blocked (ts_cond s1))"
      "ts_wait s1 me = None"
    using rs ts_notified(3) by (simp_all add: s1_def tsem_ok_def)
  have "tsem_loop me True timeout endtime now s1 = (out, t)"
    using ts_notified(2) w r by (simp add: tsem_again_def s1_def)
  note sim = tsem_loop_sim [OF s1 this]
  have v: "ts_value s1 = ts_value s" "parked (tsem_view s1) = parked (tsem_view s)" "roused (tsem_view s) = Suc (roused (tsem_view s1))"
    using rs by (simp_all add: s1_def tsem_view_def)
  consider "0 < ts_value s" | "ts_value s = 0" using s1(3) v(1) by linarith
  then show ?case
  proof cases
    case 1
    then show ?thesis using sim(1,2,3) v
      by (auto intro!: wake_step.roused_take simp: tsem_view_def took_event_delta)
  next
    case 2
    then show ?thesis using sim(1,2,4) v
      by (auto intro: wake_step.roused_park wake_step.quit_empty simp: tsem_view_def took_event_delta)
  qed
next
  case (ts_expire me s)
  then show ?case using wake_step.idle [OF refl refl refl] by (auto simp: tsem_ok_def tsem_view_def)
next
  case (ts_give_up me s now out t)
  obtain c1 where r: "tcond_timed_out me (ts_cond s) = (Ret False, c1)" by (simp add: tcond_timed_out_def)
  have ok: "tc_ok (ts_cond s)" using ts_give_up(3) by (simp add: tsem_ok_def)
  note rs = tc_give_up [OF ok ts_give_up(1) r]
  obtain timeout endtime where w: "ts_wait s me = Some (timeout, endtime)"
    using ts_give_up(1,3) by (fastforce simp: may_give_up_def tsem_ok_def)
  define s1 where "s1 = s\<lparr>ts_cond := c1, ts_wait := (ts_wait s)(me := None)\<rparr>"
  have s1: "tc_ok (ts_cond s1)" "tc_owned (ts_cond s1)" "0 \<le> ts_value s1" "dom (ts_wait s1) = dom (tc_blocked (ts_cond s1))"
      "ts_wait s1 me = None"
    using rs(1-4) ts_give_up(3) by (simp_all add: s1_def tsem_ok_def)
  have "tsem_loop me True timeout endtime now s1 = (out, t)"
    using ts_give_up(2) w r by (simp add: tsem_again_def s1_def)
  note sim = tsem_loop_sim [OF s1 this]
  have v: "ts_value s1 = ts_value s" by (simp add: s1_def)
  consider "0 < ts_value s" | "ts_value s = 0" using s1(3) v(1) by linarith
  then show ?case
  proof cases
    case 1
    have "wake_step (tsem_view s) (tsem_view t)"
    proof (cases "me \<in> set (tc_waiters (ts_cond s))")
      case True
      then show ?thesis using 1 sim(1,2,3) v rs(7)
        by (auto intro!: wake_step.barge simp: tsem_view_def s1_def)
    next
      case False
      then show ?thesis using 1 sim(1,2,3) v rs(8)
        by (auto intro!: wake_step.roused_take simp: tsem_view_def s1_def)
    qed
    then show ?thesis using 1 sim(1,3) v by (simp add: took_event_delta)
  next
    case 2
    have "wake_step (tsem_view s) (tsem_view t)"
    proof (cases "me \<in> set (tc_waiters (ts_cond s))")
      case True
      then show ?thesis using 2 sim(1,2,4) v rs(7)
        by (auto intro: wake_step.leave wake_step.idle simp: tsem_view_def s1_def)
    next
      case False
      then show ?thesis using 2 sim(1,2,4) v rs(8)
        by (auto intro: wake_step.roused_park wake_step.quit_empty simp: tsem_view_def s1_def)
    qed
    then show ?thesis using 2 sim(1,4) v by (simp add: took_event_delta)
  qed
next
  case (ts_release s t)
  then have r: "tsem_ok t" "ts_value t = ts_value s + 1"
    "if tc_waiters (ts_cond s) = [] then tc_waiters (ts_cond t) = [] \<and> tc_roused (ts_cond t) = tc_roused (ts_cond s)
     else tc_waiters (ts_cond t) = tl (tc_waiters (ts_cond s)) \<and> tc_roused (ts_cond t) = Suc (tc_roused (ts_cond s))"
    using tsem_release_sim [OF ts_release(2)] by auto
  have "0 \<le> ts_value s" using ts_release(2) by (simp add: tsem_ok_def)
  then show ?case using r
    by (auto intro: wake_step.supply_idle wake_step.supply_rouse simp: tsem_view_def nat_add_distrib split: if_splits)
qed

interpretation thread_semaphore: wakeup tsem_init tsem_move tsem_ok tsem_view
proof unfold_locales
  fix s assume "tsem_init s"
  then show "tsem_ok s" "no_lost_wakeup (tsem_view s)"
    by (auto simp: tsem_new_def tsem_ok_def tsem_view_def tc_new no_lost_wakeup_def split: if_splits)
       (simp_all add: tcond_new_def)
qed (use tsem_step_sim in blast)+

section \<open>\<open>Event\<close>\<close>

record tevent =
  te_cond :: tcond
  te_flag :: bool

definition tevent_new :: tevent where
  "tevent_new = \<lparr>te_cond = tcond_new, te_flag = False\<rparr>"

definition tevent_is_set :: "tevent \<Rightarrow> bool" where
  "tevent_is_set e = te_flag e"

definition tevent_set :: "tevent \<Rightarrow> tevent result" where
  "tevent_set e =
     rbind (tcond_notify_all (tcond_enter (te_cond e))) (\<lambda>c. Inr (e\<lparr>te_flag := True, te_cond := tcond_exit c\<rparr>))"

definition tevent_clear :: "tevent \<Rightarrow> tevent" where
  "tevent_clear e = e\<lparr>te_flag := False\<rparr>"

definition tevent_wait :: "nat \<Rightarrow> int option \<Rightarrow> tevent \<Rightarrow> bool outcome \<times> tevent" where
  "tevent_wait me timeout e =
     (if te_flag e then (Ret True, e)
      else case tcond_wait me timeout (tcond_enter (te_cond e)) of
        (Wait w, c) \<Rightarrow> (Wait w, e\<lparr>te_cond := c\<rparr>)
      | (out, c) \<Rightarrow> (out, e\<lparr>te_cond := tcond_exit c\<rparr>))"

text \<open>\<open>self._cond.wait\<close> has returned \<open>signaled\<close>.\<close>

definition tevent_waited :: "(nat \<Rightarrow> tcond \<Rightarrow> bool outcome \<times> tcond) \<Rightarrow> nat \<Rightarrow> tevent \<Rightarrow> bool outcome \<times> tevent" where
  "tevent_waited waited me e =
     (case waited me (te_cond e) of (signaled, c) \<Rightarrow> (signaled, e\<lparr>te_cond := tcond_exit c\<rparr>))"

text \<open>While the flag is true nobody is left in the deque.\<close>

definition tevent_ok :: "tevent \<Rightarrow> bool" where
  "tevent_ok e \<longleftrightarrow> tc_ok (te_cond e) \<and> \<not> tc_owned (te_cond e) \<and> (te_flag e \<longrightarrow> tc_waiters (te_cond e) = [])"

abbreviation te_blocked :: "tevent \<Rightarrow> nat \<rightharpoonup> int option" where
  "te_blocked e \<equiv> tc_blocked (te_cond e)"

abbreviation te_queue :: "tevent \<Rightarrow> nat list" where
  "te_queue e \<equiv> tc_waiters (te_cond e)"

lemma tevent_new_ok: "tevent_ok tevent_new" "te_blocked tevent_new = Map.empty" "te_queue tevent_new = []" "\<not> te_flag tevent_new"
  by (simp_all add: tevent_ok_def tevent_new_def tc_new) (simp_all add: tcond_new_def)

lemma tevent_set_ok:
  assumes "tevent_ok e"
  obtains e' where "tevent_set e = Inr e'" "tevent_ok e'" "te_flag e'" "te_queue e' = []" "te_blocked e' = te_blocked e"
proof -
  have ok: "tc_ok (tcond_enter (te_cond e))" using assms by (simp add: tevent_ok_def)
  obtain c where c: "tcond_notify_all (tcond_enter (te_cond e)) = Inr c" "tc_ok c" "tc_waiters c = []" "tc_blocked c = te_blocked e"
    using tc_notify [OF ok, of "int (length (te_queue e))"] by (auto simp: tcond_notify_all_def)
  show thesis
    by (rule that [of "e\<lparr>te_flag := True, te_cond := tcond_exit c\<rparr>"]) (use c in \<open>simp_all add: tevent_set_def tevent_ok_def\<close>)
qed

lemma tevent_clear_ok [simp]:
  "tevent_ok e \<Longrightarrow> tevent_ok (tevent_clear e)" "te_blocked (tevent_clear e) = te_blocked e" "te_queue (tevent_clear e) = te_queue e"
  "\<not> te_flag (tevent_clear e)"
  by (simp_all add: tevent_ok_def tevent_clear_def)

lemma tevent_wait_ok:
  assumes "tevent_ok e" "te_blocked e me = None" "tevent_wait me timeout e = (out, e')"
  shows "tevent_ok e'" "te_flag e' = te_flag e"
    "if te_flag e then out = Ret True \<and> e' = e
     else out = Wait me \<and> te_queue e' = te_queue e @ [me] \<and> te_blocked e' = (te_blocked e)(me \<mapsto> timeout)"
proof -
  obtain o1 c where w: "tcond_wait me timeout (tcond_enter (te_cond e)) = (o1, c)"
    by (cases "tcond_wait me timeout (tcond_enter (te_cond e))")
  have ok: "tc_ok (tcond_enter (te_cond e))" "tc_owned (tcond_enter (te_cond e))" "tc_blocked (tcond_enter (te_cond e)) me = None"
    using assms by (simp_all add: tevent_ok_def)
  note tw = tc_wait [OF ok w]
  show "tevent_ok e'" "te_flag e' = te_flag e"
    "if te_flag e then out = Ret True \<and> e' = e
     else out = Wait me \<and> te_queue e' = te_queue e @ [me] \<and> te_blocked e' = (te_blocked e)(me \<mapsto> timeout)"
    using assms(1,3) w tw by (auto simp: tevent_wait_def tevent_ok_def split: if_splits)
qed

lemma tevent_got_it_ok:
  assumes "tevent_ok e" "may_resume me (te_cond e)" "tevent_waited tcond_got_it me e = (out, e')"
  shows "out = Ret True" "tevent_ok e'" "te_flag e' = te_flag e" "te_queue e' = te_queue e" "te_blocked e' = (te_blocked e)(me := None)"
    "me \<notin> set (te_queue e)"
proof -
  obtain o1 c where w: "tcond_got_it me (te_cond e) = (o1, c)" by (cases "tcond_got_it me (te_cond e)")
  note r = tc_resume [OF _ assms(2) w]
  show "out = Ret True" "tevent_ok e'" "te_flag e' = te_flag e" "te_queue e' = te_queue e" "te_blocked e' = (te_blocked e)(me := None)"
    "me \<notin> set (te_queue e)"
    using assms(1,3) w r by (auto simp: tevent_waited_def tevent_ok_def)
qed

lemma tevent_timed_out_ok:
  assumes "tevent_ok e" "may_give_up me (te_cond e)" "tevent_waited tcond_timed_out me e = (out, e')"
  shows "out = Ret False" "tevent_ok e'" "te_flag e' = te_flag e" "te_queue e' = remove1 me (te_queue e)"
    "te_blocked e' = (te_blocked e)(me := None)"
proof -
  obtain o1 c where w: "tcond_timed_out me (te_cond e) = (o1, c)" by (cases "tcond_timed_out me (te_cond e)")
  note r = tc_give_up [OF _ assms(2) w]
  show "out = Ret False" "tevent_ok e'" "te_flag e' = te_flag e" "te_queue e' = remove1 me (te_queue e)"
    "te_blocked e' = (te_blocked e)(me := None)"
    using assms(1,3) w r(1-6) by (auto simp: tevent_waited_def tevent_ok_def)
qed

lemma tevent_expire_ok:
  assumes "tevent_ok e"
  shows "tevent_ok (e\<lparr>te_cond := tcond_expire me (te_cond e)\<rparr>)"
  using assms by (simp add: tevent_ok_def)

section \<open>Properties\<close>

text \<open>In every reachable state of a semaphore, with timed and untimed acquisitions in any order, the
  value is not negative, and while threads stand in its queue there are at least as many notified ones
  on their way as units left; \<open>release\<close> never fails, and that of a \<open>BoundedSemaphore\<close> is refused
  exactly when the value would exceed the initial one.\<close>

theorem thread_semaphore_no_lost_wakeup:
  assumes "reachable tsem_init tsem_move s"
  shows "0 \<le> ts_value s \<and> (tc_waiters (ts_cond s) = [] \<or> ts_value s \<le> int (tc_roused (ts_cond s))) \<and>
    (\<exists>t. tsem_release s = Inr t) \<and>
    (case tbounded_release initial_value s of
       Inl e \<Rightarrow> e = ValueError \<and> initial_value \<le> ts_value s
     | Inr t \<Rightarrow> ts_value t = ts_value s + 1 \<and> ts_value t \<le> initial_value)"
proof -
  have ok: "tsem_ok s" by (rule thread_semaphore.reachable_inv [OF assms])
  obtain t where t: "tsem_release s = Inr t" "ts_value t = ts_value s + 1" using tsem_release_sim [OF ok] by blast
  have "no_lost_wakeup (tsem_view s)" by (rule thread_semaphore.reachable_safe [OF assms])
  then show ?thesis using ok t by (auto simp: no_lost_wakeup_def tsem_view_def tsem_ok_def tbounded_release_def)
qed

theorem thread_semaphore_no_lost_wakeup_witness:
  "\<exists>s. reachable tsem_init tsem_move s \<and> tc_waiters (ts_cond s) = [5] \<and> ts_value s \<le> int (tc_roused (ts_cond s))"
proof -
  obtain s0 where s0: "tsem_new 0 = Inr s0" by (simp add: tsem_new_def)
  define s1 where "s1 = snd (tsem_acquire 5 True (Some 3) 0 s0)"
  have "ts_wait s0 5 = None" using s0 by (auto simp: tsem_new_def)
  then have "tsem_move s0 s1"
    using ts_acquire [of s0 5 True "Some 3" 0 "fst (tsem_acquire 5 True (Some 3) 0 s0)" s1] by (auto simp: s1_def)
  then have r: "reachable tsem_init tsem_move s1" by (intro reachable_one [of _ s0]) (use s0 in blast)+
  have "tc_waiters (ts_cond s1) = [5]"
    using s0 by (auto simp: tsem_new_def s1_def tsem_acquire_def tsem_loop_def tsem_park_def tcond_wait_def tcond_is_owned_def
        tcond_enter_def tcond_new_def)
  then show ?thesis using thread_semaphore_no_lost_wakeup [OF r, of 0] r by auto
qed

end
