(* ===== verification/Thread_Queue.thy ===== *)
theory Thread_Queue
  imports Thread_Locks Item_Store
begin

text \<open>
  \<open>Queue\<close>, \<open>PriorityQueue\<close>, \<open>LifoQueue\<close> and \<open>SimpleQueue\<close> of \<open>python-stdlib/queue/queue.py\<close>, over
  the events and semaphores of \<open>Thread_Locks\<close>. The code that holds \<open>_mutex\<close> is one step: the items
  and counts are touched only there, and the events are set and cleared only there. A blocked call
  then goes through the phases below, in which other threads run: it has released the mutex and is about
  to wait for its event; it is suspended in the event; \<open>wait\<close> has returned, and it wants the mutex back.
\<close>

section \<open>The state and the operations\<close>

datatype 'a tcall = Call_put 'a | Call_get | Call_join

datatype tphase = Released "int option" | Suspended | Signalled | Expired

text \<open>\<open>tq_calls\<close>: the calls in progress by thread, with their \<open>end_time\<close> and phase.\<close>

record 'a tqueue =
  tq_kind :: qkind
  tq_maxsize :: int
  tq_items :: "'a list"
  tq_unfinished :: int
  tq_not_empty :: tevent
  tq_not_full :: tevent
  tq_finished :: tevent
  tq_calls :: "nat \<rightharpoonup> 'a tcall \<times> int option \<times> tphase"

definition tq_new :: "qkind \<Rightarrow> int \<Rightarrow> 'a tqueue result" where
  "tq_new kind maxsize =
     rbind (tevent_set tevent_new) (\<lambda>finished.
       Inr \<lparr>tq_kind = kind, tq_maxsize = maxsize, tq_items = [], tq_unfinished = 0, tq_not_empty = tevent_new,
            tq_not_full = tevent_new, tq_finished = finished, tq_calls = Map.empty\<rparr>)"

definition tq_qsize :: "'a tqueue \<Rightarrow> nat" where
  "tq_qsize s = length (tq_items s)"

definition tq_empty :: "'a tqueue \<Rightarrow> bool" where
  "tq_empty s \<longleftrightarrow> tq_items s = []"

definition tq_full :: "'a tqueue \<Rightarrow> bool" where
  "tq_full s = (if tq_maxsize s \<le> 0 then False else int (length (tq_items s)) \<ge> tq_maxsize s)"

definition tq_task_done :: "'a tqueue \<Rightarrow> 'a tqueue result" where
  "tq_task_done s =
     (if tq_unfinished s \<le> 0 then Inl ValueError
      else let s = s\<lparr>tq_unfinished := tq_unfinished s - 1\<rparr> in
        if tq_unfinished s = 0 then rbind (tevent_set (tq_finished s)) (\<lambda>ev. Inr (s\<lparr>tq_finished := ev\<rparr>)) else Inr s)"

text \<open>The critical sections that store and take an item, the same in the blocking and the \<open>nowait\<close> methods.\<close>

definition tq_store :: "'a::linorder \<Rightarrow> 'a tqueue \<Rightarrow> 'a tqueue result" where
  "tq_store item s =
     rbind (tevent_set (tq_not_empty s)) (\<lambda>ev.
       Inr (s\<lparr>tq_items := kind_put (tq_kind s) (<) (tq_items s) item, tq_unfinished := tq_unfinished s + 1,
              tq_finished := tevent_clear (tq_finished s), tq_not_empty := ev\<rparr>))"

definition tq_take :: "'a::linorder tqueue \<Rightarrow> ('a \<times> 'a tqueue) result" where
  "tq_take s =
     rbind (kind_get (tq_kind s) (<) (tq_items s)) (\<lambda>(item, items).
       rbind (tevent_set (tq_not_full s)) (\<lambda>ev. Inr (item, s\<lparr>tq_items := items, tq_not_full := ev\<rparr>)))"

definition tq_put_nowait :: "'a::linorder \<Rightarrow> 'a tqueue \<Rightarrow> 'a tqueue result" where
  "tq_put_nowait item s =
     (if tq_maxsize s > 0 \<and> int (length (tq_items s)) \<ge> tq_maxsize s then Inl QueueFull else tq_store item s)"

definition tq_get_nowait :: "'a::linorder tqueue \<Rightarrow> ('a \<times> 'a tqueue) result" where
  "tq_get_nowait s = (if tq_items s = [] then Inl QueueEmpty else tq_take s)"

text \<open>The time that is left, or the exception when none is.\<close>

definition tq_wait_time :: "exn \<Rightarrow> int option \<Rightarrow> int \<Rightarrow> int option result" where
  "tq_wait_time e end_time now =
     (case end_time of None \<Rightarrow> Inr None
      | Some t \<Rightarrow> let remaining = t - now in if remaining \<le> 0 then Inl e else Inr (Some remaining))"

definition tq_leave :: "nat \<Rightarrow> 'a tqueue \<Rightarrow> 'a tqueue" where
  "tq_leave me s = s\<lparr>tq_calls := (tq_calls s)(me := None)\<rparr>"

text \<open>The loops, with the mutex held, up to its next release.\<close>

definition tq_put_loop :: "nat \<Rightarrow> 'a::linorder \<Rightarrow> int option \<Rightarrow> int \<Rightarrow> 'a tqueue \<Rightarrow> 'a option outcome \<times> 'a tqueue" where
  "tq_put_loop me item end_time now s =
     (if tq_maxsize s \<le> 0 \<or> int (length (tq_items s)) < tq_maxsize s then
        case tq_store item s of Inl e \<Rightarrow> (Raise e, tq_leave me s) | Inr t \<Rightarrow> (Ret None, tq_leave me t)
      else case tq_wait_time QueueFull end_time now of
        Inl e \<Rightarrow> (Raise e, tq_leave me s)
      | Inr wait_time \<Rightarrow>
          (Wait me, s\<lparr>tq_not_full := tevent_clear (tq_not_full s),
                     tq_calls := (tq_calls s)(me \<mapsto> (Call_put item, end_time, Released wait_time))\<rparr>))"

definition tq_get_loop :: "nat \<Rightarrow> int option \<Rightarrow> int \<Rightarrow> 'a::linorder tqueue \<Rightarrow> 'a option outcome \<times> 'a tqueue" where
  "tq_get_loop me end_time now s =
     (if tq_items s \<noteq> [] then
        case tq_take s of Inl e \<Rightarrow> (Raise e, tq_leave me s) | Inr (item, t) \<Rightarrow> (Ret (Some item), tq_leave me t)
      else case tq_wait_time QueueEmpty end_time now of
        Inl e \<Rightarrow> (Raise e, tq_leave me s)
      | Inr wait_time \<Rightarrow>
          (Wait me, s\<lparr>tq_not_empty := tevent_clear (tq_not_empty s),
                     tq_calls := (tq_calls s)(me \<mapsto> (Call_get, end_time, Released wait_time))\<rparr>))"

definition tq_join_loop :: "nat \<Rightarrow> 'a tqueue \<Rightarrow> 'a option outcome \<times> 'a tqueue" where
  "tq_join_loop me s =
     (if tq_unfinished s \<noteq> 0 then (Wait me, s\<lparr>tq_calls := (tq_calls s)(me \<mapsto> (Call_join, None, Released None))\<rparr>)
      else (Ret None, tq_leave me s))"

text \<open>The calls.\<close>

definition tq_put :: "nat \<Rightarrow> 'a::linorder \<Rightarrow> bool \<Rightarrow> int option \<Rightarrow> int \<Rightarrow> 'a tqueue \<Rightarrow> 'a option outcome \<times> 'a tqueue" where
  "tq_put me item block timeout now s =
     (if \<not> block then case tq_put_nowait item s of Inl e \<Rightarrow> (Raise e, s) | Inr t \<Rightarrow> (Ret None, t)
      else case timeout of
        None \<Rightarrow> tq_put_loop me item None now s
      | Some t \<Rightarrow> if t < 0 then (Raise ValueError, s) else tq_put_loop me item (Some (now + t)) now s)"

definition tq_get :: "nat \<Rightarrow> bool \<Rightarrow> int option \<Rightarrow> int \<Rightarrow> 'a::linorder tqueue \<Rightarrow> 'a option outcome \<times> 'a tqueue" where
  "tq_get me block timeout now s =
     (if \<not> block then case tq_get_nowait s of Inl e \<Rightarrow> (Raise e, s) | Inr (item, t) \<Rightarrow> (Ret (Some item), t)
      else case timeout of
        None \<Rightarrow> tq_get_loop me None now s
      | Some t \<Rightarrow> if t < 0 then (Raise ValueError, s) else tq_get_loop me (Some (now + t)) now s)"

definition tq_join :: "nat \<Rightarrow> 'a tqueue \<Rightarrow> 'a option outcome \<times> 'a tqueue" where
  "tq_join me s = tq_join_loop me s"

text \<open>The event that a call waits for, and its change.\<close>

fun tq_event :: "'a tcall \<Rightarrow> 'a tqueue \<Rightarrow> tevent" where
  "tq_event (Call_put item) s = tq_not_full s"
| "tq_event Call_get s = tq_not_empty s"
| "tq_event Call_join s = tq_finished s"

fun tq_with_event :: "'a tcall \<Rightarrow> tevent \<Rightarrow> 'a tqueue \<Rightarrow> 'a tqueue" where
  "tq_with_event (Call_put item) ev s = s\<lparr>tq_not_full := ev\<rparr>"
| "tq_with_event Call_get ev s = s\<lparr>tq_not_empty := ev\<rparr>"
| "tq_with_event Call_join ev s = s\<lparr>tq_finished := ev\<rparr>"

fun after_wait :: "bool outcome \<Rightarrow> tphase" where
  "after_wait (Ret b) = (if b then Signalled else Expired)"
| "after_wait (Wait w) = Suspended"
| "after_wait (Raise e) = Expired"

definition tq_waiting :: "nat \<Rightarrow> 'a tcall \<Rightarrow> int option \<Rightarrow> bool outcome \<times> tevent \<Rightarrow> 'a tqueue \<Rightarrow> 'a tqueue" where
  "tq_waiting me call end_time w s =
     (tq_with_event call (snd w) s)\<lparr>tq_calls := (tq_calls s)(me \<mapsto> (call, end_time, after_wait (fst w)))\<rparr>"

text \<open>
  The mutex is held again: the loop goes round, or \<open>Full\<close> or \<open>Empty\<close> is raised. \<open>join\<close> does not look
  at what \<open>wait\<close> returned.
\<close>

fun tq_go_on :: "nat \<Rightarrow> int \<Rightarrow> 'a::linorder tcall \<Rightarrow> int option \<Rightarrow> bool \<Rightarrow> 'a tqueue \<Rightarrow> 'a option outcome \<times> 'a tqueue" where
  "tq_go_on me now (Call_put item) end_time signalled s =
     (if \<not> signalled then (Raise QueueFull, tq_leave me s) else tq_put_loop me item end_time now s)"
| "tq_go_on me now Call_get end_time signalled s =
     (if \<not> signalled then (Raise QueueEmpty, tq_leave me s) else tq_get_loop me end_time now s)"
| "tq_go_on me now Call_join end_time signalled s = tq_join_loop me s"

fun call_event :: "'a tcall \<Rightarrow> 'a option outcome \<Rightarrow> 'a qevent" where
  "call_event (Call_put item) out = put_event item out"
| "call_event Call_get out = got_event out"
| "call_event Call_join out = Silent"

section \<open>The steps\<close>

inductive tq_step :: "'a::linorder tqueue \<Rightarrow> 'a qevent \<Rightarrow> 'a tqueue \<Rightarrow> bool" where
  tq_s_put: "tq_calls s me = None \<Longrightarrow> tq_put me item block timeout now s = (out, t) \<Longrightarrow> tq_step s (put_event item out) t"
| tq_s_get: "tq_calls s me = None \<Longrightarrow> tq_get me block timeout now s = (out, t) \<Longrightarrow> tq_step s (got_event out) t"
| tq_s_join: "tq_calls s me = None \<Longrightarrow> tq_join me s = (out, t) \<Longrightarrow> tq_step s Silent t"
| tq_s_task_done: "tq_task_done s = Inr t \<Longrightarrow> tq_step s Silent t"
| tq_s_wait: "tq_calls s me = Some (call, end_time, Released wait_time) \<Longrightarrow>
    tq_step s Silent (tq_waiting me call end_time (tevent_wait me wait_time (tq_event call s)) s)"
| tq_s_notified: "tq_calls s me = Some (call, end_time, Suspended) \<Longrightarrow> may_resume me (te_cond (tq_event call s)) \<Longrightarrow>
    tq_step s Silent (tq_waiting me call end_time (tevent_waited tcond_got_it me (tq_event call s)) s)"
| tq_s_expire: "tq_calls s me = Some (call, end_time, Suspended) \<Longrightarrow> may_expire me (te_cond (tq_event call s)) \<Longrightarrow>
    tq_step s Silent (tq_with_event call ((tq_event call s)\<lparr>te_cond := tcond_expire me (te_cond (tq_event call s))\<rparr>) s)"
| tq_s_give_up: "tq_calls s me = Some (call, end_time, Suspended) \<Longrightarrow> may_give_up me (te_cond (tq_event call s)) \<Longrightarrow>
    tq_step s Silent (tq_waiting me call end_time (tevent_waited tcond_timed_out me (tq_event call s)) s)"
| tq_s_go_on: "tq_calls s me = Some (call, end_time, phase) \<Longrightarrow> phase \<in> {Signalled, Expired} \<Longrightarrow>
    tq_go_on me now call end_time (phase = Signalled) s = (out, t) \<Longrightarrow> tq_step s (call_event call out) t"

abbreviation tq_init :: "'a::linorder tqueue \<Rightarrow> bool" where
  "tq_init s \<equiv> \<exists>kind maxsize. tq_new kind maxsize = Inr s"

abbreviation tq_move :: "'a::linorder tqueue \<Rightarrow> 'a tqueue \<Rightarrow> bool" where
  "tq_move s t \<equiv> \<exists>e. tq_step s e t"

section \<open>The invariant\<close>

text \<open>Calls of the same method wait for the same event, and under the same condition.\<close>

definition alike :: "'a tcall \<Rightarrow> 'a tcall \<Rightarrow> bool" where
  "alike c d \<longleftrightarrow> map_tcall (\<lambda>_. ()) c = map_tcall (\<lambda>_. ()) d"

fun must_wait :: "'a tcall \<Rightarrow> 'a tqueue \<Rightarrow> bool" where
  "must_wait (Call_put item) s \<longleftrightarrow> tq_full s"
| "must_wait Call_get s \<longleftrightarrow> tq_items s = []"
| "must_wait Call_join s \<longleftrightarrow> tq_unfinished s \<noteq> 0"

definition tq_data :: "'a::linorder tqueue \<Rightarrow> bool" where
  "tq_data s \<longleftrightarrow> kind_ok (tq_kind s) (tq_items s) \<and> (0 < tq_maxsize s \<longrightarrow> int (length (tq_items s)) \<le> tq_maxsize s) \<and>
     0 \<le> tq_unfinished s \<and> (te_flag (tq_finished s) \<longleftrightarrow> tq_unfinished s = 0)"

text \<open>
  The events are well formed, who is suspended in one is in a call of its kind; and a thread that waits,
  or is about to, with the flag down, has reason to.
\<close>

definition tq_threads :: "'a tqueue \<Rightarrow> bool" where
  "tq_threads s \<longleftrightarrow> (\<forall>c. tevent_ok (tq_event c s)) \<and>
     (\<forall>c me. me \<in> dom (te_blocked (tq_event c s)) \<longleftrightarrow> (\<exists>d e. tq_calls s me = Some (d, e, Suspended) \<and> alike c d)) \<and>
     (\<forall>c. must_wait c s \<or> te_flag (tq_event c s) \<or>
        te_queue (tq_event c s) = [] \<and> (\<forall>me d e w. tq_calls s me = Some (d, e, Released w) \<longrightarrow> \<not> alike c d))"

lemma tq_threads_rules:
  assumes "tq_threads s"
  shows "tevent_ok (tq_event c s)"
    "me \<in> dom (te_blocked (tq_event c s)) \<longleftrightarrow> (\<exists>d e. tq_calls s me = Some (d, e, Suspended) \<and> alike c d)"
    "must_wait c s \<or> te_flag (tq_event c s) \<or>
        te_queue (tq_event c s) = [] \<and> (\<forall>me d e w. tq_calls s me = Some (d, e, Released w) \<longrightarrow> \<not> alike c d)"
  using assms unfolding tq_threads_def by blast+

lemma alike_simps [simp]:
  "alike c c" "alike (Call_put x) d \<longleftrightarrow> (\<exists>y. d = Call_put y)" "alike Call_get d \<longleftrightarrow> d = Call_get" "alike Call_join d \<longleftrightarrow> d = Call_join"
  by (cases d; simp add: alike_def)+

lemma alike_event: "alike c d \<Longrightarrow> tq_event c s = tq_event d s" "alike c d \<Longrightarrow> must_wait c s = must_wait d s"
  "alike c d \<Longrightarrow> alike d c" "alike c d \<Longrightarrow> alike d e \<longleftrightarrow> alike c e"
  by (cases c; cases d; simp add: alike_def)+

lemma event_with [simp]:
  "tq_event d (tq_with_event c ev s) = (if alike c d then ev else tq_event d s)"
  "must_wait d (tq_with_event c ev s) = must_wait d s" "tq_calls (tq_with_event c ev s) = tq_calls s"
  by (cases c; cases d; simp add: tq_full_def)+

lemma event_calls [simp]:
  "tq_event d (s\<lparr>tq_calls := cs\<rparr>) = tq_event d s" "must_wait d (s\<lparr>tq_calls := cs\<rparr>) = must_wait d s"
  by (cases d; simp add: tq_full_def)+

text \<open>A thread ends its call, sets out to wait, or moves between the phases of waiting.\<close>

lemma tq_threads_leave:
  assumes "tq_threads s" "\<And>d e. tq_calls s me \<noteq> Some (d, e, Suspended)"
  shows "tq_threads (tq_leave me s)"
  using assms unfolding tq_threads_def tq_leave_def by (simp, blast)

lemma tq_threads_park:
  assumes th: "tq_threads s" and me: "\<And>d e. tq_calls s me \<noteq> Some (d, e, Suspended)" and w: "must_wait c s"
    and ev: "tevent_ok ev" "te_blocked ev = te_blocked (tq_event c s)" "te_queue ev = te_queue (tq_event c s)"
  shows "tq_threads ((tq_with_event c ev s)\<lparr>tq_calls := (tq_calls s)(me \<mapsto> (c, end_time, Released wt))\<rparr>)"
  unfolding tq_threads_def
proof (intro conjI allI)
  let ?t = "(tq_with_event c ev s)\<lparr>tq_calls := (tq_calls s)(me \<mapsto> (c, end_time, Released wt))\<rparr>"
  fix d i
  show "tevent_ok (tq_event d ?t)" using tq_threads_rules(1) [OF th] ev(1) by simp
  have "te_blocked (tq_event d ?t) = te_blocked (tq_event d s)" using ev(2) alike_event(1) [of c d s] by auto
  then show "i \<in> dom (te_blocked (tq_event d ?t)) \<longleftrightarrow> (\<exists>d' e. tq_calls ?t i = Some (d', e, Suspended) \<and> alike d d')"
    using tq_threads_rules(2) [OF th] me by simp
  show "must_wait d ?t \<or> te_flag (tq_event d ?t) \<or>
        te_queue (tq_event d ?t) = [] \<and> (\<forall>i d' e w. tq_calls ?t i = Some (d', e, Released w) \<longrightarrow> \<not> alike d d')"
    using tq_threads_rules(3) [OF th, of d] w alike_event(2) [of c d s] alike_event(3) [of d c] by (cases "alike c d") auto
qed

lemma tq_threads_move:
  assumes th: "tq_threads s" and me: "tq_calls s me = Some (c, e0, ph0)"
    and ev: "tevent_ok ev" "te_flag ev = te_flag (tq_event c s)"
    and dom: "dom (te_blocked ev) = (if ph = Suspended then insert me (dom (te_blocked (tq_event c s))) else dom (te_blocked (tq_event c s)) - {me})"
    and ph: "\<And>w. ph \<noteq> Released w" and q: "te_queue ev \<noteq> [] \<Longrightarrow> must_wait c s"
  shows "tq_threads ((tq_with_event c ev s)\<lparr>tq_calls := (tq_calls s)(me \<mapsto> (c, end_time, ph))\<rparr>)"
  unfolding tq_threads_def
proof (intro conjI allI)
  let ?t = "(tq_with_event c ev s)\<lparr>tq_calls := (tq_calls s)(me \<mapsto> (c, end_time, ph))\<rparr>"
  fix d i
  show "tevent_ok (tq_event d ?t)" using tq_threads_rules(1) [OF th] ev(1) by simp
  show "i \<in> dom (te_blocked (tq_event d ?t)) \<longleftrightarrow> (\<exists>d' e. tq_calls ?t i = Some (d', e, Suspended) \<and> alike d d')"
  proof (cases "alike c d")
    case True
    then have "alike d c" by (rule alike_event(3))
    show ?thesis
      using tq_threads_rules(2) [OF th, of i d] dom True \<open>alike d c\<close> alike_event(1) [OF True, of s] by (cases "i = me") (simp_all add: dom)
  next
    case False
    then have n: "\<not> alike d c" using alike_event(3) by blast
    then show ?thesis using tq_threads_rules(2) [OF th, of i d] me False by (cases "i = me") simp_all
  qed
  show "must_wait d ?t \<or> te_flag (tq_event d ?t) \<or>
        te_queue (tq_event d ?t) = [] \<and> (\<forall>i d' e w. tq_calls ?t i = Some (d', e, Released w) \<longrightarrow> \<not> alike d d')"
  proof (cases "alike c d")
    case True
    then show ?thesis
      using tq_threads_rules(3) [OF th, of d] ph q ev(2) alike_event(1,2) [OF True, of s] by (auto, blast)
  next
    case False
    then show ?thesis using tq_threads_rules(3) [OF th, of d] ph by (auto, blast)
  qed
qed


text \<open>Storing and taking an item, and finishing a task.\<close>

lemma tq_store_ok:
  assumes th: "tq_threads s" and da: "tq_data s" and nf: "\<not> tq_full s"
  obtains t where "tq_store x s = Inr t" "tq_threads t" "tq_data t" "tq_calls t = tq_calls s" "tq_kind t = tq_kind s"
    "tq_items t = kind_put (tq_kind s) (<) (tq_items s) x"
proof -
  obtain ev where ev: "tevent_set (tq_not_empty s) = Inr ev" "tevent_ok ev" "te_flag ev" "te_queue ev = []"
    "te_blocked ev = te_blocked (tq_not_empty s)"
    using tevent_set_ok [of "tq_not_empty s"] tq_threads_rules(1) [OF th, of Call_get] by auto
  define t where "t = s\<lparr>tq_items := kind_put (tq_kind s) (<) (tq_items s) x, tq_unfinished := tq_unfinished s + 1,
              tq_finished := tevent_clear (tq_finished s), tq_not_empty := ev\<rparr>"
  have "tq_threads t" unfolding tq_threads_def
  proof (intro conjI allI)
    fix c :: "'a tcall" and i
    note r = tq_threads_rules [where c = c, OF th]
    show "tevent_ok (tq_event c t)" using r(1) ev(2) by (cases c) (simp_all add: t_def)
    have "te_blocked (tq_event c t) = te_blocked (tq_event c s)" using ev(5) by (cases c) (simp_all add: t_def)
    then show "i \<in> dom (te_blocked (tq_event c t)) \<longleftrightarrow> (\<exists>d e. tq_calls t i = Some (d, e, Suspended) \<and> alike c d)"
      using r(2) by (simp add: t_def)
    show "must_wait c t \<or> te_flag (tq_event c t) \<or>
        te_queue (tq_event c t) = [] \<and> (\<forall>me d e w. tq_calls t me = Some (d, e, Released w) \<longrightarrow> \<not> alike c d)"
      using r(3) ev(3) nf da by (cases c) (simp_all add: t_def tq_data_def)
  qed
  moreover have "tq_data t"
    using da nf by (auto simp: tq_data_def t_def tq_full_def kinds.ok_put split: if_splits)
  ultimately show thesis using that [of t] ev(1) by (simp add: tq_store_def t_def)
qed

lemma tq_take_ok:
  assumes th: "tq_threads s" and da: "tq_data s" and ne: "tq_items s \<noteq> []"
  obtains x t where "tq_take s = Inr (x, t)" "tq_threads t" "tq_data t" "tq_calls t = tq_calls s" "tq_kind t = tq_kind s"
    "kind_get (tq_kind s) (<) (tq_items s) = Inr (x, tq_items t)"
proof -
  obtain x q where g: "kind_get (tq_kind s) (<) (tq_items s) = Inr (x, q)" using kinds.get_some [OF ne] by blast
  obtain ev where ev: "tevent_set (tq_not_full s) = Inr ev" "tevent_ok ev" "te_flag ev" "te_queue ev = []"
    "te_blocked ev = te_blocked (tq_not_full s)"
    using tevent_set_ok [of "tq_not_full s"] tq_threads_rules(1) [OF th, of "Call_put x"] by auto
  define t where "t = s\<lparr>tq_items := q, tq_not_full := ev\<rparr>"
  have "tq_threads t" unfolding tq_threads_def
  proof (intro conjI allI)
    fix c :: "'a tcall" and i
    note r = tq_threads_rules [where c = c, OF th]
    show "tevent_ok (tq_event c t)" using r(1) ev(2) by (cases c) (simp_all add: t_def)
    have "te_blocked (tq_event c t) = te_blocked (tq_event c s)" using ev(5) by (cases c) (simp_all add: t_def)
    then show "i \<in> dom (te_blocked (tq_event c t)) \<longleftrightarrow> (\<exists>d e. tq_calls t i = Some (d, e, Suspended) \<and> alike c d)"
      using r(2) by (simp add: t_def)
    show "must_wait c t \<or> te_flag (tq_event c t) \<or>
        te_queue (tq_event c t) = [] \<and> (\<forall>me d e w. tq_calls t me = Some (d, e, Released w) \<longrightarrow> \<not> alike c d)"
      using r(3) ev(3) ne by (cases c) (simp_all add: t_def)
  qed
  moreover have "tq_data t"
    using da kinds.length_get [OF g] kinds.ok_get [OF _ g] by (auto simp: tq_data_def t_def)
  ultimately show thesis using that [of x t] ev(1) g by (simp add: tq_take_def t_def)
qed

lemma tq_task_done_ok:
  assumes th: "tq_threads s" and da: "tq_data s" and d: "tq_task_done s = Inr t"
  shows "tq_threads t \<and> tq_data t \<and> tq_kind t = tq_kind s \<and> tq_items t = tq_items s"
proof -
  obtain ev where ev: "tevent_set (tq_finished s) = Inr ev" "tevent_ok ev" "te_flag ev" "te_queue ev = []"
    "te_blocked ev = te_blocked (tq_finished s)"
    using tevent_set_ok [of "tq_finished s"] tq_threads_rules(1) [OF th, of Call_join] by auto
  define ev' where "ev' = (if tq_unfinished s = 1 then ev else tq_finished s)"
  have t: "t = s\<lparr>tq_unfinished := tq_unfinished s - 1, tq_finished := ev'\<rparr>" "1 \<le> tq_unfinished s"
    using d ev(1) by (auto simp: tq_task_done_def Let_def ev'_def split: if_splits)
  have "tq_threads t" unfolding tq_threads_def
  proof (intro conjI allI)
    fix c :: "'a tcall" and i
    note r = tq_threads_rules [where c = c, OF th]
    show "tevent_ok (tq_event c t)" using r(1) ev(2) by (cases c) (simp_all add: t(1) ev'_def)
    have "te_blocked (tq_event c t) = te_blocked (tq_event c s)" using ev(5) by (cases c) (simp_all add: t(1) ev'_def)
    then show "i \<in> dom (te_blocked (tq_event c t)) \<longleftrightarrow> (\<exists>d e. tq_calls t i = Some (d, e, Suspended) \<and> alike c d)"
      using r(2) by (simp add: t(1))
    show "must_wait c t \<or> te_flag (tq_event c t) \<or>
        te_queue (tq_event c t) = [] \<and> (\<forall>me d e w. tq_calls t me = Some (d, e, Released w) \<longrightarrow> \<not> alike c d)"
      using r(3) ev(3) t(2) by (cases c) (auto simp: t(1) ev'_def tq_full_def)
  qed
  then show ?thesis using da t(2) ev(3) by (auto simp: tq_data_def t(1) ev'_def)
qed

text \<open>What a step does: the invariant is kept, and the items change as its label says.\<close>

definition tq_ok :: "'a::linorder tqueue \<Rightarrow> bool" where
  "tq_ok s \<longleftrightarrow> tq_threads s \<and> tq_data s"

abbreviation tq_done :: "'a::linorder tqueue \<Rightarrow> 'a qevent \<Rightarrow> 'a tqueue \<Rightarrow> bool" where
  "tq_done s e t \<equiv> tq_ok t \<and> tq_kind t = tq_kind s \<and> item_step (tq_kind s) (tq_items s) e (tq_items t)"

lemma tq_leave_simps [simp]:
  "tq_items (tq_leave me s) = tq_items s" "tq_kind (tq_leave me s) = tq_kind s" "tq_data (tq_leave me s) = tq_data s"
  by (simp_all add: tq_leave_def tq_data_def)

lemma with_event_data [simp]:
  "te_flag ev = te_flag (tq_event c s) \<Longrightarrow> tq_data ((tq_with_event c ev s)\<lparr>tq_calls := cs\<rparr>) = tq_data s"
  "tq_items (tq_with_event c ev s) = tq_items s" "tq_kind (tq_with_event c ev s) = tq_kind s"
  by (cases c; simp add: tq_data_def)+

lemma tq_fail_done:
  assumes "tq_ok s" "\<And>d e. tq_calls s me \<noteq> Some (d, e, Suspended)"
  shows "tq_done s Silent (tq_leave me s)"
  using assms tq_threads_leave [of s me] by (simp add: tq_ok_def)

lemma tq_put_loop_done:
  assumes ok: "tq_ok s" and me: "\<And>d e. tq_calls s me \<noteq> Some (d, e, Suspended)"
    and l: "tq_put_loop me x end_time now s = (out, t)"
  shows "tq_done s (put_event x out) t"
proof (cases "tq_full s")
  case False
  then obtain u where u: "tq_store x s = Inr u" "tq_threads u" "tq_data u" "tq_calls u = tq_calls s" "tq_kind u = tq_kind s"
    "tq_items u = kind_put (tq_kind s) (<) (tq_items s) x"
    using tq_store_ok [of s x] ok by (auto simp: tq_ok_def)
  have "out = Ret None" "t = tq_leave me u" using l u(1) False by (auto simp: tq_put_loop_def tq_full_def split: if_splits)
  then show ?thesis using u tq_threads_leave [of u me] me by (simp add: tq_ok_def)
next
  case True
  then have T: "\<not> (tq_maxsize s \<le> 0 \<or> int (length (tq_items s)) < tq_maxsize s)" by (simp add: tq_full_def split: if_splits)
  show ?thesis
  proof (cases "tq_wait_time QueueFull end_time now")
    case (Inl e)
    then have "out = Raise e" "t = tq_leave me s" using l T by (auto simp: tq_put_loop_def)
    then show ?thesis using tq_fail_done [OF ok me] by simp
  next
    case (Inr wt)
    then have o: "out = Wait me" and t: "t = (tq_with_event (Call_put x) (tevent_clear (tq_not_full s)) s)
        \<lparr>tq_calls := (tq_calls s)(me \<mapsto> (Call_put x, end_time, Released wt))\<rparr>"
      using l T by (auto simp: tq_put_loop_def)
    have "tq_threads t" unfolding t
      by (rule tq_threads_park) (use ok me True tq_threads_rules(1) [of s "Call_put x"] in \<open>simp_all add: tq_ok_def\<close>)
    then show ?thesis using ok by (simp add: o tq_ok_def t tq_data_def)
  qed
qed

lemma tq_get_loop_done:
  assumes ok: "tq_ok s" and me: "\<And>d e. tq_calls s me \<noteq> Some (d, e, Suspended)"
    and l: "tq_get_loop me end_time now s = (out, t)"
  shows "tq_done s (got_event out) t"
proof (cases "tq_items s = []")
  case False
  then obtain x u where u: "tq_take s = Inr (x, u)" "tq_threads u" "tq_data u" "tq_calls u = tq_calls s" "tq_kind u = tq_kind s"
    "kind_get (tq_kind s) (<) (tq_items s) = Inr (x, tq_items u)"
    using tq_take_ok [of s] ok by (auto simp: tq_ok_def)
  have "out = Ret (Some x)" "t = tq_leave me u" using l u(1) False by (auto simp: tq_get_loop_def)
  then show ?thesis using u tq_threads_leave [of u me] me by (simp add: tq_ok_def)
next
  case True
  show ?thesis
  proof (cases "tq_wait_time QueueEmpty end_time now")
    case (Inl e)
    then have "out = Raise e" "t = tq_leave me s" using l True by (auto simp: tq_get_loop_def)
    then show ?thesis using tq_fail_done [OF ok me] by simp
  next
    case (Inr wt)
    then have o: "out = Wait me" and t: "t = (tq_with_event Call_get (tevent_clear (tq_not_empty s)) s)
        \<lparr>tq_calls := (tq_calls s)(me \<mapsto> (Call_get, end_time, Released wt))\<rparr>"
      using l True by (auto simp: tq_get_loop_def)
    have "tq_threads t" unfolding t
      by (rule tq_threads_park) (use ok me True tq_threads_rules(1) [of s Call_get] in \<open>simp_all add: tq_ok_def\<close>)
    then show ?thesis using ok by (simp add: o tq_ok_def t tq_data_def)
  qed
qed

lemma tq_join_loop_done:
  assumes ok: "tq_ok s" and me: "\<And>d e. tq_calls s me \<noteq> Some (d, e, Suspended)"
    and l: "tq_join_loop me s = (out, t)"
  shows "tq_done s Silent t"
proof (cases "tq_unfinished s = 0")
  case True
  then show ?thesis using l tq_fail_done [OF ok me] by (simp add: tq_join_loop_def)
next
  case False
  then have t: "t = (tq_with_event Call_join (tq_finished s) s)\<lparr>tq_calls := (tq_calls s)(me \<mapsto> (Call_join, None, Released None))\<rparr>"
    using l by (auto simp: tq_join_loop_def)
  have "tq_threads t" unfolding t
    by (rule tq_threads_park) (use ok me False tq_threads_rules(1) [of s Call_join] in \<open>simp_all add: tq_ok_def\<close>)
  then show ?thesis using ok by (simp add: tq_ok_def t tq_data_def)
qed

lemma tq_waiting_done:
  assumes ok: "tq_ok s" and me: "tq_calls s me = Some (c, e0, ph0)"
    and ev: "tevent_ok ev" "te_flag ev = te_flag (tq_event c s)"
    and dom: "dom (te_blocked ev) = (if after_wait out = Suspended then insert me (dom (te_blocked (tq_event c s))) else dom (te_blocked (tq_event c s)) - {me})"
    and q: "te_queue ev \<noteq> [] \<Longrightarrow> must_wait c s"
  shows "tq_done s Silent (tq_waiting me c e (out, ev) s)"
proof -
  have ph: "after_wait out \<noteq> Released w" for w by (cases out) simp_all
  have "tq_threads ((tq_with_event c ev s)\<lparr>tq_calls := (tq_calls s)(me \<mapsto> (c, e, after_wait out))\<rparr>)"
    by (rule tq_threads_move [OF _ me ev dom ph q]) (use ok in \<open>simp_all add: tq_ok_def\<close>)
  then show ?thesis using ok ev(2) by (simp add: tq_ok_def tq_waiting_def)
qed

lemma tq_step_done: "tq_step s e t \<Longrightarrow> tq_ok s \<Longrightarrow> tq_done s e t"
proof (induction rule: tq_step.induct)
  case (tq_s_put s me item block timeout now out t)
  have me: "tq_calls s me \<noteq> Some (d, e, Suspended)" for d e using tq_s_put(1) by simp
  show ?case
  proof (cases block)
    case True
    then have "out = Raise ValueError \<and> t = s \<or> (\<exists>end_time. tq_put_loop me item end_time now s = (out, t))"
      using tq_s_put(2) by (cases timeout) (auto simp: tq_put_def split: if_splits)
    then consider "out = Raise ValueError" "t = s" | end_time where "tq_put_loop me item end_time now s = (out, t)" by blast
    then show ?thesis using tq_put_loop_done [OF tq_s_put(3) me] tq_s_put(3) by cases auto
  next
    case nb: False
    show ?thesis
    proof (cases "tq_full s")
      case True
      then show ?thesis using tq_s_put(2,3) nb by (auto simp: tq_put_def tq_put_nowait_def tq_full_def split: if_splits)
    next
      case False
      then obtain u where u: "tq_store item s = Inr u" "tq_threads u" "tq_data u" "tq_kind u = tq_kind s"
        "tq_items u = kind_put (tq_kind s) (<) (tq_items s) item"
        using tq_store_ok [of s item] tq_s_put(3) by (auto simp: tq_ok_def)
      have "out = Ret None" "t = u"
        using tq_s_put(2) nb False u(1) by (auto simp: tq_put_def tq_put_nowait_def tq_full_def split: if_splits)
      then show ?thesis using u by (simp add: tq_ok_def)
    qed
  qed
next
  case (tq_s_get s me block timeout now out t)
  have me: "tq_calls s me \<noteq> Some (d, e, Suspended)" for d e using tq_s_get(1) by simp
  show ?case
  proof (cases block)
    case True
    then have "out = Raise ValueError \<and> t = s \<or> (\<exists>end_time. tq_get_loop me end_time now s = (out, t))"
      using tq_s_get(2) by (cases timeout) (auto simp: tq_get_def split: if_splits)
    then consider "out = Raise ValueError" "t = s" | end_time where "tq_get_loop me end_time now s = (out, t)" by blast
    then show ?thesis using tq_get_loop_done [OF tq_s_get(3) me] tq_s_get(3) by cases auto
  next
    case nb: False
    show ?thesis
    proof (cases "tq_items s = []")
      case True
      then show ?thesis using tq_s_get(2,3) nb by (auto simp: tq_get_def tq_get_nowait_def split: if_splits)
    next
      case False
      then obtain x u where u: "tq_take s = Inr (x, u)" "tq_threads u" "tq_data u" "tq_kind u = tq_kind s"
        "kind_get (tq_kind s) (<) (tq_items s) = Inr (x, tq_items u)"
        using tq_take_ok [of s] tq_s_get(3) False unfolding tq_ok_def by metis
      have "out = Ret (Some x)" "t = u"
        using tq_s_get(2) nb False u(1) by (auto simp: tq_get_def tq_get_nowait_def split: if_splits)
      then show ?thesis using u by (simp add: tq_ok_def)
    qed
  qed
next
  case (tq_s_join s me out t)
  then show ?case using tq_join_loop_done [of s me out t] by (simp add: tq_join_def)
next
  case (tq_s_task_done s t)
  then show ?case using tq_task_done_ok [of s t] by (simp add: tq_ok_def)
next
  case (tq_s_wait s me call end_time wait_time)
  obtain out ev where w: "tevent_wait me wait_time (tq_event call s) = (out, ev)"
    by (cases "tevent_wait me wait_time (tq_event call s)")
  have th: "tq_threads s" using tq_s_wait(2) by (simp add: tq_ok_def)
  have nb: "te_blocked (tq_event call s) me = None"
    using tq_threads_rules(2) [OF th, of me call] tq_s_wait(1) by auto
  note e = tevent_wait_ok [OF tq_threads_rules(1) [OF th] nb w]
  show ?case unfolding w
  proof (rule tq_waiting_done [OF tq_s_wait(2,1) e(1,2)])
    show "dom (te_blocked ev) = (if after_wait out = Suspended then insert me (dom (te_blocked (tq_event call s)))
        else dom (te_blocked (tq_event call s)) - {me})"
      using e(3) nb by (auto split: if_splits)
    assume "te_queue ev \<noteq> []"
    then have "\<not> te_flag (tq_event call s)" using tq_threads_rules(1) [OF th, of call] e(3) by (auto simp: tevent_ok_def split: if_splits)
    then show "must_wait call s" using tq_threads_rules(3) [OF th, of call] tq_s_wait(1) alike_simps(1) [of call] by blast
  qed
next
  case (tq_s_notified s me call end_time)
  obtain out ev where w: "tevent_waited tcond_got_it me (tq_event call s) = (out, ev)"
    by (cases "tevent_waited tcond_got_it me (tq_event call s)")
  have th: "tq_threads s" using tq_s_notified(3) by (simp add: tq_ok_def)
  note e = tevent_got_it_ok [OF tq_threads_rules(1) [OF th] tq_s_notified(2) w]
  show ?case unfolding w
  proof (rule tq_waiting_done [OF tq_s_notified(3,1) e(2,3)])
    assume "te_queue ev \<noteq> []"
    then have "te_queue (tq_event call s) \<noteq> []" using e(4) by simp
    then show "must_wait call s" using tq_threads_rules(1,3) [OF th, of call] by (auto simp: tevent_ok_def)
  qed (use e(1,5) in simp)
next
  case (tq_s_expire s me call end_time)
  have th: "tq_threads s" using tq_s_expire(3) by (simp add: tq_ok_def)
  define ev where "ev = (tq_event call s)\<lparr>te_cond := tcond_expire me (te_cond (tq_event call s))\<rparr>"
  have ev: "tevent_ok ev" "te_flag ev = te_flag (tq_event call s)" "te_blocked ev = te_blocked (tq_event call s)" "te_queue ev = te_queue (tq_event call s)"
    using tevent_expire_ok [OF tq_threads_rules(1) [OF th]] by (simp_all add: ev_def)
  have "tq_threads ((tq_with_event call ev s)\<lparr>tq_calls := (tq_calls s)(me \<mapsto> (call, end_time, Suspended))\<rparr>)"
  proof (rule tq_threads_move [OF th tq_s_expire(1) ev(1,2)])
    show "dom (te_blocked ev) = (if Suspended = Suspended then insert me (dom (te_blocked (tq_event call s))) else dom (te_blocked (tq_event call s)) - {me})"
      using ev(3) tq_threads_rules(2) [OF th, of me call] tq_s_expire(1) by auto
    assume "te_queue ev \<noteq> []"
    then show "must_wait call s" using ev(4) tq_threads_rules(1,3) [OF th, of call] by (auto simp: tevent_ok_def)
  qed simp
  moreover have "(tq_calls s)(me \<mapsto> (call, end_time, Suspended)) = tq_calls s" using tq_s_expire(1) by auto
  moreover have "(tq_with_event call ev s)\<lparr>tq_calls := tq_calls s\<rparr> = tq_with_event call ev s" by (cases call) simp_all
  moreover have "tq_data (tq_with_event call ev s)" using ev(2) tq_s_expire(3) by (cases call) (simp_all add: tq_ok_def tq_data_def)
  ultimately show ?case unfolding ev_def [symmetric] by (simp add: tq_ok_def)
next
  case (tq_s_give_up s me call end_time)
  obtain out ev where w: "tevent_waited tcond_timed_out me (tq_event call s) = (out, ev)"
    by (cases "tevent_waited tcond_timed_out me (tq_event call s)")
  have th: "tq_threads s" using tq_s_give_up(3) by (simp add: tq_ok_def)
  note e = tevent_timed_out_ok [OF tq_threads_rules(1) [OF th] tq_s_give_up(2) w]
  show ?case unfolding w
  proof (rule tq_waiting_done [OF tq_s_give_up(3,1) e(2,3)])
    assume "te_queue ev \<noteq> []"
    then have "te_queue (tq_event call s) \<noteq> []" using e(4) by auto
    then show "must_wait call s" using tq_threads_rules(1,3) [OF th, of call] by (auto simp: tevent_ok_def)
  qed (use e(1,5) in simp)
next
  case (tq_s_go_on s me call end_time phase now out t)
  have me: "tq_calls s me \<noteq> Some (d, e, Suspended)" for d e using tq_s_go_on(1,2) by auto
  note ok = tq_s_go_on(4)
  show ?case
  proof (cases call)
    case (Call_put x)
    show ?thesis
    proof (cases "phase = Signalled")
      case True
      then have "tq_put_loop me x end_time now s = (out, t)" using tq_s_go_on(3) Call_put by simp
      then show ?thesis unfolding Call_put call_event.simps by (rule tq_put_loop_done [OF ok me])
    next
      case False
      then have "out = Raise QueueFull" "t = tq_leave me s" using tq_s_go_on(3) Call_put by simp_all
      then show ?thesis using tq_fail_done [OF ok me] Call_put by simp
    qed
  next
    case Call_get
    show ?thesis
    proof (cases "phase = Signalled")
      case True
      then have "tq_get_loop me end_time now s = (out, t)" using tq_s_go_on(3) Call_get by simp
      then show ?thesis unfolding Call_get call_event.simps by (rule tq_get_loop_done [OF ok me])
    next
      case False
      then have "out = Raise QueueEmpty" "t = tq_leave me s" using tq_s_go_on(3) Call_get by simp_all
      then show ?thesis using tq_fail_done [OF ok me] Call_get by simp
    qed
  next
    case Call_join
    then have "tq_join_loop me s = (out, t)" using tq_s_go_on(3) by simp
    then show ?thesis unfolding Call_join call_event.simps by (rule tq_join_loop_done [OF ok me])
  qed
qed

lemma tq_new_total: "\<exists>s. tq_new kind maxsize = Inr s"
  by (rule tevent_set_ok [OF tevent_new_ok(1)]) (simp add: tq_new_def)

lemma tq_init_ok:
  assumes "tq_init s"
  shows "tq_ok s" "tq_items s = []" "tq_calls s = Map.empty"
proof -
  obtain kind maxsize where n: "tq_new kind maxsize = Inr s" using assms by blast
  obtain ev where ev: "tevent_set tevent_new = Inr ev" "tevent_ok ev" "te_flag ev" "te_queue ev = []" "te_blocked ev = Map.empty"
    using tevent_set_ok [OF tevent_new_ok(1)] tevent_new_ok(2) by metis
  have s: "s = \<lparr>tq_kind = kind, tq_maxsize = maxsize, tq_items = [], tq_unfinished = 0, tq_not_empty = tevent_new,
            tq_not_full = tevent_new, tq_finished = ev, tq_calls = Map.empty\<rparr>"
    using n ev(1) by (simp add: tq_new_def)
  then show "tq_items s = []" "tq_calls s = Map.empty" by simp_all
  have "tevent_ok (tq_event c s)" "te_blocked (tq_event c s) = Map.empty" "te_queue (tq_event c s) = []" for c
    using ev tevent_new_ok by (cases c; simp add: s)+
  then show "tq_ok s" using ev(3) by (simp add: tq_ok_def tq_threads_def tq_data_def s kinds.ok_empty)
qed

interpretation thread_queue: item_store tq_init tq_step tq_ok tq_kind tq_items
proof unfold_locales
  fix s assume "tq_ok s"
  then show "kind_ok (tq_kind s) (tq_items s)" by (simp add: tq_ok_def tq_data_def)
qed (use tq_init_ok tq_step_done in blast)+

section \<open>\<open>SimpleQueue\<close>\<close>

text \<open>
  No lock protects \<open>put\<close> and \<open>get\<close>: \<open>sq_adding\<close> threads have appended an item and not yet released the
  semaphore, \<open>sq_popping\<close> threads have acquired it and not yet popped an item.
\<close>

record 'a squeue =
  sq_items :: "'a list"
  sq_count :: tsem
  sq_adding :: nat
  sq_popping :: nat

definition sq_new :: "'a squeue result" where
  "sq_new = rbind (tsem_new 0) (\<lambda>counter. Inr \<lparr>sq_items = [], sq_count = counter, sq_adding = 0, sq_popping = 0\<rparr>)"

definition sq_put_append :: "'a \<Rightarrow> 'a squeue \<Rightarrow> 'a squeue" where
  "sq_put_append item s = s\<lparr>sq_items := sq_items s @ [item], sq_adding := sq_adding s + 1\<rparr>"

definition sq_put_release :: "'a squeue \<Rightarrow> 'a squeue result" where
  "sq_put_release s =
     rbind (tsem_release (sq_count s)) (\<lambda>counter. Inr (s\<lparr>sq_count := counter, sq_adding := sq_adding s - 1\<rparr>))"

text \<open>What \<open>acquire\<close> returned decides: pop an item next, or raise \<open>Empty\<close>.\<close>

definition sq_acquired :: "bool outcome \<times> tsem \<Rightarrow> 'a squeue \<Rightarrow> unit outcome \<times> 'a squeue" where
  "sq_acquired r s =
     (case r of
        (Ret b, counter) \<Rightarrow>
          if b then (Ret (), s\<lparr>sq_count := counter, sq_popping := sq_popping s + 1\<rparr>)
          else (Raise QueueEmpty, s\<lparr>sq_count := counter\<rparr>)
      | (Wait w, counter) \<Rightarrow> (Wait w, s\<lparr>sq_count := counter\<rparr>)
      | (Raise e, counter) \<Rightarrow> (Raise e, s\<lparr>sq_count := counter\<rparr>))"

definition sq_get_nowait :: "nat \<Rightarrow> int \<Rightarrow> 'a squeue \<Rightarrow> unit outcome \<times> 'a squeue" where
  "sq_get_nowait me now s = sq_acquired (tsem_acquire me False None now (sq_count s)) s"

definition sq_get :: "nat \<Rightarrow> bool \<Rightarrow> int option \<Rightarrow> int \<Rightarrow> 'a squeue \<Rightarrow> unit outcome \<times> 'a squeue" where
  "sq_get me block timeout now s =
     (if \<not> block then sq_get_nowait me now s
      else case timeout of
        None \<Rightarrow> sq_acquired (tsem_acquire me True None now (sq_count s)) s
      | Some t \<Rightarrow> if t < 0 then (Raise ValueError, s) else sq_acquired (tsem_acquire me True (Some t) now (sq_count s)) s)"

definition sq_get_pop :: "'a squeue \<Rightarrow> ('a \<times> 'a squeue) result" where
  "sq_get_pop s =
     (case sq_items s of
        [] \<Rightarrow> Inl IndexError
      | item # items \<Rightarrow> Inr (item, s\<lparr>sq_items := items, sq_popping := sq_popping s - 1\<rparr>))"

definition sq_qsize :: "'a squeue \<Rightarrow> nat" where
  "sq_qsize s = length (sq_items s)"

definition sq_empty :: "'a squeue \<Rightarrow> bool" where
  "sq_empty s \<longleftrightarrow> length (sq_items s) = 0"

inductive sq_step :: "'a squeue \<Rightarrow> 'a squeue \<Rightarrow> bool" where
  sq_s_append: "sq_step s (sq_put_append item s)"
| sq_s_release: "0 < sq_adding s \<Longrightarrow> sq_put_release s = Inr t \<Longrightarrow> sq_step s t"
| sq_s_get: "ts_wait (sq_count s) me = None \<Longrightarrow> sq_get me block timeout now s = (out, t) \<Longrightarrow> sq_step s t"
| sq_s_notified: "may_resume me (ts_cond (sq_count s)) \<Longrightarrow>
    sq_acquired (tsem_again tcond_got_it me now (sq_count s)) s = (out, t) \<Longrightarrow> sq_step s t"
| sq_s_expire: "may_expire me (ts_cond (sq_count s)) \<Longrightarrow>
    sq_step s (s\<lparr>sq_count := (sq_count s)\<lparr>ts_cond := tcond_expire me (ts_cond (sq_count s))\<rparr>\<rparr>)"
| sq_s_give_up: "may_give_up me (ts_cond (sq_count s)) \<Longrightarrow>
    sq_acquired (tsem_again tcond_timed_out me now (sq_count s)) s = (out, t) \<Longrightarrow> sq_step s t"
| sq_s_pop: "0 < sq_popping s \<Longrightarrow> sq_get_pop s = Inr (item, t) \<Longrightarrow> sq_step s t"

definition sq_ok :: "'a squeue \<Rightarrow> bool" where
  "sq_ok s \<longleftrightarrow> tsem_ok (sq_count s) \<and>
     int (length (sq_items s)) = ts_value (sq_count s) + int (sq_popping s) + int (sq_adding s)"

lemma sq_acquired_ok:
  assumes "sq_ok s" "tsem_step (sq_count s) (took_event (fst r)) (snd r)" "sq_acquired r s = (out, t)"
  shows "sq_ok t"
proof -
  obtain o1 c where r: "r = (o1, c)" by (cases r)
  have c: "tsem_ok c" "ts_value c = ts_value (sq_count s) + sem_delta (took_event o1)"
    using tsem_step_sim [OF assms(2)] assms(1) r by (simp_all add: sq_ok_def)
  show ?thesis
    using assms(1,3) c r by (cases o1) (auto simp: sq_acquired_def sq_ok_def took_event_delta split: if_splits)
qed

lemma sq_step_ok: "sq_step s t \<Longrightarrow> sq_ok s \<Longrightarrow> sq_ok t"
proof (induction rule: sq_step.induct)
  case (sq_s_append s item)
  then show ?case by (simp add: sq_ok_def sq_put_append_def)
next
  case (sq_s_release s t)
  then show ?case using tsem_release_sim [of "sq_count s"] by (auto simp: sq_ok_def sq_put_release_def)
next
  case (sq_s_get s me block timeout now out t)
  have "sq_ok t" if "sq_acquired (tsem_acquire me b tmo now (sq_count s)) s = (out, t)" for b tmo
    by (rule sq_acquired_ok [OF sq_s_get(3) _ that], rule ts_acquire [OF sq_s_get(1)]) simp
  then show ?case using sq_s_get(2,3) by (auto simp: sq_get_def sq_get_nowait_def split: if_splits option.splits)
next
  case (sq_s_notified me s now out t)
  show ?case
    by (rule sq_acquired_ok [OF sq_s_notified(3) _ sq_s_notified(2)], rule ts_notified [OF sq_s_notified(1)]) simp
next
  case (sq_s_expire me s)
  then show ?case using tsem_step_sim [OF ts_expire] by (fastforce simp: sq_ok_def)
next
  case (sq_s_give_up me s now out t)
  show ?case
    by (rule sq_acquired_ok [OF sq_s_give_up(3) _ sq_s_give_up(2)], rule ts_give_up [OF sq_s_give_up(1)]) simp
next
  case (sq_s_pop s item t)
  then show ?case by (auto simp: sq_ok_def sq_get_pop_def split: list.splits)
qed

section \<open>Properties\<close>

text \<open>C2: in every reachable state of a queue, a thread that is suspended in \<open>put\<close>, \<open>get\<close> or \<open>join\<close> has
  been notified or has reason to wait: the queue is full, is empty, or has unfinished tasks; a bounded
  queue never holds more than \<open>maxsize\<close> items; and the \<open>nowait\<close> methods fail only with \<open>Full\<close> and
  \<open>Empty\<close>.\<close>

theorem thread_queue_waits_with_reason:
  assumes "trace tq_init tq_step es s"
  shows "(\<forall>me call end_time. tq_calls s me = Some (call, end_time, Suspended) \<longrightarrow>
      me \<in> tc_free (te_cond (tq_event call s)) \<or>
      (case call of Call_put item \<Rightarrow> tq_full s | Call_get \<Rightarrow> tq_empty s | Call_join \<Rightarrow> tq_unfinished s > 0)) \<and>
    (0 < tq_maxsize s \<longrightarrow> int (tq_qsize s) \<le> tq_maxsize s) \<and>
    (tq_put_nowait item s = Inl e \<longleftrightarrow> tq_full s \<and> e = QueueFull) \<and>
    (tq_get_nowait s = Inl e \<longleftrightarrow> tq_empty s \<and> e = QueueEmpty)"
proof -
  have th: "tq_threads s" and da: "tq_data s" using thread_queue.trace_inv [OF assms] by (simp_all add: tq_ok_def)
  have "me \<in> tc_free (te_cond (tq_event call s)) \<or> must_wait call s"
    if "tq_calls s me = Some (call, end_time, Suspended)" for me call end_time
  proof -
    have ok: "tevent_ok (tq_event call s)" by (rule tq_threads_rules(1) [OF th])
    have "me \<in> dom (te_blocked (tq_event call s))" using tq_threads_rules(2) [OF th, of me call] that by auto
    then have "me \<in> set (te_queue (tq_event call s)) \<or> me \<in> tc_free (te_cond (tq_event call s))"
      using ok by (auto simp: tevent_ok_def tc_ok_def)
    then show ?thesis using ok tq_threads_rules(3) [OF th, of call] by (auto simp: tevent_ok_def)
  qed
  note waits = this
  have "\<forall>me call end_time. tq_calls s me = Some (call, end_time, Suspended) \<longrightarrow>
      me \<in> tc_free (te_cond (tq_event call s)) \<or>
      (case call of Call_put item \<Rightarrow> tq_full s | Call_get \<Rightarrow> tq_empty s | Call_join \<Rightarrow> tq_unfinished s > 0)"
  proof (intro allI impI)
    fix me call end_time
    assume "tq_calls s me = Some (call, end_time, Suspended)"
    from waits [OF this] show "me \<in> tc_free (te_cond (tq_event call s)) \<or>
      (case call of Call_put item \<Rightarrow> tq_full s | Call_get \<Rightarrow> tq_empty s | Call_join \<Rightarrow> tq_unfinished s > 0)"
      using da by (cases call) (auto simp: tq_empty_def tq_data_def)
  qed
  moreover have "tq_put_nowait item s = Inl e \<longleftrightarrow> tq_full s \<and> e = QueueFull"
  proof (cases "tq_full s")
    case False
    then obtain t where "tq_store item s = Inr t" using tq_store_ok [OF th da] by blast
    then show ?thesis using False by (auto simp: tq_put_nowait_def tq_full_def split: if_splits)
  qed (auto simp: tq_put_nowait_def tq_full_def split: if_splits)
  moreover have "tq_get_nowait s = Inl e \<longleftrightarrow> tq_empty s \<and> e = QueueEmpty"
  proof (cases "tq_empty s")
    case False
    then obtain x t where "tq_take s = Inr (x, t)" using tq_take_ok [OF th da] unfolding tq_empty_def by blast
    then show ?thesis using False by (auto simp: tq_get_nowait_def tq_empty_def)
  qed (auto simp: tq_get_nowait_def tq_empty_def)
  moreover have "0 < tq_maxsize s \<longrightarrow> int (tq_qsize s) \<le> tq_maxsize s" using da by (simp add: tq_data_def tq_qsize_def)
  ultimately show ?thesis by (intro conjI)
qed

theorem thread_queue_waits_with_reason_witness:
  "\<exists>s :: int tqueue. trace tq_init tq_step [Silent, Silent] s \<and> tq_calls s 4 = Some (Call_get, None, Suspended) \<and>
     (4 \<in> tc_free (te_cond (tq_not_empty s)) \<or> tq_empty s)"
proof -
  obtain s0 :: "int tqueue" where s0: "tq_new Fifo 1 = Inr s0"
    using tq_new_total by blast
  have i: "tq_calls s0 = Map.empty" "tq_items s0 = []" "tq_ok s0" using tq_init_ok s0 by blast+
  have ne: "tq_not_empty s0 = tevent_new" using s0 by (auto simp: tq_new_def)
  define s1 where "s1 = snd (tq_get 4 True None 0 s0)"
  have g: "tq_get 4 True None 0 s0 = (Wait 4, s1)" "tq_calls s1 4 = Some (Call_get, None, Released None)"
    "tq_not_empty s1 = tevent_clear tevent_new"
    using i ne by (simp_all add: s1_def tq_get_def tq_get_loop_def tq_wait_time_def)
  define s2 where "s2 = tq_waiting 4 Call_get None (tevent_wait 4 None (tq_event Call_get s1)) s1"
  have "tq_calls s0 4 = None" using i(1) by simp
  from tq_s_get [OF this g(1)] have "tq_step s0 Silent s1" by (simp only: got_event.simps)
  moreover have "tq_step s1 Silent s2" unfolding s2_def by (rule tq_s_wait [OF g(2)])
  ultimately have r: "trace tq_init tq_step (([] @ [Silent]) @ [Silent]) s2" using s0 by (blast intro: trace.intros)
  have "tq_calls s2 4 = Some (Call_get, None, Suspended)"
    by (simp add: s2_def tq_waiting_def g(3) tevent_wait_def tevent_clear_def tcond_wait_def tcond_is_owned_def tevent_new_def)
  moreover have "4 \<in> tc_free (te_cond (tq_event Call_get s2)) \<or> tq_empty s2"
    using mp [OF spec [OF spec [OF spec [OF conjunct1 [OF thread_queue_waits_with_reason [OF r]]]]] calculation] by simp
  ultimately have "tq_calls s2 4 = Some (Call_get, None, Suspended) \<and> (4 \<in> tc_free (te_cond (tq_not_empty s2)) \<or> tq_empty s2)"
    by (simp only: tq_event.simps simp_thms)
  then show ?thesis using r by (intro exI [of _ s2]) simp
qed

text \<open>C26: in every run of a queue, whatever the threads do and however their waits end, the items put are
  the items got and those still in the queue, an ordinary queue keeps their order, and every item handed
  out is the one its class promises.\<close>

theorem thread_queue_conserves_items:
  assumes "trace tq_init tq_step es s"
  shows "mset (puts es) = mset (gots es) + mset (tq_items s) \<and>
    (tq_kind s = Fifo \<longrightarrow> puts es = gots es @ tq_items s) \<and>
    (\<forall>x t. tq_step s (Got x) t \<longrightarrow> kind_next (tq_kind s) (tq_items s) x)"
  using thread_queue.trace_items [OF assms] thread_queue.hands_out [OF assms] by blast

theorem thread_queue_conserves_items_witness:
  "\<exists>s :: int tqueue. trace tq_init tq_step [Put 6] s \<and> [6] = tq_items s"
proof -
  obtain s0 :: "int tqueue" where s0: "tq_new Fifo 0 = Inr s0"
    using tq_new_total by blast
  have i: "tq_calls s0 = Map.empty" "tq_threads s0" "tq_data s0" using tq_init_ok s0 unfolding tq_ok_def by blast+
  have f: "tq_kind s0 = Fifo" "tq_maxsize s0 = 0" using s0 by (auto simp: tq_new_def)
  then obtain t where t: "tq_store 6 s0 = Inr t" "tq_kind t = Fifo" using tq_store_ok [OF i(2,3), of 6] by (auto simp: tq_full_def)
  have p: "tq_put 3 6 False None 0 s0 = (Ret None, t)" using t f by (simp add: tq_put_def tq_put_nowait_def)
  have "tq_step s0 (Put 6) t" using tq_s_put [OF _ p] i(1) by simp
  then have r: "trace tq_init tq_step ([] @ [Put 6]) t" using s0 by (blast intro: trace.intros)
  have "tq_kind t = Fifo \<longrightarrow> puts ([] @ [Put 6]) = gots ([] @ [Put 6]) @ tq_items t"
    using thread_queue_conserves_items [OF r] by blast
  then have "[6] = tq_items t" using t(2) by simp
  then show ?thesis using r by auto
qed

text \<open>In every reachable state of a \<open>SimpleQueue\<close> the items are as many as the semaphore counts, those
  that \<open>put\<close> has not counted yet and those that \<open>get\<close> has claimed; so the \<open>popleft\<close> of a thread that has
  acquired the semaphore never finds the deque empty.\<close>

theorem simple_queue_pop_succeeds:
  assumes "reachable (\<lambda>s. sq_new = Inr s) sq_step s"
  shows "int (sq_qsize s) = ts_value (sq_count s) + int (sq_popping s) + int (sq_adding s) \<and> 0 \<le> ts_value (sq_count s) \<and>
    (0 < sq_popping s \<longrightarrow> (\<exists>t. sq_get_pop s = Inr (hd (sq_items s), t)))"
proof -
  have "sq_ok s"
  proof (rule reachable_invariant [OF assms])
    fix s :: "'a squeue" assume "sq_new = Inr s"
    then show "sq_ok s"
      by (auto simp: sq_new_def sq_ok_def tsem_new_def tsem_ok_def tc_new) (simp_all add: tcond_new_def)
  qed (rule sq_step_ok)
  then show ?thesis by (cases "sq_items s") (auto simp: sq_ok_def sq_qsize_def tsem_ok_def sq_get_pop_def)
qed

theorem simple_queue_pop_succeeds_witness:
  "\<exists>s :: int squeue. reachable (\<lambda>s. sq_new = Inr s) sq_step s \<and> int (sq_qsize s) = 1 \<and>
     ts_value (sq_count s) + int (sq_popping s) + int (sq_adding s) = 1"
proof -
  obtain s0 :: "int squeue" where s0: "sq_new = Inr s0" by (simp add: sq_new_def tsem_new_def)
  have r: "reachable (\<lambda>s. sq_new = Inr s) sq_step (sq_put_append 5 s0)"
    by (rule reachable_one [of _ s0]) (rule s0, rule sq_s_append)
  have "sq_qsize (sq_put_append 5 s0) = 1" using s0 by (auto simp: sq_new_def tsem_new_def sq_put_append_def sq_qsize_def)
  then show ?thesis using simple_queue_pop_succeeds [OF r] r by auto
qed

end
