(* ===== verification/Thread_Barrier.thy ===== *)
theory Thread_Barrier
  imports Thread_Locks
begin

text \<open>
  \<open>Barrier\<close> of \<open>python-stdlib/threading/threading.py\<close>. As in \<open>Thread_Locks\<close>, a method holds the lock
  except inside \<open>Condition.wait\<close>, and is cut there. \<open>action\<close>, the outcome of the callback of the
  caller, is a parameter of the step that runs it: the exception it raises, or None.
\<close>

section \<open>The state and the operations\<close>

text \<open>Where a thread waits: in \<open>_enter\<close> (with its timeout), or in \<open>_wait\<close> with the local variables
  \<open>index\<close>, \<open>waittime\<close> and \<open>endtime\<close>.\<close>

datatype bcall = In_enter "int option" | In_wait int "int option" "int option"

record tbarrier =
  tb_cond :: tcond
  tb_state :: int
  tb_count :: int
  tb_parties :: int
  tb_timeout :: "int option"
  tb_calls :: "nat \<rightharpoonup> bcall"

definition tb_new :: "int \<Rightarrow> int option \<Rightarrow> tbarrier" where
  "tb_new parties timeout =
     \<lparr>tb_cond = tcond_new, tb_state = 0, tb_count = 0, tb_parties = parties, tb_timeout = timeout, tb_calls = Map.empty\<rparr>"

definition tb_notify_all :: "tbarrier \<Rightarrow> tbarrier result" where
  "tb_notify_all s = rbind (tcond_notify_all (tb_cond s)) (\<lambda>c. Inr (s\<lparr>tb_cond := c\<rparr>))"

definition tb_break :: "tbarrier \<Rightarrow> tbarrier result" where
  "tb_break s = tb_notify_all (s\<lparr>tb_state := -2\<rparr>)"

definition tb_exit :: "tbarrier \<Rightarrow> tbarrier result" where
  "tb_exit s =
     (if tb_count s = 0 then
        if tb_state s \<in> {-1, 1} then tb_notify_all (s\<lparr>tb_state := 0\<rparr>) else Inr s
      else Inr s)"

text \<open>The result of \<open>_release\<close>: the exception that is raised on, if any, and the state.\<close>

definition tb_release :: "exn option \<Rightarrow> tbarrier \<Rightarrow> (exn option \<times> tbarrier) result" where
  "tb_release action s =
     (case action of
        None \<Rightarrow> rbind (tb_notify_all (s\<lparr>tb_state := 1\<rparr>)) (\<lambda>s. Inr (None, s))
      | Some e \<Rightarrow> rbind (tb_break s) (\<lambda>s. Inr (Some e, s)))"

text \<open>The lock is released when the method is left.\<close>

definition tb_unlock :: "tbarrier \<Rightarrow> tbarrier" where
  "tb_unlock s = s\<lparr>tb_cond := tcond_exit (tb_cond s)\<rparr>"

text \<open>The \<open>finally\<close> block of \<open>wait\<close>.\<close>

definition tb_finish :: "int outcome \<Rightarrow> tbarrier \<Rightarrow> int outcome \<times> tbarrier" where
  "tb_finish out s =
     (let s = s\<lparr>tb_count := tb_count s - 1\<rparr> in
      case tb_exit s of Inl e \<Rightarrow> (Raise e, tb_unlock s) | Inr s \<Rightarrow> (out, tb_unlock s))"

definition tb_park :: "nat \<Rightarrow> int option \<Rightarrow> bcall \<Rightarrow> tbarrier \<Rightarrow> int outcome \<times> tbarrier" where
  "tb_park me timeout call s =
     (case tcond_wait me timeout (tb_cond s) of
        (Wait w, c) \<Rightarrow> (Wait w, s\<lparr>tb_cond := c, tb_calls := (tb_calls s)(w \<mapsto> call)\<rparr>)
      | (Raise e, c) \<Rightarrow> (Raise e, tb_unlock (s\<lparr>tb_cond := c\<rparr>))
      | (Ret b, c) \<Rightarrow> (Raise RuntimeError, tb_unlock (s\<lparr>tb_cond := c\<rparr>)))"

text \<open>\<open>_wait\<close>: the loop of \<open>wait_for\<close> with the predicate \<open>state != 0\<close>, and what follows it.\<close>

definition tb_wait_loop :: "nat \<Rightarrow> int \<Rightarrow> int option \<Rightarrow> int option \<Rightarrow> int \<Rightarrow> tbarrier \<Rightarrow> int outcome \<times> tbarrier" where
  "tb_wait_loop me index waittime endtime now s =
     (if tb_state s \<noteq> 0 then
        if tb_state s < 0 then tb_finish (Raise BrokenBarrierError) s
        else if tb_state s = 1 then tb_finish (Ret index) s
        else tb_finish (Raise AssertionError) s
      else case waittime of
        None \<Rightarrow> tb_park me None (In_wait index None endtime) s
      | Some w \<Rightarrow> (case endtime of
          None \<Rightarrow> tb_park me (Some w) (In_wait index (Some w) (Some (now + w))) s
        | Some e \<Rightarrow>
            let w = e - now in
            if w \<le> 0 then
              (case tb_break s of Inl ex \<Rightarrow> tb_finish (Raise ex) s | Inr s \<Rightarrow> tb_finish (Raise BrokenBarrierError) s)
            else tb_park me (Some w) (In_wait index (Some w) (Some e)) s))"

text \<open>\<open>wait\<close> with the lock held, from the head of the loop of \<open>_enter\<close>.\<close>

definition tb_enter_loop :: "nat \<Rightarrow> int option \<Rightarrow> int \<Rightarrow> exn option \<Rightarrow> tbarrier \<Rightarrow> int outcome \<times> tbarrier" where
  "tb_enter_loop me timeout now action s =
     (if tb_state s \<in> {-1, 1} then tb_park me None (In_enter timeout) s
      else if tb_state s < 0 then (Raise BrokenBarrierError, tb_unlock s)
      else if tb_state s \<noteq> 0 then (Raise AssertionError, tb_unlock s)
      else
        let index = tb_count s; s = s\<lparr>tb_count := tb_count s + 1\<rparr> in
        if index + 1 = tb_parties s then
          (case tb_release action s of
             Inl e \<Rightarrow> tb_finish (Raise e) s
           | Inr (Some e, s) \<Rightarrow> tb_finish (Raise e) s
           | Inr (None, s) \<Rightarrow> tb_finish (Ret index) s)
        else tb_wait_loop me index timeout None now s)"

definition tb_wait :: "nat \<Rightarrow> int option \<Rightarrow> int \<Rightarrow> exn option \<Rightarrow> tbarrier \<Rightarrow> int outcome \<times> tbarrier" where
  "tb_wait me timeout now action s =
     tb_enter_loop me (if timeout = None then tb_timeout s else timeout) now action (s\<lparr>tb_cond := tcond_enter (tb_cond s)\<rparr>)"

text \<open>\<open>Condition.wait\<close> has returned.\<close>

definition tb_again :: "(nat \<Rightarrow> tcond \<Rightarrow> bool outcome \<times> tcond) \<Rightarrow> nat \<Rightarrow> int \<Rightarrow> exn option \<Rightarrow> bcall \<Rightarrow> tbarrier \<Rightarrow> int outcome \<times> tbarrier" where
  "tb_again waited me now action call s =
     (let s = s\<lparr>tb_cond := snd (waited me (tb_cond s)), tb_calls := (tb_calls s)(me := None)\<rparr> in
      case call of
        In_enter timeout \<Rightarrow> tb_enter_loop me timeout now action s
      | In_wait index waittime endtime \<Rightarrow> tb_wait_loop me index waittime endtime now s)"

definition tb_reset :: "tbarrier \<Rightarrow> tbarrier result" where
  "tb_reset s =
     (let s = s\<lparr>tb_cond := tcond_enter (tb_cond s)\<rparr>;
          s = (if tb_count s > 0 then
                 if tb_state s = 0 then s\<lparr>tb_state := -1\<rparr>
                 else if tb_state s = -2 then s\<lparr>tb_state := -1\<rparr> else s
               else s\<lparr>tb_state := 0\<rparr>)
      in rbind (tb_notify_all s) (\<lambda>s. Inr (tb_unlock s)))"

definition tb_abort :: "tbarrier \<Rightarrow> tbarrier result" where
  "tb_abort s = rbind (tb_break (s\<lparr>tb_cond := tcond_enter (tb_cond s)\<rparr>)) (\<lambda>s. Inr (tb_unlock s))"

definition tb_n_waiting :: "tbarrier \<Rightarrow> int" where
  "tb_n_waiting s = (if tb_state s = 0 then tb_count s else 0)"

definition tb_broken :: "tbarrier \<Rightarrow> bool" where
  "tb_broken s \<longleftrightarrow> tb_state s = -2"

inductive tb_step :: "tbarrier \<Rightarrow> tbarrier \<Rightarrow> bool" where
  tb_s_wait: "tb_calls s me = None \<Longrightarrow> tb_wait me timeout now action s = (out, t) \<Longrightarrow> tb_step s t"
| tb_s_notified: "tb_calls s me = Some call \<Longrightarrow> may_resume me (tb_cond s) \<Longrightarrow>
    tb_again tcond_got_it me now action call s = (out, t) \<Longrightarrow> tb_step s t"
| tb_s_expire: "may_expire me (tb_cond s) \<Longrightarrow> tb_step s (s\<lparr>tb_cond := tcond_expire me (tb_cond s)\<rparr>)"
| tb_s_give_up: "tb_calls s me = Some call \<Longrightarrow> may_give_up me (tb_cond s) \<Longrightarrow>
    tb_again tcond_timed_out me now action call s = (out, t) \<Longrightarrow> tb_step s t"
| tb_s_reset: "tb_reset s = Inr t \<Longrightarrow> tb_step s t"
| tb_s_abort: "tb_abort s = Inr t \<Longrightarrow> tb_step s t"

section \<open>The invariant\<close>

definition inside :: "tbarrier \<Rightarrow> nat set" where
  "inside s = {me. \<exists>i w e. tb_calls s me = Some (In_wait i w e)}"

definition entering :: "tbarrier \<Rightarrow> nat set" where
  "entering s = {me. \<exists>t. tb_calls s me = Some (In_enter t)}"

fun index_of :: "bcall \<Rightarrow> int" where
  "index_of (In_wait i w e) = i"
| "index_of (In_enter t) = -1"

definition index_in :: "tbarrier \<Rightarrow> nat \<Rightarrow> int" where
  "index_in s me = index_of (the (tb_calls s me))"

text \<open>
  \<open>k\<close> threads that hold the lock are counted in \<open>_count\<close> too (one, while it runs \<open>wait\<close>). In the
  filling state exactly the threads in \<open>_wait\<close> stand in the deque; in the others they have all been
  notified, and if the barrier drains or resets there is one of them that will end that.
\<close>

definition tb_inv :: "int \<Rightarrow> tbarrier \<Rightarrow> bool" where
  "tb_inv k s \<longleftrightarrow> tc_ok (tb_cond s) \<and> dom (tb_calls s) = dom (tc_blocked (tb_cond s)) \<and>
     tb_state s \<in> {0, 1, -1, -2} \<and> tb_count s = int (card (inside s)) + k \<and> inj_on (index_in s) (inside s) \<and>
     (\<forall>me\<in>inside s. 0 \<le> index_in s me \<and> (0 < tb_parties s \<longrightarrow> index_in s me < tb_parties s - 1)) \<and>
     (if tb_state s = 0 then set (tc_waiters (tb_cond s)) = inside s \<and> (\<forall>me\<in>inside s. index_in s me < tb_count s)
      else if tb_state s = -2 then tc_waiters (tb_cond s) = []
      else set (tc_waiters (tb_cond s)) \<subseteq> entering s \<and> 0 < tb_count s)"

definition tb_ok :: "tbarrier \<Rightarrow> bool" where
  "tb_ok s \<longleftrightarrow> tb_inv 0 s \<and> \<not> tc_owned (tb_cond s) \<and>
     (tb_state s = 0 \<and> 0 < tb_parties s \<longrightarrow> tb_count s < tb_parties s)"


lemma inside_simps [simp]:
  "inside (s\<lparr>tb_state := x\<rparr>) = inside s" "inside (s\<lparr>tb_cond := c\<rparr>) = inside s" "inside (s\<lparr>tb_count := n\<rparr>) = inside s"
  "entering (s\<lparr>tb_state := x\<rparr>) = entering s" "entering (s\<lparr>tb_cond := c\<rparr>) = entering s" "entering (s\<lparr>tb_count := n\<rparr>) = entering s"
  "index_in (s\<lparr>tb_state := x\<rparr>) = index_in s" "index_in (s\<lparr>tb_cond := c\<rparr>) = index_in s" "index_in (s\<lparr>tb_count := n\<rparr>) = index_in s"
  by (simp_all add: inside_def entering_def index_in_def fun_eq_iff)

lemma inside_dom: "inside s \<subseteq> dom (tb_calls s)" "entering s \<subseteq> dom (tb_calls s)" "inside s \<inter> entering s = {}"
  "dom (tb_calls s) \<subseteq> inside s \<union> entering s"
proof -
  show "dom (tb_calls s) \<subseteq> inside s \<union> entering s"
  proof
    fix me assume "me \<in> dom (tb_calls s)"
    then obtain c where "tb_calls s me = Some c" by blast
    then show "me \<in> inside s \<union> entering s" by (cases c) (auto simp: inside_def entering_def)
  qed
qed (auto simp: inside_def entering_def)

lemma tb_inv_finite: "tb_inv k s \<Longrightarrow> finite (inside s)"
  using inside_dom(1) [of s] by (auto simp: tb_inv_def tc_ok_def intro: finite_subset)

lemma tb_notify_all_ok:
  assumes "tc_ok (tb_cond s)" "tc_owned (tb_cond s)"
  obtains c where "tb_notify_all s = Inr (s\<lparr>tb_cond := c\<rparr>)" "tc_ok c" "tc_owned c" "tc_waiters c = []"
    "tc_blocked c = tc_blocked (tb_cond s)" "dom (tc_blocked c) \<subseteq> tc_free c" "tc_free (tb_cond s) \<subseteq> tc_free c"
proof -
  obtain c where c: "tcond_notify_all (tb_cond s) = Inr c" "tc_ok c" "tc_owned c" "tc_waiters c = []" "tc_blocked c = tc_blocked (tb_cond s)"
    "tc_free (tb_cond s) \<subseteq> tc_free c"
    using tc_notify [OF assms, of "int (length (tc_waiters (tb_cond s)))"] by (auto simp: tcond_notify_all_def)
  then have "dom (tc_blocked c) \<subseteq> tc_free c" by (simp add: tc_ok_def)
  then show thesis using that [of c] c by (simp add: tb_notify_all_def)
qed

lemma tb_inv_lock [simp]:
  "tb_inv k (s\<lparr>tb_cond := tcond_enter (tb_cond s)\<rparr>) = tb_inv k s"
  "tb_inv k (s\<lparr>tb_cond := tcond_exit (tb_cond s)\<rparr>) = tb_inv k s"
  "tb_inv k (s\<lparr>tb_cond := tcond_expire me (tb_cond s)\<rparr>) = tb_inv k s"
  by (simp_all add: tb_inv_def)

text \<open>Waking everybody in a new state.\<close>

lemma tb_inv_woken:
  assumes inv: "tb_inv k s" and c: "tc_ok c" "tc_waiters c = []" "tc_blocked c = tc_blocked (tb_cond s)"
    and x: "x \<in> {1, -1, -2}" "x \<noteq> -2 \<Longrightarrow> 0 < tb_count s"
  shows "tb_inv k (s\<lparr>tb_state := x, tb_cond := c\<rparr>)"
  using assms by (auto simp: tb_inv_def)

lemma tb_unlock_ok:
  "tb_inv 0 s \<Longrightarrow> (tb_state s = 0 \<and> 0 < tb_parties s \<longrightarrow> tb_count s < tb_parties s) \<Longrightarrow> tb_ok (tb_unlock s)"
  by (simp add: tb_ok_def tb_unlock_def)

lemma tb_finish_ok:
  assumes inv: "tb_inv 1 s" and own: "tc_owned (tb_cond s)" and st: "tb_state s \<noteq> 0"
  shows "\<exists>t. tb_finish out s = (out, t) \<and> tb_ok t \<and> tc_free (tb_cond s) \<subseteq> tc_free (tb_cond t) \<and> (tb_broken t \<longleftrightarrow> tb_broken s)"
proof -
  have cnt: "tb_count s - 1 = int (card (inside s))" using inv by (simp add: tb_inv_def)
  have fin: "finite (inside s)" by (rule tb_inv_finite [OF inv])
  define s1 where "s1 = s\<lparr>tb_count := tb_count s - 1\<rparr>"
  show ?thesis
  proof (cases "tb_count s1 = 0 \<and> tb_state s \<in> {-1, 1}")
    case True
    then have e: "inside s = {}" using cnt fin by (simp add: s1_def)
    have o1: "tc_ok (tb_cond (s1\<lparr>tb_state := 0\<rparr>))" "tc_owned (tb_cond (s1\<lparr>tb_state := 0\<rparr>))"
      using inv own by (simp_all add: tb_inv_def s1_def)
    obtain c where c: "tb_notify_all (s1\<lparr>tb_state := 0\<rparr>) = Inr (s1\<lparr>tb_state := 0, tb_cond := c\<rparr>)" "tc_ok c" "tc_waiters c = []"
      "tc_blocked c = tc_blocked (tb_cond (s1\<lparr>tb_state := 0\<rparr>))" "tc_free (tb_cond (s1\<lparr>tb_state := 0\<rparr>)) \<subseteq> tc_free c"
      by (rule tb_notify_all_ok [OF o1])
    have "tb_finish out s = (out, tb_unlock (s1\<lparr>tb_state := 0, tb_cond := c\<rparr>))"
      using True c(1) by (simp add: tb_finish_def tb_exit_def s1_def)
    moreover have "tb_ok (tb_unlock (s1\<lparr>tb_state := 0, tb_cond := c\<rparr>))"
      by (rule tb_unlock_ok) (use inv e c True in \<open>auto simp: tb_inv_def s1_def\<close>)
    moreover have "tc_free (tb_cond s) \<subseteq> tc_free (tb_cond (tb_unlock (s1\<lparr>tb_state := 0, tb_cond := c\<rparr>)))"
      using c(5) by (simp add: tb_unlock_def s1_def)
    moreover have "\<not> tb_broken (tb_unlock (s1\<lparr>tb_state := 0, tb_cond := c\<rparr>))" "\<not> tb_broken s"
      using True by (auto simp: tb_broken_def tb_unlock_def)
    ultimately show ?thesis by blast
  next
    case False
    then have "tb_exit s1 = Inr s1" by (auto simp: tb_exit_def s1_def)
    then have "tb_finish out s = (out, tb_unlock s1)" by (simp add: tb_finish_def s1_def)
    moreover have "tb_ok (tb_unlock s1)"
      by (rule tb_unlock_ok) (use inv False st cnt in \<open>auto simp: tb_inv_def s1_def\<close>)
    moreover have "tc_free (tb_cond (tb_unlock s1)) = tc_free (tb_cond s)" "tb_broken (tb_unlock s1) = tb_broken s"
      by (simp_all add: tb_unlock_def s1_def tb_broken_def)
    ultimately show ?thesis by blast
  qed
qed

text \<open>A thread with a free index waits in the filling state.\<close>

lemma tb_park_in_ok:
  assumes inv: "tb_inv 1 s" and own: "tc_owned (tb_cond s)" and me: "tb_calls s me = None" and st: "tb_state s = 0"
    and i: "i \<notin> index_in s ` inside s" "0 \<le> i" "i < tb_count s" "0 < tb_parties s \<Longrightarrow> i < tb_parties s - 1 \<and> tb_count s < tb_parties s"
  shows "\<exists>t. tb_park me timeout (In_wait i w e) s = (Wait me, t) \<and> tb_ok t"
proof -
  have b: "tc_blocked (tb_cond s) me = None" "tc_ok (tb_cond s)" using inv me by (auto simp: tb_inv_def)
  obtain o1 c where w: "tcond_wait me timeout (tb_cond s) = (o1, c)" by (cases "tcond_wait me timeout (tb_cond s)")
  note tw = tc_wait [OF b(2) own b(1) w]
  define t where "t = s\<lparr>tb_cond := c, tb_calls := (tb_calls s)(me \<mapsto> In_wait i w e)\<rparr>"
  have m: "me \<notin> inside s" using me by (simp add: inside_def)
  have t: "inside t = insert me (inside s)" "entering t = entering s"
    using me by (auto simp: inside_def entering_def t_def)
  have ix: "index_in t me = i" "\<And>x. x \<noteq> me \<Longrightarrow> index_in t x = index_in s x" by (simp_all add: index_in_def t_def)
  have same: "\<And>x. x \<in> inside s \<Longrightarrow> index_in t x = index_in s x" using ix(2) m by metis
  have "inj_on (index_in t) (inside s)" using inv same inj_on_cong [of "inside s" "index_in t" "index_in s"] by (simp add: tb_inv_def)
  moreover have "index_in t me \<notin> index_in t ` inside s" using i(1) ix(1) same by (simp add: image_def)
  ultimately have ij: "inj_on (index_in t) (inside t)" unfolding t(1) using m by simp
  have "tb_inv 0 t"
    unfolding tb_inv_def t
  proof (intro conjI ballI)
    show "tb_count t = int (card (insert me (inside s))) + 0"
      using inv m tb_inv_finite [OF inv] by (simp add: tb_inv_def t_def)
    show "inj_on (index_in t) (insert me (inside s))" using ij t(1) by simp
    show "dom (tb_calls t) = dom (tc_blocked (tb_cond t))" using inv tw(6) by (simp add: tb_inv_def t_def)
    show "tc_ok (tb_cond t)" "tb_state t \<in> {0, 1, -1, -2}" using tw(2) st by (simp_all add: t_def)
    show "if tb_state t = 0
      then set (tc_waiters (tb_cond t)) = insert me (inside s) \<and> (\<forall>me\<in>insert me (inside s). index_in t me < tb_count t)
      else if tb_state t = -2 then tc_waiters (tb_cond t) = [] else set (tc_waiters (tb_cond t)) \<subseteq> entering s \<and> 0 < tb_count t"
      using inv st tw(3) i(3) ix(1) same by (auto simp: tb_inv_def t_def)
    fix x assume "x \<in> insert me (inside s)"
    then show "0 \<le> index_in t x" "0 < tb_parties t \<longrightarrow> index_in t x < tb_parties t - 1"
      using inv i(2,4) ix(1) same by (auto simp: tb_inv_def t_def)
  qed
  then have "tb_ok t" using tw(5) i(4) by (simp add: tb_ok_def t_def)
  then show ?thesis using w tw(1) by (simp add: tb_park_def t_def)
qed

lemma tb_park_enter_ok:
  assumes inv: "tb_inv 0 s" and own: "tc_owned (tb_cond s)" and me: "tb_calls s me = None" and st: "tb_state s \<in> {-1, 1}"
  shows "\<exists>t. tb_park me timeout (In_enter tmo) s = (Wait me, t) \<and> tb_ok t"
proof -
  have b: "tc_blocked (tb_cond s) me = None" "tc_ok (tb_cond s)" using inv me by (auto simp: tb_inv_def)
  obtain o1 c where w: "tcond_wait me timeout (tb_cond s) = (o1, c)" by (cases "tcond_wait me timeout (tb_cond s)")
  note tw = tc_wait [OF b(2) own b(1) w]
  define t where "t = s\<lparr>tb_cond := c, tb_calls := (tb_calls s)(me \<mapsto> In_enter tmo)\<rparr>"
  have t: "inside t = inside s" "entering t = insert me (entering s)"
    using me by (auto simp: inside_def entering_def t_def)
  have ix: "x \<in> inside s \<Longrightarrow> index_in t x = index_in s x" for x using me by (auto simp: index_in_def inside_def t_def)
  have ij: "inj_on (index_in t) (inside s) = inj_on (index_in s) (inside s)" using ix by (auto simp: inj_on_def)
  have "tb_inv 0 t"
    using inv st tw(2,3,6) ix ij unfolding tb_inv_def t by (auto simp: t_def)
  then have "tb_ok t" using tw(5) st by (auto simp: tb_ok_def t_def)
  then show ?thesis using w tw(1) by (simp add: tb_park_def t_def)
qed


lemma tb_notify_in_ok:
  assumes inv: "tb_inv k s" and own: "tc_owned (tb_cond s)" and x: "x \<in> {1, -1, -2}" "x \<noteq> -2 \<Longrightarrow> 0 < tb_count s"
  obtains c where "tb_notify_all (s\<lparr>tb_state := x\<rparr>) = Inr (s\<lparr>tb_state := x, tb_cond := c\<rparr>)"
    "tb_inv k (s\<lparr>tb_state := x, tb_cond := c\<rparr>)" "tc_owned c" "inside s \<subseteq> tc_free c"
proof -
  have o1: "tc_ok (tb_cond (s\<lparr>tb_state := x\<rparr>))" "tc_owned (tb_cond (s\<lparr>tb_state := x\<rparr>))"
    using inv own by (simp_all add: tb_inv_def)
  obtain c where c: "tb_notify_all (s\<lparr>tb_state := x\<rparr>) = Inr (s\<lparr>tb_state := x, tb_cond := c\<rparr>)" "tc_ok c" "tc_owned c" "tc_waiters c = []"
    "tc_blocked c = tc_blocked (tb_cond (s\<lparr>tb_state := x\<rparr>))" "dom (tc_blocked c) \<subseteq> tc_free c"
    by (rule tb_notify_all_ok [OF o1])
  have "tb_inv k (s\<lparr>tb_state := x, tb_cond := c\<rparr>)"
    by (rule tb_inv_woken [OF inv c(2,4) _ x]) (use c(5) in simp)
  moreover have "inside s \<subseteq> tc_free c" using c(5,6) inv inside_dom(1) [of s] by (auto simp: tb_inv_def)
  ultimately show thesis using that c by blast
qed

definition free_index :: "tbarrier \<Rightarrow> int \<Rightarrow> bool" where
  "free_index s i \<longleftrightarrow> i \<notin> index_in s ` inside s \<and> 0 \<le> i \<and> (0 < tb_parties s \<longrightarrow> i < tb_parties s - 1) \<and>
     (tb_state s = 0 \<longrightarrow> i < tb_count s \<and> (0 < tb_parties s \<longrightarrow> tb_count s < tb_parties s))"

text \<open>The deadline of a thread that waits with a timeout has passed.\<close>

definition timed_out :: "int option \<Rightarrow> int option \<Rightarrow> int \<Rightarrow> bool" where
  "timed_out waittime endtime now \<longleftrightarrow> waittime \<noteq> None \<and> (\<exists>e. endtime = Some e \<and> e \<le> now)"

lemma timed_out_None [simp]: "\<not> timed_out None e now" "\<not> timed_out w None now"
  by (simp_all add: timed_out_def)

lemma tb_wait_loop_ok:
  assumes inv: "tb_inv 1 s" and own: "tc_owned (tb_cond s)" and me: "tb_calls s me = None" and i: "free_index s i"
  shows "\<exists>out t. tb_wait_loop me i w e now s = (out, t) \<and> tb_ok t \<and>
    (if tb_state s = 0 then (if timed_out w e now then out = Raise BrokenBarrierError \<and> tb_broken t else out = Wait me)
     else out = (if tb_state s = 1 then Ret i else Raise BrokenBarrierError))"
proof (cases "tb_state s = 0")
  case False
  have "tb_state s \<in> {1, -1, -2}" using inv False by (auto simp: tb_inv_def)
  then show ?thesis
    using tb_finish_ok [OF inv own False, of "Ret i"] tb_finish_ok [OF inv own False, of "Raise BrokenBarrierError"] False
    by (auto simp: tb_wait_loop_def)
next
  case True
  have P: "\<exists>t. tb_park me tmo (In_wait i w e) s = (Wait me, t) \<and> tb_ok t" for tmo w e
    by (rule tb_park_in_ok [OF inv own me True]) (use i True in \<open>auto simp: free_index_def\<close>)
  have B: "\<exists>t. (case tb_break s of Inl ex \<Rightarrow> tb_finish (Raise ex) s | Inr s \<Rightarrow> tb_finish (Raise BrokenBarrierError) s) =
      (Raise BrokenBarrierError, t) \<and> tb_ok t \<and> tb_broken t"
  proof -
    obtain c where c: "tb_notify_all (s\<lparr>tb_state := -2\<rparr>) = Inr (s\<lparr>tb_state := -2, tb_cond := c\<rparr>)"
      "tb_inv 1 (s\<lparr>tb_state := -2, tb_cond := c\<rparr>)" "tc_owned c"
      using tb_notify_in_ok [OF inv own, of "-2"] by blast
    show ?thesis using tb_finish_ok [OF c(2), of "Raise BrokenBarrierError"] c(1,3) by (auto simp: tb_break_def tb_broken_def)
  qed
  show ?thesis
  proof (cases w)
    case None
    then show ?thesis using P [of None None e] True by (auto simp: tb_wait_loop_def)
  next
    case (Some w')
    show ?thesis
    proof (cases e)
      case None
      then show ?thesis using P [of "Some w'" "Some w'" "Some (now + w')"] True Some by (auto simp: tb_wait_loop_def)
    next
      case e: (Some e')
      show ?thesis
      proof (cases "e' - now \<le> 0")
        case le: True
        then have "tb_wait_loop me i w e now s =
          (case tb_break s of Inl ex \<Rightarrow> tb_finish (Raise ex) s | Inr s \<Rightarrow> tb_finish (Raise BrokenBarrierError) s)"
          using Some e True by (simp add: tb_wait_loop_def Let_def)
        then show ?thesis using B True Some e le by (auto simp: timed_out_def)
      next
        case False
        then have "tb_wait_loop me i w e now s = tb_park me (Some (e' - now)) (In_wait i (Some (e' - now)) (Some e')) s"
          using Some e True by (simp add: tb_wait_loop_def Let_def)
        then show ?thesis using P [of "Some (e' - now)" "Some (e' - now)" "Some e'"] True e False by (auto simp: timed_out_def)
      qed
    qed
  qed
qed

text \<open>The last thread of a round releases the others.\<close>

lemma tb_enter_loop_ok:
  assumes inv: "tb_inv 0 s" and own: "tc_owned (tb_cond s)" and me: "tb_calls s me = None"
    and cap: "tb_state s = 0 \<and> 0 < tb_parties s \<longrightarrow> tb_count s < tb_parties s"
  shows "\<exists>out t. tb_enter_loop me timeout now action s = (out, t) \<and> tb_ok t \<and>
    (out = Raise AssertionError \<longrightarrow> action = Some AssertionError) \<and>
    (\<forall>j. out = Ret j \<longrightarrow> tb_state s = 0 \<and> j = tb_parties s - 1 \<and> j = int (card (inside s)) \<and>
      inside s \<subseteq> tc_free (tb_cond t))"
proof -
  have st: "tb_state s \<in> {0, 1, -1, -2}" and cnt: "tb_count s = int (card (inside s))"
    using inv by (simp_all add: tb_inv_def)
  define s1 where "s1 = s\<lparr>tb_count := tb_count s + 1\<rparr>"
  consider "tb_state s \<in> {-1, 1}" | "tb_state s = -2" | "tb_state s = 0" "tb_count s + 1 = tb_parties s"
    | "tb_state s = 0" "tb_count s + 1 \<noteq> tb_parties s"
    using st by auto
  then show ?thesis
  proof cases
    case 1
    then have "tb_enter_loop me timeout now action s = tb_park me None (In_enter timeout) s" by (simp add: tb_enter_loop_def)
    moreover obtain t where "tb_park me None (In_enter timeout) s = (Wait me, t)" "tb_ok t"
      using tb_park_enter_ok [OF inv own me 1] by blast
    ultimately show ?thesis by simp
  next
    case 2
    then have "tb_enter_loop me timeout now action s = (Raise BrokenBarrierError, tb_unlock s)" by (simp add: tb_enter_loop_def)
    then show ?thesis using tb_unlock_ok [OF inv cap] by simp
  next
    case 3
    have n: "0 \<le> tb_count s" using cnt by simp
    have i1: "tb_inv 1 s1" using inv 3(1) by (auto simp: tb_inv_def s1_def)
    have o1: "tc_owned (tb_cond s1)" using own by (simp add: s1_def)
    define x where "x = (if action = None then 1 else -2 :: int)"
    have xx: "x \<in> {1, -1, -2}" "x \<noteq> -2 \<Longrightarrow> 0 < tb_count s1" using n by (auto simp: x_def s1_def)
    obtain c where c: "tb_notify_all (s1\<lparr>tb_state := x\<rparr>) = Inr (s1\<lparr>tb_state := x, tb_cond := c\<rparr>)"
      "tb_inv 1 (s1\<lparr>tb_state := x, tb_cond := c\<rparr>)" "tc_owned c" "inside s1 \<subseteq> tc_free c"
      by (rule tb_notify_in_ok [OF i1 o1 xx])
    have nz: "x \<noteq> 0" by (simp add: x_def)
    define out where "out = (case action of None \<Rightarrow> Ret (tb_count s) | Some e \<Rightarrow> Raise e)"
    have "tb_enter_loop me timeout now action s = tb_finish out (s1\<lparr>tb_state := x, tb_cond := c\<rparr>)"
      using 3 c(1) by (cases action) (simp_all add: tb_enter_loop_def tb_release_def tb_break_def x_def out_def s1_def Let_def)
    moreover obtain t where "tb_finish out (s1\<lparr>tb_state := x, tb_cond := c\<rparr>) = (out, t)" "tb_ok t" "tc_free c \<subseteq> tc_free (tb_cond t)"
      using tb_finish_ok [OF c(2), of out] c(3) nz by auto
    moreover have "inside s \<subseteq> tc_free c" using c(4) by (simp add: s1_def)
    ultimately show ?thesis using 3 cnt by (auto simp: out_def split: option.splits)
  next
    case 4
    have fill: "\<forall>me\<in>inside s. index_in s me < tb_count s" using inv 4(1) unfolding tb_inv_def by (metis (no_types))
    have i1: "tb_inv 1 s1" using inv 4(1) by (auto simp: tb_inv_def s1_def)
    have "tb_enter_loop me timeout now action s = tb_wait_loop me (tb_count s) timeout None now s1"
      using 4 by (simp add: tb_enter_loop_def s1_def Let_def)
    moreover have "free_index s1 (tb_count s)"
      using fill 4 cap cnt by (auto simp: free_index_def s1_def)
    ultimately show ?thesis
      using tb_wait_loop_ok [OF i1, of me "tb_count s" timeout None now] own me 4(1) by (fastforce simp: s1_def)
  qed
qed

text \<open>A thread leaves \<open>Condition.wait\<close>, with the lock.\<close>

lemma tb_left:
  assumes ok: "tb_ok s" and call: "tb_calls s me = Some call"
    and c: "tc_ok c" "tc_owned c" "tc_blocked c = (tc_blocked (tb_cond s))(me := None)"
      "set (tc_waiters c) = set (tc_waiters (tb_cond s)) - {me}"
    and s1: "s1 = s\<lparr>tb_cond := c, tb_calls := (tb_calls s)(me := None)\<rparr>"
  shows "case call of In_enter t \<Rightarrow> tb_inv 0 s1 | In_wait i w e \<Rightarrow> tb_inv 1 s1 \<and> free_index s1 i"
proof -
  have inv: "tb_inv 0 s" using ok by (simp add: tb_ok_def)
  have sub: "inside s1 = inside s - {me}" "entering s1 = entering s - {me}"
    by (auto simp: s1 inside_def entering_def)
  have ix: "x \<in> inside s - {me} \<Longrightarrow> index_in s1 x = index_in s x" for x by (simp add: s1 index_in_def)
  have ij: "inj_on (index_in s1) (inside s - {me})"
    using inv ix inj_on_cong [of "inside s - {me}" "index_in s1" "index_in s"] by (simp add: tb_inv_def inj_on_diff)
  have dom: "dom (tb_calls s1) = dom (tc_blocked (tb_cond s1))" using inv c(3) by (simp add: s1 tb_inv_def)
  show ?thesis
  proof (cases call)
    case (In_enter t)
    then have m: "me \<notin> inside s" "me \<in> entering s" using call by (auto simp: inside_def entering_def)
    then have "inside s - {me} = inside s" by blast
    note eq = sub(1) [unfolded this] ix [unfolded this] ij [unfolded this]
    have w: "tc_waiters c = []" if "tc_waiters (tb_cond s) = []" using c(4) that by simp
    have "tb_inv 0 s1"
      unfolding tb_inv_def eq(1) sub(2)
      using inv c(1,4) dom eq(2,3) m w by (auto simp: tb_inv_def s1)
    then show ?thesis using In_enter by simp
  next
    case (In_wait i w e)
    then have m: "me \<in> inside s" "index_in s me = i" "me \<notin> entering s"
      using call by (auto simp: inside_def index_in_def entering_def)
    have fin: "finite (inside s)" by (rule tb_inv_finite [OF inv])
    have cd: "int (card (inside s)) = int (card (inside s - {me})) + 1"
      using card_Suc_Diff1 [OF fin m(1)] by linarith
    have w0: "tc_waiters c = []" if "tc_waiters (tb_cond s) = []" using c(4) that by simp
    have e: "entering s - {me} = entering s" using m(3) by blast
    have "tb_inv 1 s1"
      unfolding tb_inv_def sub(1) sub(2) e
    proof (intro conjI ballI)
      show "tb_count s1 = int (card (inside s - {me})) + 1" using inv cd by (simp add: tb_inv_def s1)
      show "tc_ok (tb_cond s1)" "tb_state s1 \<in> {0, 1, -1, -2}" using c(1) inv by (simp_all add: s1 tb_inv_def)
      show "dom (tb_calls s1) = dom (tc_blocked (tb_cond s1))" by (rule dom)
      show "inj_on (index_in s1) (inside s - {me})" by (rule ij)
      show "if tb_state s1 = 0
        then set (tc_waiters (tb_cond s1)) = inside s - {me} \<and> (\<forall>me\<in>inside s - {me}. index_in s1 me < tb_count s1)
        else if tb_state s1 = -2 then tc_waiters (tb_cond s1) = []
        else set (tc_waiters (tb_cond s1)) \<subseteq> entering s \<and> 0 < tb_count s1"
        using inv c(4) ix w0 by (auto simp: tb_inv_def s1 split: if_splits)
      fix x assume "x \<in> inside s - {me}"
      then show "0 \<le> index_in s1 x" "0 < tb_parties s1 \<longrightarrow> index_in s1 x < tb_parties s1 - 1"
        using inv ix by (auto simp: tb_inv_def s1)
    qed
    moreover have "i \<notin> index_in s1 ` (inside s - {me})"
    proof
      assume "i \<in> index_in s1 ` (inside s - {me})"
      then obtain x where x: "x \<in> inside s - {me}" "index_in s1 x = i" by auto
      then have "index_in s x = index_in s me" using ix [OF x(1)] m(2) by simp
      then show False using inv m(1) x(1) by (auto simp: tb_inv_def inj_on_def)
    qed
    moreover have "0 \<le> i" "0 < tb_parties s \<longrightarrow> i < tb_parties s - 1" "tb_state s = 0 \<longrightarrow> i < tb_count s"
      using inv m(1,2) by (auto simp: tb_inv_def)
    ultimately show ?thesis using In_wait ok by (simp add: free_index_def sub(1) tb_ok_def) (simp add: s1)
  qed
qed

section \<open>Every step keeps the invariant\<close>

text \<open>What \<open>wait\<close> may do when it runs, called or woken.\<close>

definition tb_fine :: "exn option \<Rightarrow> int outcome \<times> tbarrier \<Rightarrow> bool" where
  "tb_fine action r \<longleftrightarrow> tb_ok (snd r) \<and> (fst r = Raise AssertionError \<longrightarrow> action = Some AssertionError)"

lemma tb_wait_result:
  assumes "tb_ok s" "tb_calls s me = None"
  obtains out t where "tb_wait me timeout now action s = (out, t)" "tb_ok t"
    "out = Raise AssertionError \<longrightarrow> action = Some AssertionError"
    "\<And>j. out = Ret j \<Longrightarrow> j = tb_parties s - 1 \<and> j = int (card (inside s)) \<and> inside s \<subseteq> tc_free (tb_cond t)"
proof -
  define s1 where "s1 = s\<lparr>tb_cond := tcond_enter (tb_cond s)\<rparr>"
  have s1: "tb_inv 0 s1" "tc_owned (tb_cond s1)" "tb_calls s1 me = None"
    "tb_state s1 = 0 \<and> 0 < tb_parties s1 \<longrightarrow> tb_count s1 < tb_parties s1"
    using assms by (simp_all add: tb_ok_def s1_def)
  have eq: "inside s1 = inside s" "tb_parties s1 = tb_parties s" by (simp_all add: s1_def)
  obtain out t where e: "tb_enter_loop me (if timeout = None then tb_timeout s else timeout) now action s1 = (out, t)" "tb_ok t"
    "out = Raise AssertionError \<longrightarrow> action = Some AssertionError"
    "\<forall>j. out = Ret j \<longrightarrow> tb_state s1 = 0 \<and> j = tb_parties s1 - 1 \<and> j = int (card (inside s1)) \<and> inside s1 \<subseteq> tc_free (tb_cond t)"
    using tb_enter_loop_ok [OF s1] by blast
  show thesis by (rule that [of out t]) (use e eq in \<open>simp_all add: tb_wait_def s1_def\<close>)
qed

lemma tb_wait_fine:
  assumes "tb_ok s" "tb_calls s me = None"
  shows "tb_fine action (tb_wait me timeout now action s)"
  by (rule tb_wait_result [OF assms, where timeout = timeout and now = now and action = action]) (simp add: tb_fine_def)

lemma tb_again_result:
  assumes ok: "tb_ok s" and call: "tb_calls s me = Some call"
    and r: "may_resume me (tb_cond s) \<and> waited = tcond_got_it \<or> may_give_up me (tb_cond s) \<and> waited = tcond_timed_out"
  obtains out t where "tb_again waited me now action call s = (out, t)" "tb_ok t" "out = Raise AssertionError \<longrightarrow> action = Some AssertionError"
    "\<And>tm j. call = In_enter tm \<Longrightarrow> out = Ret j \<Longrightarrow> j = tb_parties s - 1 \<and> j = int (card (inside s)) \<and> inside s \<subseteq> tc_free (tb_cond t)"
    "\<And>i w e. call = In_wait i w e \<Longrightarrow>
       (if tb_state s = 0 then (if timed_out w e now then out = Raise BrokenBarrierError \<and> tb_broken t else out = Wait me)
        else out = (if tb_state s = 1 then Ret i else Raise BrokenBarrierError))"
proof -
  obtain b c where w: "waited me (tb_cond s) = (b, c)" by (cases "waited me (tb_cond s)")
  have tok: "tc_ok (tb_cond s)" using ok by (simp add: tb_ok_def tb_inv_def)
  then have d: "distinct (tc_waiters (tb_cond s))" by (simp add: tc_ok_def)
  have "tc_ok c \<and> tc_owned c \<and> tc_blocked c = (tc_blocked (tb_cond s))(me := None) \<and>
      set (tc_waiters c) = set (tc_waiters (tb_cond s)) - {me}"
    using r
  proof (elim disjE conjE)
    assume m: "may_resume me (tb_cond s)" and g: "waited = tcond_got_it"
    note t = tc_resume [OF tok m w [unfolded g]]
    show "tc_ok c \<and> tc_owned c \<and> tc_blocked c = (tc_blocked (tb_cond s))(me := None) \<and>
      set (tc_waiters c) = set (tc_waiters (tb_cond s)) - {me}"
      using t(2,3,4,6,7) by simp
  next
    assume m: "may_give_up me (tb_cond s)" and g: "waited = tcond_timed_out"
    note t = tc_give_up [OF tok m w [unfolded g]]
    show "tc_ok c \<and> tc_owned c \<and> tc_blocked c = (tc_blocked (tb_cond s))(me := None) \<and>
      set (tc_waiters c) = set (tc_waiters (tb_cond s)) - {me}"
      using t(2,3,4,6) d by simp
  qed
  then have c: "tc_ok c" "tc_owned c" "tc_blocked c = (tc_blocked (tb_cond s))(me := None)"
    "set (tc_waiters c) = set (tc_waiters (tb_cond s)) - {me}" by simp_all
  define s1 where "s1 = s\<lparr>tb_cond := c, tb_calls := (tb_calls s)(me := None)\<rparr>"
  note L = tb_left [OF ok call c s1_def]
  have s1: "tc_owned (tb_cond s1)" "tb_calls s1 me = None" "tb_state s1 = 0 \<and> 0 < tb_parties s1 \<longrightarrow> tb_count s1 < tb_parties s1"
    using c(2) ok by (simp_all add: s1_def tb_ok_def)
  have eq: "tb_parties s1 = tb_parties s" "tb_state s1 = tb_state s" by (simp_all add: s1_def)
  show thesis
  proof (cases call)
    case (In_enter tm)
    then have "tb_inv 0 s1" using L by simp
    from tb_enter_loop_ok [where timeout = tm and now = now and action = action, OF this s1]
    obtain out u where u: "tb_enter_loop me tm now action s1 = (out, u)" "tb_ok u" "out = Raise AssertionError \<longrightarrow> action = Some AssertionError"
      "\<forall>j. out = Ret j \<longrightarrow> j = tb_parties s1 - 1 \<and> j = int (card (inside s1)) \<and> inside s1 \<subseteq> tc_free (tb_cond u)"
      by blast
    have "inside s1 = inside s" using In_enter call by (auto simp: s1_def inside_def)
    then show thesis by (intro that [of out u]) (use In_enter w u eq in \<open>simp_all add: tb_again_def s1_def Let_def\<close>)
  next
    case (In_wait i w' e)
    then have "tb_inv 1 s1" "free_index s1 i" using L by simp_all
    from tb_wait_loop_ok [where w = w' and e = e and now = now, OF this(1) s1(1,2) this(2)]
    obtain out u where u: "tb_wait_loop me i w' e now s1 = (out, u)" "tb_ok u"
      "if tb_state s = 0 then (if timed_out w' e now then out = Raise BrokenBarrierError \<and> tb_broken u else out = Wait me)
       else out = (if tb_state s = 1 then Ret i else Raise BrokenBarrierError)"
      unfolding eq by blast
    have "out \<noteq> Raise AssertionError" using u(3) by (auto split: if_splits)
    then show thesis by (intro that [of out u]) (use In_wait w u in \<open>simp_all add: tb_again_def s1_def Let_def\<close>)
  qed
qed

lemma tb_again_fine:
  assumes "tb_ok s" "tb_calls s me = Some call"
    and "may_resume me (tb_cond s) \<and> waited = tcond_got_it \<or> may_give_up me (tb_cond s) \<and> waited = tcond_timed_out"
  shows "tb_fine action (tb_again waited me now action call s)"
  by (rule tb_again_result [OF assms, where now = now and action = action]) (simp add: tb_fine_def)

lemma tb_reset_ok:
  assumes ok: "tb_ok s"
  shows "\<exists>t. tb_reset s = Inr t \<and> tb_ok t"
proof -
  define s1 where "s1 = s\<lparr>tb_cond := tcond_enter (tb_cond s)\<rparr>"
  have inv: "tb_inv 0 s1" "tc_owned (tb_cond s1)" using ok by (simp_all add: tb_ok_def s1_def)
  have cnt: "tb_count s1 = int (card (inside s1))" "tb_state s1 \<in> {0, 1, -1, -2}" using inv(1) by (simp_all add: tb_inv_def)
  show ?thesis
  proof (cases "tb_count s1 > 0")
    case True
    define x where "x = (if tb_state s1 = 0 \<or> tb_state s1 = -2 then -1 else tb_state s1)"
    have x: "x \<in> {1, -1, -2}" "x \<noteq> -2 \<Longrightarrow> 0 < tb_count s1" using cnt(2) True by (auto simp: x_def)
    obtain c where c: "tb_notify_all (s1\<lparr>tb_state := x\<rparr>) = Inr (s1\<lparr>tb_state := x, tb_cond := c\<rparr>)"
      "tb_inv 0 (s1\<lparr>tb_state := x, tb_cond := c\<rparr>)"
      by (rule tb_notify_in_ok [OF inv x])
    have nz: "x \<noteq> 0" using x by auto
    have "(if tb_state s1 = 0 then s1\<lparr>tb_state := -1\<rparr> else if tb_state s1 = -2 then s1\<lparr>tb_state := -1\<rparr> else s1) = s1\<lparr>tb_state := x\<rparr>"
      by (simp add: x_def)
    then have "tb_reset s = Inr (tb_unlock (s1\<lparr>tb_state := x, tb_cond := c\<rparr>))"
      using True c(1) by (simp add: tb_reset_def s1_def [symmetric] Let_def)
    moreover have "tb_ok (tb_unlock (s1\<lparr>tb_state := x, tb_cond := c\<rparr>))"
      by (rule tb_unlock_ok [OF c(2)]) (use nz in simp)
    ultimately show ?thesis by blast
  next
    case False
    then have e: "inside s1 = {}" using cnt(1) tb_inv_finite [OF inv(1)] by simp
    have o1: "tc_ok (tb_cond (s1\<lparr>tb_state := 0\<rparr>))" "tc_owned (tb_cond (s1\<lparr>tb_state := 0\<rparr>))"
      using inv by (simp_all add: tb_inv_def)
    obtain c where c: "tb_notify_all (s1\<lparr>tb_state := 0\<rparr>) = Inr (s1\<lparr>tb_state := 0, tb_cond := c\<rparr>)" "tc_ok c" "tc_waiters c = []"
      "tc_blocked c = tc_blocked (tb_cond (s1\<lparr>tb_state := 0\<rparr>))"
      by (rule tb_notify_all_ok [OF o1])
    have "tb_reset s = Inr (tb_unlock (s1\<lparr>tb_state := 0, tb_cond := c\<rparr>))"
      using False c(1) by (simp add: tb_reset_def s1_def [symmetric] Let_def)
    moreover have "tb_ok (tb_unlock (s1\<lparr>tb_state := 0, tb_cond := c\<rparr>))"
      by (rule tb_unlock_ok) (use inv(1) e c cnt(1) in \<open>auto simp: tb_inv_def\<close>)
    ultimately show ?thesis by blast
  qed
qed

lemma tb_abort_ok:
  assumes ok: "tb_ok s"
  shows "\<exists>t. tb_abort s = Inr t \<and> tb_ok t"
proof -
  define s1 where "s1 = s\<lparr>tb_cond := tcond_enter (tb_cond s)\<rparr>"
  have inv: "tb_inv 0 s1" "tc_owned (tb_cond s1)" using ok by (simp_all add: tb_ok_def s1_def)
  obtain c where c: "tb_notify_all (s1\<lparr>tb_state := -2\<rparr>) = Inr (s1\<lparr>tb_state := -2, tb_cond := c\<rparr>)"
    "tb_inv 0 (s1\<lparr>tb_state := -2, tb_cond := c\<rparr>)"
    using tb_notify_in_ok [OF inv, of "-2"] by blast
  have "tb_abort s = Inr (tb_unlock (s1\<lparr>tb_state := -2, tb_cond := c\<rparr>))"
    using c(1) by (simp add: tb_abort_def tb_break_def s1_def [symmetric])
  moreover have "tb_ok (tb_unlock (s1\<lparr>tb_state := -2, tb_cond := c\<rparr>))"
    by (rule tb_unlock_ok [OF c(2)]) simp
  ultimately show ?thesis by blast
qed

lemma tb_step_ok: "tb_step s t \<Longrightarrow> tb_ok s \<Longrightarrow> tb_ok t"
proof (induction rule: tb_step.induct)
  case (tb_s_wait s me timeout now action out t)
  then show ?case using tb_wait_fine [of s me action timeout now] by (simp add: tb_fine_def)
next
  case (tb_s_notified s me call now action out t)
  then show ?case using tb_again_fine [of s me call tcond_got_it action now] by (simp add: tb_fine_def)
next
  case (tb_s_expire me s)
  then show ?case by (simp add: tb_ok_def)
next
  case (tb_s_give_up s me call now action out t)
  then show ?case using tb_again_fine [of s me call tcond_timed_out action now] by (simp add: tb_fine_def)
next
  case (tb_s_reset s t)
  then show ?case using tb_reset_ok by fastforce
next
  case (tb_s_abort s t)
  then show ?case using tb_abort_ok by fastforce
qed

lemma tb_new_ok: "tb_ok (tb_new parties timeout)"
  by (simp add: tb_ok_def tb_inv_def tb_new_def tc_new inside_def entering_def) (simp add: tcond_new_def)

lemma tb_reachable_ok: "reachable (\<lambda>s. \<exists>parties timeout. s = tb_new parties timeout) tb_step s \<Longrightarrow> tb_ok s"
  by (erule reachable_invariant) (use tb_new_ok tb_step_ok in blast)+

section \<open>Properties\<close>

text \<open>C12: in every reachable state of a barrier, with timeouts, resets and aborts in any order, the threads
  in it have different indices and are as many as it counts; a thread that waits in it waits for the round
  to fill or has been notified, and a thread that waits to enter waits for a round to end that a notified
  thread is about to end. The assertions of the code hold in every call of \<open>wait\<close> and in every thread that
  is woken or gives up. Whoever returns without having waited inside completes a round: it returns the last
  index and has notified all the others. A thread that comes back from the wait inside returns its own index
  exactly if the barrier drains, raises \<open>BrokenBarrierError\<close> if it is broken or reset, breaks it and raises
  if it still fills and the time is over, and otherwise waits on.\<close>

theorem thread_barrier_sound:
  assumes "reachable (\<lambda>s. \<exists>parties timeout. s = tb_new parties timeout) tb_step s"
  shows "inj_on (index_in s) (inside s) \<and> tb_count s = int (card (inside s)) \<and>
    (\<forall>me call. tb_calls s me = Some call \<longrightarrow> me \<in> tc_free (tb_cond s) \<or>
      (case call of In_wait i w e \<Rightarrow> tb_state s = 0 | In_enter t \<Rightarrow> (\<exists>other\<in>inside s. other \<in> tc_free (tb_cond s)))) \<and>
    (\<forall>me timeout now action. tb_calls s me = None \<longrightarrow>
      (case tb_wait me timeout now action s of (out, t) \<Rightarrow>
        (out = Raise AssertionError \<longrightarrow> action = Some AssertionError) \<and>
        (\<forall>i. out = Ret i \<longrightarrow> i = tb_parties s - 1 \<and> i = int (card (inside s)) \<and> inside s \<subseteq> tc_free (tb_cond t)))) \<and>
    (\<forall>me call waited now action. tb_calls s me = Some call \<longrightarrow>
      may_resume me (tb_cond s) \<and> waited = tcond_got_it \<or> may_give_up me (tb_cond s) \<and> waited = tcond_timed_out \<longrightarrow>
      (case tb_again waited me now action call s of (out, t) \<Rightarrow>
        (out = Raise AssertionError \<longrightarrow> action = Some AssertionError) \<and>
        (case call of
           In_enter timeout \<Rightarrow>
             (\<forall>i. out = Ret i \<longrightarrow> i = tb_parties s - 1 \<and> i = int (card (inside s)) \<and> inside s \<subseteq> tc_free (tb_cond t))
         | In_wait i waittime endtime \<Rightarrow>
             0 \<le> i \<and> (0 < tb_parties s \<longrightarrow> i < tb_parties s - 1) \<and>
             (if tb_state s = 0
              then (if timed_out waittime endtime now then out = Raise BrokenBarrierError \<and> tb_broken t else out = Wait me)
              else out = (if tb_state s = 1 then Ret i else Raise BrokenBarrierError)))))"
proof -
  have ok: "tb_ok s" by (rule tb_reachable_ok [OF assms])
  then have inv: "tb_inv 0 s" by (simp add: tb_ok_def)
  have out: "me \<in> tc_free (tb_cond s)" if "me \<in> dom (tb_calls s)" "me \<notin> set (tc_waiters (tb_cond s))" for me
    using inv that by (auto simp: tb_inv_def tc_ok_def)
  have waits: "me \<in> tc_free (tb_cond s) \<or>
      (case call of In_wait i w e \<Rightarrow> tb_state s = 0 | In_enter t \<Rightarrow> (\<exists>other\<in>inside s. other \<in> tc_free (tb_cond s)))"
    if "tb_calls s me = Some call" for me call
  proof (rule disjCI)
    assume "\<not> (case call of In_wait i w e \<Rightarrow> tb_state s = 0 | In_enter t \<Rightarrow> (\<exists>other\<in>inside s. other \<in> tc_free (tb_cond s)))"
    then have n: "(\<exists>i w e. call = In_wait i w e \<and> tb_state s \<noteq> 0) \<or> (\<exists>t. call = In_enter t \<and> inside s \<inter> tc_free (tb_cond s) = {})"
      by (auto split: bcall.splits)
    have "me \<notin> set (tc_waiters (tb_cond s))"
    proof
      assume q: "me \<in> set (tc_waiters (tb_cond s))"
      show False using n
      proof (elim disjE exE conjE)
        fix i w e assume c: "call = In_wait i w e" "tb_state s \<noteq> 0"
        then have "me \<in> entering s" using inv q by (auto simp: tb_inv_def split: if_splits)
        then show False using that c(1) by (auto simp: entering_def)
      next
        fix t assume c: "call = In_enter t" "inside s \<inter> tc_free (tb_cond s) = {}"
        have "me \<notin> inside s" using that c(1) by (auto simp: inside_def)
        then have w: "set (tc_waiters (tb_cond s)) \<subseteq> entering s" "0 < tb_count s"
          using inv q by (auto simp: tb_inv_def split: if_splits)
        have "inside s \<noteq> {}" using w(2) inv by (auto simp: tb_inv_def)
        then obtain x where x: "x \<in> inside s" by blast
        then have "x \<notin> set (tc_waiters (tb_cond s))" using w(1) inside_dom(3) [of s] by blast
        then show False using out [of x] x inside_dom(1) [of s] c(2) by blast
      qed
    qed
    then show "me \<in> tc_free (tb_cond s)" using out that by blast
  qed
  have runs: "case tb_wait me timeout now action s of (o1, t) \<Rightarrow>
        (o1 = Raise AssertionError \<longrightarrow> action = Some AssertionError) \<and>
        (\<forall>i. o1 = Ret i \<longrightarrow> i = tb_parties s - 1 \<and> i = int (card (inside s)) \<and> inside s \<subseteq> tc_free (tb_cond t))"
    if "tb_calls s me = None" for me timeout now action
    by (rule tb_wait_result [OF ok that, where timeout = timeout and now = now and action = action]) auto
  have again: "case tb_again waited me now action call s of (o1, t) \<Rightarrow>
        (o1 = Raise AssertionError \<longrightarrow> action = Some AssertionError) \<and>
        (case call of
           In_enter timeout \<Rightarrow>
             (\<forall>i. o1 = Ret i \<longrightarrow> i = tb_parties s - 1 \<and> i = int (card (inside s)) \<and> inside s \<subseteq> tc_free (tb_cond t))
         | In_wait i waittime endtime \<Rightarrow>
             0 \<le> i \<and> (0 < tb_parties s \<longrightarrow> i < tb_parties s - 1) \<and>
             (if tb_state s = 0
              then (if timed_out waittime endtime now then o1 = Raise BrokenBarrierError \<and> tb_broken t else o1 = Wait me)
              else o1 = (if tb_state s = 1 then Ret i else Raise BrokenBarrierError)))"
    if call: "tb_calls s me = Some call"
      and m: "may_resume me (tb_cond s) \<and> waited = tcond_got_it \<or> may_give_up me (tb_cond s) \<and> waited = tcond_timed_out"
    for me call waited now action
  proof (rule tb_again_result [OF ok call m, where now = now and action = action], goal_cases)
    case (1 out t)
    have "0 \<le> i \<and> (0 < tb_parties s \<longrightarrow> i < tb_parties s - 1)" if "call = In_wait i w e" for i w e
    proof -
      have "me \<in> inside s" "index_in s me = i" using call that by (auto simp: inside_def index_in_def)
      then show ?thesis using inv by (auto simp: tb_inv_def)
    qed
    then show ?case using 1 by (cases call) (auto split del: if_split)
  qed
  have "inj_on (index_in s) (inside s)" "tb_count s = int (card (inside s))" using inv by (simp_all add: tb_inv_def)
  then show ?thesis using waits runs again by (intro conjI allI impI)
qed

theorem thread_barrier_sound_witness:
  "\<exists>s. reachable (\<lambda>s. \<exists>parties timeout. s = tb_new parties timeout) tb_step s \<and> tb_count s = 1 \<and> card (inside s) = 1"
proof -
  define s1 where "s1 = snd (tb_wait 3 None 0 None (tb_new 2 None))"
  have "tb_step (tb_new 2 None) s1"
    unfolding s1_def by (rule tb_s_wait [of _ 3, OF _ prod.collapse [symmetric]]) (simp add: tb_new_def)
  then have r: "reachable (\<lambda>s. \<exists>parties timeout. s = tb_new parties timeout) tb_step s1"
    by (intro reachable_one [of _ "tb_new 2 None"]) blast+
  have "tb_count s1 = 1"
    by (simp add: s1_def tb_wait_def tb_enter_loop_def tb_wait_loop_def tb_park_def tcond_wait_def tcond_is_owned_def tb_new_def Let_def)
  moreover have "tb_count s1 = int (card (inside s1))" using thread_barrier_sound [OF r] by blast
  ultimately show ?thesis using r by auto
qed

end
