(* ===== verification/Codec.thy ===== *)
theory Codec
  imports Prelude
begin

text \<open>
  The parts of Python's \<open>struct\<close> and of its \<open>utf-8\<close> codec that the modelled modules call: big-endian
  unsigned numbers, and the encoding of code points (numbers below 0x110000 without the surrogates).
\<close>

section \<open>\<open>struct.pack\<close> and \<open>unpack\<close> of big-endian numbers\<close>

fun be_bytes :: "nat \<Rightarrow> nat \<Rightarrow> bytes" where
  "be_bytes 0 n = []"
| "be_bytes (Suc k) n = of_nat (n div 256 ^ k) # be_bytes k n"

text \<open>A number that does not fit is refused.\<close>

definition struct_pack :: "nat \<Rightarrow> nat \<Rightarrow> bytes result" where
  "struct_pack k n = (if n < 256 ^ k then Inr (be_bytes k n) else Inl StructError)"

definition be_value :: "bytes \<Rightarrow> nat" where
  "be_value bs = foldl (\<lambda>a b. a * 256 + unat b) 0 bs"

lemma unat_of_nat_byte [simp]: "unat (of_nat n :: byte) = n mod 256"
  by (simp add: unat_of_nat)

lemma length_be_bytes [simp]: "length (be_bytes k n) = k"
  by (induction k) auto

lemma be_value_bytes_aux:
  "foldl (\<lambda>a b. a * 256 + unat b) a (be_bytes k n) = a * 256 ^ k + n mod 256 ^ k"
proof (induction k arbitrary: a)
  case (Suc k)
  have "n mod 256 ^ Suc k = (n div 256 ^ k) mod 256 * 256 ^ k + n mod 256 ^ k"
    using mod_mult2_eq [of n "256 ^ k" 256] by (simp add: mult.commute)
  moreover have "foldl (\<lambda>a b. a * 256 + unat b) a (be_bytes (Suc k) n) = (a * 256 + n div 256 ^ k mod 256) * 256 ^ k + n mod 256 ^ k"
    by (simp add: Suc.IH)
  moreover have "(a * 256 + n div 256 ^ k mod 256) * 256 ^ k = a * 256 ^ Suc k + n div 256 ^ k mod 256 * 256 ^ k"
    by (simp add: algebra_simps)
  ultimately show ?case by (simp only: add.assoc)
qed simp

lemma be_value_bytes: "be_value (be_bytes k n) = n mod 256 ^ k"
  by (simp add: be_value_def be_value_bytes_aux)

lemma be_value_Cons: "be_value (b # bs) = unat b * 256 ^ length bs + be_value bs"
proof -
  have "foldl (\<lambda>a b. a * 256 + unat b) a bs = a * 256 ^ length bs + be_value bs" for a
  proof (induction bs arbitrary: a)
    case (Cons c bs)
    have "be_value (c # bs) = unat c * 256 ^ length bs + be_value bs"
      using Cons.IH [of "unat c"] by (simp add: be_value_def)
    moreover have "foldl (\<lambda>a b. a * 256 + unat b) a (c # bs) = (a * 256 + unat c) * 256 ^ length bs + be_value bs"
      by (simp add: Cons.IH)
    ultimately show ?case by (simp add: distrib_right)
  qed (simp add: be_value_def)
  from this [of "unat b"] show ?thesis by (simp add: be_value_def)
qed

lemma be_value_less: "be_value bs < 256 ^ length bs"
proof (induction bs)
  case (Cons b bs)
  have "unat b < 256" using unsigned_less [of b] by simp
  then have "(unat b + 1) * 256 ^ length bs \<le> 256 * 256 ^ length bs" by (intro mult_le_mono1) simp
  then have "unat b * 256 ^ length bs + 256 ^ length bs \<le> 256 * 256 ^ length bs" by (simp only: distrib_right mult_1)
  then show ?case unfolding be_value_Cons length_Cons power_Suc using Cons by linarith
qed (simp add: be_value_def)

section \<open>UTF-8\<close>

definition surrogate :: "nat \<Rightarrow> bool" where
  "surrogate c \<longleftrightarrow> 0xD800 \<le> c \<and> c < 0xE000"

definition utf8_char :: "nat \<Rightarrow> bytes result" where
  "utf8_char c =
     (if c < 0x80 then Inr [of_nat c]
      else if c < 0x800 then Inr [of_nat (0xC0 + c div 64), of_nat (0x80 + c mod 64)]
      else if surrogate c then Inl UnicodeError
      else if c < 0x10000 then Inr [of_nat (0xE0 + c div 4096), of_nat (0x80 + c div 64 mod 64), of_nat (0x80 + c mod 64)]
      else if c < 0x110000 then
        Inr [of_nat (0xF0 + c div 262144), of_nat (0x80 + c div 4096 mod 64), of_nat (0x80 + c div 64 mod 64), of_nat (0x80 + c mod 64)]
      else Inl UnicodeError)"

definition utf8_encode :: "nat list \<Rightarrow> bytes result" where
  "utf8_encode cs = rbind (rmap utf8_char cs) (\<lambda>bs. Inr (concat bs))"

definition cont_byte :: "byte \<Rightarrow> bool" where
  "cont_byte b \<longleftrightarrow> unat b div 64 = 2"

definition cont_bits :: "byte \<Rightarrow> nat" where
  "cont_bits b = unat b mod 64"

fun utf8_decode :: "bytes \<Rightarrow> nat list result" where
  "utf8_decode [] = Inr []"
| "utf8_decode (b # bs) =
     (let n = unat b; next_char = (\<lambda>c r. rbind r (\<lambda>cs. Inr (c # cs))) in
      if n < 0x80 then next_char n (utf8_decode bs)
      else if 0xC2 \<le> n \<and> n < 0xE0 then
        (case bs of
           b1 # r \<Rightarrow> if cont_byte b1 then next_char ((n - 0xC0) * 64 + cont_bits b1) (utf8_decode r) else Inl UnicodeError
         | _ \<Rightarrow> Inl UnicodeError)
      else if 0xE0 \<le> n \<and> n < 0xF0 then
        (case bs of
           b1 # b2 # r \<Rightarrow>
             let c = (n - 0xE0) * 4096 + cont_bits b1 * 64 + cont_bits b2 in
             if cont_byte b1 \<and> cont_byte b2 \<and> 0x800 \<le> c \<and> \<not> surrogate c then next_char c (utf8_decode r) else Inl UnicodeError
         | _ \<Rightarrow> Inl UnicodeError)
      else if 0xF0 \<le> n \<and> n < 0xF5 then
        (case bs of
           b1 # b2 # b3 # r \<Rightarrow>
             let c = (n - 0xF0) * 262144 + cont_bits b1 * 4096 + cont_bits b2 * 64 + cont_bits b3 in
             if cont_byte b1 \<and> cont_byte b2 \<and> cont_byte b3 \<and> 0x10000 \<le> c \<and> c < 0x110000 then next_char c (utf8_decode r)
             else Inl UnicodeError
         | _ \<Rightarrow> Inl UnicodeError)
      else Inl UnicodeError)"

lemma cont_byte_eq [simp]:
  "x < 64 \<Longrightarrow> cont_byte (of_nat (128 + x))" "x < 64 \<Longrightarrow> cont_bits (of_nat (128 + x)) = x"
proof -
  assume x: "x < 64"
  have m: "(128 + x) mod 256 = 128 + x" using x by (intro mod_less) simp
  have "128 + x = x + 64 * 2" by simp
  then have d: "(128 + x) div 64 = 2" "(128 + x) mod 64 = x" using x by (simp_all only: div_mult_self2 mod_mult_self2 mod_less div_less)
  show "cont_byte (of_nat (128 + x))" "cont_bits (of_nat (128 + x)) = x"
    by (simp_all only: cont_byte_def cont_bits_def unat_of_nat_byte m d)
qed

lemma lead_byte: "k + x < 256 \<Longrightarrow> unat (of_nat (k + x) :: byte) = k + x"
  by (simp only: unat_of_nat_byte mod_less)

lemma utf8_two:
  assumes "2 \<le> a" "a < 32" "b < 64"
  shows "utf8_decode (of_nat (0xC0 + a) # of_nat (0x80 + b) # rest) = rbind (utf8_decode rest) (\<lambda>cs. Inr ((a * 64 + b) # cs))"
proof -
  have "unat (of_nat (0xC0 + a) :: byte) = 0xC0 + a" by (rule lead_byte) (use assms in simp)
  then show ?thesis using assms by (simp add: Let_def del: of_nat_add)
qed

lemma utf8_three:
  assumes "a < 16" "b < 64" "d < 64" "0x800 \<le> a * 4096 + b * 64 + d" "\<not> surrogate (a * 4096 + b * 64 + d)"
  shows "utf8_decode (of_nat (0xE0 + a) # of_nat (0x80 + b) # of_nat (0x80 + d) # rest) =
    rbind (utf8_decode rest) (\<lambda>cs. Inr ((a * 4096 + b * 64 + d) # cs))"
proof -
  have "unat (of_nat (0xE0 + a) :: byte) = 0xE0 + a" by (rule lead_byte) (use assms in simp)
  then show ?thesis using assms by (simp add: Let_def del: of_nat_add)
qed

lemma utf8_four:
  assumes "a < 5" "b < 64" "d < 64" "e < 64" "0x10000 \<le> a * 262144 + b * 4096 + d * 64 + e" "a * 262144 + b * 4096 + d * 64 + e < 0x110000"
  shows "utf8_decode (of_nat (0xF0 + a) # of_nat (0x80 + b) # of_nat (0x80 + d) # of_nat (0x80 + e) # rest) =
    rbind (utf8_decode rest) (\<lambda>cs. Inr ((a * 262144 + b * 4096 + d * 64 + e) # cs))"
proof -
  have "unat (of_nat (0xF0 + a) :: byte) = 0xF0 + a" by (rule lead_byte) (use assms in simp)
  then show ?thesis using assms by (simp add: Let_def del: of_nat_add)
qed

lemma utf8_char_decode:
  assumes "utf8_char c = Inr bs"
  shows "utf8_decode (bs @ rest) = rbind (utf8_decode rest) (\<lambda>cs. Inr (c # cs))"
proof -
  have s: "c = c div 64 * 64 + c mod 64" "c div 64 = c div 4096 * 64 + c div 64 mod 64"
    "c div 4096 = c div 262144 * 64 + c div 4096 mod 64"
    using div_mult2_eq [of c 64 64] div_mult2_eq [of c 4096 64] by simp_all
  have m: "c mod 64 < 64" "c div 64 mod 64 < 64" "c div 4096 mod 64 < 64" by simp_all
  show ?thesis
  proof (cases "c < 0x80")
    case True
    then have "bs = [of_nat c]" using assms by (simp add: utf8_char_def)
    moreover have "unat (of_nat c :: byte) = c" using lead_byte [of 0 c] True by simp
    ultimately show ?thesis using True by (simp add: Let_def)
  next
    case 1: False
    show ?thesis
    proof (cases "c < 0x800")
      case True
      have b: "bs = [of_nat (0xC0 + c div 64), of_nat (0x80 + c mod 64)]" using assms 1 True by (simp add: utf8_char_def del: of_nat_add)
      have "2 \<le> c div 64" "c div 64 < 32" using 1 True s(1) m(1) by linarith+
      then show ?thesis unfolding b append_Cons append_Nil using utf8_two [OF _ _ m(1)] s(1) by metis
    next
      case 2: False
      have ns: "\<not> surrogate c" using assms 1 2 by (simp add: utf8_char_def split: if_splits)
      show ?thesis
      proof (cases "c < 0x10000")
        case True
        have b: "bs = [of_nat (0xE0 + c div 4096), of_nat (0x80 + c div 64 mod 64), of_nat (0x80 + c mod 64)]"
          using assms 1 2 ns True by (simp add: utf8_char_def del: of_nat_add)
        have n: "c div 4096 < 16" using True s m by linarith
        have v: "c div 4096 * 4096 + c div 64 mod 64 * 64 + c mod 64 = c" using s by linarith
        have c: "0x800 \<le> c" using 2 by simp
        show ?thesis unfolding b append_Cons append_Nil using utf8_three [OF n m(2,1)] v c ns by simp
      next
        case False
        have top: "c < 0x110000" using assms 1 2 ns False by (simp add: utf8_char_def split: if_splits)
        have b: "bs = [of_nat (0xF0 + c div 262144), of_nat (0x80 + c div 4096 mod 64), of_nat (0x80 + c div 64 mod 64), of_nat (0x80 + c mod 64)]"
          using assms 1 2 ns False top by (simp add: utf8_char_def del: of_nat_add)
        have n: "c div 262144 < 5" using top s m by linarith
        have v: "c div 262144 * 262144 + c div 4096 mod 64 * 4096 + c div 64 mod 64 * 64 + c mod 64 = c" using s by linarith
        have c: "0x10000 \<le> c" using False by simp
        show ?thesis unfolding b append_Cons append_Nil using utf8_four [OF n m(3,2,1)] v c top by simp
      qed
    qed
  qed
qed

lemma utf8_roundtrip: "utf8_encode cs = Inr bs \<Longrightarrow> utf8_decode bs = Inr cs"
proof (induction cs arbitrary: bs)
  case (Cons c cs)
  obtain b1 b2 where "utf8_char c = Inr b1" "utf8_encode cs = Inr b2" "bs = b1 @ b2"
    using Cons.prems by (auto simp: utf8_encode_def)
  then show ?case using utf8_char_decode [of c b1 b2] Cons.IH by simp
qed (simp add: utf8_encode_def)

end
