(* ===== verification/Cbor.thy ===== *)
theory Cbor
  imports Codec
begin

unbundle bit_operations_syntax

text \<open>
  \<open>python-ecosys/cbor2/cbor2/_encoder.py\<close> and \<open>_decoder.py\<close>: Python values to and from the Concise
  Binary Object Representation.
\<close>

section \<open>Python values\<close>

text \<open>
  A float is its IEEE 754 double bit pattern; a str is its list of code points; a dict is the list of its
  items in the order in which \<open>items()\<close> gives them. \<open>VSimple\<close> is the class \<open>CBORSimpleValue\<close>, \<open>VBreak\<close>
  the object \<open>break_marker\<close>.
\<close>

datatype pyval =
    VInt int | VBytes bytes | VBytearray bytes | VStr "nat list" | VList "pyval list"
  | VDict "(pyval \<times> pyval) list" | VBool bool | VNone | VFloat "64 word" | VSimple nat | VBreak

definition float_exponent :: "64 word \<Rightarrow> nat" where
  "float_exponent w = unat w div 2 ^ 52 mod 2 ^ 11"

definition float_mantissa :: "64 word \<Rightarrow> nat" where
  "float_mantissa w = unat w mod 2 ^ 52"

definition float_negative :: "64 word \<Rightarrow> bool" where
  "float_negative w \<longleftrightarrow> unat w \<ge> 2 ^ 63"

definition isnan :: "64 word \<Rightarrow> bool" where
  "isnan w \<longleftrightarrow> float_exponent w = 2047 \<and> float_mantissa w \<noteq> 0"

definition isinf :: "64 word \<Rightarrow> bool" where
  "isinf w \<longleftrightarrow> float_exponent w = 2047 \<and> float_mantissa w = 0"

section \<open>The encoder\<close>

text \<open>What has been written to the stream, and the exception that ended the writing, if any.\<close>

type_synonym written = "bytes \<times> exn option"

definition wr :: "bytes result \<Rightarrow> written" where
  "wr r = (case r of Inl e \<Rightarrow> ([], Some e) | Inr bs \<Rightarrow> (bs, None))"

definition wthen :: "written \<Rightarrow> written \<Rightarrow> written" where
  "wthen a b = (if snd a = None then (fst a @ fst b, snd b) else a)"

fun wseq :: "written list \<Rightarrow> written" where
  "wseq [] = ([], None)"
| "wseq (w # ws) = wthen w (wseq ws)"

definition encode_length :: "byte \<Rightarrow> nat \<Rightarrow> bytes result" where
  "encode_length major_tag len =
     (if len < 24 then Inr [major_tag OR of_nat len]
      else if len < 256 then rbind (struct_pack 1 len) (\<lambda>bs. Inr ((major_tag OR 24) # bs))
      else if len < 65536 then rbind (struct_pack 2 len) (\<lambda>bs. Inr ((major_tag OR 25) # bs))
      else if len < 4294967296 then rbind (struct_pack 4 len) (\<lambda>bs. Inr ((major_tag OR 26) # bs))
      else rbind (struct_pack 8 len) (\<lambda>bs. Inr ((major_tag OR 27) # bs)))"

definition encode_float :: "64 word \<Rightarrow> written" where
  "encode_float value =
     wr (Inr (if isnan value then [0xf9, 0x7e, 0x00]
                 else if isinf value then (if \<not> float_negative value then [0xf9, 0x7c, 0x00] else [0xf9, 0xfc, 0x00])
                 else 0xFB # be_bytes 8 (unat value)))"

definition encode_bytestring :: "bytes \<Rightarrow> written" where
  "encode_bytestring value = wr (rbind (encode_length 0x40 (length value)) (\<lambda>h. Inr (h @ value)))"

definition encode_bytearray :: "bytes \<Rightarrow> written" where
  "encode_bytearray value = encode_bytestring value"

definition encode_string :: "nat list \<Rightarrow> written" where
  "encode_string value =
     wr (rbind (utf8_encode value) (\<lambda>encoded.
       rbind (encode_length 0x60 (length encoded)) (\<lambda>h. Inr (h @ encoded))))"

text \<open>The loop of \<open>encode_int\<close> that takes a big integer apart.\<close>

function int_values :: "nat \<Rightarrow> bytes \<Rightarrow> bytes" where
  "int_values v values = (if v > 0 then int_values (v div 256) (of_nat (v mod 256) # values) else values)"
  by pat_completeness auto
termination by (relation "measure fst") auto

declare int_values.simps [simp del]

text \<open>\<open>encode_semantic\<close> is only called with a byte string.\<close>

definition encode_semantic :: "nat \<Rightarrow> bytes \<Rightarrow> written" where
  "encode_semantic tag value = wthen (wr (encode_length 0xC0 tag)) (encode_bytestring value)"

definition encode_int :: "int \<Rightarrow> written" where
  "encode_int value =
     (if value \<ge> 18446744073709551616 \<or> value < -18446744073709551616 then
        let (major_type, value) = (if value \<ge> 0 then (2, value) else (3, - value - 1))
        in encode_semantic major_type (int_values (nat value) [])
      else if value \<ge> 0 then wr (encode_length 0 (nat value))
      else wr (encode_length 0x20 (nat (\<bar>value\<bar> - 1))))"

definition encode_boolean :: "bool \<Rightarrow> written" where
  "encode_boolean value = wr (Inr (if value then [0xf5] else [0xf4]))"

definition encode_none :: written where
  "encode_none = wr (Inr [0xf6])"

text \<open>\<open>encode\<close> looks the type up in \<open>cbor_encoders\<close>; a type that is not there is a KeyError.\<close>

lemma size_items [termination_simp]:
  "p \<in> set items \<Longrightarrow> size (fst p) < Suc (size_list (size_prod size size) items)"
  "p \<in> set items \<Longrightarrow> size (snd p) < Suc (size_list (size_prod size size) items)"
  by (induction items) auto

fun cbor_encode :: "pyval \<Rightarrow> written" where
  "cbor_encode (VBytes value) = encode_bytestring value"
| "cbor_encode (VBytearray value) = encode_bytearray value"
| "cbor_encode (VStr value) = encode_string value"
| "cbor_encode (VInt value) = encode_int value"
| "cbor_encode (VFloat value) = encode_float value"
| "cbor_encode (VBool value) = encode_boolean value"
| "cbor_encode VNone = encode_none"
| "cbor_encode (VList value) = wthen (wr (encode_length 0x80 (length value))) (wseq (map cbor_encode value))"
| "cbor_encode (VDict value) =
     wthen (wr (encode_length 0xA0 (length value))) (wseq (map (\<lambda>p. wthen (cbor_encode (fst p)) (cbor_encode (snd p))) value))"
| "cbor_encode (VSimple value) = ([], Some KeyError)"
| "cbor_encode VBreak = ([], Some KeyError)"

definition dumps :: "pyval \<Rightarrow> bytes result" where
  "dumps obj = (case cbor_encode obj of (bs, None) \<Rightarrow> Inr bs | (_, Some e) \<Rightarrow> Inl e)"

section \<open>Dictionaries\<close>

text \<open>
  Keys are compared with \<open>==\<close>: numbers by value, whatever their type. Lists, dicts, bytearrays and
  \<open>CBORSimpleValue\<close> (which defines \<open>__eq__\<close> and no \<open>__hash__\<close>) are not hashable.
\<close>

fun hashable :: "pyval \<Rightarrow> bool" where
  "hashable (VBytearray bs) = False"
| "hashable (VList vs) = False"
| "hashable (VDict items) = False"
| "hashable (VSimple n) = False"
| "hashable _ = True"

definition float_is_int :: "64 word \<Rightarrow> int \<Rightarrow> bool" where
  "float_is_int w n =
     (let e = float_exponent w;
          m = (if e = 0 then float_mantissa w else float_mantissa w + 2 ^ 52);
          s = (if float_negative w then - int m else int m);
          x = max e 1
      in e \<noteq> 2047 \<and> (if x \<ge> 1075 then s * 2 ^ (x - 1075) = n else s = n * 2 ^ (1075 - x)))"

definition float_zero :: "64 word \<Rightarrow> bool" where
  "float_zero w \<longleftrightarrow> float_exponent w = 0 \<and> float_mantissa w = 0"

fun int_of :: "pyval \<Rightarrow> int option" where
  "int_of (VInt n) = Some n"
| "int_of (VBool b) = Some (of_bool b)"
| "int_of _ = None"

definition key_eq :: "pyval \<Rightarrow> pyval \<Rightarrow> bool" where
  "key_eq a b =
     (case (a, b) of
        (VFloat x, VFloat y) \<Rightarrow> \<not> isnan x \<and> (x = y \<or> float_zero x \<and> float_zero y)
      | (VFloat x, _) \<Rightarrow> (case int_of b of Some n \<Rightarrow> float_is_int x n | None \<Rightarrow> False)
      | (_, VFloat y) \<Rightarrow> (case int_of a of Some n \<Rightarrow> float_is_int y n | None \<Rightarrow> False)
      | _ \<Rightarrow> (case (int_of a, int_of b) of (Some m, Some n) \<Rightarrow> m = n | (None, None) \<Rightarrow> a = b | _ \<Rightarrow> False))"

fun dict_update :: "(pyval \<times> pyval) list \<Rightarrow> pyval \<Rightarrow> pyval \<Rightarrow> (pyval \<times> pyval) list" where
  "dict_update [] k v = [(k, v)]"
| "dict_update ((k', v') # items) k v = (if key_eq k' k then (k', v) # items else (k', v') # dict_update items k v)"

definition dict_set :: "(pyval \<times> pyval) list \<Rightarrow> pyval \<Rightarrow> pyval \<Rightarrow> (pyval \<times> pyval) list result" where
  "dict_set dictionary key v = (if hashable key then Inr (dict_update dictionary key v) else Inl TypeError)"

section \<open>The decoder\<close>

text \<open>\<open>read\<close> takes bytes from the stream, which is the list of the bytes not read yet.\<close>

definition read_bytes :: "nat \<Rightarrow> bytes \<Rightarrow> (bytes \<times> bytes) result" where
  "read_bytes amount fp = (let data = take amount fp in if length data < amount then Inl CBORDecodeError else Inr (data, drop amount fp))"

definition decode_uint :: "nat \<Rightarrow> bool \<Rightarrow> bytes \<Rightarrow> (nat option \<times> bytes) result" where
  "decode_uint subtype allow_indefinite fp =
     (let number = (\<lambda>n. rbind (read_bytes n fp) (\<lambda>(data, fp). Inr (Some (be_value data), fp))) in
      if subtype < 24 then Inr (Some subtype, fp)
      else if subtype = 24 then number 1
      else if subtype = 25 then number 2
      else if subtype = 26 then number 4
      else if subtype = 27 then number 8
      else if subtype = 31 \<and> allow_indefinite then Inr (None, fp)
      else Inl CBORDecodeError)"

definition decode_negint :: "nat \<Rightarrow> bytes \<Rightarrow> (int \<times> bytes) result" where
  "decode_negint subtype fp =
     rbind (decode_uint subtype False fp) (\<lambda>(uint, fp). Inr (- int (the uint) - 1, fp))"

lemma read_bytes_Inr: "read_bytes n fp = Inr (data, fp') \<Longrightarrow> fp = data @ fp' \<and> length data = n"
  by (auto simp: read_bytes_def Let_def split: if_splits)

lemma decode_uint_Inr: "decode_uint subtype allow fp = Inr (u, fp') \<Longrightarrow> length fp' \<le> length fp"
  by (auto simp: decode_uint_def Let_def dest!: read_bytes_Inr split: if_splits)

text \<open>The loop over the chunks of a byte string of indefinite length.\<close>

function decode_chunks :: "bytes \<Rightarrow> bytes \<Rightarrow> (bytes \<times> bytes) result" where
  "decode_chunks buf fp =
     (case read_bytes 1 fp of
        Inl e \<Rightarrow> Inl e
      | Inr (data, fp1) \<Rightarrow>
          let initial_byte = hd data in
          if initial_byte = 255 then Inr (buf, fp1)
          else case decode_uint (unat (initial_byte AND 31)) False fp1 of
            Inl e \<Rightarrow> Inl e
          | Inr (len, fp2) \<Rightarrow> (case read_bytes (the len) fp2 of
              Inl e \<Rightarrow> Inl e
            | Inr (v, fp3) \<Rightarrow> decode_chunks (buf @ v) fp3))"
  by pat_completeness auto
termination
  by (relation "measure (length \<circ> snd)") (auto dest!: read_bytes_Inr decode_uint_Inr)

declare decode_chunks.simps [simp del]

text \<open>A byte string of indefinite length is a bytearray, any other one bytes.\<close>

definition decode_bytestring :: "nat \<Rightarrow> bytes \<Rightarrow> (pyval \<times> bytes) result" where
  "decode_bytestring subtype fp =
     rbind (decode_uint subtype True fp) (\<lambda>(len, fp).
       case len of
         None \<Rightarrow> rbind (decode_chunks [] fp) (\<lambda>(buf, fp). Inr (VBytearray buf, fp))
       | Some n \<Rightarrow> rbind (read_bytes n fp) (\<lambda>(data, fp). Inr (VBytes data, fp)))"

definition decode_string :: "nat \<Rightarrow> bytes \<Rightarrow> (pyval \<times> bytes) result" where
  "decode_string subtype fp =
     rbind (decode_bytestring subtype fp) (\<lambda>(v, fp).
       rbind (utf8_decode (case v of VBytes bs \<Rightarrow> bs | VBytearray bs \<Rightarrow> bs | _ \<Rightarrow> [])) (\<lambda>cs. Inr (VStr cs, fp)))"

text \<open>\<open>struct.unpack(">f", ...)\<close>: a single precision number as a double.\<close>

fun leading_bit :: "nat \<Rightarrow> nat" where
  "leading_bit m = (if m < 2 then 0 else Suc (leading_bit (m div 2)))"

declare leading_bit.simps [simp del]

definition widen :: "nat \<Rightarrow> 64 word" where
  "widen b =
     (let s = b div 2 ^ 31; e = b div 2 ^ 23 mod 2 ^ 8; m = b mod 2 ^ 23; k = leading_bit m in
      of_nat (s * 2 ^ 63 +
        (if e = 255 then 2047 * 2 ^ 52 + m * 2 ^ 29
         else if e > 0 then (e + 896) * 2 ^ 52 + m * 2 ^ 29
         else if m > 0 then (k + 874) * 2 ^ 52 + (m - 2 ^ k) * 2 ^ (52 - k)
         else 0)))"

definition decode_special :: "nat \<Rightarrow> bytes \<Rightarrow> (pyval \<times> bytes) result" where
  "decode_special subtype fp =
     (if subtype < 20 then Inr (VSimple subtype, fp)
      else if subtype = 20 then Inr (VBool False, fp)
      else if subtype = 21 then Inr (VBool True, fp)
      else if subtype = 22 then Inr (VNone, fp)
      else if subtype = 24 then rbind (read_bytes 1 fp) (\<lambda>(data, fp). Inr (VSimple (be_value data), fp))
      else if subtype = 25 then rbind (read_bytes 2 fp) (\<lambda>_. Inl NotImplementedError)
      else if subtype = 26 then rbind (read_bytes 4 fp) (\<lambda>(data, fp). Inr (VFloat (widen (be_value data)), fp))
      else if subtype = 27 then rbind (read_bytes 8 fp) (\<lambda>(data, fp). Inr (VFloat (of_nat (be_value data)), fp))
      else if subtype = 31 then Inr (VBreak, fp)
      else Inl KeyError)"

text \<open>
  Arrays and maps decode values, which may be arrays and maps: \<open>d\<close> is the decoder for these. It returns
  None when the bound on the nesting was too small; \<open>loads_total\<close> shows that it never does.
\<close>

type_synonym 'a dec = "('a \<times> bytes) result option"

definition dbind :: "'a dec \<Rightarrow> ('a \<Rightarrow> bytes \<Rightarrow> 'b dec) \<Rightarrow> 'b dec" where
  "dbind m f = (case m of None \<Rightarrow> None | Some (Inl e) \<Rightarrow> Some (Inl e) | Some (Inr (v, fp)) \<Rightarrow> f v fp)"

definition lift :: "'a result \<Rightarrow> bytes \<Rightarrow> 'a dec" where
  "lift r fp = Some (rbind r (\<lambda>v. Inr (v, fp)))"

fun array_items :: "(bytes \<Rightarrow> pyval dec) \<Rightarrow> nat \<Rightarrow> bytes \<Rightarrow> pyval list dec" where
  "array_items d 0 fp = Some (Inr ([], fp))"
| "array_items d (Suc n) fp =
     dbind (d fp) (\<lambda>item fp. dbind (array_items d n fp) (\<lambda>items fp. Some (Inr (item # items, fp))))"

fun array_items_until :: "(bytes \<Rightarrow> pyval dec) \<Rightarrow> nat \<Rightarrow> bytes \<Rightarrow> pyval list dec" where
  "array_items_until d 0 fp = None"
| "array_items_until d (Suc fuel) fp =
     dbind (d fp) (\<lambda>v fp.
       if v = VBreak then Some (Inr ([], fp))
       else dbind (array_items_until d fuel fp) (\<lambda>items fp. Some (Inr (v # items, fp))))"

fun map_items :: "(bytes \<Rightarrow> pyval dec) \<Rightarrow> nat \<Rightarrow> (pyval \<times> pyval) list \<Rightarrow> bytes \<Rightarrow> (pyval \<times> pyval) list dec" where
  "map_items d 0 dictionary fp = Some (Inr (dictionary, fp))"
| "map_items d (Suc n) dictionary fp =
     dbind (d fp) (\<lambda>key fp. dbind (d fp) (\<lambda>v fp.
       dbind (lift (dict_set dictionary key v) fp) (\<lambda>dictionary fp. map_items d n dictionary fp)))"

fun map_items_until :: "(bytes \<Rightarrow> pyval dec) \<Rightarrow> nat \<Rightarrow> (pyval \<times> pyval) list \<Rightarrow> bytes \<Rightarrow> (pyval \<times> pyval) list dec" where
  "map_items_until d 0 dictionary fp = None"
| "map_items_until d (Suc fuel) dictionary fp =
     dbind (d fp) (\<lambda>key fp.
       if key = VBreak then Some (Inr (dictionary, fp))
       else dbind (d fp) (\<lambda>v fp.
         dbind (lift (dict_set dictionary key v) fp) (\<lambda>dictionary fp. map_items_until d fuel dictionary fp)))"

declare array_items_until.simps(2) [simp del] map_items_until.simps(2) [simp del]

definition decode_array :: "(bytes \<Rightarrow> pyval dec) \<Rightarrow> nat \<Rightarrow> bytes \<Rightarrow> pyval dec" where
  "decode_array d subtype fp =
     dbind (Some (decode_uint subtype True fp)) (\<lambda>len fp.
       dbind (case len of None \<Rightarrow> array_items_until d (Suc (length fp)) fp | Some n \<Rightarrow> array_items d n fp)
         (\<lambda>items fp. Some (Inr (VList items, fp))))"

definition decode_map :: "(bytes \<Rightarrow> pyval dec) \<Rightarrow> nat \<Rightarrow> bytes \<Rightarrow> pyval dec" where
  "decode_map d subtype fp =
     dbind (Some (decode_uint subtype True fp)) (\<lambda>len fp.
       dbind (case len of None \<Rightarrow> map_items_until d (Suc (length fp)) [] fp | Some n \<Rightarrow> map_items d n [] fp)
         (\<lambda>items fp. Some (Inr (VDict items, fp))))"

text \<open>\<open>major_decoders\<close>: there is none for major type 6.\<close>

definition major_decoder :: "(bytes \<Rightarrow> pyval dec) \<Rightarrow> nat \<Rightarrow> nat \<Rightarrow> bytes \<Rightarrow> pyval dec" where
  "major_decoder d major_type subtype fp =
     (if major_type = 0 then Some (rbind (decode_uint subtype False fp) (\<lambda>(n, fp). Inr (VInt (int (the n)), fp)))
      else if major_type = 1 then Some (rbind (decode_negint subtype fp) (\<lambda>(n, fp). Inr (VInt n, fp)))
      else if major_type = 2 then Some (decode_bytestring subtype fp)
      else if major_type = 3 then Some (decode_string subtype fp)
      else if major_type = 4 then decode_array d subtype fp
      else if major_type = 5 then decode_map d subtype fp
      else Some (decode_special subtype fp))"

text \<open>Every exception of the decoder proper becomes a CBORDecodeError; the lookup of it is outside the try.\<close>

fun cbor_decode :: "nat \<Rightarrow> bytes \<Rightarrow> pyval dec" where
  "cbor_decode 0 fp = None"
| "cbor_decode (Suc depth) fp =
     (case fp of
        [] \<Rightarrow> Some (Inl CBORDecodeError)
      | initial_byte # fp \<Rightarrow>
          let major_type = unat (drop_bit 5 initial_byte); subtype = unat (initial_byte AND 31) in
          if major_type = 6 then Some (Inl KeyError)
          else case major_decoder (cbor_decode depth) major_type subtype fp of
            Some (Inl e) \<Rightarrow> Some (Inl CBORDecodeError)
          | r \<Rightarrow> r)"

definition loads :: "bytes \<Rightarrow> pyval result option" where
  "loads payload = map_option (map_sum id fst) (cbor_decode (Suc (length payload)) payload)"

section \<open>The decoder ends\<close>

text \<open>A decoder of values takes at least one byte, the loops over values none or more.\<close>

definition shrinks :: "(bytes \<Rightarrow> 'a dec) \<Rightarrow> bool" where
  "shrinks d \<longleftrightarrow> (\<forall>fp v fp'. d fp = Some (Inr (v, fp')) \<longrightarrow> length fp' < length fp)"

definition total_below :: "nat \<Rightarrow> (bytes \<Rightarrow> 'a dec) \<Rightarrow> bool" where
  "total_below k d \<longleftrightarrow> (\<forall>fp. length fp < k \<longrightarrow> d fp \<noteq> None)"

lemma shrinksD: "shrinks d \<Longrightarrow> d fp = Some (Inr (v, fp')) \<Longrightarrow> length fp' < length fp"
  by (auto simp: shrinks_def)

lemma dbind_eq_Some_Inr [simp]:
  "dbind m f = Some (Inr r) \<longleftrightarrow> (\<exists>v fp. m = Some (Inr (v, fp)) \<and> f v fp = Some (Inr r))"
  by (auto simp: dbind_def split: option.splits sum.splits prod.splits)

lemma dbind_simps [simp]:
  "dbind (Some (Inr (v, fp))) f = f v fp" "dbind (Some (Inl e)) f = Some (Inl e)" "dbind None f = None"
  by (simp_all add: dbind_def)

lemma dbind_eq_None: "dbind m f = None \<longleftrightarrow> m = None \<or> (\<exists>v fp. m = Some (Inr (v, fp)) \<and> f v fp = None)"
  by (auto simp: dbind_def split: option.splits sum.splits prod.splits)

lemma lift_eq [simp]: "lift r fp = Some (Inr (v, fp')) \<longleftrightarrow> r = Inr v \<and> fp' = fp" "lift r fp \<noteq> None"
  by (auto simp: lift_def)

lemma decode_chunks_Inr: "decode_chunks buf fp = Inr (v, fp') \<Longrightarrow> length fp' \<le> length fp"
proof (induction buf fp arbitrary: v fp' rule: decode_chunks.induct)
  case (1 buf fp)
  note e = "1.prems" [unfolded decode_chunks.simps [of buf fp]]
  obtain data fp1 where r1: "read_bytes 1 fp = Inr (data, fp1)" using e by (cases "read_bytes 1 fp") auto
  have l1: "length fp1 \<le> length fp" using read_bytes_Inr [OF r1] by simp
  show ?case
  proof (cases "hd data = 255")
    case True
    then show ?thesis using e r1 l1 by simp
  next
    case False
    obtain len fp2 where r2: "decode_uint (unat (hd data AND 31)) False fp1 = Inr (len, fp2)"
      using e r1 False by (cases "decode_uint (unat (hd data AND 31)) False fp1") (auto simp: Let_def)
    obtain w fp3 where r3: "read_bytes (the len) fp2 = Inr (w, fp3)"
      using e r1 False r2 by (cases "read_bytes (the len) fp2") (auto simp: Let_def)
    have "decode_chunks (buf @ w) fp3 = Inr (v, fp')" using e r1 False r2 r3 by (simp add: Let_def)
    then have "length fp' \<le> length fp3"
      using "1.IH" [OF r1 refl refl False r2 refl r3 refl] by blast
    then show ?thesis using l1 decode_uint_Inr [OF r2] read_bytes_Inr [OF r3] by simp
  qed
qed

lemma decode_bytestring_Inr: "decode_bytestring subtype fp = Inr (v, fp') \<Longrightarrow> length fp' \<le> length fp"
  by (fastforce simp: decode_bytestring_def dest!: decode_uint_Inr decode_chunks_Inr read_bytes_Inr split: option.splits)

lemma decode_string_Inr: "decode_string subtype fp = Inr (v, fp') \<Longrightarrow> length fp' \<le> length fp"
  by (auto simp: decode_string_def dest!: decode_bytestring_Inr)

lemma decode_special_Inr: "decode_special subtype fp = Inr (v, fp') \<Longrightarrow> length fp' \<le> length fp"
  by (auto simp: decode_special_def dest!: read_bytes_Inr split: if_splits)

lemma decode_negint_Inr: "decode_negint subtype fp = Inr (v, fp') \<Longrightarrow> length fp' \<le> length fp"
  by (auto simp: decode_negint_def dest!: decode_uint_Inr)

lemma array_items_length:
  "shrinks d \<Longrightarrow> array_items d n fp = Some (Inr (vs, fp')) \<Longrightarrow> length fp' \<le> length fp"
proof (induction n arbitrary: fp vs)
  case (Suc n)
  from Suc.prems obtain v vs' fp1 where a: "d fp = Some (Inr (v, fp1))" "array_items d n fp1 = Some (Inr (vs', fp'))" by auto
  show ?case using shrinksD [OF Suc.prems(1) a(1)] Suc.IH [OF Suc.prems(1) a(2)] by simp
qed simp

lemma array_items_until_length:
  "shrinks d \<Longrightarrow> array_items_until d n fp = Some (Inr (vs, fp')) \<Longrightarrow> length fp' \<le> length fp"
proof (induction n arbitrary: fp vs)
  case (Suc n)
  from Suc.prems obtain v fp1 where a: "d fp = Some (Inr (v, fp1))" "fp1 = fp' \<or> (\<exists>vs'. array_items_until d n fp1 = Some (Inr (vs', fp')))"
    by (auto simp: array_items_until.simps split: if_splits)
  show ?case using a(2) shrinksD [OF Suc.prems(1) a(1)] Suc.IH [OF Suc.prems(1)] by fastforce
qed simp

lemma map_items_length:
  "shrinks d \<Longrightarrow> map_items d n kvs fp = Some (Inr (vs, fp')) \<Longrightarrow> length fp' \<le> length fp"
proof (induction n arbitrary: fp kvs)
  case (Suc n)
  from Suc.prems obtain k v kvs' fp1 fp2 where a: "d fp = Some (Inr (k, fp1))" "d fp1 = Some (Inr (v, fp2))"
    "map_items d n kvs' fp2 = Some (Inr (vs, fp'))" by auto
  show ?case using shrinksD [OF Suc.prems(1) a(1)] shrinksD [OF Suc.prems(1) a(2)] Suc.IH [OF Suc.prems(1) a(3)] by simp
qed simp

lemma map_items_until_length:
  "shrinks d \<Longrightarrow> map_items_until d n kvs fp = Some (Inr (vs, fp')) \<Longrightarrow> length fp' \<le> length fp"
proof (induction n arbitrary: fp kvs)
  case (Suc n)
  from Suc.prems obtain k fp1 where a: "d fp = Some (Inr (k, fp1))" and
    b: "fp1 = fp' \<or> (\<exists>v fp2 kvs'. d fp1 = Some (Inr (v, fp2)) \<and> map_items_until d n kvs' fp2 = Some (Inr (vs, fp')))"
    by (auto simp: map_items_until.simps split: if_splits) blast+
  from b show ?case
  proof
    assume "fp1 = fp'" then show ?thesis using shrinksD [OF Suc.prems(1) a] by simp
  next
    assume "\<exists>v fp2 kvs'. d fp1 = Some (Inr (v, fp2)) \<and> map_items_until d n kvs' fp2 = Some (Inr (vs, fp'))"
    then obtain v fp2 kvs' where c: "d fp1 = Some (Inr (v, fp2))" "map_items_until d n kvs' fp2 = Some (Inr (vs, fp'))" by blast
    show ?thesis using shrinksD [OF Suc.prems(1) a] shrinksD [OF Suc.prems(1) c(1)] Suc.IH [OF Suc.prems(1) c(2)] by simp
  qed
qed simp

lemma major_decoder_length:
  assumes d: "shrinks d" and m: "major_decoder d major subtype fp = Some (Inr (v, fp'))"
  shows "length fp' \<le> length fp"
proof -
  have "length fp' \<le> length fp" if "decode_array d subtype fp = Some (Inr (v, fp'))"
    using that
    by (auto simp: decode_array_def dest!: decode_uint_Inr array_items_length [OF d] array_items_until_length [OF d] split: option.splits)
  moreover have "length fp' \<le> length fp" if "decode_map d subtype fp = Some (Inr (v, fp'))"
    using that
    by (auto simp: decode_map_def dest!: decode_uint_Inr map_items_length [OF d] map_items_until_length [OF d] split: option.splits)
  ultimately show ?thesis
    using m
    by (auto simp: major_decoder_def dest!: decode_uint_Inr decode_negint_Inr decode_bytestring_Inr decode_string_Inr decode_special_Inr split: if_splits)
qed

lemma decode_shrinks: "shrinks (cbor_decode depth)"
proof (induction depth)
  case (Suc depth)
  show ?case unfolding shrinks_def
  proof (intro allI impI)
    fix fp v fp'
    assume a: "cbor_decode (Suc depth) fp = Some (Inr (v, fp'))"
    then obtain b r where r: "fp = b # r" by (auto split: list.splits)
    then have "major_decoder (cbor_decode depth) (unat (drop_bit 5 b)) (unat (b AND 31)) r = Some (Inr (v, fp'))"
      using a by (auto simp: Let_def split: if_splits option.splits sum.splits)
    then show "length fp' < length fp" using major_decoder_length [OF Suc.IH] r by fastforce
  qed
qed (simp add: shrinks_def)

text \<open>Enough depth: more than there are bytes.\<close>

lemma array_items_total:
  "shrinks d \<Longrightarrow> total_below k d \<Longrightarrow> length fp < k \<Longrightarrow> array_items d n fp \<noteq> None"
proof (induction n arbitrary: fp)
  case (Suc n)
  then show ?case using shrinksD [OF Suc.prems(1), of fp] by (auto simp: dbind_eq_None total_below_def)
qed simp

lemma array_items_until_total:
  "shrinks d \<Longrightarrow> total_below k d \<Longrightarrow> length fp < k \<Longrightarrow> length fp < fuel \<Longrightarrow> array_items_until d fuel fp \<noteq> None"
proof (induction fuel arbitrary: fp)
  case (Suc fuel)
  show ?case
  proof
    assume "array_items_until d (Suc fuel) fp = None"
    then obtain v fp1 where a: "d fp = Some (Inr (v, fp1))" "array_items_until d fuel fp1 = None"
      using Suc.prems by (auto simp: dbind_eq_None total_below_def array_items_until.simps split: if_splits)
    then show False using Suc.IH [OF Suc.prems(1,2), of fp1] shrinksD [OF Suc.prems(1) a(1)] Suc.prems(3,4) by simp
  qed
qed simp

lemma map_items_total:
  "shrinks d \<Longrightarrow> total_below k d \<Longrightarrow> length fp < k \<Longrightarrow> map_items d n kvs fp \<noteq> None"
proof (induction n arbitrary: fp kvs)
  case (Suc n)
  show ?case
  proof
    assume "map_items d (Suc n) kvs fp = None"
    then obtain x fp1 where a: "d fp = Some (Inr (x, fp1))" "d fp1 = None \<or> (\<exists>v fp2 kvs'. d fp1 = Some (Inr (v, fp2)) \<and> map_items d n kvs' fp2 = None)"
      using Suc.prems(2,3) by (auto simp: dbind_eq_None total_below_def) blast+
    have l: "length fp1 < k" using shrinksD [OF Suc.prems(1) a(1)] Suc.prems(3) by simp
    then obtain v fp2 kvs' where b: "d fp1 = Some (Inr (v, fp2))" "map_items d n kvs' fp2 = None"
      using a(2) Suc.prems(2) by (auto simp: total_below_def)
    show False using Suc.IH [OF Suc.prems(1,2), of fp2 kvs'] shrinksD [OF Suc.prems(1) b(1)] b(2) l by simp
  qed
qed simp

lemma map_items_until_total:
  "shrinks d \<Longrightarrow> total_below k d \<Longrightarrow> length fp < k \<Longrightarrow> length fp < fuel \<Longrightarrow> map_items_until d fuel kvs fp \<noteq> None"
proof (induction fuel arbitrary: fp kvs)
  case (Suc fuel)
  show ?case
  proof
    assume "map_items_until d (Suc fuel) kvs fp = None"
    then obtain x fp1 where a: "d fp = Some (Inr (x, fp1))" "d fp1 = None \<or> (\<exists>v fp2 kvs'. d fp1 = Some (Inr (v, fp2)) \<and> map_items_until d fuel kvs' fp2 = None)"
      using Suc.prems(2,3) by (auto simp: dbind_eq_None total_below_def map_items_until.simps split: if_splits) blast+
    have l: "length fp1 < k" "length fp1 < fuel" using shrinksD [OF Suc.prems(1) a(1)] Suc.prems(3,4) by simp_all
    then obtain v fp2 kvs' where b: "d fp1 = Some (Inr (v, fp2))" "map_items_until d fuel kvs' fp2 = None"
      using a(2) Suc.prems(2) by (auto simp: total_below_def)
    show False using Suc.IH [OF Suc.prems(1,2), of fp2 kvs'] shrinksD [OF Suc.prems(1) b(1)] b(2) l by simp
  qed
qed simp

lemma decode_total: "total_below depth (cbor_decode depth)"
proof (induction depth)
  case (Suc depth)
  note sh = decode_shrinks [of depth]
  have A: "decode_array (cbor_decode depth) subtype fp \<noteq> None" if "length fp < depth" for subtype fp
    using that array_items_total [OF sh Suc] array_items_until_total [OF sh Suc]
    by (auto simp: decode_array_def dbind_eq_None dest!: decode_uint_Inr split: option.splits)
  have M: "decode_map (cbor_decode depth) subtype fp \<noteq> None" if "length fp < depth" for subtype fp
    using that map_items_total [OF sh Suc] map_items_until_total [OF sh Suc]
    by (auto simp: decode_map_def dbind_eq_None dest!: decode_uint_Inr split: option.splits)
  have MD: "(major_decoder (cbor_decode depth) major subtype fp = None) = False" if "length fp < depth" for major subtype fp
    using A [OF that] M [OF that] by (auto simp: major_decoder_def)
  have "cbor_decode (Suc depth) fp \<noteq> None" if "length fp < Suc depth" for fp
    using that by (cases fp) (auto simp: Let_def MD split: option.splits sum.splits)
  then show ?case by (simp add: total_below_def)
qed (simp add: total_below_def)

lemma decode_error:
  "cbor_decode depth fp = Some (Inl e) \<Longrightarrow>
     e = (case fp of b # r \<Rightarrow> if unat (drop_bit 5 b) = 6 then KeyError else CBORDecodeError | [] \<Rightarrow> CBORDecodeError)"
  by (cases depth) (auto simp: Let_def split: list.splits option.splits sum.splits if_splits)

section \<open>Reading back what was written\<close>

text \<open>The values that the encoder and the decoder agree on, and what they are read back as.\<close>

fun encodable :: "pyval \<Rightarrow> bool" where
  "encodable (VInt n) \<longleftrightarrow> -18446744073709551616 \<le> n \<and> n < 18446744073709551616"
| "encodable (VBytes bs) \<longleftrightarrow> length bs < 2 ^ 64"
| "encodable (VBytearray bs) \<longleftrightarrow> length bs < 2 ^ 64"
| "encodable (VStr cs) \<longleftrightarrow> (case utf8_encode cs of Inl e \<Rightarrow> False | Inr bs \<Rightarrow> length bs < 2 ^ 64)"
| "encodable (VList vs) \<longleftrightarrow> length vs < 2 ^ 64 \<and> (\<forall>v\<in>set vs. encodable v)"
| "encodable (VDict items) \<longleftrightarrow> length items < 2 ^ 64 \<and>
     (\<forall>p\<in>set items. hashable (fst p) \<and> encodable (fst p) \<and> encodable (snd p)) \<and>
     sorted_wrt (\<lambda>a b. \<not> key_eq a b) (map fst items)"
| "encodable (VBool b) \<longleftrightarrow> True"
| "encodable VNone \<longleftrightarrow> True"
| "encodable (VFloat w) \<longleftrightarrow> \<not> isnan w \<and> \<not> isinf w"
| "encodable (VSimple n) \<longleftrightarrow> False"
| "encodable VBreak \<longleftrightarrow> False"

fun read_back :: "pyval \<Rightarrow> pyval" where
  "read_back (VBytearray bs) = VBytes bs"
| "read_back (VList vs) = VList (map read_back vs)"
| "read_back (VDict items) = VDict (map (\<lambda>p. (read_back (fst p), read_back (snd p))) items)"
| "read_back v = v"

text \<open>A bound on the nesting of a value.\<close>

fun nesting :: "pyval \<Rightarrow> nat" where
  "nesting (VList vs) = Suc (sum_list (map nesting vs))"
| "nesting (VDict items) = Suc (sum_list (map (\<lambda>p. nesting (fst p) + nesting (snd p)) items))"
| "nesting v = 0"

lemma read_back_key: "hashable k \<Longrightarrow> read_back k = k"
  by (cases k) auto

lemma head_byte:
  "\<forall>t\<in>set [0, 32, 64, 96, 128, 160 :: byte]. \<forall>k\<in>set [0..<28].
     unat ((t OR of_nat k) AND 31) = k \<and> unat (drop_bit 5 (t OR of_nat k)) = unat t div 32"
  by code_simp

lemma read_bytes_append: "length bs = n \<Longrightarrow> read_bytes n (bs @ rest) = Inr (bs, rest)"
  by (auto simp: read_bytes_def Let_def)

text \<open>The first byte of a value has the major type and the subtype, and the subtype tells the length.\<close>

lemma encode_head:
  assumes n: "n < 2 ^ 64" and t: "t \<in> set [0, 32, 64, 96, 128, 160 :: byte]"
  obtains h where "encode_length t n = Inr h" "h \<noteq> []"
    "\<And>depth rest. cbor_decode (Suc depth) (h @ rest) =
       (case major_decoder (cbor_decode depth) (unat t div 32) (unat (hd h AND 31)) (tl h @ rest) of
          Some (Inl e) \<Rightarrow> Some (Inl CBORDecodeError) | r \<Rightarrow> r)"
    "\<And>allow rest. decode_uint (unat (hd h AND 31)) allow (tl h @ rest) = Inr (Some n, rest)"
proof -
  have hb: "unat ((t OR of_nat k) AND 31) = k" "unat (drop_bit 5 (t OR of_nat k)) = unat t div 32" if "k < 28" for k
    using head_byte t that by auto
  have m6: "unat t div 32 \<noteq> 6" using t by auto
  note goal = that
  have C: thesis if "k < 28" "encode_length t n = Inr ((t OR of_nat k) # bs)"
    "\<And>allow rest. decode_uint k allow (bs @ rest) = Inr (Some n, rest)" for k bs
    by (rule goal [OF that(2)]) (use hb [OF that(1)] m6 that(3) in \<open>simp_all add: Let_def\<close>)
  have D: thesis if "k \<in> {24, 25, 26, 27}" "b = (if k = 24 then 1 else if k = 25 then 2 else if k = 26 then 4 else 8)"
    "encode_length t n = rbind (struct_pack b n) (\<lambda>bs. Inr ((t OR of_nat k) # bs))" "n < 256 ^ b" for k b
  proof (rule C [of k "be_bytes b n"])
    show "k < 28" using that(1) by auto
    show "encode_length t n = Inr ((t OR of_nat k) # be_bytes b n)" using that(3,4) by (simp add: struct_pack_def)
    fix allow rest
    have "read_bytes b (be_bytes b n @ rest) = Inr (be_bytes b n, rest)" by (simp add: read_bytes_append)
    then show "decode_uint k allow (be_bytes b n @ rest) = Inr (Some n, rest)"
      using that(1,2,4) by (auto simp: decode_uint_def Let_def be_value_bytes simp del: be_bytes.simps One_nat_def)
  qed
  consider "n < 24" | "24 \<le> n" "n < 256" | "256 \<le> n" "n < 65536" | "65536 \<le> n" "n < 4294967296" | "4294967296 \<le> n" by linarith
  then show thesis
  proof cases
    case 1
    then show thesis by (intro C [of n "[]"]) (simp_all add: encode_length_def decode_uint_def Let_def)
  next
    case 2
    then show thesis by (intro D [of 24 1]) (simp_all add: encode_length_def)
  next
    case 3
    then show thesis by (intro D [of 25 2]) (simp_all add: encode_length_def)
  next
    case 4
    then show thesis by (intro D [of 26 4]) (simp_all add: encode_length_def)
  next
    case 5
    then show thesis using n by (intro D [of 27 8]) (simp_all add: encode_length_def)
  qed
qed


text \<open>The loops read back a sequence of values.\<close>

lemma wseq_ok: "(\<And>w. w \<in> set ws \<Longrightarrow> snd w = None) \<Longrightarrow> wseq ws = (concat (map fst ws), None)"
  by (induction ws) (auto simp: wthen_def)

lemma array_items_back:
  assumes "\<And>x rest. x \<in> set xs \<Longrightarrow> d (f x @ rest) = Some (Inr (g x, rest))"
  shows "array_items d (length xs) (concat (map f xs) @ rest) = Some (Inr (map g xs, rest))"
  using assms by (induction xs) auto

lemma dict_update_new: "(\<And>p. p \<in> set items \<Longrightarrow> \<not> key_eq (fst p) k) \<Longrightarrow> dict_update items k v = items @ [(k, v)]"
  by (induction items) fastforce+

lemma map_items_back:
  assumes "\<And>p rest. p \<in> set ps \<Longrightarrow> d (f p @ rest) = Some (Inr (fst p, rest)) \<and> hashable (fst p)"
    and "\<And>p rest. p \<in> set ps \<Longrightarrow> d (f' p @ rest) = Some (Inr (g p, rest))"
    and "sorted_wrt (\<lambda>a b. \<not> key_eq a b) (map fst done_items @ map fst ps)"
  shows "map_items d (length ps) done_items (concat (map (\<lambda>p. f p @ f' p) ps) @ rest) =
    Some (Inr (done_items @ map (\<lambda>p. (fst p, g p)) ps, rest))"
  using assms
proof (induction ps arbitrary: done_items)
  case (Cons p ps)
  have new: "dict_set done_items (fst p) (g p) = Inr (done_items @ [(fst p, g p)])"
    using Cons.prems(1,3) by (auto simp: dict_set_def sorted_wrt_append intro: dict_update_new)
  have "map_items d (length ps) (done_items @ [(fst p, g p)]) (concat (map (\<lambda>p. f p @ f' p) ps) @ rest) =
    Some (Inr ((done_items @ [(fst p, g p)]) @ map (\<lambda>p. (fst p, g p)) ps, rest))"
    by (rule Cons.IH) (use Cons.prems in auto)
  then show ?case using Cons.prems(1,2) new by (simp add: lift_def)
qed simp

definition reads_back :: "pyval \<Rightarrow> bool" where
  "reads_back v \<longleftrightarrow> snd (cbor_encode v) = None \<and> nesting v \<le> length (fst (cbor_encode v)) \<and>
     (\<forall>depth rest. nesting v \<le> depth \<longrightarrow> cbor_decode (Suc depth) (fst (cbor_encode v) @ rest) = Some (Inr (read_back v, rest)))"

lemma reads_backD:
  assumes "reads_back v"
  shows "snd (cbor_encode v) = None" "nesting v \<le> length (fst (cbor_encode v))"
    "nesting v \<le> depth \<Longrightarrow> cbor_decode (Suc depth) (fst (cbor_encode v) @ rest) = Some (Inr (read_back v, rest))"
  using assms unfolding reads_back_def by blast+

text \<open>A value that is a head and a body, with nothing nested in it.\<close>

lemma reads_back_flat:
  assumes n: "n < 2 ^ 64" and t: "t \<in> set [0, 32, 64, 96, 128, 160 :: byte]"
    and e: "\<And>h. encode_length t n = Inr h \<Longrightarrow> cbor_encode v = (h @ body, None)" and z: "nesting v = 0"
    and d: "\<And>s depth rest fp. (\<And>allow. decode_uint s allow fp = Inr (Some n, body @ rest)) \<Longrightarrow>
      major_decoder (cbor_decode depth) (unat t div 32) s fp = Some (Inr (read_back v, rest))"
  shows "reads_back v"
proof -
  obtain h where h: "encode_length t n = Inr h" "h \<noteq> []"
    "\<And>depth rest. cbor_decode (Suc depth) (h @ rest) =
       (case major_decoder (cbor_decode depth) (unat t div 32) (unat (hd h AND 31)) (tl h @ rest) of
          Some (Inl e) \<Rightarrow> Some (Inl CBORDecodeError) | r \<Rightarrow> r)"
    "\<And>allow rest. decode_uint (unat (hd h AND 31)) allow (tl h @ rest) = Inr (Some n, rest)"
    using encode_head [OF n t] by auto
  have "cbor_decode (Suc depth) (h @ body @ rest) = Some (Inr (read_back v, rest))" for depth rest
    unfolding h(3) using d [OF h(4)] by simp
  then show ?thesis using e [OF h(1)] z h(2) by (simp add: reads_back_def)
qed

lemma encodable_reads_back: "encodable v \<Longrightarrow> reads_back v"
proof (induction v rule: cbor_encode.induct)
  case (1 bs)
  then show ?case
    by (intro reads_back_flat [of "length bs" 64 _ bs])
      (simp_all add: encode_bytestring_def wr_def major_decoder_def decode_bytestring_def read_bytes_append)
next
  case (2 bs)
  then show ?case
    by (intro reads_back_flat [of "length bs" 64 _ bs])
      (simp_all add: encode_bytestring_def encode_bytearray_def wr_def major_decoder_def decode_bytestring_def read_bytes_append)
next
  case (3 cs)
  then obtain bs where bs: "utf8_encode cs = Inr bs" "length bs < 2 ^ 64" by (auto split: sum.splits)
  then show ?case
    by (intro reads_back_flat [of "length bs" 96 _ bs])
      (simp_all add: encode_string_def wr_def major_decoder_def decode_string_def decode_bytestring_def read_bytes_append utf8_roundtrip)
next
  case (4 n)
  show ?case
  proof (cases "0 \<le> n")
    case True
    then show ?thesis using 4
      by (intro reads_back_flat [of "nat n" 0 _ "[]"]) (simp_all add: encode_int_def wr_def major_decoder_def)
  next
    case False
    then show ?thesis using 4
      by (intro reads_back_flat [of "nat (\<bar>n\<bar> - 1)" 32 _ "[]"]) (simp_all add: encode_int_def wr_def major_decoder_def decode_negint_def)
  qed
next
  case (5 w)
  have v: "of_nat (be_value (be_bytes 8 (unat w))) = w"
  proof -
    have "unat w < 2 ^ 64" using unsigned_less [of w] by simp
    then show ?thesis by (simp add: be_value_bytes del: be_bytes.simps)
  qed
  have r: "read_bytes 8 (be_bytes 8 (unat w) @ rest) = Inr (be_bytes 8 (unat w), rest)" for rest
    by (rule read_bytes_append) simp
  show ?case using 5 v r
    by (simp add: reads_back_def encode_float_def wr_def Let_def major_decoder_def decode_special_def del: be_bytes.simps)
next
  case (6 b)
  then show ?case by (simp add: reads_back_def encode_boolean_def wr_def Let_def major_decoder_def decode_special_def)
next
  case 7
  then show ?case by (simp add: reads_back_def encode_none_def wr_def Let_def major_decoder_def decode_special_def)
next
  case (8 vs)
  have vs: "reads_back x" if "x \<in> set vs" for x using 8 that by simp
  obtain h where h: "encode_length 128 (length vs) = Inr h" "h \<noteq> []"
    "\<And>depth rest. cbor_decode (Suc depth) (h @ rest) =
       (case major_decoder (cbor_decode depth) (unat (128 :: byte) div 32) (unat (hd h AND 31)) (tl h @ rest) of
          Some (Inl e) \<Rightarrow> Some (Inl CBORDecodeError) | r \<Rightarrow> r)"
    "\<And>allow rest. decode_uint (unat (hd h AND 31)) allow (tl h @ rest) = Inr (Some (length vs), rest)"
    using encode_head [of "length vs" 128] 8(2) by auto
  let ?body = "concat (map (\<lambda>x. fst (cbor_encode x)) vs)"
  have "wseq (map cbor_encode vs) = (concat (map fst (map cbor_encode vs)), None)"
    by (rule wseq_ok) (use vs reads_backD(1) in auto)
  then have e: "cbor_encode (VList vs) = (h @ ?body, None)" using h(1) by (simp add: wr_def wthen_def o_def)
  have "sum_list (map nesting vs) \<le> length ?body"
    unfolding length_concat map_map by (rule sum_list_mono) (use vs reads_backD(2) in simp)
  moreover have "cbor_decode (Suc depth) (h @ ?body @ rest) = Some (Inr (read_back (VList vs), rest))"
    if le: "nesting (VList vs) \<le> depth" for depth rest
  proof -
    obtain d where d: "depth = Suc d" using le by (cases depth) auto
    have "cbor_decode (Suc d) (fst (cbor_encode x) @ rest) = Some (Inr (read_back x, rest))" if "x \<in> set vs" for x rest
      by (rule reads_backD(3) [OF vs [OF that]]) (use member_le_sum_list [of "nesting x" "map nesting vs"] le d that in simp)
    note ai = array_items_back [of vs "cbor_decode (Suc d)" "\<lambda>x. fst (cbor_encode x)" read_back, OF this]
    show ?thesis unfolding h(3) using h(4) ai d by (simp add: major_decoder_def decode_array_def del: cbor_decode.simps)
  qed
  ultimately show ?case using e h(2) by (cases h) (simp_all add: reads_back_def)
next
  case (9 items)
  have it: "reads_back (fst p) \<and> reads_back (snd p) \<and> hashable (fst p)" if "p \<in> set items" for p using 9 that by simp
  obtain h where h: "encode_length 160 (length items) = Inr h" "h \<noteq> []"
    "\<And>depth rest. cbor_decode (Suc depth) (h @ rest) =
       (case major_decoder (cbor_decode depth) (unat (160 :: byte) div 32) (unat (hd h AND 31)) (tl h @ rest) of
          Some (Inl e) \<Rightarrow> Some (Inl CBORDecodeError) | r \<Rightarrow> r)"
    "\<And>allow rest. decode_uint (unat (hd h AND 31)) allow (tl h @ rest) = Inr (Some (length items), rest)"
    using encode_head [of "length items" 160] 9(3) by auto
  let ?body = "concat (map (\<lambda>p. fst (cbor_encode (fst p)) @ fst (cbor_encode (snd p))) items)"
  have wt: "wthen (cbor_encode (fst p)) (cbor_encode (snd p)) = (fst (cbor_encode (fst p)) @ fst (cbor_encode (snd p)), None)" if "p \<in> set items" for p
    using it [OF that] reads_backD(1) by (simp add: wthen_def)
  have "wseq (map (\<lambda>p. wthen (cbor_encode (fst p)) (cbor_encode (snd p))) items) =
    (concat (map fst (map (\<lambda>p. wthen (cbor_encode (fst p)) (cbor_encode (snd p))) items)), None)"
    by (rule wseq_ok) (use wt in auto)
  moreover have "map fst (map (\<lambda>p. wthen (cbor_encode (fst p)) (cbor_encode (snd p))) items) =
    map (\<lambda>p. fst (cbor_encode (fst p)) @ fst (cbor_encode (snd p))) items"
    using wt by simp
  ultimately have "wseq (map (\<lambda>p. wthen (cbor_encode (fst p)) (cbor_encode (snd p))) items) = (?body, None)" by (simp only:)
  then have e: "cbor_encode (VDict items) = (h @ ?body, None)" using h(1) by (simp add: wr_def wthen_def)
  have "sum_list (map (\<lambda>p. nesting (fst p) + nesting (snd p)) items) \<le> length ?body"
    unfolding length_concat map_map by (rule sum_list_mono) (use it reads_backD(2) in \<open>simp add: add_mono\<close>)
  moreover have "cbor_decode (Suc depth) (h @ ?body @ rest) = Some (Inr (read_back (VDict items), rest))"
    if le: "nesting (VDict items) \<le> depth" for depth rest
  proof -
    obtain d where d: "depth = Suc d" using le by (cases depth) auto
    have b: "nesting (fst p) \<le> d \<and> nesting (snd p) \<le> d" if "p \<in> set items" for p
      using member_le_sum_list [of "nesting (fst p) + nesting (snd p)" "map (\<lambda>p. nesting (fst p) + nesting (snd p)) items"] le d that
      by simp
    have k: "cbor_decode (Suc d) (fst (cbor_encode (fst p)) @ rest) = Some (Inr (fst p, rest)) \<and> hashable (fst p)"
      "cbor_decode (Suc d) (fst (cbor_encode (snd p)) @ rest) = Some (Inr (read_back (snd p), rest))" if "p \<in> set items" for p rest
      using it [OF that] b [OF that] read_back_key [of "fst p"] reads_backD(3) [of "fst p" d rest] reads_backD(3) [of "snd p" d rest]
      by (simp_all del: cbor_decode.simps)
    have "sorted_wrt (\<lambda>a b. \<not> key_eq a b) (map fst [] @ map fst items)" using 9(3) by simp
    note mi = map_items_back [where d = "cbor_decode (Suc d)", OF k this]
    have "map (\<lambda>p. (fst p, read_back (snd p))) items = map (\<lambda>p. (read_back (fst p), read_back (snd p))) items"
      using it by (auto simp: read_back_key)
    then show ?thesis unfolding h(3) using h(4) mi d by (simp add: major_decoder_def decode_map_def del: cbor_decode.simps)
  qed
  ultimately show ?case using e h(2) by (cases h) (simp_all add: reads_back_def)
qed simp_all

section \<open>Properties\<close>

text \<open>C28: every value made of integers that fit in 64 bits and a sign, finite floats, strings, bytes, booleans,
  None, lists, and dicts with different hashable keys, is written without an exception, and reading the
  result gives the value back, with bytes for a bytearray.\<close>

theorem cbor_roundtrip:
  assumes "encodable v"
  shows "\<exists>bs. dumps v = Inr bs \<and> loads bs = Some (Inr (read_back v))"
proof -
  note r = reads_backD [OF encodable_reads_back [OF assms]]
  have "cbor_decode (Suc (length (fst (cbor_encode v)))) (fst (cbor_encode v)) = Some (Inr (read_back v, []))"
    using r(3) [OF r(2), of "[]"] by (simp del: cbor_decode.simps)
  then have "loads (fst (cbor_encode v)) = Some (Inr (read_back v))" by (simp add: loads_def del: cbor_decode.simps)
  moreover have "dumps v = Inr (fst (cbor_encode v))" using r(1) by (cases "cbor_encode v") (simp add: dumps_def)
  ultimately show ?thesis by blast
qed

theorem cbor_roundtrip_witness:
  "\<exists>bs. dumps (VDict [(VStr [0x61, 0x20AC], VList [VInt (- 300), VBytearray [7], VNone]), (VInt 1, VBool True)]) = Inr bs \<and>
     loads bs = Some (Inr (VDict [(VStr [0x61, 0x20AC], VList [VInt (- 300), VBytes [7], VNone]), (VInt 1, VBool True)]))"
  using cbor_roundtrip [of "VDict [(VStr [0x61, 0x20AC], VList [VInt (- 300), VBytearray [7], VNone]), (VInt 1, VBool True)]"]
  by (simp add: utf8_encode_def utf8_char_def surrogate_def key_eq_def)

text \<open>C32: on any bytes at all, reading ends, with a value or with a CBORDecodeError, except that a value of
  major type 6 (a semantic tag, as the encoder writes for a big integer) ends with a KeyError.\<close>

theorem cbor_loads_total:
  "\<exists>r. loads payload = Some r \<and>
     (\<forall>e. r = Inl e \<longrightarrow> e = (if payload \<noteq> [] \<and> unat (drop_bit 5 (hd payload)) = 6 then KeyError else CBORDecodeError))"
proof -
  obtain q where q: "cbor_decode (Suc (length payload)) payload = Some q"
    using decode_total [of "Suc (length payload)"] by (auto simp: total_below_def simp del: cbor_decode.simps)
  then show ?thesis
    using decode_error [of "Suc (length payload)" payload]
    by (cases q) (auto simp: loads_def simp del: cbor_decode.simps split: list.splits)
qed

theorem cbor_loads_total_witness:
  "(\<exists>r. loads [0xC2, 0x41, 0x01] = Some r \<and> (\<forall>e. r = Inl e \<longrightarrow> e = KeyError)) \<and>
   (\<exists>r. loads [0x82, 0x01] = Some r \<and> (\<forall>e. r = Inl e \<longrightarrow> e = CBORDecodeError))"
  using cbor_loads_total [of "[0xC2, 0x41, 0x01]"] cbor_loads_total [of "[0x82, 0x01]"] by simp

text \<open>C39: what the encoder writes for an integer beyond 64 bits and for an infinite or undefined float, the
  decoder does not read: the first is a KeyError and the others are CBORDecodeErrors. A value of a class
  without an encoder is a KeyError too.\<close>

theorem cbor_written_not_read:
  assumes "dumps (VInt n) = Inr bs" "n \<ge> 2 ^ 64 \<or> n < - (2 ^ 64)"
  shows "loads bs = Some (Inl KeyError) \<and>
    (isnan w \<or> isinf w \<longrightarrow> (\<exists>bs. dumps (VFloat w) = Inr bs \<and> loads bs = Some (Inl CBORDecodeError))) \<and>
    dumps VBreak = Inl KeyError \<and> dumps (VSimple k) = Inl KeyError"
proof -
  obtain tag rest where "tag \<in> {2, 3}" "cbor_encode (VInt n) = encode_semantic tag rest"
    using assms(2) by (cases "0 \<le> n") (auto simp: encode_int_def)
  then have "\<exists>r. bs = 0xC2 # r \<or> bs = 0xC3 # r"
    using assms(1) by (auto simp: dumps_def encode_semantic_def wthen_def wr_def encode_length_def split: prod.splits option.splits)
  then have "loads bs = Some (Inl KeyError)" by (auto simp: loads_def Let_def)
  moreover have "\<exists>bs. dumps (VFloat w) = Inr bs \<and> loads bs = Some (Inl CBORDecodeError)" if "isnan w \<or> isinf w"
    using that
    by (auto simp: dumps_def encode_float_def wr_def loads_def Let_def major_decoder_def decode_special_def read_bytes_def)
  ultimately show ?thesis by (simp add: dumps_def)
qed

theorem cbor_written_not_read_witness:
  "\<exists>bs. dumps (VInt 18446744073709551616) = Inr bs \<and> loads bs = Some (Inl KeyError)"
proof -
  have "int_values 18446744073709551616 [] = [1, 0, 0, 0, 0, 0, 0, 0, 0]"
    by (simp add: int_values.simps)
  then have "\<exists>bs. dumps (VInt 18446744073709551616) = Inr bs"
    by (simp add: dumps_def encode_int_def encode_semantic_def encode_bytestring_def wthen_def wr_def encode_length_def)
  then obtain bs where bs: "dumps (VInt 18446744073709551616) = Inr bs" by blast
  then show ?thesis using cbor_written_not_read [OF bs, of 0] by auto
qed

end
