(* ===== verification/Sha_Base.thy ===== *)
theory Sha_Base
  imports Codec
begin

text \<open>
  \<open>hashlib/_sha.py\<close> and the part of \<open>_sha256.py\<close> and \<open>_sha512.py\<close> that is the same in both: the state of a hash
  object, feeding it any pieces of a message, and the padding of the last block. Python's integers
  are natural numbers here, with the masks of the code. The base class calls the methods of its subclasses through the
  record \<open>sha_class\<close>; the locales \<open>block_hash\<close> and \<open>sha_impl\<close> say what it may rely on.
\<close>

unbundle bit_operations_syntax

section \<open>A hash object\<close>

record sha =
  h_digest :: "nat list"
  count_lo :: nat
  count_hi :: nat
  h_data :: bytes
  h_local :: nat
  h_digestsize :: nat

text \<open>What a subclass provides: two sizes, the initial value, \<open>_update\<close> and \<open>_final\<close>.\<close>

record sha_class =
  iv :: "nat list"
  digest_size :: nat
  block_size :: nat
  m_update :: "sha \<Rightarrow> bytes \<Rightarrow> sha"
  m_final :: "sha \<Rightarrow> bytes"

datatype hash_arg = HStr "nat list" | HBytes bytes

definition ascii_encode :: "nat list \<Rightarrow> bytes result" where
  "ascii_encode cs = (if list_all (\<lambda>c. c < 128) cs then Inr (map of_nat cs) else Inl UnicodeError)"

definition sha_update :: "sha_class \<Rightarrow> sha \<Rightarrow> hash_arg \<Rightarrow> sha result" where
  "sha_update c st s =
     rbind (case s of HStr cs \<Rightarrow> ascii_encode cs | HBytes b \<Rightarrow> Inr b) (\<lambda>b. Inr (m_update c st b))"

fun arg_true :: "hash_arg option \<Rightarrow> bool" where
  "arg_true None = False"
| "arg_true (Some (HStr cs)) = (cs \<noteq> [])"
| "arg_true (Some (HBytes b)) = (b \<noteq> [])"

definition sha_new :: "sha_class \<Rightarrow> sha" where
  "sha_new c = \<lparr>h_digest = iv c, count_lo = 0, count_hi = 0, h_data = replicate (block_size c) 0,
     h_local = 0, h_digestsize = digest_size c\<rparr>"

definition sha_init :: "sha_class \<Rightarrow> hash_arg option \<Rightarrow> sha result" where
  "sha_init c s = (if arg_true s then sha_update c (sha_new c) (the s) else Inr (sha_new c))"

definition sha_copy :: "sha_class \<Rightarrow> sha \<Rightarrow> sha" where
  "sha_copy c st = (sha_new c)\<lparr>h_digest := h_digest st, count_lo := count_lo st, count_hi := count_hi st,
     h_data := h_data st, h_local := h_local st\<rparr>"

definition sha_digest :: "sha_class \<Rightarrow> sha \<Rightarrow> bytes" where
  "sha_digest c st = take (h_digestsize st) (m_final c (sha_copy c st))"

definition hex_lower :: "nat \<Rightarrow> char" where
  "hex_lower d = ''0123456789abcdef'' ! d"

definition sha_hexdigest :: "sha_class \<Rightarrow> sha \<Rightarrow> string" where
  "sha_hexdigest c st = concat (map (\<lambda>b. [hex_lower (unat b div 16), hex_lower (unat b mod 16)]) (sha_digest c st))"

section \<open>\<open>_update\<close>\<close>

text \<open>The number of bits seen so far, as two 32 bit halves.\<close>

definition sha_count :: "sha \<Rightarrow> nat \<Rightarrow> sha" where
  "sha_count st n =
     (let clo = (count_lo st + push_bit 3 n) AND 0xFFFFFFFF;
          hi = (if clo < count_lo st then count_hi st + 1 else count_hi st)
      in st\<lparr>count_lo := clo, count_hi := hi + drop_bit 29 n\<rparr>)"

text \<open>The loop over whole blocks and the copy of what is left.\<close>

function sha_blocks :: "nat \<Rightarrow> (sha \<Rightarrow> sha) \<Rightarrow> sha \<Rightarrow> bytes \<Rightarrow> sha" where
  "sha_blocks blk transform st buf =
     (if blk \<le> length buf \<and> 0 < blk
      then sha_blocks blk transform (transform (st\<lparr>h_data := take blk buf\<rparr>)) (drop blk buf)
      else st\<lparr>h_data := take (h_local st) (h_data st) @ buf @ drop (h_local st + length buf) (h_data st),
              h_local := length buf\<rparr>)"
  by pat_completeness auto
termination by (relation "measure (\<lambda>(_, _, _, buf). length buf)") auto

declare sha_blocks.simps [simp del]

text \<open>The elements of \<open>bs\<close> stored one by one from position \<open>k\<close> on.\<close>

definition store_at :: "nat \<Rightarrow> bytes \<Rightarrow> bytes \<Rightarrow> bytes" where
  "store_at k bs d = foldl (\<lambda>d (j, b). d[k + j := b]) d (enumerate 0 bs)"

definition sha_feed :: "nat \<Rightarrow> (sha \<Rightarrow> sha) \<Rightarrow> sha \<Rightarrow> bytes \<Rightarrow> sha" where
  "sha_feed blk transform st buf =
     (let st = sha_count st (length buf) in
      if h_local st \<noteq> 0
      then let i = (if blk - h_local st > length buf then length buf else blk - h_local st);
               st = st\<lparr>h_data := store_at (h_local st) (take i buf) (h_data st), h_local := h_local st + i\<rparr>
           in if h_local st = blk then sha_blocks blk transform ((transform st)\<lparr>h_local := 0\<rparr>) (drop i buf) else st
      else sha_blocks blk transform st buf)"

section \<open>\<open>_final\<close>\<close>

definition to_u8 :: "nat \<Rightarrow> byte" where
  "to_u8 n = of_nat (n AND 0xFF)"

text \<open>The end mark, zeros, and another block when the length (of \<open>lf\<close> bytes) does not fit.\<close>

definition sha_pad :: "nat \<Rightarrow> nat \<Rightarrow> (sha \<Rightarrow> sha) \<Rightarrow> sha \<Rightarrow> sha" where
  "sha_pad blk lf transform st =
     (let n = drop_bit 3 (count_lo st) AND (blk - 1);
          d = (h_data st)[n := 0x80];
          n = n + 1;
          d = take n d @ replicate (blk - n) 0
      in if n > blk - lf then (transform (st\<lparr>h_data := d\<rparr>))\<lparr>h_data := replicate blk 0\<rparr>
         else st\<lparr>h_data := d\<rparr>)"

definition word_bytes :: "nat \<Rightarrow> nat \<Rightarrow> bytes" where
  "word_bytes wb i = map (\<lambda>j. to_u8 (drop_bit ((wb - 1 - j) * 8) i)) [0..<wb]"

definition sha_final ::
    "nat \<Rightarrow> nat \<Rightarrow> (nat \<Rightarrow> nat \<Rightarrow> bytes \<Rightarrow> bytes) \<Rightarrow> (sha \<Rightarrow> sha) \<Rightarrow> nat \<Rightarrow> sha \<Rightarrow> bytes" where
  "sha_final blk lf lengths transform wb st =
     (let padded = sha_pad blk lf transform st;
          st' = transform (padded\<lparr>h_data := lengths (count_hi st) (count_lo st) (h_data padded)\<rparr>)
      in concat (map (word_bytes wb) (h_digest st')))"

section \<open>The standard: FIPS 180-4\<close>

text \<open>A message is padded with a one bit, zeros, and its length in bits.\<close>

definition fips_pad :: "nat \<Rightarrow> nat \<Rightarrow> bytes \<Rightarrow> bytes" where
  "fips_pad blk lf m =
     m @ [0x80] @ replicate (nat ((int blk - int lf - 1 - int (length m)) mod int blk)) 0 @ be_bytes lf (8 * length m)"

text \<open>Whole blocks are compressed into the hash value one after the other.\<close>

function absorb :: "nat \<Rightarrow> ('w list \<Rightarrow> bytes \<Rightarrow> 'w list) \<Rightarrow> 'w list \<Rightarrow> bytes \<Rightarrow> 'w list" where
  "absorb blk compress H m =
     (if blk \<le> length m \<and> 0 < blk then absorb blk compress (compress H (take blk m)) (drop blk m) else H)"
  by pat_completeness auto
termination by (relation "measure (\<lambda>(_, _, _, m). length m)") auto

declare absorb.simps [simp del]

definition fips_hash :: "nat \<Rightarrow> nat \<Rightarrow> ('w::len word list \<Rightarrow> bytes \<Rightarrow> 'w word list) \<Rightarrow> nat \<Rightarrow> 'w word list \<Rightarrow> bytes \<Rightarrow> bytes" where
  "fips_hash blk lf compress wb H m =
     concat (map (\<lambda>w. be_bytes wb (unat w)) (absorb blk compress H (fips_pad blk lf m)))"

lemma absorb_short [simp]: "length m < blk \<Longrightarrow> absorb blk compress H m = H"
  by (subst absorb.simps) simp

lemma absorb_block: "length b = blk \<Longrightarrow> 0 < blk \<Longrightarrow> absorb blk compress H (b @ m) = absorb blk compress (compress H b) m"
  by (subst absorb.simps) simp

lemma absorb_append: "blk dvd length m \<Longrightarrow> absorb blk compress H (m @ m') = absorb blk compress (absorb blk compress H m) m'"
proof (induction blk compress H m rule: absorb.induct)
  case (1 blk compress H m)
  show ?case
  proof (cases "blk \<le> length m \<and> 0 < blk")
    case True
    then have dvd: "blk dvd length (drop blk m)" using "1.prems" by simp
    have "absorb blk compress H (m @ m') = absorb blk compress (compress H (take blk m)) (drop blk m @ m')"
      using True by (subst absorb.simps) simp
    moreover have "absorb blk compress H m = absorb blk compress (compress H (take blk m)) (drop blk m)"
      using True by (subst absorb.simps) simp
    ultimately show ?thesis using "1.IH" [OF True dvd] by simp
  next
    case False
    then have "m = []" using "1.prems" by (cases "blk = 0") (auto dest: dvd_imp_le)
    moreover have "absorb blk compress H [] = H" by (subst absorb.simps) auto
    ultimately show ?thesis by simp
  qed
qed

lemma absorb_one: "length b = blk \<Longrightarrow> 0 < blk \<Longrightarrow> absorb blk compress H b = compress H b"
  using absorb_block [of b blk compress H "[]"] by simp

section \<open>Numbers in bytes\<close>

lemma to_u8_of_nat [simp]: "to_u8 n = of_nat n"
proof -
  have "(of_nat 0xFF :: byte) = - 1" by simp
  then show ?thesis unfolding to_u8_def of_nat_and_eq by (simp only: and.right_neutral)
qed

lemma word_bytes_be: "word_bytes wb n = be_bytes wb n"
proof (induction wb)
  case (Suc wb)
  have "(2::nat) ^ (wb * 8) = 256 ^ wb" by (subst mult.commute) (simp add: power_mult)
  then have "word_bytes (Suc wb) n = of_nat (n div 256 ^ wb) # word_bytes wb n"
    by (simp add: word_bytes_def upt_conv_Cons drop_bit_eq_div map_Suc_upt [symmetric] del: upt_Suc map_Suc_upt)
  then show ?case by (simp add: Suc.IH)
qed (simp add: word_bytes_def)

section \<open>Feeding any pieces computes the standard's hash\<close>

lemma and_M32: "n AND 0xFFFFFFFF = n mod 2 ^ 32" for n :: nat
proof -
  have "(0xFFFFFFFF::nat) = mask 32" by (simp add: mask_eq_exp_minus_1)
  then show ?thesis by (simp only: take_bit_eq_mask [symmetric] take_bit_eq_mod)
qed

lemma and_M64: "n AND 0xFFFFFFFFFFFFFFFF = n mod 2 ^ 64" for n :: nat
proof -
  have "(0xFFFFFFFFFFFFFFFF::nat) = mask 64" by (simp add: mask_eq_exp_minus_1)
  then show ?thesis by (simp only: take_bit_eq_mask [symmetric] take_bit_eq_mod)
qed

lemma mod_sum_less: "a < n \<Longrightarrow> b < n \<Longrightarrow> (a + b) mod n = (if a + b < n then a + b else a + b - n)" for a b n :: nat
  by (simp add: mod_if)

lemma store_at_eq: "k + length bs \<le> length d \<Longrightarrow> store_at k bs d = take k d @ bs @ drop (k + length bs) d"
proof (induction bs rule: rev_induct)
  case (snoc b bs)
  have "store_at k (bs @ [b]) d = (store_at k bs d)[k + length bs := b]"
    by (simp add: store_at_def enumerate_append_eq)
  also have "\<dots> = (take k d @ bs @ drop (k + length bs) d)[k + length bs := b]" using snoc by simp
  also have "\<dots> = take k d @ bs @ (drop (k + length bs) d)[0 := b]"
    using snoc.prems by (simp add: list_update_append)
  also have "(drop (k + length bs) d)[0 := b] = b # drop (k + length (bs @ [b])) d"
    using snoc.prems by (simp add: Cons_nth_drop_Suc [symmetric])
  finally show ?case by simp
qed (simp add: store_at_def)

text \<open>
  What the shared code relies on: the block is \<open>2 ^ k\<close> bytes, and \<open>_transform\<close> replaces the hash value by its
  compression with the block held in \<open>_data\<close>, changing nothing else.
\<close>

locale block_hash =
  fixes k :: nat and transform :: "sha \<Rightarrow> sha" and compress :: "'w::len word list \<Rightarrow> bytes \<Rightarrow> 'w word list"
  assumes block_bits: "k \<le> 29" "3 < k"
    and transform: "h_digest st = map unat H \<Longrightarrow> length H = 8 \<Longrightarrow> length (h_data st) = 2 ^ k \<Longrightarrow>
      transform st = st\<lparr>h_digest := map unat (compress H (h_data st))\<rparr>"
    and compress_length: "length H = 8 \<Longrightarrow> length d = 2 ^ k \<Longrightarrow> length (compress H d) = 8"
begin

definition holds :: "'w word list \<Rightarrow> bytes \<Rightarrow> sha \<Rightarrow> bool" where
  "holds H0 m st \<longleftrightarrow> (\<exists>full H. H = absorb (2 ^ k) compress H0 full \<and> length H = 8 \<and> h_digest st = map unat H \<and>
     2 ^ k dvd length full \<and> h_local st < 2 ^ k \<and> length (h_data st) = 2 ^ k \<and>
     m = full @ take (h_local st) (h_data st))"

definition counts :: "nat \<Rightarrow> sha \<Rightarrow> bool" where
  "counts n st \<longleftrightarrow> count_lo st < 2 ^ 32 \<and> count_lo st + 2 ^ 32 * count_hi st = 8 * n"

text \<open>The counters and the digest size, which only \<open>sha_count\<close> touches.\<close>

definition frame :: "sha \<Rightarrow> nat \<times> nat \<times> nat" where
  "frame st = (count_lo st, count_hi st, h_digestsize st)"

lemma absorb_length: "length H = 8 \<Longrightarrow> length (absorb (2 ^ k) compress H m) = 8"
proof (induction m arbitrary: H rule: length_induct)
  case (1 m)
  show ?case
  proof (cases "2 ^ k \<le> length m")
    case True
    have "(0::nat) < 2 ^ k" by simp
    then have "length (drop (2 ^ k) m) < length m" using True unfolding length_drop by linarith
    then show ?thesis
      using True "1.IH" "1.prems" compress_length [of H "take (2 ^ k) m"] by (subst absorb.simps) simp
  qed (simp add: "1.prems")
qed

definition absorbed :: "'w word list \<Rightarrow> bytes \<Rightarrow> sha \<Rightarrow> bool" where
  "absorbed H0 full st \<longleftrightarrow> 2 ^ k dvd length full \<and>
     length (absorb (2 ^ k) compress H0 full) = 8 \<and> h_digest st = map unat (absorb (2 ^ k) compress H0 full)"

lemma holds_absorbed: "holds H0 m st \<longleftrightarrow> (\<exists>full. absorbed H0 full st \<and>
    h_local st < 2 ^ k \<and> length (h_data st) = 2 ^ k \<and> m = full @ take (h_local st) (h_data st))"
  by (auto simp: holds_def absorbed_def)

lemma absorbed_transform:
  assumes "absorbed H0 full st" "length (h_data st) = 2 ^ k"
  shows "transform st = st\<lparr>h_digest := map unat (absorb (2 ^ k) compress H0 (full @ h_data st))\<rparr>"
    "absorbed H0 (full @ h_data st) (transform st)"
proof -
  let ?H = "absorb (2 ^ k) compress H0 full"
  have eq: "compress ?H (h_data st) = absorb (2 ^ k) compress H0 (full @ h_data st)"
    using assms by (simp add: absorbed_def absorb_append absorb_one)
  then show st: "transform st = st\<lparr>h_digest := map unat (absorb (2 ^ k) compress H0 (full @ h_data st))\<rparr>"
    using transform [of st ?H] assms by (simp add: absorbed_def)
  show "absorbed H0 (full @ h_data st) (transform st)"
    using compress_length [of ?H "h_data st"] assms eq by (simp add: st absorbed_def)
qed

lemma holds_transform:
  assumes "holds H0 full st" "h_local st = 0" "length d = 2 ^ k"
  shows "holds H0 (full @ d) (transform (st\<lparr>h_data := d\<rparr>))" "h_local (transform (st\<lparr>h_data := d\<rparr>)) = 0"
    "frame (transform (st\<lparr>h_data := d\<rparr>)) = frame st"
proof -
  have a: "absorbed H0 full (st\<lparr>h_data := d\<rparr>)" using assms by (auto simp: holds_absorbed absorbed_def)
  note tr = absorbed_transform [OF a]
  show "h_local (transform (st\<lparr>h_data := d\<rparr>)) = 0" "frame (transform (st\<lparr>h_data := d\<rparr>)) = frame st"
    using assms tr(1) by (simp_all add: frame_def)
  show "holds H0 (full @ d) (transform (st\<lparr>h_data := d\<rparr>))"
    unfolding holds_absorbed using assms tr by (intro exI [of _ "full @ d"]) simp
qed

lemma blocks:
  assumes "holds H0 m st" "h_local st = 0"
  shows "holds H0 (m @ buf) (sha_blocks (2 ^ k) transform st buf) \<and> frame (sha_blocks (2 ^ k) transform st buf) = frame st"
  using assms
proof (induction buf arbitrary: m st rule: length_induct)
  case (1 buf)
  show ?case
  proof (cases "2 ^ k \<le> length buf")
    case True
    let ?b = "take (2 ^ k) buf" and ?st = "transform (st\<lparr>h_data := take (2 ^ k) buf\<rparr>)"
    have "(0::nat) < 2 ^ k" by simp
    then have "length (drop (2 ^ k) buf) < length buf" using True unfolding length_drop by linarith
    moreover note tr = holds_transform [OF "1.prems", of ?b]
    ultimately have "holds H0 ((m @ ?b) @ drop (2 ^ k) buf) (sha_blocks (2 ^ k) transform ?st (drop (2 ^ k) buf)) \<and>
        frame (sha_blocks (2 ^ k) transform ?st (drop (2 ^ k) buf)) = frame ?st"
      using True by (intro "1.IH" [rule_format]) auto
    then show ?thesis using True tr(3) by (subst (1 2) sha_blocks.simps) simp
  next
    case False
    then have "sha_blocks (2 ^ k) transform st buf = st\<lparr>h_data := buf @ drop (length buf) (h_data st), h_local := length buf\<rparr>"
      using "1.prems" by (subst sha_blocks.simps) simp
    then show ?thesis
      using False "1.prems" by (auto simp: holds_def frame_def)
  qed
qed

lemma counts_count: "counts n st \<Longrightarrow> counts (n + b) (sha_count st b)"
proof -
  assume n: "counts n st"
  let ?r = "8 * (b mod 2 ^ 29)"
  have "b = 2 ^ 29 * (b div 2 ^ 29) + b mod 2 ^ 29" by (rule mult_div_mod_eq [symmetric])
  then have "8 * b = 8 * (2 ^ 29 * (b div 2 ^ 29) + b mod 2 ^ 29)" by (rule arg_cong)
  then have b: "8 * b = 2 ^ 32 * (b div 2 ^ 29) + ?r" unfolding distrib_left mult.assoc [symmetric] by simp
  have clo: "(count_lo st + push_bit 3 b) AND 0xFFFFFFFF = (count_lo st + ?r) mod 2 ^ 32"
  proof -
    have "count_lo st + b * 2 ^ 3 = (count_lo st + ?r) + 2 ^ 32 * (b div 2 ^ 29)" using b by simp
    then show ?thesis unfolding and_M32 push_bit_eq_mult by (simp only: mod_mult_self2)
  qed
  have "count_lo st < 2 ^ 32" "?r < 2 ^ 32" using n by (simp_all add: counts_def)
  then have "(count_lo st + ?r) mod 2 ^ 32 = (if count_lo st + ?r < 2 ^ 32 then count_lo st + ?r else count_lo st + ?r - 2 ^ 32)"
    by (rule mod_sum_less)
  note m = trans [OF clo this]
  show ?thesis
    using n b \<open>?r < 2 ^ 32\<close> by (cases "count_lo st + ?r < 2 ^ 32") (auto simp: counts_def sha_count_def m drop_bit_eq_div Let_def)
qed

lemma fill:
  assumes h: "holds H0 m st" and len: "h_local st + length b \<le> 2 ^ k"
  defines "st' \<equiv> st\<lparr>h_data := store_at (h_local st) b (h_data st), h_local := h_local st + length b\<rparr>"
  shows "h_local st + length b < 2 ^ k \<Longrightarrow> holds H0 (m @ b) st'"
    and "h_local st + length b = 2 ^ k \<Longrightarrow>
      holds H0 (m @ b) ((transform st')\<lparr>h_local := 0\<rparr>) \<and> frame (transform st') = frame st"
proof -
  obtain full where a: "absorbed H0 full st" "length (h_data st) = 2 ^ k" "m = full @ take (h_local st) (h_data st)"
    using h by (auto simp: holds_absorbed)
  have d: "store_at (h_local st) b (h_data st) = take (h_local st) (h_data st) @ b @ drop (h_local st + length b) (h_data st)"
    using a(2) len by (simp add: store_at_eq)
  have a': "absorbed H0 full st'" using a(1) by (simp add: absorbed_def st'_def)
  have ld: "length (h_data st') = 2 ^ k" using a(2) len by (simp add: st'_def d)
  show "holds H0 (m @ b) st'" if "h_local st + length b < 2 ^ k"
    unfolding holds_absorbed using a' ld that a(2,3) by (intro exI [of _ full]) (simp add: st'_def d)
  show "holds H0 (m @ b) ((transform st')\<lparr>h_local := 0\<rparr>) \<and> frame (transform st') = frame st"
    if "h_local st + length b = 2 ^ k"
  proof -
    note tr = absorbed_transform [OF a' ld]
    have "h_data st' = take (h_local st) (h_data st) @ b" using that a(2) by (simp add: st'_def d)
    then show ?thesis
      unfolding holds_absorbed using tr ld a(3)
      by (intro conjI exI [of _ "full @ h_data st'"]) (simp_all add: absorbed_def frame_def, simp add: st'_def)
  qed
qed

lemma feed:
  assumes "holds H0 m st" "counts (length m) st"
  shows "holds H0 (m @ buf) (sha_feed (2 ^ k) transform st buf)"
    "counts (length (m @ buf)) (sha_feed (2 ^ k) transform st buf)"
    "h_digestsize (sha_feed (2 ^ k) transform st buf) = h_digestsize st"
proof -
  let ?st = "sha_count st (length buf)"
  have st: "holds H0 m ?st" "h_local ?st = h_local st" "h_digestsize ?st = h_digestsize st"
    using assms by (simp_all add: holds_def sha_count_def Let_def)
  have "holds H0 (m @ buf) (sha_feed (2 ^ k) transform st buf) \<and> frame (sha_feed (2 ^ k) transform st buf) = frame ?st"
  proof (cases "h_local st = 0")
    case True
    then show ?thesis using blocks [OF st(1), of buf] st(2) by (simp add: sha_feed_def Let_def)
  next
    case False
    define i where "i = (if 2 ^ k - h_local st > length buf then length buf else 2 ^ k - h_local st)"
    let ?st' = "?st\<lparr>h_data := store_at (h_local ?st) (take i buf) (h_data ?st), h_local := h_local ?st + length (take i buf)\<rparr>"
    have i: "length (take i buf) = i" "h_local ?st + i \<le> 2 ^ k" "h_local ?st + i < 2 ^ k \<Longrightarrow> i = length buf"
      using st(1,2) by (auto simp: i_def holds_def)
    have eq: "sha_feed (2 ^ k) transform st buf =
        (if h_local ?st + i = 2 ^ k then sha_blocks (2 ^ k) transform ((transform ?st')\<lparr>h_local := 0\<rparr>) (drop i buf) else ?st')"
      unfolding sha_feed_def Let_def st(2) i(1) i_def [symmetric] using False i(1) st(2) by simp
    show ?thesis
    proof (cases "h_local ?st + i = 2 ^ k")
      case True
      then show ?thesis
        using fill(2) [OF st(1), of "take i buf"] blocks [of H0 "m @ take i buf" "(transform ?st')\<lparr>h_local := 0\<rparr>" "drop i buf"]
        unfolding eq i(1) by (simp add: frame_def)
    next
      case nf: False
      then show ?thesis
        using fill(1) [OF st(1), of "take i buf"] i unfolding eq by (simp add: frame_def)
    qed
  qed
  moreover have "counts (length (m @ buf)) ?st" using counts_count assms(2) by simp
  ultimately show "holds H0 (m @ buf) (sha_feed (2 ^ k) transform st buf)"
      "counts (length (m @ buf)) (sha_feed (2 ^ k) transform st buf)"
      "h_digestsize (sha_feed (2 ^ k) transform st buf) = h_digestsize st"
    using st(3) by (auto simp: frame_def counts_def)
qed

lemma fresh:
  assumes "length H0 = 8" "iv c = map unat H0" "block_size c = 2 ^ k"
  shows "holds H0 [] (sha_new c)" "counts 0 (sha_new c)" "h_digestsize (sha_new c) = digest_size c"
  using assms by (auto simp: holds_def counts_def sha_new_def)

lemma copied: "block_size c = 2 ^ k \<Longrightarrow> holds H0 m st \<Longrightarrow> holds H0 m (sha_copy c st)"
  "counts n st \<Longrightarrow> counts n (sha_copy c st)"
  by (simp_all add: holds_def counts_def sha_copy_def)

text \<open>The position in the block, as \<open>_final\<close> reads it from the counter.\<close>

lemma position: "counts (length m) st \<Longrightarrow> drop_bit 3 (count_lo st) AND (2 ^ k - 1) = length m mod 2 ^ k"
proof -
  assume c: "counts (length m) st"
  have "count_lo st = (8 * length m) mod 2 ^ 32"
    using c by (metis counts_def mod_less mod_mult_self2)
  then have "count_lo st = (2 ^ 3 * length m) mod (2 ^ 3 * 2 ^ 29)" by simp
  then have "count_lo st = 2 ^ 3 * (length m mod 2 ^ 29)" by (simp only: mult_mod_right)
  then have "drop_bit 3 (count_lo st) = length m mod 2 ^ 29" by (simp add: drop_bit_eq_div)
  moreover have "x AND (2 ^ k - 1) = x mod 2 ^ k" for x :: nat
    by (simp only: mask_eq_exp_minus_1 [symmetric] take_bit_eq_mask [symmetric] take_bit_eq_mod)
  moreover have "length m mod 2 ^ 29 mod 2 ^ k = length m mod 2 ^ k"
    using block_bits(1) by (intro mod_mod_cancel le_imp_power_dvd)
  ultimately show ?thesis by simp
qed

end

lemma pad_mod:
  assumes "r < b" "l < b"
  shows "nat ((int b - int l - 1 - int r) mod int b) = (if r + 1 + l \<le> b then b - l - 1 - r else 2 * b - l - 1 - r)"
proof (cases "r + 1 + l \<le> b")
  case True
  then show ?thesis by (subst mod_pos_pos_trivial) auto
next
  case False
  have "(int b - int l - 1 - int r) mod int b = (int b - int l - 1 - int r + int b) mod int b" by (rule mod_add_self2 [symmetric])
  also have "\<dots> = 2 * int b - int l - 1 - int r"
    using False assms by (subst mod_pos_pos_trivial) auto
  finally show ?thesis using False assms by simp
qed

text \<open>
  A class of this kind: the length field has \<open>lf\<close> bytes and is stored by \<open>lengths\<close>, the digest has words of \<open>wb\<close>
  bytes.
\<close>

locale sha_family = block_hash k transform compress
  for k :: nat and transform and compress :: "'w::len word list \<Rightarrow> bytes \<Rightarrow> 'w word list" +
  fixes lf wb :: nat and lengths :: "nat \<Rightarrow> nat \<Rightarrow> bytes \<Rightarrow> bytes"
  assumes lf: "8 \<le> lf" "lf < 2 ^ k"
    and lengths: "length d = 2 ^ k \<Longrightarrow> lo < 2 ^ 32 \<Longrightarrow> hi < 2 ^ 32 \<Longrightarrow>
      lengths hi lo d = take (2 ^ k - lf) d @ be_bytes lf (lo + 2 ^ 32 * hi)"
begin

lemma pad_length:
  "nat ((int (2 ^ k) - int lf - 1 - int n) mod int (2 ^ k)) =
     (if n mod 2 ^ k + 1 + lf \<le> 2 ^ k then 2 ^ k - lf - 1 - n mod 2 ^ k else 2 * 2 ^ k - lf - 1 - n mod 2 ^ k)"
proof -
  have "(int (2 ^ k) - int lf - 1 - int n) mod int (2 ^ k) = (int (2 ^ k) - int lf - 1 - int (n mod 2 ^ k)) mod int (2 ^ k)"
    by (simp only: zmod_int mod_diff_right_eq)
  then show ?thesis using lf(2) by (simp only: pad_mod mod_less_divisor zero_less_power zero_less_numeral)
qed

lemma final:
  assumes h: "holds H0 m st" and c: "counts (length m) st" and len: "length m < 2 ^ 61"
  shows "sha_final (2 ^ k) lf lengths transform wb st = fips_hash (2 ^ k) lf compress wb H0 m"
proof -
  obtain full where a: "absorbed H0 full st" "length (h_data st) = 2 ^ k" "h_local st < 2 ^ k"
      "m = full @ take (h_local st) (h_data st)"
    using h by (auto simp: holds_absorbed)
  let ?r = "h_local st" and ?d = "take (h_local st) (h_data st) @ 0x80 # replicate (2 ^ k - Suc (h_local st)) 0"
  let ?Z = "replicate (2 ^ k - lf) 0 @ be_bytes lf (8 * length m)"
  have r: "length m mod 2 ^ k = ?r" using a by (auto simp: absorbed_def min_def)
  have cnt: "count_lo st + 2 ^ 32 * count_hi st = 8 * length m" "count_lo st < 2 ^ 32" "count_hi st < 2 ^ 32"
    using c len by (auto simp: counts_def)
  have d: "take (?r + 1) ((h_data st)[?r := 0x80]) @ replicate (2 ^ k - (?r + 1)) 0 = ?d"
    using a(2,3) by (simp add: take_Suc_conv_app_nth)
  have ld: "length ?d = 2 ^ k" using a(2,3) by simp
  have sd: "absorbed H0 full (st\<lparr>h_data := ?d\<rparr>)" using a(1) by (simp add: absorbed_def)
  define st1 where "st1 = sha_pad (2 ^ k) lf transform st"
  define st2 where "st2 = st1\<lparr>h_data := lengths (count_hi st) (count_lo st) (h_data st1)\<rparr>"
  have "\<exists>full'. absorbed H0 full' st2 \<and> length (h_data st2) = 2 ^ k \<and> full' @ h_data st2 = fips_pad (2 ^ k) lf m"
  proof (cases "?r + 1 + lf \<le> 2 ^ k")
    case True
    then have "st1 = st\<lparr>h_data := ?d\<rparr>"
      using lf(2) unfolding st1_def sha_pad_def position [OF c] r Let_def d by simp
    then have "st2 = st\<lparr>h_data := take (2 ^ k - lf) ?d @ be_bytes lf (8 * length m)\<rparr>"
      using lengths [OF ld cnt(2,3)] cnt(1) by (simp add: st2_def)
    moreover have "full @ take (2 ^ k - lf) ?d @ be_bytes lf (8 * length m) = fips_pad (2 ^ k) lf m"
      unfolding fips_pad_def pad_length r using True a by (auto simp: take_Cons' min_def; linarith)
    ultimately show ?thesis using a(1) lf(2) ld by (intro exI [of _ full]) (simp add: absorbed_def)
  next
    case False
    note tr = absorbed_transform [OF sd]
    have "st1 = (transform (st\<lparr>h_data := ?d\<rparr>))\<lparr>h_data := replicate (2 ^ k) 0\<rparr>"
      using False lf(2) unfolding st1_def sha_pad_def position [OF c] r Let_def d by simp
    then have "absorbed H0 (full @ ?d) st2" "h_data st2 = ?Z"
      using tr ld lengths [of "replicate (2 ^ k) 0" "count_lo st" "count_hi st"] cnt by (simp_all add: absorbed_def st2_def)
    moreover have "(full @ ?d) @ ?Z = fips_pad (2 ^ k) lf m"
      unfolding fips_pad_def pad_length r using False a lf(2) by (simp add: replicate_add [symmetric])
    ultimately show ?thesis using lf(2) by (intro exI [of _ "full @ ?d"]) simp
  qed
  then have "h_digest (transform st2) = map unat (absorb (2 ^ k) compress H0 (fips_pad (2 ^ k) lf m))"
    using absorbed_transform(1) [of H0 _ st2] by auto
  then show ?thesis
    by (simp add: sha_final_def Let_def st1_def [symmetric] st2_def [symmetric] fips_hash_def word_bytes_be comp_def)
qed

end

section \<open>The base class over its subclass\<close>

definition arg_bytes :: "hash_arg \<Rightarrow> bytes result" where
  "arg_bytes s = (case s of HStr cs \<Rightarrow> ascii_encode cs | HBytes b \<Rightarrow> Inr b)"

text \<open>Calling \<open>update\<close> with one piece of the message after the other.\<close>

fun sha_updates :: "sha_class \<Rightarrow> sha \<Rightarrow> hash_arg list \<Rightarrow> sha result" where
  "sha_updates c st [] = Inr st"
| "sha_updates c st (p # ps) = rbind (sha_update c st p) (\<lambda>st. sha_updates c st ps)"

text \<open>The digests of the object and of a copy of it, after the constructor and the updates.\<close>

definition digest_after :: "sha_class \<Rightarrow> hash_arg \<Rightarrow> hash_arg list \<Rightarrow> (bytes \<times> bytes) result" where
  "digest_after c p ps =
     rbind (sha_init c (Some p)) (\<lambda>st. rbind (sha_updates c st ps) (\<lambda>st. Inr (sha_digest c st, sha_digest c (sha_copy c st))))"

text \<open>
  What the methods of the base class rely on: \<open>rep m st\<close> says that the object has seen the message \<open>m\<close>; every
  method keeps it, and \<open>_final\<close> gives the hash of what was seen.
\<close>

locale sha_impl =
  fixes c :: sha_class and hash :: "bytes \<Rightarrow> bytes" and rep :: "bytes \<Rightarrow> sha \<Rightarrow> bool"
  assumes rep_new: "rep [] (sha_new c)"
    and rep_update: "rep m st \<Longrightarrow> rep (m @ b) (m_update c st b)"
    and rep_copy: "rep m st \<Longrightarrow> rep m (sha_copy c st)"
    and rep_size: "rep m st \<Longrightarrow> h_digestsize st = digest_size c"
    and final_hash: "rep m st \<Longrightarrow> length m < 2 ^ 61 \<Longrightarrow> m_final c st = hash m"
begin

lemma update: "rep m st \<Longrightarrow> arg_bytes p = Inr b \<Longrightarrow> \<exists>st'. sha_update c st p = Inr st' \<and> rep (m @ b) st'"
  using rep_update by (auto simp: sha_update_def arg_bytes_def split: hash_arg.splits)

lemma updates:
  "rep m st \<Longrightarrow> rmap arg_bytes ps = Inr bs \<Longrightarrow> \<exists>st'. sha_updates c st ps = Inr st' \<and> rep (m @ concat bs) st'"
proof (induction ps arbitrary: m st bs)
  case (Cons p ps)
  then obtain b bs' where b: "arg_bytes p = Inr b" "rmap arg_bytes ps = Inr bs'" "bs = b # bs'" by auto
  obtain st' where st': "sha_update c st p = Inr st'" "rep (m @ b) st'" using update [OF Cons.prems(1) b(1)] by blast
  then show ?case using Cons.IH [OF st'(2) b(2)] b(3) by auto
qed simp

lemma digest: "rep m st \<Longrightarrow> length m < 2 ^ 61 \<Longrightarrow> sha_digest c st = take (digest_size c) (hash m)"
  using final_hash [OF rep_copy, of m st] by (simp add: sha_digest_def rep_size)

text \<open>The constructor, any number of updates, and the digest; a copy gives the same digest and is not disturbed.\<close>

lemma init: "arg_bytes p = Inr b \<Longrightarrow> \<exists>st. sha_init c (Some p) = Inr st \<and> rep b st"
proof -
  assume b: "arg_bytes p = Inr b"
  show ?thesis
  proof (cases "arg_true (Some p)")
    case True
    then show ?thesis using update [OF rep_new b] by (simp add: sha_init_def)
  next
    case False
    then have "b = []" using b by (cases p) (auto simp: arg_bytes_def ascii_encode_def)
    then show ?thesis using False rep_new by (simp add: sha_init_def)
  qed
qed

lemma digest_of_pieces:
  assumes "rmap arg_bytes (p # ps) = Inr bs" "length (concat bs) < 2 ^ 61"
  shows "digest_after c p ps = Inr (take (digest_size c) (hash (concat bs)), take (digest_size c) (hash (concat bs)))"
proof -
  obtain b bs' where b: "arg_bytes p = Inr b" "rmap arg_bytes ps = Inr bs'" "bs = b # bs'" using assms(1) by auto
  obtain st0 where st0: "sha_init c (Some p) = Inr st0" "rep b st0" using init [OF b(1)] by blast
  obtain st where st: "sha_updates c st0 ps = Inr st" "rep (concat bs) st" using updates [OF st0(2) b(2)] b(3) by auto
  show ?thesis
    using st0(1) st(1) digest [OF st(2) assms(2)] digest [OF rep_copy [OF st(2)] assms(2)] by (simp add: digest_after_def)
qed

end

text \<open>A class of the family is such a subclass.\<close>

locale sha_member = sha_family k transform compress lf wb lengths
  for k :: nat and transform and compress :: "'w::len word list \<Rightarrow> bytes \<Rightarrow> 'w word list" and lf wb and lengths +
  fixes c :: sha_class and H0 :: "'w word list"
  assumes iv: "iv c = map unat H0" "length H0 = 8"
    and block: "block_size c = 2 ^ k"
    and methods: "m_update c = sha_feed (2 ^ k) transform" "m_final c = sha_final (2 ^ k) lf lengths transform wb"
begin

definition seen :: "bytes \<Rightarrow> sha \<Rightarrow> bool" where
  "seen m st \<longleftrightarrow> holds H0 m st \<and> counts (length m) st \<and> h_digestsize st = digest_size c"

end

context sha_member begin

lemma hash_length: "length (fips_hash (2 ^ k) lf compress wb H0 m) = 8 * wb"
  by (simp add: fips_hash_def length_concat comp_def absorb_length iv sum_list_triv)

end

sublocale sha_member \<subseteq> sha_impl c "fips_hash (2 ^ k) lf compress wb H0" seen
proof
  show "seen [] (sha_new c)" using fresh [OF iv(2) iv(1) block] by (simp add: seen_def)
next
  fix m st b
  assume "seen m st"
  then have st: "holds H0 m st" "counts (length m) st" "h_digestsize st = digest_size c" by (simp_all add: seen_def)
  show "seen (m @ b) (m_update c st b)" using feed [OF st(1,2), of b] st(3) unfolding methods seen_def by simp
  show "seen m (sha_copy c st)" unfolding seen_def using copied(1) [OF block st(1)] copied(2) [OF st(2), of c]
    by (simp add: counts_def sha_copy_def sha_new_def)
  show "h_digestsize st = digest_size c" by (rule st(3))
  show "m_final c st = fips_hash (2 ^ k) lf compress wb H0 m" if "length m < 2 ^ 61"
    unfolding methods by (rule final [OF st(1,2) that])
qed

end
