(* ===== verification/Sha_Fips.thy ===== *)
theory Sha_Fips
  imports Sha_Base
begin

text \<open>
  The compression functions of FIPS 180-4, once for words of any width: the schedule, the rounds, and how Python's masked
  integers read as words. The round constants are a parameter; \<open>frac_root\<close> says where the standard takes them from.
\<close>

unbundle bit_operations_syntax

section \<open>The standard's functions\<close>

definition fips_Ch :: "'w::len word \<Rightarrow> 'w word \<Rightarrow> 'w word \<Rightarrow> 'w word" where
  "fips_Ch x y z = (x AND y) XOR (NOT x AND z)"

definition fips_Maj :: "'w::len word \<Rightarrow> 'w word \<Rightarrow> 'w word \<Rightarrow> 'w word" where
  "fips_Maj x y z = (x AND y) XOR (x AND z) XOR (y AND z)"

fun fips_Sigma :: "nat \<times> nat \<times> nat \<Rightarrow> 'w::len word \<Rightarrow> 'w word" where
  "fips_Sigma (a, b, c) x = word_rotr a x XOR word_rotr b x XOR word_rotr c x"

fun fips_sigma :: "nat \<times> nat \<times> nat \<Rightarrow> 'w::len word \<Rightarrow> 'w word" where
  "fips_sigma (a, b, c) x = word_rotr a x XOR word_rotr b x XOR drop_bit c x"

record fips =
  f_Sigma0 :: "nat \<times> nat \<times> nat"
  f_Sigma1 :: "nat \<times> nat \<times> nat"
  f_sigma0 :: "nat \<times> nat \<times> nat"
  f_sigma1 :: "nat \<times> nat \<times> nat"
  f_K :: "nat list"

text \<open>The word \<open>t\<close> of the message schedule of a block of sixteen words.\<close>

fun fips_W :: "fips \<Rightarrow> 'w::len word list \<Rightarrow> nat \<Rightarrow> 'w word" where
  "fips_W p M t =
     (if t < 16 then M ! t
      else fips_sigma (f_sigma1 p) (fips_W p M (t - 2)) + fips_W p M (t - 7) +
           fips_sigma (f_sigma0 p) (fips_W p M (t - 15)) + fips_W p M (t - 16))"

declare fips_W.simps [simp del]

fun fips_step :: "fips \<Rightarrow> 'w::len word list \<Rightarrow> 'w word list \<Rightarrow> nat \<Rightarrow> 'w word list" where
  "fips_step p M [a, b, c, d, e, f, g, h] t =
     (let T1 = h + fips_Sigma (f_Sigma1 p) e + fips_Ch e f g + of_nat (f_K p ! t) + fips_W p M t;
          T2 = fips_Sigma (f_Sigma0 p) a + fips_Maj a b c
      in [T1 + T2, a, b, c, d + T1, e, f, g])"
| "fips_step p M _ t = []"

definition fips_block :: "nat \<Rightarrow> bytes \<Rightarrow> 'w::len word list" where
  "fips_block wb d = map (\<lambda>t. of_nat (be_value (take wb (drop (wb * t) d)))) [0..<16]"

definition fips_compress :: "fips \<Rightarrow> nat \<Rightarrow> 'w::len word list \<Rightarrow> bytes \<Rightarrow> 'w word list" where
  "fips_compress p wb H d =
     map2 (+) H (foldl (fips_step p (fips_block wb d)) H [0..<length (f_K p)])"

text \<open>
  The standard's constants: \<open>c\<close> is the first \<open>w\<close> bits of the fractional part of the \<open>e\<close>-th root of \<open>n\<close>, where \<open>n\<close> is a
  prime number (so not 0). A number below 441 is prime when none of the primes up to 19 divides it, unless it is one of them.
\<close>

definition iroot :: "nat \<Rightarrow> nat \<Rightarrow> nat" where
  "iroot e n = length (takeWhile (\<lambda>q. q ^ e \<le> n) [2..<22]) + 1"

definition frac_root :: "nat \<Rightarrow> nat \<Rightarrow> nat \<Rightarrow> nat \<Rightarrow> bool" where
  "frac_root e w n c \<longleftrightarrow> c < 2 ^ w \<and> n < 441 \<and>
     (iroot e n * 2 ^ w + c) ^ e \<le> n * 2 ^ (w * e) \<and> n * 2 ^ (w * e) < (iroot e n * 2 ^ w + c + 1) ^ e"

definition small_primes :: "nat \<Rightarrow> nat list" where
  "small_primes n = filter (\<lambda>p. p < 441 \<and> list_all (\<lambda>d. p mod d \<noteq> 0 \<or> p = d) [2, 3, 5, 7, 11, 13, 17, 19]) [2..<n]"

section \<open>Python's integers as words\<close>

lemma rotr_masked:
  assumes "n < LENGTH('w::len)" "0 < n"
  shows "(of_nat (drop_bit n (take_bit LENGTH('w) x) OR push_bit (LENGTH('w) - n) x) :: 'w word) = word_rotr n (of_nat x)"
  by (rule bit_word_eqI) (use assms in \<open>auto simp: bit_simps mod_if add.commute\<close>)

lemma upt_8: "[0..<8] = [0, 1, 2, 3, 4, 5, 6, 7]" and upt_4: "[0..<4] = [0, 1, 2, 3]"
  by (simp_all add: upt_rec)

lemma be_bytes_high: "be_bytes j (lo + 256 ^ j * hi) = be_bytes j lo"
proof (induction j arbitrary: hi)
  case (Suc j)
  have "lo + 256 ^ Suc j * hi = lo + 256 ^ j * (256 * hi)" by simp
  moreover have "(of_nat ((lo + 256 ^ j * (256 * hi)) div 256 ^ j) :: byte) = of_nat (lo div 256 ^ j)"
  proof -
    have z: "(256 :: byte) = 0" by simp
    show ?thesis by (simp add: z)
  qed
  ultimately show ?case using Suc.IH [of "256 * hi"] by (simp only: be_bytes.simps)
qed simp

lemma be_bytes_append: "lo < 256 ^ j \<Longrightarrow> be_bytes (i + j) (lo + 256 ^ j * hi) = be_bytes i hi @ be_bytes j lo"
proof (induction i)
  case (Suc i)
  have "(lo + 256 ^ j * hi) div 256 ^ (i + j) = hi div 256 ^ i"
    unfolding power_add mult.commute [of "256 ^ i"] by (subst div_mult2_eq) (use Suc.prems in simp)
  then show ?case using Suc by simp
qed (simp add: be_bytes_high)

lemma be_bytes_0: "be_bytes j 0 = replicate j 0"
  by (induction j) simp_all

lemma store_8:
  "n + 8 \<le> length (d :: bytes) \<Longrightarrow>
     d[n := b0, n + 1 := b1, n + 2 := b2, n + 3 := b3, n + 4 := b4, n + 5 := b5, n + 6 := b6, n + 7 := b7] =
     take n d @ [b0, b1, b2, b3, b4, b5, b6, b7] @ drop (n + 8) d"
  using store_at_eq [of n "[b0, b1, b2, b3, b4, b5, b6, b7]" d] by (simp add: store_at_def numeral_eq_Suc)

lemma store_end:
  "length (d :: bytes) = n + 8 \<Longrightarrow> d[n := b0, n + 1 := b1, n + 2 := b2, n + 3 := b3, n + 4 := b4, n + 5 := b5, n + 6 := b6, n + 7 := b7] =
     take n d @ [b0, b1, b2, b3, b4, b5, b6, b7]"
  using store_8 [of n d] by simp

lemma be_bytes_4: "be_bytes 4 n = [to_u8 (drop_bit 24 n), to_u8 (drop_bit 16 n), to_u8 (drop_bit 8 n), to_u8 n]"
proof -
  have s: "(4::nat) = Suc (Suc (Suc (Suc 0)))" by simp
  show ?thesis unfolding s by (simp add: drop_bit_eq_div)
qed

lemma be_bytes_lo_hi: "lo < 2 ^ 32 \<Longrightarrow> be_bytes 8 (lo + 2 ^ 32 * hi) = be_bytes 4 hi @ be_bytes 4 lo"
  using be_bytes_append [of lo 4 4 hi] by simp

lemma take_drop_nth: "k + n \<le> length d \<Longrightarrow> take n (drop k d) = map (\<lambda>j. d ! (k + j)) [0..<n]"
  by (rule nth_equalityI) auto

lemmas of_nat_bits = of_nat_and_eq of_nat_or_eq of_nat_xor_eq

lemma of_nat_mask: "w = LENGTH('w) \<Longrightarrow> (of_nat (n mod 2 ^ w) :: 'w::len word) = of_nat n"
  by (rule bit_word_eqI) (auto simp: bit_simps simp flip: take_bit_eq_mod)

lemma shift_masked: "w = LENGTH('w) \<Longrightarrow> (of_nat (drop_bit n (x mod 2 ^ w)) :: 'w::len word) = drop_bit n (of_nat x)"
  by (rule bit_word_eqI) (auto simp: bit_simps simp flip: take_bit_eq_mod)

lemma Ch_word: "z XOR (x AND (y XOR z)) = fips_Ch x y z" for x y z :: "'w::len word"
  by (rule bit_word_eqI) (auto simp: fips_Ch_def bit_simps)

lemma Maj_word: "((x OR y) AND z) OR (x AND y) = fips_Maj x y z" for x y z :: "'w::len word"
  by (rule bit_word_eqI) (auto simp: fips_Maj_def bit_simps)

lemma fips_step_length [simp]: "length H = 8 \<Longrightarrow> length (fips_step p M H t) = 8"
  by (cases "(p, M, H, t)" rule: fips_step.cases) (auto simp: Let_def)

lemma fips_steps_length: "length H = 8 \<Longrightarrow> length (foldl (fips_step p M) H ts) = 8"
  by (induction ts arbitrary: H) auto

lemma fips_compress_length: "length H = 8 \<Longrightarrow> length (fips_compress p wb H d) = 8"
  by (simp add: fips_compress_def fips_steps_length)

section \<open>The unrolled rounds\<close>

text \<open>
  \<open>ss[p], ss[q] = RND(ss[r0], ..., ss[r7], i, ki)\<close> is the row \<open>(p, q, [r0, ..., r7], i, ki)\<close>. The code does not
  shift the eight registers as the standard does: the call number \<open>t\<close> reads and writes them rotated by \<open>t\<close> places.
\<close>

type_synonym call = "nat \<times> nat \<times> nat list \<times> nat \<times> nat"

type_synonym rnd = "nat \<Rightarrow> nat \<Rightarrow> nat \<Rightarrow> nat \<Rightarrow> nat \<Rightarrow> nat \<Rightarrow> nat \<Rightarrow> nat \<Rightarrow> nat \<Rightarrow> nat \<Rightarrow> nat \<times> nat"

definition unrolled_call :: "rnd \<Rightarrow> nat list \<Rightarrow> call \<Rightarrow> nat list" where
  "unrolled_call rnd ss row =
     (case row of (p, q, r, i, ki) \<Rightarrow>
        let (x, y) = rnd (ss ! (r ! 0)) (ss ! (r ! 1)) (ss ! (r ! 2)) (ss ! (r ! 3))
                         (ss ! (r ! 4)) (ss ! (r ! 5)) (ss ! (r ! 6)) (ss ! (r ! 7)) i ki
        in ss[p := x, q := y])"

fun reg_step :: "rnd \<Rightarrow> nat list \<Rightarrow> nat \<Rightarrow> nat \<Rightarrow> nat list" where
  "reg_step rnd [a, b, c, d, e, f, g, h] i ki = (let (x, y) = rnd a b c d e f g h i ki in [y, a, b, c, x, e, f, g])"
| "reg_step rnd _ i ki = []"

definition rotated :: "nat \<Rightarrow> 'a list \<Rightarrow> 'a list" where
  "rotated r L = map (\<lambda>j. L ! ((j + r) mod 8)) [0..<8]"

definition call_row :: "nat list \<Rightarrow> nat \<Rightarrow> call" where
  "call_row K t = ((11 - t mod 8) mod 8, (15 - t mod 8) mod 8, map (\<lambda>j. (j + 8 - t mod 8) mod 8) [0..<8], t, K ! t)"

lemma rotated_0: "length L = 8 \<Longrightarrow> t mod 8 = 0 \<Longrightarrow> rotated t L = L"
  by (rule nth_equalityI) (simp_all add: rotated_def mod_add_eq [symmetric, of _ t])

lemma rotated_mod: "rotated t L = rotated (t mod 8) L" "rotated (Suc t) L = rotated (Suc (t mod 8)) L"
proof -
  have m: "rotated t L = rotated (t mod 8) L" for t by (simp add: rotated_def mod_simps)
  show "rotated t L = rotated (t mod 8) L" by (rule m)
  show "rotated (Suc t) L = rotated (Suc (t mod 8)) L"
    using m [of "Suc t"] m [of "Suc (t mod 8)"] by (simp only: mod_Suc_eq)
qed

lemma list_update_numeral: "(x # xs)[numeral n := y] = x # xs[pred_numeral n := y]" "(x # xs)[1 := y] = x # xs[0 := y]"
  by (simp_all add: numeral_eq_Suc)

lemma length_8: "length L = 8 \<Longrightarrow> \<exists>a b c d e f g h. L = [a, b, c, d, e, f, g, h]"
  by (auto simp: length_Suc_conv numeral_eq_Suc)

lemma mod_8_cases: "t mod 8 = 0 \<or> t mod 8 = 1 \<or> t mod 8 = 2 \<or> t mod 8 = 3 \<or> t mod 8 = 4 \<or> t mod 8 = 5 \<or> t mod 8 = 6 \<or> t mod 8 = 7" for t :: nat
  by presburger

lemma unrolled_step:
  assumes "length L = 8"
  shows "unrolled_call rnd (rotated t L) (call_row K t) = rotated (Suc t) (reg_step rnd L t (K ! t))"
proof -
  obtain a b c d e f g h where L: "L = [a, b, c, d, e, f, g, h]" using length_8 [OF assms] by blast
  show ?thesis
    using mod_8_cases [of t] unfolding rotated_mod [of t] unrolled_call_def call_row_def
    by (elim disjE) (simp_all add: L rotated_def upt_8 list_update_numeral split: prod.split)
qed

lemma reg_step_length: "length L = 8 \<Longrightarrow> length (reg_step rnd L i ki) = 8"
  by (cases "(rnd, L, i, ki)" rule: reg_step.cases) (auto split: prod.splits)

lemma reg_steps_length: "length L = 8 \<Longrightarrow> length (foldl (\<lambda>L t. reg_step rnd L t (K ! t)) L ts) = 8"
  by (induction ts arbitrary: L) (auto simp: reg_step_length)

lemma unrolled_steps:
  "length L = 8 \<Longrightarrow>
     foldl (unrolled_call rnd) L (map (call_row K) [0..<n]) = rotated n (foldl (\<lambda>L t. reg_step rnd L t (K ! t)) L [0..<n])"
  by (induction n) (simp_all add: rotated_0 unrolled_step reg_steps_length)

lemma unrolled:
  assumes "calls = map (call_row K) [0..<length K]" "length K mod 8 = 0" "length L = 8"
  shows "foldl (unrolled_call rnd) L calls = foldl (\<lambda>L t. reg_step rnd L t (K ! t)) L [0..<length K]"
  using assms by (simp add: unrolled_steps rotated_0 reg_steps_length)

section \<open>From the code's schedule and rounds to the standard's\<close>

text \<open>
  What the two classes have in common, as the code's word operations on natural numbers: they agree with the standard's
  modulo \<open>2 ^ w\<close>, the calls are those of the standard in order, and one call of \<open>RND\<close> is one step.
\<close>

locale fips_code =
  fixes p :: fips and wb :: nat and rnd :: "nat list \<Rightarrow> rnd" and calls :: "call list"
    and block_words :: "bytes \<Rightarrow> nat list" and extend :: "nat list \<Rightarrow> nat \<Rightarrow> nat list" and type :: "'w::len itself"
  assumes bytes_width: "LENGTH('w) = 8 * wb"
    and calls: "calls = map (call_row (f_K p)) [0..<length (f_K p)]" "length (f_K p) mod 8 = 0" "16 \<le> length (f_K p)"
    and block_words: "length bs = 16 * wb \<Longrightarrow> map of_nat (block_words bs) = (fips_block wb bs :: 'w word list)"
    and extend: "i \<ge> 16 \<Longrightarrow> length W = i \<Longrightarrow> \<exists>x. extend W i = W @ [x] \<and> (of_nat x :: 'w word) =
      fips_sigma (f_sigma1 p) (of_nat (W ! (i - 2))) + of_nat (W ! (i - 7)) +
      fips_sigma (f_sigma0 p) (of_nat (W ! (i - 15))) + of_nat (W ! (i - 16))"
    and rnd: "rnd W a b c d e f g h i ki = (x, y) \<Longrightarrow>
      (of_nat x :: 'w word) = of_nat d + (of_nat h + fips_Sigma (f_Sigma1 p) (of_nat e) + fips_Ch (of_nat e) (of_nat f) (of_nat g) + of_nat ki + of_nat (W ! i)) \<and>
      (of_nat y :: 'w word) = of_nat h + fips_Sigma (f_Sigma1 p) (of_nat e) + fips_Ch (of_nat e) (of_nat f) (of_nat g) + of_nat ki + of_nat (W ! i)
         + (fips_Sigma (f_Sigma0 p) (of_nat a) + fips_Maj (of_nat a) (of_nat b) (of_nat c))"
begin

lemma schedule:
  assumes "length d = 16 * wb"
  shows "length (foldl extend (block_words d) [16..<16 + n]) = 16 + n \<and>
    (\<forall>t < 16 + n. (of_nat (foldl extend (block_words d) [16..<16 + n] ! t) :: 'w word) = fips_W p (fips_block wb d) t)"
proof (induction n)
  case 0
  have "map of_nat (block_words d) = (fips_block wb d :: 'w word list)" using assms by (rule block_words)
  moreover have l: "length (fips_block wb d :: 'w word list) = 16" by (simp add: fips_block_def)
  ultimately have "length (block_words d) = 16" by (metis length_map)
  moreover from this have "t < 16 \<Longrightarrow> (of_nat (block_words d ! t) :: 'w word) = fips_block wb d ! t" for t
    using block_words [OF assms] by (metis nth_map)
  ultimately show ?case by (simp add: fips_W.simps)
next
  case (Suc n)
  let ?W = "foldl extend (block_words d) [16..<16 + n]"
  obtain x where x: "extend ?W (16 + n) = ?W @ [x]" "(of_nat x :: 'w word) =
      fips_sigma (f_sigma1 p) (of_nat (?W ! (16 + n - 2))) + of_nat (?W ! (16 + n - 7)) +
      fips_sigma (f_sigma0 p) (of_nat (?W ! (16 + n - 15))) + of_nat (?W ! (16 + n - 16))"
    using extend [of "16 + n" ?W] Suc.IH by auto
  have "(of_nat x :: 'w word) = fips_W p (fips_block wb d) (16 + n)"
    using Suc.IH unfolding x(2) by (subst fips_W.simps) simp
  moreover have "[16..<16 + Suc n] = [16..<16 + n] @ [16 + n]" unfolding add_Suc_right by (rule upt_Suc_append) simp
  then have W': "foldl extend (block_words d) [16..<16 + Suc n] = ?W @ [x]" using x(1) by (simp only: foldl_append foldl.simps)
  have t: "t < 16 + Suc n \<longleftrightarrow> t < 16 + n \<or> t = 16 + n" for t by linarith
  ultimately show ?case unfolding W' t using Suc.IH by (auto simp: nth_append)
qed

lemma step:
  assumes "length L = 8" "(of_nat (W ! t) :: 'w word) = fips_W p M t"
  shows "map of_nat (reg_step (rnd W) L t (f_K p ! t)) = fips_step p M (map of_nat L) t"
proof -
  obtain a b c d e f g h where L: "L = [a, b, c, d, e, f, g, h]" using length_8 [OF assms(1)] by blast
  obtain x y where xy: "rnd W a b c d e f g h t (f_K p ! t) = (x, y)" by force
  show ?thesis using rnd [OF xy] assms(2) by (simp add: L xy Let_def ac_simps)
qed

lemma rounds:
  assumes "length d = 16 * wb" "length L = 8"
  shows "map of_nat (foldl (unrolled_call (rnd (foldl extend (block_words d) [16..<length (f_K p)]))) L calls) =
     foldl (fips_step p (fips_block wb d :: 'w word list)) (map of_nat L) [0..<length (f_K p)]"
proof -
  let ?W = "foldl extend (block_words d) [16..<length (f_K p)]" and ?M = "fips_block wb d :: 'w word list"
  have W: "t < length (f_K p) \<Longrightarrow> (of_nat (?W ! t) :: 'w word) = fips_W p ?M t" for t
    using schedule [OF assms(1), of "length (f_K p) - 16"] calls(3) by simp
  have "map of_nat (foldl (\<lambda>L t. reg_step (rnd ?W) L t (f_K p ! t)) L [0..<n]) = foldl (fips_step p ?M) (map of_nat L) [0..<n]"
    if "n \<le> length (f_K p)" for n
    using that by (induction n) (simp_all add: step W reg_steps_length assms(2))
  then show ?thesis using unrolled [OF calls(1,2) assms(2)] by simp
qed

text \<open>Adding the result of the rounds to the hash value, with the masks of the code.\<close>

lemma compress:
  assumes "length d = 16 * wb" "length H = 8"
  shows "map (\<lambda>i. (map unat (H :: 'w word list) ! i +
        foldl (unrolled_call (rnd (foldl extend (block_words d) [16..<length (f_K p)]))) (map unat H) calls ! i) mod 2 ^ (8 * wb)) [0..<8] =
      map unat (fips_compress p wb H d)"
proof -
  let ?S = "foldl (unrolled_call (rnd (foldl extend (block_words d) [16..<length (f_K p)]))) (map unat H) calls"
  have S: "map of_nat ?S = foldl (fips_step p (fips_block wb d :: 'w word list)) H [0..<length (f_K p)]"
    using rounds [OF assms(1), of "map unat H"] assms(2) by (simp add: comp_def)
  have l: "length ?S = 8"
    using arg_cong [OF S, of length] fips_steps_length [OF assms(2)] by simp
  have "(unat (H ! i) + ?S ! i) mod 2 ^ (8 * wb) = unat (H ! i + of_nat (?S ! i))" if "i < 8" for i
    using that bytes_width by (simp add: unat_word_ariths unat_of_nat mod_simps)
  then show ?thesis
    using assms(2) l by (intro nth_equalityI) (simp_all add: fips_compress_def fips_steps_length flip: S)
qed

end

end
