(* ===== verification/Sha256.thy ===== *)
theory Sha256
  imports Sha_Fips
begin

text \<open>
  \<open>hashlib/_sha256.py\<close> and \<open>_sha224.py\<close>: the compression of a block with its sixty-four unrolled calls of \<open>sha256_RND\<close>,
  \<open>_update\<close> and \<open>_final\<close>, and their equivalence with SHA-256 and SHA-224 of FIPS 180-4 over 32 bit words.
\<close>

unbundle bit_operations_syntax

section \<open>The code\<close>

definition sha256_ROR :: "nat \<Rightarrow> nat \<Rightarrow> nat" where
  "sha256_ROR x y = (drop_bit (y AND 31) (x AND 0xFFFFFFFF) OR push_bit (32 - (y AND 31)) x) AND 0xFFFFFFFF"

definition sha256_Ch :: "nat \<Rightarrow> nat \<Rightarrow> nat \<Rightarrow> nat" where
  "sha256_Ch x y z = (z XOR (x AND (y XOR z)))"

definition sha256_Maj :: "nat \<Rightarrow> nat \<Rightarrow> nat \<Rightarrow> nat" where
  "sha256_Maj x y z = (((x OR y) AND z) OR (x AND y))"

definition sha256_R :: "nat \<Rightarrow> nat \<Rightarrow> nat" where
  "sha256_R x n = drop_bit n (x AND 0xFFFFFFFF)"

definition sha256_Sigma0 :: "nat \<Rightarrow> nat" where
  "sha256_Sigma0 x = (sha256_ROR x 2 XOR sha256_ROR x 13 XOR sha256_ROR x 22)"

definition sha256_Sigma1 :: "nat \<Rightarrow> nat" where
  "sha256_Sigma1 x = (sha256_ROR x 6 XOR sha256_ROR x 11 XOR sha256_ROR x 25)"

definition sha256_Gamma0 :: "nat \<Rightarrow> nat" where
  "sha256_Gamma0 x = (sha256_ROR x 7 XOR sha256_ROR x 18 XOR sha256_R x 3)"

definition sha256_Gamma1 :: "nat \<Rightarrow> nat" where
  "sha256_Gamma1 x = (sha256_ROR x 17 XOR sha256_ROR x 19 XOR sha256_R x 10)"

definition sha256_block_words :: "bytes \<Rightarrow> nat list" where
  "sha256_block_words d =
     map (\<lambda>i. push_bit 24 (unat (d ! (4 * i))) + push_bit 16 (unat (d ! (4 * i + 1))) +
              push_bit 8 (unat (d ! (4 * i + 2))) + unat (d ! (4 * i + 3))) [0..<16]"

definition sha256_extend :: "nat list \<Rightarrow> nat \<Rightarrow> nat list" where
  "sha256_extend W i =
     W @ [(sha256_Gamma1 (W ! (i - 2)) + W ! (i - 7) + sha256_Gamma0 (W ! (i - 15)) + W ! (i - 16)) AND 0xFFFFFFFF]"

definition sha256_W :: "bytes \<Rightarrow> nat list" where
  "sha256_W d = foldl sha256_extend (sha256_block_words d) [16..<64]"

definition sha256_RND :: "nat list \<Rightarrow> nat \<Rightarrow> nat \<Rightarrow> nat \<Rightarrow> nat \<Rightarrow> nat \<Rightarrow> nat \<Rightarrow> nat \<Rightarrow> nat \<Rightarrow> nat \<Rightarrow> nat \<Rightarrow> nat \<times> nat" where
  "sha256_RND W a b c d e f g h i ki =
     (let t0 = h + sha256_Sigma1 e + sha256_Ch e f g + ki + W ! i;
          t1 = sha256_Sigma0 a + sha256_Maj a b c;
          d = d + t0;
          h = t0 + t1
      in (d AND 0xFFFFFFFF, h AND 0xFFFFFFFF))"

text \<open>The sixty-four calls as they are written, a row each.\<close>

definition sha256_calls :: "call list" where
  "sha256_calls = [
    (3, 7, [0, 1, 2, 3, 4, 5, 6, 7], 0, 0x428A2F98),
    (2, 6, [7, 0, 1, 2, 3, 4, 5, 6], 1, 0x71374491),
    (1, 5, [6, 7, 0, 1, 2, 3, 4, 5], 2, 0xB5C0FBCF),
    (0, 4, [5, 6, 7, 0, 1, 2, 3, 4], 3, 0xE9B5DBA5),
    (7, 3, [4, 5, 6, 7, 0, 1, 2, 3], 4, 0x3956C25B),
    (6, 2, [3, 4, 5, 6, 7, 0, 1, 2], 5, 0x59F111F1),
    (5, 1, [2, 3, 4, 5, 6, 7, 0, 1], 6, 0x923F82A4),
    (4, 0, [1, 2, 3, 4, 5, 6, 7, 0], 7, 0xAB1C5ED5),
    (3, 7, [0, 1, 2, 3, 4, 5, 6, 7], 8, 0xD807AA98),
    (2, 6, [7, 0, 1, 2, 3, 4, 5, 6], 9, 0x12835B01),
    (1, 5, [6, 7, 0, 1, 2, 3, 4, 5], 10, 0x243185BE),
    (0, 4, [5, 6, 7, 0, 1, 2, 3, 4], 11, 0x550C7DC3),
    (7, 3, [4, 5, 6, 7, 0, 1, 2, 3], 12, 0x72BE5D74),
    (6, 2, [3, 4, 5, 6, 7, 0, 1, 2], 13, 0x80DEB1FE),
    (5, 1, [2, 3, 4, 5, 6, 7, 0, 1], 14, 0x9BDC06A7),
    (4, 0, [1, 2, 3, 4, 5, 6, 7, 0], 15, 0xC19BF174),
    (3, 7, [0, 1, 2, 3, 4, 5, 6, 7], 16, 0xE49B69C1),
    (2, 6, [7, 0, 1, 2, 3, 4, 5, 6], 17, 0xEFBE4786),
    (1, 5, [6, 7, 0, 1, 2, 3, 4, 5], 18, 0x0FC19DC6),
    (0, 4, [5, 6, 7, 0, 1, 2, 3, 4], 19, 0x240CA1CC),
    (7, 3, [4, 5, 6, 7, 0, 1, 2, 3], 20, 0x2DE92C6F),
    (6, 2, [3, 4, 5, 6, 7, 0, 1, 2], 21, 0x4A7484AA),
    (5, 1, [2, 3, 4, 5, 6, 7, 0, 1], 22, 0x5CB0A9DC),
    (4, 0, [1, 2, 3, 4, 5, 6, 7, 0], 23, 0x76F988DA),
    (3, 7, [0, 1, 2, 3, 4, 5, 6, 7], 24, 0x983E5152),
    (2, 6, [7, 0, 1, 2, 3, 4, 5, 6], 25, 0xA831C66D),
    (1, 5, [6, 7, 0, 1, 2, 3, 4, 5], 26, 0xB00327C8),
    (0, 4, [5, 6, 7, 0, 1, 2, 3, 4], 27, 0xBF597FC7),
    (7, 3, [4, 5, 6, 7, 0, 1, 2, 3], 28, 0xC6E00BF3),
    (6, 2, [3, 4, 5, 6, 7, 0, 1, 2], 29, 0xD5A79147),
    (5, 1, [2, 3, 4, 5, 6, 7, 0, 1], 30, 0x06CA6351),
    (4, 0, [1, 2, 3, 4, 5, 6, 7, 0], 31, 0x14292967),
    (3, 7, [0, 1, 2, 3, 4, 5, 6, 7], 32, 0x27B70A85),
    (2, 6, [7, 0, 1, 2, 3, 4, 5, 6], 33, 0x2E1B2138),
    (1, 5, [6, 7, 0, 1, 2, 3, 4, 5], 34, 0x4D2C6DFC),
    (0, 4, [5, 6, 7, 0, 1, 2, 3, 4], 35, 0x53380D13),
    (7, 3, [4, 5, 6, 7, 0, 1, 2, 3], 36, 0x650A7354),
    (6, 2, [3, 4, 5, 6, 7, 0, 1, 2], 37, 0x766A0ABB),
    (5, 1, [2, 3, 4, 5, 6, 7, 0, 1], 38, 0x81C2C92E),
    (4, 0, [1, 2, 3, 4, 5, 6, 7, 0], 39, 0x92722C85),
    (3, 7, [0, 1, 2, 3, 4, 5, 6, 7], 40, 0xA2BFE8A1),
    (2, 6, [7, 0, 1, 2, 3, 4, 5, 6], 41, 0xA81A664B),
    (1, 5, [6, 7, 0, 1, 2, 3, 4, 5], 42, 0xC24B8B70),
    (0, 4, [5, 6, 7, 0, 1, 2, 3, 4], 43, 0xC76C51A3),
    (7, 3, [4, 5, 6, 7, 0, 1, 2, 3], 44, 0xD192E819),
    (6, 2, [3, 4, 5, 6, 7, 0, 1, 2], 45, 0xD6990624),
    (5, 1, [2, 3, 4, 5, 6, 7, 0, 1], 46, 0xF40E3585),
    (4, 0, [1, 2, 3, 4, 5, 6, 7, 0], 47, 0x106AA070),
    (3, 7, [0, 1, 2, 3, 4, 5, 6, 7], 48, 0x19A4C116),
    (2, 6, [7, 0, 1, 2, 3, 4, 5, 6], 49, 0x1E376C08),
    (1, 5, [6, 7, 0, 1, 2, 3, 4, 5], 50, 0x2748774C),
    (0, 4, [5, 6, 7, 0, 1, 2, 3, 4], 51, 0x34B0BCB5),
    (7, 3, [4, 5, 6, 7, 0, 1, 2, 3], 52, 0x391C0CB3),
    (6, 2, [3, 4, 5, 6, 7, 0, 1, 2], 53, 0x4ED8AA4A),
    (5, 1, [2, 3, 4, 5, 6, 7, 0, 1], 54, 0x5B9CCA4F),
    (4, 0, [1, 2, 3, 4, 5, 6, 7, 0], 55, 0x682E6FF3),
    (3, 7, [0, 1, 2, 3, 4, 5, 6, 7], 56, 0x748F82EE),
    (2, 6, [7, 0, 1, 2, 3, 4, 5, 6], 57, 0x78A5636F),
    (1, 5, [6, 7, 0, 1, 2, 3, 4, 5], 58, 0x84C87814),
    (0, 4, [5, 6, 7, 0, 1, 2, 3, 4], 59, 0x8CC70208),
    (7, 3, [4, 5, 6, 7, 0, 1, 2, 3], 60, 0x90BEFFFA),
    (6, 2, [3, 4, 5, 6, 7, 0, 1, 2], 61, 0xA4506CEB),
    (5, 1, [2, 3, 4, 5, 6, 7, 0, 1], 62, 0xBEF9A3F7),
    (4, 0, [1, 2, 3, 4, 5, 6, 7, 0], 63, 0xC67178F2)]"

definition sha256_transform :: "sha \<Rightarrow> sha" where
  "sha256_transform st =
     (let W = sha256_W (h_data st);
          ss = foldl (unrolled_call (sha256_RND W)) (h_digest st) sha256_calls
      in st\<lparr>h_digest := map (\<lambda>i. (h_digest st ! i + ss ! i) AND 0xFFFFFFFF) [0..<length (h_digest st)]\<rparr>)"

definition sha256_update :: "sha \<Rightarrow> bytes \<Rightarrow> sha" where
  "sha256_update = sha_feed 64 sha256_transform"

definition sha256_lengths :: "nat \<Rightarrow> nat \<Rightarrow> bytes \<Rightarrow> bytes" where
  "sha256_lengths hi lo d = d[
     56 := to_u8 (drop_bit 24 hi), 57 := to_u8 (drop_bit 16 hi), 58 := to_u8 (drop_bit 8 hi), 59 := to_u8 hi,
     60 := to_u8 (drop_bit 24 lo), 61 := to_u8 (drop_bit 16 lo), 62 := to_u8 (drop_bit 8 lo), 63 := to_u8 lo]"

definition sha256_final :: "sha \<Rightarrow> bytes" where
  "sha256_final = sha_final 64 8 sha256_lengths sha256_transform 4"

definition sha256 :: sha_class where
  "sha256 = \<lparr>iv = [0x6A09E667, 0xBB67AE85, 0x3C6EF372, 0xA54FF53A, 0x510E527F, 0x9B05688C, 0x1F83D9AB, 0x5BE0CD19],
     digest_size = 32, block_size = 64, m_update = sha256_update, m_final = sha256_final\<rparr>"

definition sha224 :: sha_class where
  "sha224 = sha256\<lparr>iv := [0xC1059ED8, 0x367CD507, 0x3070DD17, 0xF70E5939, 0xFFC00B31, 0x68581511, 0x64F98FA7, 0xBEFA4FA4],
     digest_size := 28\<rparr>"

section \<open>The standard's SHA-256 and SHA-224\<close>

definition fips256 :: fips where
  "fips256 = \<lparr>f_Sigma0 = (2, 13, 22), f_Sigma1 = (6, 11, 25), f_sigma0 = (7, 18, 3), f_sigma1 = (17, 19, 10),
     f_K = [1116352408, 1899447441, 3049323471, 3921009573, 961987163, 1508970993, 2453635748, 2870763221,
       3624381080, 310598401, 607225278, 1426881987, 1925078388, 2162078206, 2614888103, 3248222580,
       3835390401, 4022224774, 264347078, 604807628, 770255983, 1249150122, 1555081692, 1996064986,
       2554220882, 2821834349, 2952996808, 3210313671, 3336571891, 3584528711, 113926993, 338241895,
       666307205, 773529912, 1294757372, 1396182291, 1695183700, 1986661051, 2177026350, 2456956037,
       2730485921, 2820302411, 3259730800, 3345764771, 3516065817, 3600352804, 4094571909, 275423344,
       430227734, 506948616, 659060556, 883997877, 958139571, 1322822218, 1537002063, 1747873779,
       1955562222, 2024104815, 2227730452, 2361852424, 2428436474, 2756734187, 3204031479, 3329325298]\<rparr>"

definition fips_sha256 :: "bytes \<Rightarrow> bytes" where
  "fips_sha256 = fips_hash 64 8 (fips_compress fips256 4) 4
     ([0x6a09e667, 0xbb67ae85, 0x3c6ef372, 0xa54ff53a, 0x510e527f, 0x9b05688c, 0x1f83d9ab, 0x5be0cd19] :: 32 word list)"

definition fips_sha224 :: "bytes \<Rightarrow> bytes" where
  "fips_sha224 m = take 28 (fips_hash 64 8 (fips_compress fips256 4) 4
     ([0xc1059ed8, 0x367cd507, 0x3070dd17, 0xf70e5939, 0xffc00b31, 0x68581511, 0x64f98fa7, 0xbefa4fa4] :: 32 word list) m)"

section \<open>The code is the standard\<close>

lemma calls_256: "sha256_calls = map (call_row (f_K fips256)) [0..<length (f_K fips256)]"
  by (simp add: sha256_calls_def fips256_def call_row_def upt_8)

lemma ROR_256: "0 < n \<Longrightarrow> n < 32 \<Longrightarrow> (of_nat (sha256_ROR x n) :: 32 word) = word_rotr n (of_nat x)"
proof -
  assume n: "0 < n" "n < 32"
  have "n AND 31 = n" using n take_bit_nat_eq_self [of n 5] by (simp add: take_bit_eq_mask mask_eq_exp_minus_1)
  then have "(of_nat (sha256_ROR x n) :: 32 word) = of_nat (drop_bit n (x mod 2 ^ 32) OR push_bit (32 - n) x)"
    unfolding sha256_ROR_def and_M32 by (simp only: of_nat_mask len_of_numeral_defs)
  then show ?thesis using rotr_masked [of n x, where 'w = 32] n by (simp add: take_bit_eq_mod)
qed

lemma R_256: "(of_nat (sha256_R x n) :: 32 word) = drop_bit n (of_nat x)"
  unfolding sha256_R_def and_M32 by (rule shift_masked) simp

lemma functions_256:
  "(of_nat (sha256_Sigma0 x) :: 32 word) = fips_Sigma (f_Sigma0 fips256) (of_nat x)"
  "(of_nat (sha256_Sigma1 x) :: 32 word) = fips_Sigma (f_Sigma1 fips256) (of_nat x)"
  "(of_nat (sha256_Gamma0 x) :: 32 word) = fips_sigma (f_sigma0 fips256) (of_nat x)"
  "(of_nat (sha256_Gamma1 x) :: 32 word) = fips_sigma (f_sigma1 fips256) (of_nat x)"
  "(of_nat (sha256_Ch x y z) :: 32 word) = fips_Ch (of_nat x) (of_nat y) (of_nat z)"
  "(of_nat (sha256_Maj x y z) :: 32 word) = fips_Maj (of_nat x) (of_nat y) (of_nat z)"
  by (simp_all add: sha256_Sigma0_def sha256_Sigma1_def sha256_Gamma0_def sha256_Gamma1_def sha256_Ch_def sha256_Maj_def
      of_nat_bits ROR_256 R_256 fips256_def flip: Ch_word Maj_word)

lemma block_word_256:
  assumes "t < 16" "length d = 64"
  shows "push_bit 24 (unat (d ! (4 * t))) + push_bit 16 (unat (d ! (4 * t + 1))) +
    push_bit 8 (unat (d ! (4 * t + 2))) + unat (d ! (4 * t + 3)) = be_value (take 4 (drop (4 * t) d))"
  by (subst take_drop_nth) (use assms in \<open>simp_all add: be_value_def upt_4 push_bit_eq_mult algebra_simps\<close>)

interpretation sha256_code: fips_code fips256 4 sha256_RND sha256_calls sha256_block_words sha256_extend "TYPE(32)"
proof unfold_locales
  show "LENGTH(32) = 8 * 4" by simp
  show "sha256_calls = map (call_row (f_K fips256)) [0..<length (f_K fips256)]" by (rule calls_256)
  show "length (f_K fips256) mod 8 = 0" "16 \<le> length (f_K fips256)" by (simp_all add: fips256_def)
  show "map of_nat (sha256_block_words bs) = (fips_block 4 bs :: 32 word list)" if "length bs = 16 * 4" for bs
    using block_word_256 [of _ bs] that unfolding sha256_block_words_def fips_block_def by simp
  show "\<exists>x. sha256_extend W i = W @ [x] \<and> (of_nat x :: 32 word) =
      fips_sigma (f_sigma1 fips256) (of_nat (W ! (i - 2))) + of_nat (W ! (i - 7)) +
      fips_sigma (f_sigma0 fips256) (of_nat (W ! (i - 15))) + of_nat (W ! (i - 16))" for W i
    by (simp only: sha256_extend_def and_M32 append_same_eq append_eq_append_conv list.inject ex_simps simp_thms of_nat_mask len_of_numeral_defs of_nat_add functions_256)
  fix W a b c d e f g h i ki x y
  assume "sha256_RND W a b c d e f g h i ki = (x, y)"
  then have "x = (d + (h + sha256_Sigma1 e + sha256_Ch e f g + ki + W ! i)) mod 2 ^ 32"
    "y = (h + sha256_Sigma1 e + sha256_Ch e f g + ki + W ! i + (sha256_Sigma0 a + sha256_Maj a b c)) mod 2 ^ 32"
    unfolding sha256_RND_def Let_def and_M32 by simp_all
  then show "(of_nat x :: 32 word) = of_nat d + (of_nat h + fips_Sigma (f_Sigma1 fips256) (of_nat e) + fips_Ch (of_nat e) (of_nat f) (of_nat g) + of_nat ki + of_nat (W ! i)) \<and>
      (of_nat y :: 32 word) = of_nat h + fips_Sigma (f_Sigma1 fips256) (of_nat e) + fips_Ch (of_nat e) (of_nat f) (of_nat g) + of_nat ki + of_nat (W ! i)
         + (fips_Sigma (f_Sigma0 fips256) (of_nat a) + fips_Maj (of_nat a) (of_nat b) (of_nat c))"
    by (simp only: of_nat_mask len_of_numeral_defs of_nat_add functions_256 simp_thms)
qed

text \<open>\<open>_transform\<close> compresses the block held in \<open>_data\<close>.\<close>

lemma sha256_transform:
  assumes "h_digest st = map unat H" "length H = 8" "length (h_data st) = 64"
  shows "sha256_transform st = st\<lparr>h_digest := map unat (fips_compress fips256 4 (H :: 32 word list) (h_data st))\<rparr>"
proof -
  have K: "length (f_K fips256) = 64" by (simp add: fips256_def)
  show ?thesis
    using sha256_code.compress [of "h_data st" H] assms
    by (simp add: sha256_transform_def Let_def sha256_W_def and_M32 K)
qed

lemma sha256_lengths:
  assumes "length d = 64" "lo < 2 ^ 32" "hi < 2 ^ 32"
  shows "sha256_lengths hi lo d = take 56 d @ be_bytes 8 (lo + 2 ^ 32 * hi)"
  unfolding be_bytes_lo_hi [OF assms(2)] using store_end [of d 56] assms(1) by (simp add: sha256_lengths_def be_bytes_4)

interpretation sha256_family: sha_family 6 sha256_transform "fips_compress fips256 4 :: 32 word list \<Rightarrow> _" 8 4 sha256_lengths
  by unfold_locales (simp_all add: sha256_transform fips_compress_length sha256_lengths)

abbreviation iv256 :: "32 word list" where
  "iv256 \<equiv> [0x6a09e667, 0xbb67ae85, 0x3c6ef372, 0xa54ff53a, 0x510e527f, 0x9b05688c, 0x1f83d9ab, 0x5be0cd19]"

abbreviation iv224 :: "32 word list" where
  "iv224 \<equiv> [0xc1059ed8, 0x367cd507, 0x3070dd17, 0xf70e5939, 0xffc00b31, 0x68581511, 0x64f98fa7, 0xbefa4fa4]"

interpretation sha256_class: sha_member 6 sha256_transform "fips_compress fips256 4" 8 4 sha256_lengths sha256 iv256
  by unfold_locales (simp_all add: sha256_def sha256_update_def sha256_final_def)

interpretation sha224_class: sha_member 6 sha256_transform "fips_compress fips256 4" 8 4 sha256_lengths sha224 iv224
  by unfold_locales (simp_all add: sha224_def sha256_def sha256_update_def sha256_final_def)

lemma fips_length_256: "length (fips_sha256 m) = 32"
  using sha256_class.hash_length [of m] by (simp add: fips_sha256_def)

text \<open>C9: a SHA-256 or SHA-224 object given a message in any pieces, to its constructor and to any number of updates,
  has the digest of FIPS 180-4 of the whole message, and so has a copy of it.\<close>

theorem sha256_is_fips:
  assumes "rmap arg_bytes (p # ps) = Inr bs" "length (concat bs) < 2 ^ 61"
  shows "digest_after sha256 p ps = Inr (fips_sha256 (concat bs), fips_sha256 (concat bs)) \<and>
    digest_after sha224 p ps = Inr (fips_sha224 (concat bs), fips_sha224 (concat bs))"
proof -
  have sizes: "digest_size sha256 = 32" "digest_size sha224 = 28" by (simp_all add: sha224_def sha256_def)
  show ?thesis
    using sha256_class.digest_of_pieces [OF assms] sha224_class.digest_of_pieces [OF assms] fips_length_256 [of "concat bs"]
    by (simp add: sizes fips_sha256_def fips_sha224_def)
qed

theorem sha256_is_fips_witness:
  "digest_after sha256 (HStr [0x61, 0x62]) [HBytes [0x63], HBytes []] =
     Inr (fips_sha256 [0x61, 0x62, 0x63], fips_sha256 [0x61, 0x62, 0x63])"
  using sha256_is_fips [of "HStr [0x61, 0x62]" "[HBytes [0x63], HBytes []]" "[[0x61, 0x62], [0x63], []]"]
  by (simp add: arg_bytes_def ascii_encode_def)

end
