(* ===== verification/Sha512.thy ===== *)
theory Sha512
  imports Sha_Fips
begin

text \<open>
  \<open>hashlib/_sha512.py\<close> and \<open>_sha384.py\<close>: the compression of a block with its eighty unrolled calls of \<open>RND\<close>,
  \<open>_update\<close> and \<open>_final\<close>, and their equivalence with SHA-512 and SHA-384 of FIPS 180-4 over 64 bit words.
\<close>

unbundle bit_operations_syntax

section \<open>The code\<close>

definition sha512_ROR64 :: "nat \<Rightarrow> nat \<Rightarrow> nat" where
  "sha512_ROR64 x y = (drop_bit (y AND 63) (x AND 0xFFFFFFFFFFFFFFFF) OR push_bit (64 - (y AND 63)) x) AND 0xFFFFFFFFFFFFFFFF"

definition sha512_Ch :: "nat \<Rightarrow> nat \<Rightarrow> nat \<Rightarrow> nat" where
  "sha512_Ch x y z = (z XOR (x AND (y XOR z)))"

definition sha512_Maj :: "nat \<Rightarrow> nat \<Rightarrow> nat \<Rightarrow> nat" where
  "sha512_Maj x y z = (((x OR y) AND z) OR (x AND y))"

definition sha512_R :: "nat \<Rightarrow> nat \<Rightarrow> nat" where
  "sha512_R x n = drop_bit n (x AND 0xFFFFFFFFFFFFFFFF)"

definition sha512_Sigma0 :: "nat \<Rightarrow> nat" where
  "sha512_Sigma0 x = (sha512_ROR64 x 28 XOR sha512_ROR64 x 34 XOR sha512_ROR64 x 39)"

definition sha512_Sigma1 :: "nat \<Rightarrow> nat" where
  "sha512_Sigma1 x = (sha512_ROR64 x 14 XOR sha512_ROR64 x 18 XOR sha512_ROR64 x 41)"

definition sha512_Gamma0 :: "nat \<Rightarrow> nat" where
  "sha512_Gamma0 x = (sha512_ROR64 x 1 XOR sha512_ROR64 x 8 XOR sha512_R x 7)"

definition sha512_Gamma1 :: "nat \<Rightarrow> nat" where
  "sha512_Gamma1 x = (sha512_ROR64 x 19 XOR sha512_ROR64 x 61 XOR sha512_R x 6)"

definition sha512_block_words :: "bytes \<Rightarrow> nat list" where
  "sha512_block_words d =
     map (\<lambda>i. push_bit 56 (unat (d ! (8 * i))) + push_bit 48 (unat (d ! (8 * i + 1))) +
              push_bit 40 (unat (d ! (8 * i + 2))) + push_bit 32 (unat (d ! (8 * i + 3))) +
              push_bit 24 (unat (d ! (8 * i + 4))) + push_bit 16 (unat (d ! (8 * i + 5))) +
              push_bit 8 (unat (d ! (8 * i + 6))) + unat (d ! (8 * i + 7))) [0..<16]"

definition sha512_extend :: "nat list \<Rightarrow> nat \<Rightarrow> nat list" where
  "sha512_extend W i =
     W @ [(sha512_Gamma1 (W ! (i - 2)) + W ! (i - 7) + sha512_Gamma0 (W ! (i - 15)) + W ! (i - 16)) AND 0xFFFFFFFFFFFFFFFF]"

definition sha512_W :: "bytes \<Rightarrow> nat list" where
  "sha512_W d = foldl sha512_extend (sha512_block_words d) [16..<80]"

definition sha512_RND :: "nat list \<Rightarrow> nat \<Rightarrow> nat \<Rightarrow> nat \<Rightarrow> nat \<Rightarrow> nat \<Rightarrow> nat \<Rightarrow> nat \<Rightarrow> nat \<Rightarrow> nat \<Rightarrow> nat \<Rightarrow> nat \<times> nat" where
  "sha512_RND W a b c d e f g h i ki =
     (let t0 = (h + sha512_Sigma1 e + sha512_Ch e f g + ki + W ! i) AND 0xFFFFFFFFFFFFFFFF;
          t1 = (sha512_Sigma0 a + sha512_Maj a b c) AND 0xFFFFFFFFFFFFFFFF;
          d = (d + t0) AND 0xFFFFFFFFFFFFFFFF;
          h = (t0 + t1) AND 0xFFFFFFFFFFFFFFFF
      in (d AND 0xFFFFFFFFFFFFFFFF, h AND 0xFFFFFFFFFFFFFFFF))"

text \<open>The eighty calls as they are written, a row each.\<close>

definition sha512_calls_low :: "call list" where
  "sha512_calls_low = [
    (3, 7, [0, 1, 2, 3, 4, 5, 6, 7], 0, 0x428A2F98D728AE22),
    (2, 6, [7, 0, 1, 2, 3, 4, 5, 6], 1, 0x7137449123EF65CD),
    (1, 5, [6, 7, 0, 1, 2, 3, 4, 5], 2, 0xB5C0FBCFEC4D3B2F),
    (0, 4, [5, 6, 7, 0, 1, 2, 3, 4], 3, 0xE9B5DBA58189DBBC),
    (7, 3, [4, 5, 6, 7, 0, 1, 2, 3], 4, 0x3956C25BF348B538),
    (6, 2, [3, 4, 5, 6, 7, 0, 1, 2], 5, 0x59F111F1B605D019),
    (5, 1, [2, 3, 4, 5, 6, 7, 0, 1], 6, 0x923F82A4AF194F9B),
    (4, 0, [1, 2, 3, 4, 5, 6, 7, 0], 7, 0xAB1C5ED5DA6D8118),
    (3, 7, [0, 1, 2, 3, 4, 5, 6, 7], 8, 0xD807AA98A3030242),
    (2, 6, [7, 0, 1, 2, 3, 4, 5, 6], 9, 0x12835B0145706FBE),
    (1, 5, [6, 7, 0, 1, 2, 3, 4, 5], 10, 0x243185BE4EE4B28C),
    (0, 4, [5, 6, 7, 0, 1, 2, 3, 4], 11, 0x550C7DC3D5FFB4E2),
    (7, 3, [4, 5, 6, 7, 0, 1, 2, 3], 12, 0x72BE5D74F27B896F),
    (6, 2, [3, 4, 5, 6, 7, 0, 1, 2], 13, 0x80DEB1FE3B1696B1),
    (5, 1, [2, 3, 4, 5, 6, 7, 0, 1], 14, 0x9BDC06A725C71235),
    (4, 0, [1, 2, 3, 4, 5, 6, 7, 0], 15, 0xC19BF174CF692694),
    (3, 7, [0, 1, 2, 3, 4, 5, 6, 7], 16, 0xE49B69C19EF14AD2),
    (2, 6, [7, 0, 1, 2, 3, 4, 5, 6], 17, 0xEFBE4786384F25E3),
    (1, 5, [6, 7, 0, 1, 2, 3, 4, 5], 18, 0x0FC19DC68B8CD5B5),
    (0, 4, [5, 6, 7, 0, 1, 2, 3, 4], 19, 0x240CA1CC77AC9C65),
    (7, 3, [4, 5, 6, 7, 0, 1, 2, 3], 20, 0x2DE92C6F592B0275),
    (6, 2, [3, 4, 5, 6, 7, 0, 1, 2], 21, 0x4A7484AA6EA6E483),
    (5, 1, [2, 3, 4, 5, 6, 7, 0, 1], 22, 0x5CB0A9DCBD41FBD4),
    (4, 0, [1, 2, 3, 4, 5, 6, 7, 0], 23, 0x76F988DA831153B5),
    (3, 7, [0, 1, 2, 3, 4, 5, 6, 7], 24, 0x983E5152EE66DFAB),
    (2, 6, [7, 0, 1, 2, 3, 4, 5, 6], 25, 0xA831C66D2DB43210),
    (1, 5, [6, 7, 0, 1, 2, 3, 4, 5], 26, 0xB00327C898FB213F),
    (0, 4, [5, 6, 7, 0, 1, 2, 3, 4], 27, 0xBF597FC7BEEF0EE4),
    (7, 3, [4, 5, 6, 7, 0, 1, 2, 3], 28, 0xC6E00BF33DA88FC2),
    (6, 2, [3, 4, 5, 6, 7, 0, 1, 2], 29, 0xD5A79147930AA725),
    (5, 1, [2, 3, 4, 5, 6, 7, 0, 1], 30, 0x06CA6351E003826F),
    (4, 0, [1, 2, 3, 4, 5, 6, 7, 0], 31, 0x142929670A0E6E70),
    (3, 7, [0, 1, 2, 3, 4, 5, 6, 7], 32, 0x27B70A8546D22FFC),
    (2, 6, [7, 0, 1, 2, 3, 4, 5, 6], 33, 0x2E1B21385C26C926),
    (1, 5, [6, 7, 0, 1, 2, 3, 4, 5], 34, 0x4D2C6DFC5AC42AED),
    (0, 4, [5, 6, 7, 0, 1, 2, 3, 4], 35, 0x53380D139D95B3DF),
    (7, 3, [4, 5, 6, 7, 0, 1, 2, 3], 36, 0x650A73548BAF63DE),
    (6, 2, [3, 4, 5, 6, 7, 0, 1, 2], 37, 0x766A0ABB3C77B2A8),
    (5, 1, [2, 3, 4, 5, 6, 7, 0, 1], 38, 0x81C2C92E47EDAEE6),
    (4, 0, [1, 2, 3, 4, 5, 6, 7, 0], 39, 0x92722C851482353B)]"

definition sha512_calls_high :: "call list" where
  "sha512_calls_high = [
    (3, 7, [0, 1, 2, 3, 4, 5, 6, 7], 40, 0xA2BFE8A14CF10364),
    (2, 6, [7, 0, 1, 2, 3, 4, 5, 6], 41, 0xA81A664BBC423001),
    (1, 5, [6, 7, 0, 1, 2, 3, 4, 5], 42, 0xC24B8B70D0F89791),
    (0, 4, [5, 6, 7, 0, 1, 2, 3, 4], 43, 0xC76C51A30654BE30),
    (7, 3, [4, 5, 6, 7, 0, 1, 2, 3], 44, 0xD192E819D6EF5218),
    (6, 2, [3, 4, 5, 6, 7, 0, 1, 2], 45, 0xD69906245565A910),
    (5, 1, [2, 3, 4, 5, 6, 7, 0, 1], 46, 0xF40E35855771202A),
    (4, 0, [1, 2, 3, 4, 5, 6, 7, 0], 47, 0x106AA07032BBD1B8),
    (3, 7, [0, 1, 2, 3, 4, 5, 6, 7], 48, 0x19A4C116B8D2D0C8),
    (2, 6, [7, 0, 1, 2, 3, 4, 5, 6], 49, 0x1E376C085141AB53),
    (1, 5, [6, 7, 0, 1, 2, 3, 4, 5], 50, 0x2748774CDF8EEB99),
    (0, 4, [5, 6, 7, 0, 1, 2, 3, 4], 51, 0x34B0BCB5E19B48A8),
    (7, 3, [4, 5, 6, 7, 0, 1, 2, 3], 52, 0x391C0CB3C5C95A63),
    (6, 2, [3, 4, 5, 6, 7, 0, 1, 2], 53, 0x4ED8AA4AE3418ACB),
    (5, 1, [2, 3, 4, 5, 6, 7, 0, 1], 54, 0x5B9CCA4F7763E373),
    (4, 0, [1, 2, 3, 4, 5, 6, 7, 0], 55, 0x682E6FF3D6B2B8A3),
    (3, 7, [0, 1, 2, 3, 4, 5, 6, 7], 56, 0x748F82EE5DEFB2FC),
    (2, 6, [7, 0, 1, 2, 3, 4, 5, 6], 57, 0x78A5636F43172F60),
    (1, 5, [6, 7, 0, 1, 2, 3, 4, 5], 58, 0x84C87814A1F0AB72),
    (0, 4, [5, 6, 7, 0, 1, 2, 3, 4], 59, 0x8CC702081A6439EC),
    (7, 3, [4, 5, 6, 7, 0, 1, 2, 3], 60, 0x90BEFFFA23631E28),
    (6, 2, [3, 4, 5, 6, 7, 0, 1, 2], 61, 0xA4506CEBDE82BDE9),
    (5, 1, [2, 3, 4, 5, 6, 7, 0, 1], 62, 0xBEF9A3F7B2C67915),
    (4, 0, [1, 2, 3, 4, 5, 6, 7, 0], 63, 0xC67178F2E372532B),
    (3, 7, [0, 1, 2, 3, 4, 5, 6, 7], 64, 0xCA273ECEEA26619C),
    (2, 6, [7, 0, 1, 2, 3, 4, 5, 6], 65, 0xD186B8C721C0C207),
    (1, 5, [6, 7, 0, 1, 2, 3, 4, 5], 66, 0xEADA7DD6CDE0EB1E),
    (0, 4, [5, 6, 7, 0, 1, 2, 3, 4], 67, 0xF57D4F7FEE6ED178),
    (7, 3, [4, 5, 6, 7, 0, 1, 2, 3], 68, 0x06F067AA72176FBA),
    (6, 2, [3, 4, 5, 6, 7, 0, 1, 2], 69, 0x0A637DC5A2C898A6),
    (5, 1, [2, 3, 4, 5, 6, 7, 0, 1], 70, 0x113F9804BEF90DAE),
    (4, 0, [1, 2, 3, 4, 5, 6, 7, 0], 71, 0x1B710B35131C471B),
    (3, 7, [0, 1, 2, 3, 4, 5, 6, 7], 72, 0x28DB77F523047D84),
    (2, 6, [7, 0, 1, 2, 3, 4, 5, 6], 73, 0x32CAAB7B40C72493),
    (1, 5, [6, 7, 0, 1, 2, 3, 4, 5], 74, 0x3C9EBE0A15C9BEBC),
    (0, 4, [5, 6, 7, 0, 1, 2, 3, 4], 75, 0x431D67C49C100D4C),
    (7, 3, [4, 5, 6, 7, 0, 1, 2, 3], 76, 0x4CC5D4BECB3E42B6),
    (6, 2, [3, 4, 5, 6, 7, 0, 1, 2], 77, 0x597F299CFC657E2A),
    (5, 1, [2, 3, 4, 5, 6, 7, 0, 1], 78, 0x5FCB6FAB3AD6FAEC),
    (4, 0, [1, 2, 3, 4, 5, 6, 7, 0], 79, 0x6C44198C4A475817)]"

definition sha512_transform :: "sha \<Rightarrow> sha" where
  "sha512_transform st =
     (let W = sha512_W (h_data st);
          ss = foldl (unrolled_call (sha512_RND W)) (h_digest st) (sha512_calls_low @ sha512_calls_high)
      in st\<lparr>h_digest := map (\<lambda>i. (h_digest st ! i + ss ! i) AND 0xFFFFFFFFFFFFFFFF) [0..<length (h_digest st)]\<rparr>)"

definition sha512_update :: "sha \<Rightarrow> bytes \<Rightarrow> sha" where
  "sha512_update = sha_feed 128 sha512_transform"

definition sha512_lengths :: "nat \<Rightarrow> nat \<Rightarrow> bytes \<Rightarrow> bytes" where
  "sha512_lengths hi lo d = d[
     112 := 0, 113 := 0, 114 := 0, 115 := 0, 116 := 0, 117 := 0, 118 := 0, 119 := 0,
     120 := to_u8 (drop_bit 24 hi), 121 := to_u8 (drop_bit 16 hi), 122 := to_u8 (drop_bit 8 hi), 123 := to_u8 hi,
     124 := to_u8 (drop_bit 24 lo), 125 := to_u8 (drop_bit 16 lo), 126 := to_u8 (drop_bit 8 lo), 127 := to_u8 lo]"

definition sha512_final :: "sha \<Rightarrow> bytes" where
  "sha512_final = sha_final 128 16 sha512_lengths sha512_transform 8"

definition sha512 :: sha_class where
  "sha512 = \<lparr>iv = [0x6A09E667F3BCC908, 0xBB67AE8584CAA73B, 0x3C6EF372FE94F82B, 0xA54FF53A5F1D36F1,
       0x510E527FADE682D1, 0x9B05688C2B3E6C1F, 0x1F83D9ABFB41BD6B, 0x5BE0CD19137E2179],
     digest_size = 64, block_size = 128, m_update = sha512_update, m_final = sha512_final\<rparr>"

definition sha384 :: sha_class where
  "sha384 = sha512\<lparr>iv := [0xCBBB9D5DC1059ED8, 0x629A292A367CD507, 0x9159015A3070DD17, 0x152FECD8F70E5939,
       0x67332667FFC00B31, 0x8EB44A8768581511, 0xDB0C2E0D64F98FA7, 0x47B5481DBEFA4FA4],
     digest_size := 48\<rparr>"

section \<open>The standard's SHA-512 and SHA-384\<close>

definition fips512 :: fips where
  "fips512 = \<lparr>f_Sigma0 = (28, 34, 39), f_Sigma1 = (14, 18, 41), f_sigma0 = (1, 8, 7), f_sigma1 = (19, 61, 6),
     f_K = [4794697086780616226, 8158064640168781261, 13096744586834688815, 16840607885511220156, 4131703408338449720,
       6480981068601479193, 10538285296894168987, 12329834152419229976, 15566598209576043074, 1334009975649890238,
       2608012711638119052, 6128411473006802146, 8268148722764581231, 9286055187155687089, 11230858885718282805,
       13951009754708518548, 16472876342353939154, 17275323862435702243, 1135362057144423861, 2597628984639134821,
       3308224258029322869, 5365058923640841347, 6679025012923562964, 8573033837759648693, 10970295158949994411,
       12119686244451234320, 12683024718118986047, 13788192230050041572, 14330467153632333762, 15395433587784984357,
       489312712824947311, 1452737877330783856, 2861767655752347644, 3322285676063803686, 5560940570517711597,
       5996557281743188959, 7280758554555802590, 8532644243296465576, 9350256976987008742, 10552545826968843579,
       11727347734174303076, 12113106623233404929, 14000437183269869457, 14369950271660146224, 15101387698204529176,
       15463397548674623760, 17586052441742319658, 1182934255886127544, 1847814050463011016, 2177327727835720531,
       2830643537854262169, 3796741975233480872, 4115178125766777443, 5681478168544905931, 6601373596472566643,
       7507060721942968483, 8399075790359081724, 8693463985226723168, 9568029438360202098, 10144078919501101548,
       10430055236837252648, 11840083180663258601, 13761210420658862357, 14299343276471374635, 14566680578165727644,
       15097957966210449927, 16922976911328602910, 17689382322260857208, 500013540394364858, 748580250866718886,
       1242879168328830382, 1977374033974150939, 2944078676154940804, 3659926193048069267, 4368137639120453308,
       4836135668995329356, 5532061633213252278, 6448918945643986474, 6902733635092675308, 7801388544844847127]\<rparr>"

definition fips_sha512 :: "bytes \<Rightarrow> bytes" where
  "fips_sha512 = fips_hash 128 16 (fips_compress fips512 8) 8
     ([0x6a09e667f3bcc908, 0xbb67ae8584caa73b, 0x3c6ef372fe94f82b, 0xa54ff53a5f1d36f1, 0x510e527fade682d1, 0x9b05688c2b3e6c1f, 0x1f83d9abfb41bd6b, 0x5be0cd19137e2179] :: 64 word list)"

definition fips_sha384 :: "bytes \<Rightarrow> bytes" where
  "fips_sha384 m = take 48 (fips_hash 128 16 (fips_compress fips512 8) 8
     ([0xcbbb9d5dc1059ed8, 0x629a292a367cd507, 0x9159015a3070dd17, 0x152fecd8f70e5939, 0x67332667ffc00b31, 0x8eb44a8768581511, 0xdb0c2e0d64f98fa7, 0x47b5481dbefa4fa4] :: 64 word list) m)"

section \<open>The code is the standard\<close>

lemma calls_512: "sha512_calls_low @ sha512_calls_high = map (call_row (f_K fips512)) [0..<length (f_K fips512)]"
  by (simp add: sha512_calls_low_def sha512_calls_high_def fips512_def call_row_def upt_8)

lemma ROR_512: "0 < n \<Longrightarrow> n < 64 \<Longrightarrow> (of_nat (sha512_ROR64 x n) :: 64 word) = word_rotr n (of_nat x)"
proof -
  assume n: "0 < n" "n < 64"
  have "n AND 63 = n" using n take_bit_nat_eq_self [of n 6] by (simp add: take_bit_eq_mask mask_eq_exp_minus_1)
  then have "(of_nat (sha512_ROR64 x n) :: 64 word) = of_nat (drop_bit n (x mod 2 ^ 64) OR push_bit (64 - n) x)"
    unfolding sha512_ROR64_def and_M64 by (simp only: of_nat_mask len_of_numeral_defs)
  then show ?thesis using rotr_masked [of n x, where 'w = 64] n by (simp add: take_bit_eq_mod)
qed

lemma R_512: "(of_nat (sha512_R x n) :: 64 word) = drop_bit n (of_nat x)"
  unfolding sha512_R_def and_M64 by (rule shift_masked) simp

lemma functions_512:
  "(of_nat (sha512_Sigma0 x) :: 64 word) = fips_Sigma (f_Sigma0 fips512) (of_nat x)"
  "(of_nat (sha512_Sigma1 x) :: 64 word) = fips_Sigma (f_Sigma1 fips512) (of_nat x)"
  "(of_nat (sha512_Gamma0 x) :: 64 word) = fips_sigma (f_sigma0 fips512) (of_nat x)"
  "(of_nat (sha512_Gamma1 x) :: 64 word) = fips_sigma (f_sigma1 fips512) (of_nat x)"
  "(of_nat (sha512_Ch x y z) :: 64 word) = fips_Ch (of_nat x) (of_nat y) (of_nat z)"
  "(of_nat (sha512_Maj x y z) :: 64 word) = fips_Maj (of_nat x) (of_nat y) (of_nat z)"
  by (simp_all add: sha512_Sigma0_def sha512_Sigma1_def sha512_Gamma0_def sha512_Gamma1_def sha512_Ch_def sha512_Maj_def
      of_nat_bits ROR_512 R_512 fips512_def flip: Ch_word Maj_word)

lemma block_word_512:
  assumes "t < 16" "length d = 128"
  shows "push_bit 56 (unat (d ! (8 * t))) + push_bit 48 (unat (d ! (8 * t + 1))) +
    push_bit 40 (unat (d ! (8 * t + 2))) + push_bit 32 (unat (d ! (8 * t + 3))) +
    push_bit 24 (unat (d ! (8 * t + 4))) + push_bit 16 (unat (d ! (8 * t + 5))) +
    push_bit 8 (unat (d ! (8 * t + 6))) + unat (d ! (8 * t + 7)) = be_value (take 8 (drop (8 * t) d))"
  by (subst take_drop_nth) (use assms in \<open>simp_all add: be_value_def upt_8 push_bit_eq_mult algebra_simps\<close>)

interpretation sha512_code: fips_code fips512 8 sha512_RND "sha512_calls_low @ sha512_calls_high" sha512_block_words sha512_extend "TYPE(64)"
proof unfold_locales
  show "LENGTH(64) = 8 * 8" by simp
  show "sha512_calls_low @ sha512_calls_high = map (call_row (f_K fips512)) [0..<length (f_K fips512)]" by (rule calls_512)
  show "length (f_K fips512) mod 8 = 0" "16 \<le> length (f_K fips512)" by (simp_all add: fips512_def)
  show "map of_nat (sha512_block_words bs) = (fips_block 8 bs :: 64 word list)" if "length bs = 16 * 8" for bs
    using block_word_512 [of _ bs] that unfolding sha512_block_words_def fips_block_def by simp
  show "\<exists>x. sha512_extend W i = W @ [x] \<and> (of_nat x :: 64 word) =
      fips_sigma (f_sigma1 fips512) (of_nat (W ! (i - 2))) + of_nat (W ! (i - 7)) +
      fips_sigma (f_sigma0 fips512) (of_nat (W ! (i - 15))) + of_nat (W ! (i - 16))" for W i
    by (simp only: sha512_extend_def and_M64 append_same_eq append_eq_append_conv list.inject ex_simps simp_thms of_nat_mask len_of_numeral_defs of_nat_add functions_512)
  fix W a b c d e f g h i ki x y
  assume "sha512_RND W a b c d e f g h i ki = (x, y)"
  then have "x = (d + (h + sha512_Sigma1 e + sha512_Ch e f g + ki + W ! i)) mod 2 ^ 64"
    "y = (h + sha512_Sigma1 e + sha512_Ch e f g + ki + W ! i + (sha512_Sigma0 a + sha512_Maj a b c)) mod 2 ^ 64"
    unfolding sha512_RND_def Let_def and_M64 by (auto simp: mod_simps)
  then show "(of_nat x :: 64 word) = of_nat d + (of_nat h + fips_Sigma (f_Sigma1 fips512) (of_nat e) + fips_Ch (of_nat e) (of_nat f) (of_nat g) + of_nat ki + of_nat (W ! i)) \<and>
      (of_nat y :: 64 word) = of_nat h + fips_Sigma (f_Sigma1 fips512) (of_nat e) + fips_Ch (of_nat e) (of_nat f) (of_nat g) + of_nat ki + of_nat (W ! i)
         + (fips_Sigma (f_Sigma0 fips512) (of_nat a) + fips_Maj (of_nat a) (of_nat b) (of_nat c))"
    by (simp only: of_nat_mask len_of_numeral_defs of_nat_add functions_512 simp_thms)
qed

text \<open>\<open>_transform\<close> compresses the block held in \<open>_data\<close>.\<close>

lemma sha512_transform:
  assumes "h_digest st = map unat H" "length H = 8" "length (h_data st) = 128"
  shows "sha512_transform st = st\<lparr>h_digest := map unat (fips_compress fips512 8 (H :: 64 word list) (h_data st))\<rparr>"
proof -
  have K: "length (f_K fips512) = 80" by (simp add: fips512_def)
  show ?thesis
    using sha512_code.compress [of "h_data st" H] assms
    by (simp add: sha512_transform_def Let_def sha512_W_def and_M64 K)
qed

lemma sha512_lengths:
  assumes "length d = 128" "lo < 2 ^ 32" "hi < 2 ^ 32"
  shows "sha512_lengths hi lo d = take 112 d @ be_bytes 16 (lo + 2 ^ 32 * hi)"
proof -
  let ?d = "d[112 := 0, 113 := 0, 114 := 0, 115 := 0, 116 := 0, 117 := 0, 118 := 0, 119 := 0]"
  have z: "replicate 8 (0 :: byte) = [0, 0, 0, 0, 0, 0, 0, 0]" by (simp add: numeral_eq_Suc)
  have d: "?d = take 112 d @ replicate 8 0 @ drop 120 d" using store_8 [of 112 d] assms(1) by (simp add: z)
  have "be_bytes 16 (lo + 2 ^ 32 * hi) = be_bytes 8 0 @ be_bytes 8 (lo + 2 ^ 32 * hi)"
    using be_bytes_append [of "lo + 2 ^ 32 * hi" 8 8 0] assms by simp
  moreover have "be_bytes 8 0 = replicate 8 0" by (rule be_bytes_0)
  moreover have "sha512_lengths hi lo d = take 120 ?d @ be_bytes 4 hi @ be_bytes 4 lo"
    using store_end [of ?d 120] assms(1) by (simp add: sha512_lengths_def be_bytes_4)
  moreover have "take 120 ?d = take 112 d @ replicate 8 0" using d assms(1) by simp
  ultimately show ?thesis unfolding be_bytes_lo_hi [OF assms(2)] by simp
qed

interpretation sha512_family: sha_family 7 sha512_transform "fips_compress fips512 8 :: 64 word list \<Rightarrow> _" 16 8 sha512_lengths
  by unfold_locales (simp_all add: sha512_transform fips_compress_length sha512_lengths)

abbreviation iv512 :: "64 word list" where
  "iv512 \<equiv> [0x6a09e667f3bcc908, 0xbb67ae8584caa73b, 0x3c6ef372fe94f82b, 0xa54ff53a5f1d36f1, 0x510e527fade682d1, 0x9b05688c2b3e6c1f, 0x1f83d9abfb41bd6b, 0x5be0cd19137e2179]"

abbreviation iv384 :: "64 word list" where
  "iv384 \<equiv> [0xcbbb9d5dc1059ed8, 0x629a292a367cd507, 0x9159015a3070dd17, 0x152fecd8f70e5939, 0x67332667ffc00b31, 0x8eb44a8768581511, 0xdb0c2e0d64f98fa7, 0x47b5481dbefa4fa4]"

interpretation sha512_class: sha_member 7 sha512_transform "fips_compress fips512 8" 16 8 sha512_lengths sha512 iv512
  by unfold_locales (simp_all add: sha512_def sha512_update_def sha512_final_def)

interpretation sha384_class: sha_member 7 sha512_transform "fips_compress fips512 8" 16 8 sha512_lengths sha384 iv384
  by unfold_locales (simp_all add: sha384_def sha512_def sha512_update_def sha512_final_def)

lemma fips_length_512: "length (fips_sha512 m) = 64"
  using sha512_class.hash_length [of m] by (simp add: fips_sha512_def)

text \<open>C17: a SHA-512 or SHA-384 object given a message in any pieces, to its constructor and to any number of updates,
  has the digest of FIPS 180-4 of the whole message, and so has a copy of it.\<close>

theorem sha512_is_fips:
  assumes "rmap arg_bytes (p # ps) = Inr bs" "length (concat bs) < 2 ^ 61"
  shows "digest_after sha512 p ps = Inr (fips_sha512 (concat bs), fips_sha512 (concat bs)) \<and>
    digest_after sha384 p ps = Inr (fips_sha384 (concat bs), fips_sha384 (concat bs))"
proof -
  have sizes: "digest_size sha512 = 64" "digest_size sha384 = 48" by (simp_all add: sha384_def sha512_def)
  show ?thesis
    using sha512_class.digest_of_pieces [OF assms] sha384_class.digest_of_pieces [OF assms] fips_length_512 [of "concat bs"]
    by (simp add: sizes fips_sha512_def fips_sha384_def)
qed

theorem sha512_is_fips_witness:
  "digest_after sha512 (HStr [0x61, 0x62]) [HBytes [0x63], HBytes []] =
     Inr (fips_sha512 [0x61, 0x62, 0x63], fips_sha512 [0x61, 0x62, 0x63])"
  using sha512_is_fips [of "HStr [0x61, 0x62]" "[HBytes [0x63], HBytes []]" "[[0x61, 0x62], [0x63], []]"]
  by (simp add: arg_bytes_def ascii_encode_def)

end
