(* ===== verification/Sha_Constants.thy ===== *)
theory Sha_Constants
  imports Sha256 Sha512
begin

text \<open>
  The numbers of \<open>_sha224.py\<close>, \<open>_sha256.py\<close>, \<open>_sha384.py\<close> and \<open>_sha512.py\<close> are those that FIPS 180-4 derives from the primes.
\<close>

definition round_constants :: "call list \<Rightarrow> nat list" where
  "round_constants calls = map (\<lambda>(p, q, r, i, ki). ki) calls"

lemmas constants_defs = round_constants_def frac_root_def iroot_def

definition small_primes_from :: "nat \<Rightarrow> nat \<Rightarrow> nat list" where
  "small_primes_from a b = filter (\<lambda>p. p < 441 \<and> list_all (\<lambda>d. p mod d \<noteq> 0 \<or> p = d) [2, 3, 5, 7, 11, 13, 17, 19]) [a..<b]"

lemma small_primes_split: "2 \<le> a \<Longrightarrow> a \<le> b \<Longrightarrow> small_primes b = small_primes a @ small_primes_from a b"
  using upt_add_eq_append [of 2 a "b - a"] by (simp add: small_primes_def small_primes_from_def)

lemma small_primes_2: "small_primes 2 = []"
  by (simp add: small_primes_def)

lemma primes_410_parts:
  "small_primes_from 2 42 = [2, 3, 5, 7, 11, 13, 17, 19, 23, 29, 31, 37, 41]"
  "small_primes_from 42 82 = [43, 47, 53, 59, 61, 67, 71, 73, 79]"
  "small_primes_from 82 122 = [83, 89, 97, 101, 103, 107, 109, 113]"
  "small_primes_from 122 162 = [127, 131, 137, 139, 149, 151, 157]"
  "small_primes_from 162 202 = [163, 167, 173, 179, 181, 191, 193, 197, 199]"
  "small_primes_from 202 242 = [211, 223, 227, 229, 233, 239, 241]"
  "small_primes_from 242 282 = [251, 257, 263, 269, 271, 277, 281]"
  "small_primes_from 282 322 = [283, 293, 307, 311, 313, 317]"
  "small_primes_from 322 362 = [331, 337, 347, 349, 353, 359]"
  "small_primes_from 362 410 = [367, 373, 379, 383, 389, 397, 401, 409]"
  by (simp_all add: small_primes_from_def)

lemma primes_410: "small_primes 410 =
    [2, 3, 5, 7, 11, 13, 17, 19, 23, 29, 31, 37, 41, 43, 47, 53, 59, 61, 67, 71,
     73, 79, 83, 89, 97, 101, 103, 107, 109, 113, 127, 131, 137, 139, 149, 151, 157, 163, 167, 173,
     179, 181, 191, 193, 197, 199, 211, 223, 227, 229, 233, 239, 241, 251, 257, 263, 269, 271, 277, 281,
     283, 293, 307, 311, 313, 317, 331, 337, 347, 349, 353, 359, 367, 373, 379, 383, 389, 397, 401, 409]"
  by (simp add: primes_410_parts small_primes_2
      small_primes_split [of 362 410]
      small_primes_split [of 322 362]
      small_primes_split [of 282 322]
      small_primes_split [of 242 282]
      small_primes_split [of 202 242]
      small_primes_split [of 162 202]
      small_primes_split [of 122 162]
      small_primes_split [of 82 122]
      small_primes_split [of 42 82]
      small_primes_split [of 2 42])

lemma cube_roots_256: "list_all2 (frac_root 3 32) (take 64 (small_primes 410)) (round_constants sha256_calls)"
  unfolding primes_410 by (simp add: constants_defs sha256_calls_def)

lemma cube_roots_512: "list_all2 (frac_root 3 64) (small_primes 410) (round_constants (sha512_calls_low @ sha512_calls_high))"
  unfolding primes_410 by (simp add: constants_defs sha512_calls_low_def sha512_calls_high_def)

lemma square_roots: "list_all2 (frac_root 2 32) (take 8 (small_primes 410)) (iv sha256)"
  "list_all2 (frac_root 2 64) (take 8 (small_primes 410)) (iv sha512)"
  "list_all2 (frac_root 2 64) (take 8 (drop 8 (small_primes 410))) (iv sha384)"
  unfolding primes_410 by (simp_all add: constants_defs sha256_def sha384_def sha512_def)

text \<open>The round constants are the first bits of the fractional parts of the cube roots of the first 64 and the first
  80 primes, the initial values those of the square roots of the first eight primes, for SHA-384 of the next eight, and for
  SHA-224 the low halves of the latter.\<close>

theorem sha_constants:
  "list_all2 (frac_root 3 32) (take 64 (small_primes 410)) (round_constants sha256_calls) \<and>
   list_all2 (frac_root 3 64) (small_primes 410) (round_constants (sha512_calls_low @ sha512_calls_high)) \<and>
   list_all2 (frac_root 2 32) (take 8 (small_primes 410)) (iv sha256) \<and>
   list_all2 (frac_root 2 64) (take 8 (small_primes 410)) (iv sha512) \<and>
   list_all2 (frac_root 2 64) (take 8 (drop 8 (small_primes 410))) (iv sha384) \<and>
   iv sha224 = map (\<lambda>x. x mod 2 ^ 32) (iv sha384)"
  by (intro conjI cube_roots_256 cube_roots_512 square_roots) (simp add: sha224_def sha384_def)

end
