(* ===== verification/Hmac.thy ===== *)
theory Hmac
  imports Sha256 Sha512
begin

text \<open>
  \<open>hmac/hmac.py\<close> over the classes of \<open>hashlib\<close>, on a port without built-in hashes (\<open>uhashlib\<close>): the object with its inner
  and outer hash, and its equivalence with RFC 2104. \<open>hmac_hash\<close> is what it relies on of a hash class.
\<close>

unbundle bit_operations_syntax

section \<open>\<open>hashlib\<close>\<close>

definition hashlib_attr :: "string \<Rightarrow> sha_class option" where
  "hashlib_attr algo =
     (if algo = ''sha224'' then Some sha224
      else if algo = ''sha256'' then Some sha256
      else if algo = ''sha384'' then Some sha384
      else if algo = ''sha512'' then Some sha512
      else None)"

definition hashlib_new :: "string \<Rightarrow> hash_arg \<Rightarrow> sha result" where
  "hashlib_new algo data = (case hashlib_attr algo of Some c \<Rightarrow> sha_init c (Some data) | None \<Rightarrow> Inl ValueError)"

section \<open>The HMAC object\<close>

datatype digestmod = DNone | DCallable sha_class | DName string

record hmac =
  hm_class :: sha_class
  hm_outer :: sha
  hm_inner :: sha
  hm_digest_size :: nat
  hm_block_size :: nat

text \<open>The class whose constructor is \<open>make_hash\<close>; a missing name is an error when it is called.\<close>

definition make_hash :: "digestmod \<Rightarrow> sha_class result" where
  "make_hash d =
     (case d of
        DNone \<Rightarrow> (case hashlib_attr ''md5'' of Some c \<Rightarrow> Inr c | None \<Rightarrow> Inl AttributeError)
      | DCallable c \<Rightarrow> Inr c
      | DName n \<Rightarrow> (case hashlib_attr n of Some c \<Rightarrow> Inr c | None \<Rightarrow> Inl AttributeError))"

definition hmac_update :: "hmac \<Rightarrow> hash_arg \<Rightarrow> hmac result" where
  "hmac_update h msg = rbind (sha_update (hm_class h) (hm_inner h) msg) (\<lambda>st. Inr (h\<lparr>hm_inner := st\<rparr>))"

definition hmac_key :: "sha_class \<Rightarrow> bytes \<Rightarrow> bytes result" where
  "hmac_key c key =
     (if length key > block_size c
      then rbind (sha_init c (Some (HBytes key))) (\<lambda>st. Inr (sha_digest c st))
      else Inr key)"

text \<open>\<open>bytes(n)\<close> of a negative number is a \<open>ValueError\<close>.\<close>

definition zero_bytes :: "int \<Rightarrow> bytes result" where
  "zero_bytes n = (if n < 0 then Inl ValueError else Inr (replicate (nat n) 0))"

definition hmac_new :: "hash_arg \<Rightarrow> hash_arg option \<Rightarrow> digestmod \<Rightarrow> hmac result" where
  "hmac_new key msg digestmod =
     (case key of
        HStr _ \<Rightarrow> Inl TypeError
      | HBytes key \<Rightarrow>
          rbind (make_hash digestmod) (\<lambda>c.
          rbind (sha_init c None) (\<lambda>outer.
          rbind (sha_init c None) (\<lambda>inner.
          rbind (hmac_key c key) (\<lambda>key.
          rbind (zero_bytes (int (block_size c) - int (length key))) (\<lambda>zeros.
            let key = key @ zeros in
            rbind (sha_update c outer (HBytes (map (\<lambda>x. x XOR 0x5C) key))) (\<lambda>outer.
            rbind (sha_update c inner (HBytes (map (\<lambda>x. x XOR 0x36) key))) (\<lambda>inner.
              let h = \<lparr>hm_class = c, hm_outer = outer, hm_inner = inner, hm_digest_size = digest_size c, hm_block_size = block_size c\<rparr>
              in case msg of None \<Rightarrow> Inr h | Some m \<Rightarrow> hmac_update h m))))))))"

definition hmac_copy :: "hmac \<Rightarrow> hmac" where
  "hmac_copy h = h\<lparr>hm_inner := sha_copy (hm_class h) (hm_inner h), hm_outer := sha_copy (hm_class h) (hm_outer h)\<rparr>"

definition hmac_current :: "hmac \<Rightarrow> sha result" where
  "hmac_current h =
     sha_update (hm_class h) (sha_copy (hm_class h) (hm_outer h)) (HBytes (sha_digest (hm_class h) (hm_inner h)))"

definition hmac_digest :: "hmac \<Rightarrow> bytes result" where
  "hmac_digest h = rbind (hmac_current h) (\<lambda>st. Inr (sha_digest (hm_class h) st))"

definition hmac_hexdigest :: "hmac \<Rightarrow> string result" where
  "hmac_hexdigest h =
     rbind (hmac_digest h) (\<lambda>d. Inr (concat (map (\<lambda>b. [hex_lower (unat b div 16), hex_lower (unat b mod 16)]) d)))"

fun hmac_updates :: "hmac \<Rightarrow> hash_arg list \<Rightarrow> hmac result" where
  "hmac_updates h [] = Inr h"
| "hmac_updates h (p # ps) = rbind (hmac_update h p) (\<lambda>h. hmac_updates h ps)"

text \<open>The digests of the object, of a copy, and of the object again, after the constructor and the updates.\<close>

definition mac_after :: "hash_arg \<Rightarrow> hash_arg option \<Rightarrow> digestmod \<Rightarrow> hash_arg list \<Rightarrow> (bytes \<times> bytes) result" where
  "mac_after key msg d ps =
     rbind (hmac_new key msg d) (\<lambda>h. rbind (hmac_updates h ps) (\<lambda>h.
       rbind (hmac_digest h) (\<lambda>x. rbind (hmac_digest (hmac_copy h)) (\<lambda>y. Inr (x, y)))))"

section \<open>RFC 2104\<close>

definition rfc2104 :: "(bytes \<Rightarrow> bytes) \<Rightarrow> nat \<Rightarrow> bytes \<Rightarrow> bytes \<Rightarrow> bytes" where
  "rfc2104 H B key text =
     (let K0 = (if length key > B then H key else key);
          K = K0 @ replicate (B - length K0) 0
      in H (map (\<lambda>x. x XOR 0x5C) K @ H (map (\<lambda>x. x XOR 0x36) K @ text)))"

text \<open>Of the hash class: it computes a hash, and its digests are no longer than its blocks.\<close>

locale hmac_hash = sha_impl c hash rep for c and hash and rep +
  assumes sizes: "digest_size c \<le> block_size c" "block_size c < 2 ^ 59"
begin

abbreviation H :: "bytes \<Rightarrow> bytes" where
  "H m \<equiv> take (digest_size c) (hash m)"

definition keyed :: "bytes \<Rightarrow> bytes \<Rightarrow> hmac \<Rightarrow> bool" where
  "keyed K m h \<longleftrightarrow> hm_class h = c \<and> length K = block_size c \<and>
     rep (map (\<lambda>x. x XOR 0x5C) K) (hm_outer h) \<and> rep (map (\<lambda>x. x XOR 0x36) K @ m) (hm_inner h)"

definition key_block :: "bytes \<Rightarrow> bytes" where
  "key_block key = (let K0 = (if length key > block_size c then H key else key) in K0 @ replicate (block_size c - length K0) 0)"

lemma keyed_update: "keyed K m h \<Longrightarrow> arg_bytes p = Inr b \<Longrightarrow> \<exists>h'. hmac_update h p = Inr h' \<and> keyed K (m @ b) h'"
  using update [of "map (\<lambda>x. x XOR 0x36) K @ m" "hm_inner h" p b] by (auto simp: keyed_def hmac_update_def)

lemma keyed_updates:
  "keyed K m h \<Longrightarrow> rmap arg_bytes ps = Inr bs \<Longrightarrow> \<exists>h'. hmac_updates h ps = Inr h' \<and> keyed K (m @ concat bs) h'"
proof (induction ps arbitrary: m h bs)
  case (Cons p ps)
  then obtain b bs' where b: "arg_bytes p = Inr b" "rmap arg_bytes ps = Inr bs'" "bs = b # bs'" by auto
  obtain h' where h': "hmac_update h p = Inr h'" "keyed K (m @ b) h'" using keyed_update [OF Cons.prems(1) b(1)] by blast
  then show ?case using Cons.IH [OF h'(2) b(2)] b(3) by auto
qed simp

lemma keyed_copy: "keyed K m h \<Longrightarrow> keyed K m (hmac_copy h)"
  by (simp add: keyed_def hmac_copy_def rep_copy)

lemma keyed_digest:
  assumes "keyed K m h" "length m < 2 ^ 60"
  shows "hmac_digest h = Inr (H (map (\<lambda>x. x XOR 0x5C) K @ H (map (\<lambda>x. x XOR 0x36) K @ m)))"
proof -
  let ?o = "map (\<lambda>x. x XOR 0x5C) K" and ?i = "map (\<lambda>x. x XOR 0x36) K @ m"
  have h: "hm_class h = c" "rep ?o (hm_outer h)" "rep ?i (hm_inner h)" "length K = block_size c"
    using assms(1) by (simp_all add: keyed_def)
  have d: "sha_digest c (hm_inner h) = H ?i" using h sizes assms(2) by (intro digest) simp_all
  obtain st where st: "sha_update c (sha_copy c (hm_outer h)) (HBytes (H ?i)) = Inr st" "rep (?o @ H ?i) st"
    using update [OF rep_copy [OF h(2)], of "HBytes (H ?i)" "H ?i"] by (auto simp: arg_bytes_def)
  have "sha_digest c st = H (?o @ H ?i)" using st(2) h(4) sizes by (intro digest) simp_all
  then show ?thesis using st(1) d by (simp add: hmac_digest_def hmac_current_def h(1))
qed

lemma keyed_new:
  assumes "make_hash d = Inr c" "length key < 2 ^ 61"
  shows "\<exists>h. hmac_new (HBytes key) None d = Inr h \<and> keyed (key_block key) [] h"
proof -
  have hk: "hmac_key c key = Inr (if length key > block_size c then H key else key)"
    using init [of "HBytes key" key] digest assms(2) by (auto simp: hmac_key_def arg_bytes_def)
  have len: "length (if length key > block_size c then H key else key) \<le> block_size c" using sizes by auto
  have new: "sha_init c None = Inr (sha_new c)" by (simp add: sha_init_def)
  have upd: "\<exists>st. sha_update c (sha_new c) (HBytes b) = Inr st \<and> rep b st" for b
    using update [OF rep_new, of "HBytes b" b] by (simp add: arg_bytes_def)
  obtain o1 where o1: "sha_update c (sha_new c) (HBytes (map (\<lambda>x. x XOR 0x5C) (key_block key))) = Inr o1"
      "rep (map (\<lambda>x. x XOR 0x5C) (key_block key)) o1" using upd by blast
  obtain i1 where i1: "sha_update c (sha_new c) (HBytes (map (\<lambda>x. x XOR 0x36) (key_block key))) = Inr i1"
      "rep (map (\<lambda>x. x XOR 0x36) (key_block key)) i1" using upd by blast
  have z: "zero_bytes (int (block_size c) - int (length (if length key > block_size c then H key else key))) =
      Inr (replicate (block_size c - length (if length key > block_size c then H key else key)) 0)"
    using len by (auto simp: zero_bytes_def nat_diff_distrib)
  have l: "length (key_block key) = block_size c" using len by (simp add: key_block_def Let_def)
  have "hmac_new (HBytes key) None d = Inr \<lparr>hm_class = c, hm_outer = o1, hm_inner = i1, hm_digest_size = digest_size c, hm_block_size = block_size c\<rparr>"
    using o1(1) i1(1) by (simp only: hmac_new_def assms(1) hk z new key_block_def Let_def hash_arg.case rbind.simps option.case)
  then show ?thesis using o1(2) i1(2) l by (simp add: keyed_def)
qed

lemma mac:
  assumes "make_hash d = Inr c" "length key < 2 ^ 61" "rmap arg_bytes ps = Inr bs" "length (concat bs) < 2 ^ 60"
  shows "mac_after (HBytes key) None d ps = Inr (rfc2104 H (block_size c) key (concat bs), rfc2104 H (block_size c) key (concat bs))"
proof -
  obtain h where h: "hmac_new (HBytes key) None d = Inr h" "keyed (key_block key) [] h" using keyed_new [OF assms(1,2)] by blast
  obtain h' where h': "hmac_updates h ps = Inr h'" "keyed (key_block key) (concat bs) h'"
    using keyed_updates [OF h(2) assms(3)] by auto
  show ?thesis
    using keyed_digest [OF h'(2) assms(4)] keyed_digest [OF keyed_copy [OF h'(2)] assms(4)]
    by (simp add: mac_after_def h(1) h'(1) rfc2104_def key_block_def Let_def)
qed

text \<open>A message given to the constructor is its first update.\<close>

lemma mac_message:
  "make_hash d = Inr c \<Longrightarrow> mac_after (HBytes key) (Some m) d ps = mac_after (HBytes key) None d (m # ps)"
  by (simp add: mac_after_def hmac_new_def rbind_assoc Let_def)

end

interpretation hmac_sha256: hmac_hash sha256 "fips_hash (2 ^ 6) 8 (fips_compress fips256 4) 4 iv256" sha256_class.seen
  by (intro hmac_hash.intro sha256_class.sha_impl_axioms hmac_hash_axioms.intro) (simp_all add: sha256_def)

interpretation hmac_sha224: hmac_hash sha224 "fips_hash (2 ^ 6) 8 (fips_compress fips256 4) 4 iv224" sha224_class.seen
  by (intro hmac_hash.intro sha224_class.sha_impl_axioms hmac_hash_axioms.intro) (simp_all add: sha224_def sha256_def)

interpretation hmac_sha512: hmac_hash sha512 "fips_hash (2 ^ 7) 16 (fips_compress fips512 8) 8 iv512" sha512_class.seen
  by (intro hmac_hash.intro sha512_class.sha_impl_axioms hmac_hash_axioms.intro) (simp_all add: sha512_def)

interpretation hmac_sha384: hmac_hash sha384 "fips_hash (2 ^ 7) 16 (fips_compress fips512 8) 8 iv384" sha384_class.seen
  by (intro hmac_hash.intro sha384_class.sha_impl_axioms hmac_hash_axioms.intro) (simp_all add: sha384_def sha512_def)

lemma fips_digests:
  "hmac_sha256.H = fips_sha256" "hmac_sha224.H = fips_sha224" "hmac_sha512.H = fips_sha512" "hmac_sha384.H = fips_sha384"
  using fips_length_256 fips_length_512
  by (simp_all add: fun_eq_iff fips_sha256_def fips_sha224_def fips_sha512_def fips_sha384_def sha256_def sha224_def sha512_def sha384_def)

lemma block_sizes: "block_size sha256 = 64" "block_size sha224 = 64" "block_size sha512 = 128" "block_size sha384 = 128"
  by (simp_all add: sha256_def sha224_def sha512_def sha384_def)

lemma make_hash_names:
  "make_hash (DName ''sha224'') = Inr sha224" "make_hash (DName ''sha256'') = Inr sha256"
  "make_hash (DName ''sha384'') = Inr sha384" "make_hash (DName ''sha512'') = Inr sha512"
  by (simp_all add: make_hash_def hashlib_attr_def)

text \<open>C23: HMAC over each hash of \<open>hashlib\<close>, with a key of any length below 2**61 bytes and a message in any pieces, is RFC 2104 over
  the hash of FIPS 180-4, for the object and for a copy of it; a text key is a TypeError, and without a \<open>digestmod\<close> the
  constructor raises AttributeError, as there is no md5.\<close>

theorem hmac_is_rfc2104:
  assumes "length key < 2 ^ 61" "rmap arg_bytes ps = Inr bs" "length (concat bs) < 2 ^ 60"
  shows "list_all (\<lambda>(n, H, B). mac_after (HBytes key) None (DName n) ps = (let mac = rfc2104 H B key (concat bs) in Inr (mac, mac)))
      [(''sha224'', fips_sha224, 64), (''sha256'', fips_sha256, 64), (''sha384'', fips_sha384, 128), (''sha512'', fips_sha512, 128)] \<and>
    mac_after (HStr cs) m d ps = Inl TypeError \<and>
    mac_after (HBytes key) m DNone ps = Inl AttributeError"
proof -
  note laws = hmac_sha224.mac [OF make_hash_names(1) assms] hmac_sha256.mac [OF make_hash_names(2) assms]
    hmac_sha384.mac [OF make_hash_names(3) assms] hmac_sha512.mac [OF make_hash_names(4) assms]
  have "mac_after (HStr cs) m d ps = Inl TypeError" "mac_after (HBytes key) m DNone ps = Inl AttributeError"
    by (simp_all add: mac_after_def hmac_new_def make_hash_def hashlib_attr_def)
  then show ?thesis using laws unfolding fips_digests block_sizes by (simp only: list.pred_inject Let_def case_prod_conv simp_thms)
qed

theorem hmac_is_rfc2104_witness:
  "mac_after (HBytes [1, 2, 3]) None (DName ''sha384'') [HBytes [4], HStr [0x35, 0x36]] =
     Inr (rfc2104 fips_sha384 128 [1, 2, 3] [4, 0x35, 0x36], rfc2104 fips_sha384 128 [1, 2, 3] [4, 0x35, 0x36])"
  using hmac_is_rfc2104 [of "[1, 2, 3]" "[HBytes [4], HStr [0x35, 0x36]]" "[[4], [0x35, 0x36]]"]
  by (simp add: arg_bytes_def ascii_encode_def Let_def)

end
