(* ===== verification/Event_Loop.thy ===== *)
theory Event_Loop
  imports Heapq
begin

text \<open>
  \<open>asyncio/base_events.py\<close> and \<open>asyncio/events.py\<close>: the handles, the queue of ready callbacks, the heap of timers, and
  \<open>_run_once\<close> as the events between which other code runs: the selector while the loop polls, the callbacks, and other threads. Times
  are integers, in nanoseconds, the unit of the clock behind \<open>time.monotonic\<close>, where the code has floats; the debug mode is off.
\<close>

section \<open>Handles\<close>

text \<open>A \<open>TimerHandle\<close> is a handle with a time.\<close>

record 'c handle =
  h_callback :: "'c option"
  h_cancelled :: bool
  h_when :: "int option"
  h_scheduled :: bool

text \<open>Where \<open>run_forever\<close> is: not running, at the top of the loop, polling, or with callbacks left to run, or in one of them.\<close>

datatype phase = Off | Top | Polling | Todo nat | Calling nat

text \<open>Handles live in a store and are named by their position; \<open>l_io\<close> are those that the selector knows.\<close>

record 'c loop =
  l_handles :: "'c handle list"
  l_ready :: "nat list"
  l_timers :: "nat list"
  l_io :: "nat list"
  timer_cancelled_count :: int
  l_stopping :: bool
  l_closed :: bool
  l_phase :: phase

definition loop_new :: "'c loop" where
  "loop_new = \<lparr>l_handles = [], l_ready = [], l_timers = [], l_io = [], timer_cancelled_count = 0,
     l_stopping = False, l_closed = False, l_phase = Off\<rparr>"

definition h_time :: "'c handle list \<Rightarrow> nat \<Rightarrow> int" where
  "h_time hs h = the (h_when (hs ! h))"

text \<open>\<open>TimerHandle.__lt__\<close>\<close>

definition handle_lt :: "'c handle list \<Rightarrow> nat \<Rightarrow> nat \<Rightarrow> bool" where
  "handle_lt hs i j \<longleftrightarrow> h_time hs i < h_time hs j"

definition set_scheduled :: "bool \<Rightarrow> nat \<Rightarrow> 'c handle list \<Rightarrow> 'c handle list" where
  "set_scheduled b h hs = hs[h := (hs ! h)\<lparr>h_scheduled := b\<rparr>]"

text \<open>\<open>Handle.cancel\<close> and \<open>TimerHandle.cancel\<close> with \<open>_timer_handle_cancelled\<close>\<close>

definition handle_cancel :: "'c loop \<Rightarrow> nat \<Rightarrow> 'c loop" where
  "handle_cancel l h =
     (if h_cancelled (l_handles l ! h) then l
      else l\<lparr>timer_cancelled_count := timer_cancelled_count l +
               (if h_when (l_handles l ! h) \<noteq> None \<and> h_scheduled (l_handles l ! h) then 1 else 0),
             l_handles := (l_handles l)[h := (l_handles l ! h)\<lparr>h_cancelled := True, h_callback := None\<rparr>]\<rparr>)"

section \<open>Scheduling\<close>

definition loop_call_soon :: "'c loop \<Rightarrow> 'c \<Rightarrow> ('c loop \<times> nat) result" where
  "loop_call_soon l c =
     (if l_closed l then Inl RuntimeError
      else Inr (l\<lparr>l_handles := l_handles l @ [\<lparr>h_callback = Some c, h_cancelled = False, h_when = None, h_scheduled = False\<rparr>],
                  l_ready := l_ready l @ [length (l_handles l)]\<rparr>, length (l_handles l)))"

definition loop_call_at :: "'c loop \<Rightarrow> int \<Rightarrow> 'c \<Rightarrow> ('c loop \<times> nat) result" where
  "loop_call_at l w c =
     (if l_closed l then Inl RuntimeError
      else let h = length (l_handles l);
               hs = l_handles l @ [\<lparr>h_callback = Some c, h_cancelled = False, h_when = Some w, h_scheduled = False\<rparr>];
               ts = heappush (handle_lt hs) (l_timers l) h
           in Inr (l\<lparr>l_handles := set_scheduled True h hs, l_timers := ts\<rparr>, h))"

definition loop_call_later :: "'c loop \<Rightarrow> int \<Rightarrow> int \<Rightarrow> 'c \<Rightarrow> ('c loop \<times> nat) result" where
  "loop_call_later l now delay c = loop_call_at l (now + delay) c"

definition loop_stop :: "'c loop \<Rightarrow> 'c loop" where
  "loop_stop l = l\<lparr>l_stopping := True\<rparr>"

definition loop_is_running :: "'c loop \<Rightarrow> bool" where
  "loop_is_running l \<longleftrightarrow> l_phase l \<noteq> Off"

definition loop_close :: "'c loop \<Rightarrow> 'c loop result" where
  "loop_close l =
     (if loop_is_running l then Inl RuntimeError
      else if l_closed l then Inr l
      else Inr (l\<lparr>l_closed := True, l_ready := [], l_timers := []\<rparr>))"

text \<open>A handle registered with the selector (\<open>add_reader\<close> and \<open>add_writer\<close>).\<close>

definition loop_add_io :: "'c loop \<Rightarrow> 'c \<Rightarrow> 'c loop \<times> nat" where
  "loop_add_io l c =
     (l\<lparr>l_handles := l_handles l @ [\<lparr>h_callback = Some c, h_cancelled = False, h_when = None, h_scheduled = False\<rparr>],
        l_io := length (l_handles l) # l_io l\<rparr>, length (l_handles l))"

section \<open>One iteration\<close>

text \<open>Cancelled timers are dropped, all of them when they are many, otherwise from the head of the heap.\<close>

function drop_cancelled :: "'c loop \<Rightarrow> 'c loop" where
  "drop_cancelled l =
     (case l_timers l of
        [] \<Rightarrow> l
      | t # ts \<Rightarrow>
          if h_cancelled (l_handles l ! t)
          then (case heappop (handle_lt (l_handles l)) (l_timers l) of
                  Inl e \<Rightarrow> l
                | Inr (h, rest) \<Rightarrow>
                    drop_cancelled (l\<lparr>timer_cancelled_count := timer_cancelled_count l - 1, l_timers := rest,
                      l_handles := set_scheduled False h (l_handles l)\<rparr>))
          else l)"
  by pat_completeness auto

lemma heappop_length: "heappop lt q = Inr (x, q') \<Longrightarrow> length q = Suc (length q')"
  by (metis heappop_mset size_add_mset size_mset)

termination drop_cancelled
  by (relation "measure (\<lambda>l. length (l_timers l))") (auto dest!: heappop_length)

declare drop_cancelled.simps [simp del]

definition min_scheduled_timers :: nat where
  "min_scheduled_timers = 100"

text \<open>\<open>_timer_cancelled_count / sched_count > 0.5\<close>\<close>

definition loop_purge :: "'c loop \<Rightarrow> 'c loop" where
  "loop_purge l =
     (if length (l_timers l) > min_scheduled_timers \<and> 2 * timer_cancelled_count l > int (length (l_timers l))
      then let keep = filter (\<lambda>h. \<not> h_cancelled (l_handles l ! h)) (l_timers l);
               dead = filter (\<lambda>h. h_cancelled (l_handles l ! h)) (l_timers l)
           in l\<lparr>l_handles := foldl (\<lambda>hs h. set_scheduled False h hs) (l_handles l) dead,
                l_timers := heapify (handle_lt (l_handles l)) keep, timer_cancelled_count := 0\<rparr>
      else drop_cancelled l)"

text \<open>How long the selector may wait: \<open>None\<close> is for ever.\<close>

definition maximum_select_timeout :: int where
  "maximum_select_timeout = 24 * 3600 * 1000"

definition select_timeout :: "'c loop \<Rightarrow> int \<Rightarrow> int option" where
  "select_timeout l now =
     (if l_ready l \<noteq> [] \<or> l_stopping l then Some 0
      else case l_timers l of
             [] \<Rightarrow> None
           | t # ts \<Rightarrow> Some (min (max 0 (h_time (l_handles l) t - now)) maximum_select_timeout))"

text \<open>\<open>_add_callback\<close> for each event of the selector\<close>

definition loop_add_callback :: "'c loop \<Rightarrow> nat \<Rightarrow> 'c loop" where
  "loop_add_callback l h =
     (if h_cancelled (l_handles l ! h) then l else l\<lparr>l_ready := l_ready l @ [h]\<rparr>)"

definition clock_resolution :: int where
  "clock_resolution = 1000000"

function loop_due :: "int \<Rightarrow> 'c loop \<Rightarrow> 'c loop" where
  "loop_due end_time l =
     (case l_timers l of
        [] \<Rightarrow> l
      | t # ts \<Rightarrow>
          if h_time (l_handles l) t \<ge> end_time then l
          else (case heappop (handle_lt (l_handles l)) (l_timers l) of
                  Inl e \<Rightarrow> l
                | Inr (h, rest) \<Rightarrow>
                    loop_due end_time (l\<lparr>l_timers := rest, l_handles := set_scheduled False h (l_handles l),
                      l_ready := l_ready l @ [h]\<rparr>)))"
  by pat_completeness auto
termination loop_due
  by (relation "measure (\<lambda>(_, l). length (l_timers l))") (auto dest!: heappop_length)

declare loop_due.simps [simp del]

definition loop_polled :: "'c loop \<Rightarrow> nat list \<Rightarrow> int \<Rightarrow> 'c loop" where
  "loop_polled l events now =
     (let l = loop_due (now + clock_resolution) (foldl loop_add_callback l events)
      in l\<lparr>l_phase := Todo (length (l_ready l))\<rparr>)"

text \<open>The next ready handle: its callback is to be called, unless it was cancelled.\<close>

definition loop_next :: "'c loop \<Rightarrow> nat \<Rightarrow> 'c loop \<times> nat option" where
  "loop_next l n =
     (let h = hd (l_ready l); l = l\<lparr>l_ready := tl (l_ready l)\<rparr>
      in if h_cancelled (l_handles l ! h) then (l\<lparr>l_phase := Todo n\<rparr>, None)
         else (l\<lparr>l_phase := Calling n\<rparr>, Some h))"

definition loop_finish :: "'c loop \<Rightarrow> 'c loop" where
  "loop_finish l = l\<lparr>l_stopping := False, l_phase := Off\<rparr>"

section \<open>The events\<close>

text \<open>
  \<open>CallSoon\<close> also stands for \<open>call_soon_threadsafe\<close>, which any thread may call at any time. The other calls are for the thread of the loop: when it
  does not run, or from a callback. A callback returns, or raises an exception that leaves \<open>run_forever\<close>; an \<open>Exception\<close> does not, and
  counts as \<open>Returned\<close>. An error of a call is the caller's: the loop stays as it was.
\<close>

datatype 'c loop_event =
    CallSoon 'c | CallAt int 'c | CallLater int int 'c | Cancel nat | AddIO 'c | Stop | Close
  | RunForever | Tick int | Polled "nat list" int | Next | Returned | Aborted | Finish

definition free_phase :: "phase \<Rightarrow> bool" where
  "free_phase p \<longleftrightarrow> (case p of Off \<Rightarrow> True | Calling n \<Rightarrow> True | _ \<Rightarrow> False)"

definition or_same :: "'c loop \<Rightarrow> ('c loop \<times> nat) result \<Rightarrow> 'c loop" where
  "or_same l r = (case r of Inl e \<Rightarrow> l | Inr (l', h) \<Rightarrow> l')"

fun loop_step :: "'c loop_event \<Rightarrow> 'c loop \<Rightarrow> ('c loop \<times> nat option) option" where
  "loop_step (CallSoon c) l = Some (or_same l (loop_call_soon l c), None)"
| "loop_step (CallAt w c) l = (if free_phase (l_phase l) then Some (or_same l (loop_call_at l w c), None) else None)"
| "loop_step (CallLater now d c) l = (if free_phase (l_phase l) then Some (or_same l (loop_call_later l now d c), None) else None)"
| "loop_step (Cancel h) l =
     (if free_phase (l_phase l) \<and> h < length (l_handles l) then Some (handle_cancel l h, None) else None)"
| "loop_step (AddIO c) l = (if free_phase (l_phase l) then Some (fst (loop_add_io l c), None) else None)"
| "loop_step Stop l = (if free_phase (l_phase l) then Some (loop_stop l, None) else None)"
| "loop_step Close l =
     (if free_phase (l_phase l) then Some (case loop_close l of Inl e \<Rightarrow> l | Inr l' \<Rightarrow> l', None) else None)"
| "loop_step RunForever l = (if l_phase l = Off \<and> \<not> l_closed l then Some (l\<lparr>l_phase := Top\<rparr>, None) else None)"
| "loop_step (Tick now) l = (if l_phase l = Top then Some ((loop_purge l)\<lparr>l_phase := Polling\<rparr>, None) else None)"
| "loop_step (Polled events now) l =
     (if l_phase l = Polling \<and> set events \<subseteq> set (l_io l) then Some (loop_polled l events now, None) else None)"
| "loop_step Next l = (case l_phase l of Todo (Suc n) \<Rightarrow> Some (loop_next l n) | _ \<Rightarrow> None)"
| "loop_step Returned l = (case l_phase l of Calling n \<Rightarrow> Some (l\<lparr>l_phase := Todo n\<rparr>, None) | _ \<Rightarrow> None)"
| "loop_step Aborted l = (case l_phase l of Calling n \<Rightarrow> Some (loop_finish l, None) | _ \<Rightarrow> None)"
| "loop_step Finish l =
     (if l_phase l = Todo 0 then Some (if l_stopping l then loop_finish l else l\<lparr>l_phase := Top\<rparr>, None) else None)"

text \<open>A run, with the handles whose callbacks it called, in order.\<close>

fun loop_run :: "'c loop_event list \<Rightarrow> 'c loop \<Rightarrow> ('c loop \<times> nat list) option" where
  "loop_run [] l = Some (l, [])"
| "loop_run (e # es) l =
     (case loop_step e l of
        None \<Rightarrow> None
      | Some (l', called) \<Rightarrow>
          (case loop_run es l' of
             None \<Rightarrow> None
           | Some (l'', log) \<Rightarrow> Some (l'', (case called of None \<Rightarrow> log | Some h \<Rightarrow> h # log))))"

section \<open>The heap of timers\<close>

lemma set_scheduled_nth:
  "set_scheduled b h hs ! i = (if i = h \<and> h < length hs then (hs ! i)\<lparr>h_scheduled := b\<rparr> else hs ! i)"
  by (cases "h < length hs") (auto simp: set_scheduled_def nth_list_update list_update_beyond not_less)

lemma set_scheduled_simps [simp]:
  "length (set_scheduled b h hs) = length hs"
  "h_callback (set_scheduled b h hs ! i) = h_callback (hs ! i)"
  "h_cancelled (set_scheduled b h hs ! i) = h_cancelled (hs ! i)"
  "h_when (set_scheduled b h hs ! i) = h_when (hs ! i)"
  "h_time (set_scheduled b h hs) i = h_time hs i"
  by (simp_all add: set_scheduled_nth h_time_def) (simp add: set_scheduled_def)

lemma h_scheduled_set: "h_scheduled (set_scheduled b h hs ! i) = (if i = h \<and> h < length hs then b else h_scheduled (hs ! i))"
  by (simp add: set_scheduled_nth)

lemma handle_lt_set_scheduled [simp]: "handle_lt (set_scheduled b h hs) = handle_lt hs"
  by (simp add: fun_eq_iff handle_lt_def)

interpretation timer: weak_order "handle_lt hs" for hs
  by unfold_locales (auto simp: handle_lt_def)

text \<open>
  The heap holds the scheduled timers, each once; the counter is at least the number of cancelled ones among them (it is more
  when a cancelled timer became due before it reached the head).
\<close>

definition timers_ok :: "'c loop \<Rightarrow> bool" where
  "timers_ok l \<longleftrightarrow> distinct (l_timers l) \<and>
     (\<forall>h \<in> set (l_timers l). h < length (l_handles l) \<and> h_when (l_handles l ! h) \<noteq> None) \<and>
     (l_closed l \<longrightarrow> l_timers l = []) \<and>
     (l_closed l \<or> (\<forall>h < length (l_handles l). h_scheduled (l_handles l ! h) \<longleftrightarrow> h \<in> set (l_timers l))) \<and>
     is_heap (handle_lt (l_handles l)) (l_timers l) \<and>
     int (length (filter (\<lambda>h. h_cancelled (l_handles l ! h)) (l_timers l))) \<le> timer_cancelled_count l"

text \<open>Taking the first timer off the heap.\<close>

lemma pop_timer:
  assumes "timers_ok l" "heappop (handle_lt (l_handles l)) (l_timers l) = Inr (h, rest)"
    and n: "n = (if h_cancelled (l_handles l ! h) then 1 else 0)" "k \<le> n" "0 \<le> k"
  shows "timers_ok (l\<lparr>timer_cancelled_count := timer_cancelled_count l - k, l_timers := rest, l_handles := set_scheduled False h (l_handles l)\<rparr>)"
    "h = hd (l_timers l)" "h < length (l_handles l)" "h_when (l_handles l ! h) \<noteq> None" "mset (l_timers l) = add_mset h (mset rest)"
    "\<forall>t \<in> set rest. h_time (l_handles l) h \<le> h_time (l_handles l) t"
proof -
  have m: "mset (l_timers l) = add_mset h (mset rest)" by (rule heappop_mset [OF assms(2)])
  then have s: "set (l_timers l) = insert h (set rest)" by (metis set_mset_add_mset_insert set_mset_mset)
  have d: "distinct rest" "h \<notin> set rest"
    using assms(1) m unfolding timers_ok_def by (metis distinct.simps(2) mset.simps(2) mset_eq_imp_distinct_iff)+
  have ne: "l_timers l \<noteq> []" using m by auto
  show "h = hd (l_timers l)" using heappop_root [OF assms(2)] ne by (simp add: hd_conv_nth)
  show "h < length (l_handles l)" "h_when (l_handles l ! h) \<noteq> None" using assms(1) s by (auto simp: timers_ok_def)
  show "mset (l_timers l) = add_mset h (mset rest)" by (rule m)
  have heap: "is_heap (handle_lt (l_handles l)) (l_timers l)" using assms(1) by (simp add: timers_ok_def)
  show "\<forall>t \<in> set rest. h_time (l_handles l) h \<le> h_time (l_handles l) t"
    using timer.heappop_minimal [OF heap assms(2)] s by (auto simp: handle_lt_def not_less)
  have "length (filter (\<lambda>h. h_cancelled (l_handles l ! h)) (l_timers l)) =
      size (filter_mset (\<lambda>h. h_cancelled (l_handles l ! h)) (mset (l_timers l)))" by (metis mset_filter size_mset)
  also have "\<dots> = (if h_cancelled (l_handles l ! h) then 1 else 0) + length (filter (\<lambda>h. h_cancelled (l_handles l ! h)) rest)"
    unfolding m by (simp flip: mset_filter)
  finally have c: "length (filter (\<lambda>h. h_cancelled (l_handles l ! h)) (l_timers l)) =
      (if h_cancelled (l_handles l ! h) then 1 else 0) + length (filter (\<lambda>h. h_cancelled (l_handles l ! h)) rest)" .
  show "timers_ok (l\<lparr>timer_cancelled_count := timer_cancelled_count l - k, l_timers := rest, l_handles := set_scheduled False h (l_handles l)\<rparr>)"
    unfolding timers_ok_def
  proof (intro conjI)
    show "int (length (filter (\<lambda>h'. h_cancelled (l_handles (l\<lparr>timer_cancelled_count := timer_cancelled_count l - k, l_timers := rest, l_handles := set_scheduled False h (l_handles l)\<rparr>) ! h'))
        (l_timers (l\<lparr>timer_cancelled_count := timer_cancelled_count l - k, l_timers := rest, l_handles := set_scheduled False h (l_handles l)\<rparr>)))) \<le>
        timer_cancelled_count (l\<lparr>timer_cancelled_count := timer_cancelled_count l - k, l_timers := rest, l_handles := set_scheduled False h (l_handles l)\<rparr>)"
      using assms(1) c n by (simp add: timers_ok_def split: if_splits)
  qed (use assms(1) d s timer.heappop_heap [OF heap assms(2)] in \<open>auto simp: timers_ok_def h_scheduled_set\<close>)
qed

text \<open>Two loops whose handles differ in \<open>_scheduled\<close> at most.\<close>

definition same_handles :: "'c loop \<Rightarrow> 'c loop \<Rightarrow> bool" where
  "same_handles l l' \<longleftrightarrow> length (l_handles l') = length (l_handles l) \<and>
     (\<forall>i. h_cancelled (l_handles l' ! i) = h_cancelled (l_handles l ! i) \<and> h_when (l_handles l' ! i) = h_when (l_handles l ! i) \<and>
          h_callback (l_handles l' ! i) = h_callback (l_handles l ! i)) \<and>
     l_io l' = l_io l \<and> l_stopping l' = l_stopping l \<and> l_closed l' = l_closed l \<and> l_phase l' = l_phase l"

lemma same_handles_refl [simp]: "same_handles l l"
  by (simp add: same_handles_def)

lemma same_handles_trans: "same_handles l l' \<Longrightarrow> same_handles l' l'' \<Longrightarrow> same_handles l l''"
  by (simp add: same_handles_def)

lemma same_handles_time: "same_handles l l' \<Longrightarrow> h_time (l_handles l') = h_time (l_handles l)"
  by (simp add: same_handles_def h_time_def fun_eq_iff)

lemma drop_cancelled_ok:
  "timers_ok l \<Longrightarrow> timers_ok (drop_cancelled l) \<and> same_handles l (drop_cancelled l) \<and> l_ready (drop_cancelled l) = l_ready l \<and>
     (\<exists>ds. mset (l_timers l) = mset ds + mset (l_timers (drop_cancelled l)) \<and> (\<forall>d \<in> set ds. h_cancelled (l_handles l ! d)))"
proof (induction l rule: drop_cancelled.induct)
  case (1 l)
  show ?case
  proof (cases "l_timers l \<noteq> [] \<and> h_cancelled (l_handles l ! hd (l_timers l))")
    case True
    then obtain t ts where t: "l_timers l = t # ts" "h_cancelled (l_handles l ! t)" by (cases "l_timers l") auto
    then obtain h rest where pop: "heappop (handle_lt (l_handles l)) (l_timers l) = Inr (h, rest)"
      by (cases "heappop (handle_lt (l_handles l)) (l_timers l)") (auto simp: heappop_def Let_def split: if_splits)
    let ?l = "l\<lparr>timer_cancelled_count := timer_cancelled_count l - 1, l_timers := rest, l_handles := set_scheduled False h (l_handles l)\<rparr>"
    note p = pop_timer [OF "1.prems" pop refl, of 1]
    have h: "h = t" using pop_timer(2) [OF "1.prems" pop refl, of 0] t(1) by simp
    have ok: "timers_ok ?l" using p(1) t(2) h by simp
    have eq: "drop_cancelled l = drop_cancelled ?l"
      using t pop by (subst drop_cancelled.simps) simp
    have ih: "timers_ok (drop_cancelled ?l)" "same_handles ?l (drop_cancelled ?l)" "l_ready (drop_cancelled ?l) = l_ready l"
        "\<exists>ds. mset rest = mset ds + mset (l_timers (drop_cancelled ?l)) \<and> (\<forall>d \<in> set ds. h_cancelled (l_handles l ! d))"
      using "1.IH" [OF t(1) t(2) pop refl ok] by simp_all
    obtain ds where ds: "mset rest = mset ds + mset (l_timers (drop_cancelled ?l))" "\<forall>d \<in> set ds. h_cancelled (l_handles l ! d)"
      using ih(4) by blast
    have "mset (l_timers l) = mset (h # ds) + mset (l_timers (drop_cancelled ?l))"
      using p(5) t(2) h ds(1) by simp
    moreover have "same_handles l ?l" by (simp add: same_handles_def)
    ultimately show ?thesis
      unfolding eq using ih ds(2) t(2) h by (auto intro: same_handles_trans intro!: exI [of _ "h # ds"])
  next
    case False
    then have "drop_cancelled l = l" by (subst drop_cancelled.simps) (auto split: list.split)
    then show ?thesis using "1.prems" by (auto intro!: exI [of _ "[]"])
  qed
qed

text \<open>The timers that are due leave the heap, the earliest first.\<close>

lemma loop_due_ok:
  assumes "timers_ok l"
  shows "\<exists>ds. timers_ok (loop_due e l) \<and> same_handles l (loop_due e l) \<and> timer_cancelled_count (loop_due e l) = timer_cancelled_count l \<and>
     l_ready (loop_due e l) = l_ready l @ ds \<and> mset (l_timers l) = mset ds + mset (l_timers (loop_due e l)) \<and>
     sorted (map (h_time (l_handles l)) ds) \<and> (\<forall>d \<in> set ds. h_time (l_handles l) d < e) \<and>
     (\<forall>t \<in> set (l_timers (loop_due e l)). e \<le> h_time (l_handles l) t)"
  using assms
proof (induction e l rule: loop_due.induct)
  case (1 e l)
  show ?case
  proof (cases "l_timers l \<noteq> [] \<and> h_time (l_handles l) (hd (l_timers l)) < e")
    case True
    then obtain t ts where t: "l_timers l = t # ts" "\<not> h_time (l_handles l) t \<ge> e" by (cases "l_timers l") auto
    then obtain h rest where pop: "heappop (handle_lt (l_handles l)) (l_timers l) = Inr (h, rest)"
      by (cases "heappop (handle_lt (l_handles l)) (l_timers l)") (auto simp: heappop_def Let_def split: if_splits)
    let ?l = "l\<lparr>l_timers := rest, l_handles := set_scheduled False h (l_handles l), l_ready := l_ready l @ [h]\<rparr>"
    note p = pop_timer [OF "1.prems" pop refl, of 0]
    have h: "h = t" using p(2) t(1) by simp
    have ok: "timers_ok ?l" using p(1) by (simp add: timers_ok_def)
    have eq: "loop_due e l = loop_due e ?l" using t pop by (subst loop_due.simps) simp
    have ht: "h_time (l_handles ?l) = h_time (l_handles l)" by (simp add: fun_eq_iff)
    obtain ds where ds: "timers_ok (loop_due e ?l)" "same_handles ?l (loop_due e ?l)" "timer_cancelled_count (loop_due e ?l) = timer_cancelled_count l"
        "l_ready (loop_due e ?l) = l_ready l @ [h] @ ds" "mset rest = mset ds + mset (l_timers (loop_due e ?l))"
        "sorted (map (h_time (l_handles l)) ds)" "\<forall>d \<in> set ds. h_time (l_handles l) d < e"
        "\<forall>t \<in> set (l_timers (loop_due e ?l)). e \<le> h_time (l_handles l) t"
      using "1.IH" [OF t(1) t(2) pop refl ok] unfolding ht by auto
    have "set ds \<subseteq> set rest" using ds(5) by (metis set_mset_mset set_mset_union sup.cobounded1)
    then have "sorted (map (h_time (l_handles l)) (h # ds))" using ds(6) p(6) by auto
    moreover have "mset (l_timers l) = mset (h # ds) + mset (l_timers (loop_due e ?l))" using p(5) ds(5) by simp
    moreover have "same_handles l ?l" by (simp add: same_handles_def)
    ultimately show ?thesis
      unfolding eq using ds t(2) h by (intro exI [of _ "h # ds"]) (auto intro: same_handles_trans)
  next
    case False
    then have eq: "loop_due e l = l" by (subst loop_due.simps) (auto split: list.split)
    have "e \<le> h_time (l_handles l) t" if "t \<in> set (l_timers l)" for t
    proof -
      have "is_heap (handle_lt (l_handles l)) (l_timers l)" using "1.prems" by (simp add: timers_ok_def)
      from timer.root_minimal [OF this that] have "h_time (l_handles l) (l_timers l ! 0) \<le> h_time (l_handles l) t"
        by (simp add: handle_lt_def not_less)
      then show ?thesis using False that by (cases "l_timers l") auto
    qed
    then show ?thesis unfolding eq using "1.prems" by (intro exI [of _ "[]"]) auto
  qed
qed

lemma unschedule_all:
  "length (foldl (\<lambda>hs h. set_scheduled False h hs) hs dead) = length hs"
  "h_callback (foldl (\<lambda>hs h. set_scheduled False h hs) hs dead ! i) = h_callback (hs ! i)"
  "h_cancelled (foldl (\<lambda>hs h. set_scheduled False h hs) hs dead ! i) = h_cancelled (hs ! i)"
  "h_when (foldl (\<lambda>hs h. set_scheduled False h hs) hs dead ! i) = h_when (hs ! i)"
  "i < length hs \<Longrightarrow> h_scheduled (foldl (\<lambda>hs h. set_scheduled False h hs) hs dead ! i) = (h_scheduled (hs ! i) \<and> i \<notin> set dead)"
  by (induction dead arbitrary: hs) (auto simp: h_scheduled_set)

lemma loop_purge_ok:
  assumes "timers_ok l"
  shows "timers_ok (loop_purge l) \<and> same_handles l (loop_purge l) \<and> l_ready (loop_purge l) = l_ready l \<and>
     (\<exists>ds. mset (l_timers l) = mset ds + mset (l_timers (loop_purge l)) \<and> (\<forall>d \<in> set ds. h_cancelled (l_handles l ! d)))"
proof (cases "length (l_timers l) > min_scheduled_timers \<and> 2 * timer_cancelled_count l > int (length (l_timers l))")
  case False
  then have "loop_purge l = drop_cancelled l" unfolding loop_purge_def by (simp only: if_False)
  then show ?thesis using drop_cancelled_ok [OF assms] by simp
next
  case True
  let ?keep = "filter (\<lambda>h. \<not> h_cancelled (l_handles l ! h)) (l_timers l)"
  let ?dead = "filter (\<lambda>h. h_cancelled (l_handles l ! h)) (l_timers l)"
  let ?hs = "foldl (\<lambda>hs h. set_scheduled False h hs) (l_handles l) ?dead" and ?ts = "heapify (handle_lt (l_handles l)) ?keep"
  have eq: "loop_purge l = l\<lparr>l_handles := ?hs, l_timers := ?ts, timer_cancelled_count := 0\<rparr>"
    using True by (simp add: loop_purge_def Let_def)
  have m: "mset ?ts = mset ?keep" by simp
  then have ts: "set ?ts = set ?keep" by (metis set_mset_mset)
  have d: "distinct ?ts" using assms mset_eq_imp_distinct_iff [OF m] by (simp add: timers_ok_def)
  have lt: "handle_lt ?hs = handle_lt (l_handles l)" by (simp add: fun_eq_iff handle_lt_def h_time_def unschedule_all)
  have nc: "filter (\<lambda>h. h_cancelled (l_handles l ! h)) ?ts = []" using ts by (auto simp: filter_empty_conv)
  have part: "mset (l_timers l) = mset ?dead + mset ?keep" by simp
  have "timers_ok (loop_purge l)"
    unfolding timers_ok_def eq using assms ts d nc timer.heapify_heap [of "l_handles l" ?keep]
    by (auto simp: timers_ok_def unschedule_all lt heapify_def)
  moreover have "same_handles l (loop_purge l)" unfolding eq by (simp add: same_handles_def unschedule_all)
  moreover have "mset (l_timers l) = mset ?dead + mset (l_timers (loop_purge l)) \<and> (\<forall>d \<in> set ?dead. h_cancelled (l_handles l ! d))"
    unfolding eq using part by simp
  moreover have "l_ready (loop_purge l) = l_ready l" unfolding eq by simp
  ultimately show ?thesis by blast
qed

lemma heap_cong: "(\<And>x y. x \<in> set h \<Longrightarrow> y \<in> set h \<Longrightarrow> lt x y = lt' x y) \<Longrightarrow> is_heap lt h \<Longrightarrow> is_heap lt' h"
proof -
  assume "\<And>x y. x \<in> set h \<Longrightarrow> y \<in> set h \<Longrightarrow> lt x y = lt' x y"
  then have "lt (h ! i) (h ! j) = lt' (h ! i) (h ! j)" if "i < length h" "j < length h" for i j using that by simp
  then show "is_heap lt h \<Longrightarrow> is_heap lt' h" by (simp add: is_heap_def)
qed

text \<open>A new handle is unknown to the queues.\<close>

lemma handle_lt_append: "i < length hs \<Longrightarrow> j < length hs \<Longrightarrow> handle_lt (hs @ [x]) i j = handle_lt hs i j"
  by (simp add: handle_lt_def h_time_def nth_append)

lemma timers_ok_new:
  assumes "timers_ok l" "\<not> h_scheduled x"
  shows "timers_ok (l\<lparr>l_handles := l_handles l @ [x], l_ready := r, l_io := q\<rparr>)"
proof -
  have lt: "\<forall>h \<in> set (l_timers l). h < length (l_handles l)" using assms(1) by (simp add: timers_ok_def)
  have "filter (\<lambda>h. h_cancelled ((l_handles l @ [x]) ! h)) (l_timers l) = filter (\<lambda>h. h_cancelled (l_handles l ! h)) (l_timers l)"
    using lt by (intro filter_cong) (simp_all add: nth_append)
  moreover have "is_heap (handle_lt (l_handles l @ [x])) (l_timers l)"
    using assms(1) lt by (auto simp: timers_ok_def handle_lt_append intro: heap_cong [rotated])
  ultimately show ?thesis using assms lt by (auto simp: timers_ok_def nth_append less_Suc_eq)
qed

lemma call_at_ok:
  assumes "timers_ok l" "loop_call_at l w c = Inr (l', h)"
  shows "timers_ok l'" "h = length (l_handles l)" "mset (l_timers l') = add_mset h (mset (l_timers l))" "l_ready l' = l_ready l"
    "length (l_handles l') = Suc h" "h_when (l_handles l' ! h) = Some w"
    "\<forall>i < h. h_when (l_handles l' ! i) = h_when (l_handles l ! i)" "l_io l' = l_io l" "l_phase l' = l_phase l"
proof -
  let ?x = "\<lparr>h_callback = Some c, h_cancelled = False, h_when = Some w, h_scheduled = False\<rparr>"
  let ?hs = "l_handles l @ [?x]" and ?ts = "heappush (handle_lt (l_handles l @ [?x])) (l_timers l) (length (l_handles l))"
  have l': "l' = l\<lparr>l_handles := set_scheduled True h ?hs, l_timers := ?ts\<rparr>" "h = length (l_handles l)" "\<not> l_closed l"
    using assms(2) by (auto simp: loop_call_at_def Let_def split: if_splits)
  have lt: "\<forall>h \<in> set (l_timers l). h < length (l_handles l)" using assms(1) by (simp add: timers_ok_def)
  have m: "mset ?ts = add_mset h (mset (l_timers l))" by (simp add: l'(2))
  then have s: "set ?ts = insert h (set (l_timers l))" by (metis set_mset_add_mset_insert set_mset_mset)
  have d: "distinct ?ts"
    using mset_eq_imp_distinct_iff [of ?ts "h # l_timers l"] m assms(1) lt l'(2) by (auto simp: timers_ok_def)
  have "is_heap (handle_lt ?hs) (l_timers l)"
    using assms(1) lt by (auto simp: timers_ok_def handle_lt_append intro: heap_cong [rotated])
  then have heap: "is_heap (handle_lt ?hs) ?ts" by (rule timer.heappush_heap)
  have "mset (filter (\<lambda>i. h_cancelled (?hs ! i)) ?ts) = mset (filter (\<lambda>i. h_cancelled (?hs ! i)) (l_timers l))"
    unfolding mset_filter m using l'(2) by simp
  moreover have "filter (\<lambda>i. h_cancelled (?hs ! i)) (l_timers l) = filter (\<lambda>i. h_cancelled (l_handles l ! i)) (l_timers l)"
    using lt by (intro filter_cong) (simp_all add: nth_append)
  ultimately have "length (filter (\<lambda>i. h_cancelled (?hs ! i)) ?ts) = length (filter (\<lambda>i. h_cancelled (l_handles l ! i)) (l_timers l))"
    by (metis size_mset)
  then show "timers_ok l'"
    unfolding timers_ok_def l'(1) using d s heap assms(1) l'(2,3) lt
    by (auto simp: timers_ok_def h_scheduled_set nth_append less_Suc_eq)
  show "h = length (l_handles l)" "mset (l_timers l') = add_mset h (mset (l_timers l))" "l_ready l' = l_ready l"
    "length (l_handles l') = Suc h" "h_when (l_handles l' ! h) = Some w"
    "\<forall>i < h. h_when (l_handles l' ! i) = h_when (l_handles l ! i)" "l_io l' = l_io l" "l_phase l' = l_phase l"
    using m l' by (simp_all add: nth_append)
qed

lemma handle_cancel_ok:
  assumes "timers_ok l" "h < length (l_handles l)"
  shows "timers_ok (handle_cancel l h)" "length (l_handles (handle_cancel l h)) = length (l_handles l)"
    "h_when (l_handles (handle_cancel l h) ! i) = h_when (l_handles l ! i)"
    "l_timers (handle_cancel l h) = l_timers l" "l_ready (handle_cancel l h) = l_ready l" "l_io (handle_cancel l h) = l_io l"
    "l_phase (handle_cancel l h) = l_phase l"
proof -
  let ?hs = "(l_handles l)[h := (l_handles l ! h)\<lparr>h_cancelled := True, h_callback := None\<rparr>]"
  show "h_when (l_handles (handle_cancel l h) ! i) = h_when (l_handles l ! i)" for i
    using assms(2) by (cases "i = h") (auto simp: handle_cancel_def)
  show "length (l_handles (handle_cancel l h)) = length (l_handles l)"
    "l_timers (handle_cancel l h) = l_timers l" "l_ready (handle_cancel l h) = l_ready l" "l_io (handle_cancel l h) = l_io l"
    "l_phase (handle_cancel l h) = l_phase l"
    by (simp_all add: handle_cancel_def)
  show "timers_ok (handle_cancel l h)"
  proof (cases "h_cancelled (l_handles l ! h)")
    case True
    then show ?thesis using assms(1) by (simp add: handle_cancel_def)
  next
    case False
    have lt: "handle_lt ?hs = handle_lt (l_handles l)"
      using assms(2) by (auto simp: fun_eq_iff handle_lt_def h_time_def nth_list_update)
    have sched: "h_scheduled (?hs ! i) = h_scheduled (l_handles l ! i)" "h_when (?hs ! i) = h_when (l_handles l ! i)" for i
      using assms(2) by (cases "i = h"; simp)+
    have canc: "h_cancelled (?hs ! i) = (i = h \<or> h_cancelled (l_handles l ! i))" for i
      using assms(2) by (cases "i = h") auto
    have "length (filter (\<lambda>i. i = h \<or> h_cancelled (l_handles l ! i)) ts) =
        length (filter (\<lambda>i. h_cancelled (l_handles l ! i)) ts) + (if h \<in> set ts then 1 else 0)" if "distinct ts" for ts
      using that False by (induction ts) auto
    then have n: "length (filter (\<lambda>i. h_cancelled (?hs ! i)) (l_timers l)) =
        length (filter (\<lambda>i. h_cancelled (l_handles l ! i)) (l_timers l)) + (if h \<in> set (l_timers l) then 1 else 0)"
      unfolding canc using assms(1) by (simp add: timers_ok_def)
    have "h \<in> set (l_timers l) \<Longrightarrow> h_scheduled (l_handles l ! h) \<and> h_when (l_handles l ! h) \<noteq> None"
      using assms by (auto simp: timers_ok_def)
    moreover have "handle_cancel l h = l\<lparr>timer_cancelled_count := timer_cancelled_count l +
               (if h_when (l_handles l ! h) \<noteq> None \<and> h_scheduled (l_handles l ! h) then 1 else 0), l_handles := ?hs\<rparr>"
      using False by (simp add: handle_cancel_def)
    ultimately show ?thesis using assms(1) n by (cases "h \<in> set (l_timers l)") (simp_all add: timers_ok_def lt sched)
  qed
qed

end
