(* ===== verification/Loop_Runs.thy ===== *)
theory Loop_Runs
  imports Event_Loop "HOL-Library.Sublist"
begin

text \<open>
  What the event loop does over any run: the state it keeps, which callbacks it calls and in which order, and that an iteration calls everything
  that was ready.
\<close>

section \<open>The invariant\<close>

text \<open>
  \<open>log\<close> are the handles whose callbacks were called, in order. Handles of the selector may be called many times; the others are at one place at most: in
  the log, ready, or in the heap. Those of \<open>call_soon\<close> keep the order in which they were made.
\<close>

definition not_io :: "'c loop \<Rightarrow> nat list \<Rightarrow> nat list" where
  "not_io l = filter (\<lambda>h. h \<notin> set (l_io l))"

definition soon :: "'c loop \<Rightarrow> nat list \<Rightarrow> nat list" where
  "soon l = filter (\<lambda>h. h \<notin> set (l_io l) \<and> h_when (l_handles l ! h) = None)"

definition todo_ok :: "'c loop \<Rightarrow> bool" where
  "todo_ok l \<longleftrightarrow> (case l_phase l of Todo n \<Rightarrow> n \<le> length (l_ready l) | Calling n \<Rightarrow> n \<le> length (l_ready l) | _ \<Rightarrow> True)"

definition loop_ok :: "nat list \<Rightarrow> 'c loop \<Rightarrow> bool" where
  "loop_ok log l \<longleftrightarrow> timers_ok l \<and> todo_ok l \<and>
     (\<forall>h \<in> set log \<union> set (l_ready l) \<union> set (l_io l). h < length (l_handles l)) \<and>
     (\<forall>h \<in> set (l_io l). h_when (l_handles l ! h) = None) \<and>
     distinct (not_io l (log @ l_ready l) @ l_timers l) \<and>
     sorted_wrt (<) (soon l (log @ l_ready l))"

lemma loop_ok_new: "loop_ok [] loop_new"
  by (simp add: loop_ok_def loop_new_def timers_ok_def todo_ok_def not_io_def soon_def is_heap_def)

text \<open>The lists only depend on what the handles are, not on their flags.\<close>

lemma lists_same:
  "l_io l' = l_io l \<Longrightarrow> not_io l' = not_io l"
  "l_io l' = l_io l \<Longrightarrow> (\<And>i. h_when (l_handles l' ! i) = h_when (l_handles l ! i)) \<Longrightarrow> soon l' = soon l"
  by (simp_all add: not_io_def soon_def fun_eq_iff)

lemma lists_append:
  "not_io l (xs @ ys) = not_io l xs @ not_io l ys" "soon l (xs @ ys) = soon l xs @ soon l ys"
  "set (not_io l xs) = set xs - set (l_io l)"
  by (auto simp: not_io_def soon_def)

text \<open>A step that changes neither the queues nor what handles are.\<close>

lemma loop_ok_frame:
  assumes "loop_ok log l" "timers_ok l'" "todo_ok l'" "length (l_handles l') = length (l_handles l)" "l_io l' = l_io l"
    "\<And>i. h_when (l_handles l' ! i) = h_when (l_handles l ! i)" "l_ready l' = l_ready l"
    "mset (l_timers l) = ds + mset (l_timers l')"
  shows "loop_ok log l'"
proof -
  have sub: "set (l_timers l') \<subseteq> set (l_timers l)" using assms(8) by (metis set_mset_mset set_mset_union sup.cobounded2)
  have "distinct (l_timers l')" using assms(2) by (simp add: timers_ok_def)
  then have "distinct (not_io l (log @ l_ready l) @ l_timers l')" using assms(1) sub by (auto simp: loop_ok_def)
  then show ?thesis using assms(1-7) lists_same [of l' l] by (simp add: loop_ok_def)
qed

text \<open>A handle made by \<open>call_soon\<close> or for the selector.\<close>

lemma lists_new:
  assumes "\<forall>h \<in> set xs. h < length (l_handles l)"
  shows "not_io (l\<lparr>l_handles := l_handles l @ [x], l_ready := r, l_io := l_io l\<rparr>) xs = not_io l xs"
    "soon (l\<lparr>l_handles := l_handles l @ [x], l_ready := r, l_io := l_io l\<rparr>) xs = soon l xs"
    "not_io (l\<lparr>l_handles := l_handles l @ [x], l_ready := r, l_io := length (l_handles l) # l_io l\<rparr>) xs = not_io l xs"
    "soon (l\<lparr>l_handles := l_handles l @ [x], l_ready := r, l_io := length (l_handles l) # l_io l\<rparr>) xs = soon l xs"
  using assms by (auto simp: not_io_def soon_def nth_append intro!: filter_cong)

lemma loop_ok_less: "loop_ok log l \<Longrightarrow> h \<in> set (log @ l_ready l) \<union> set (l_io l) \<union> set (l_timers l) \<Longrightarrow> h < length (l_handles l)"
  by (auto simp: loop_ok_def timers_ok_def)

lemma loop_ok_call_soon:
  assumes ok: "loop_ok log l" and "loop_call_soon l c = Inr (l', h)"
  shows "loop_ok log l'"
proof -
  let ?x = "\<lparr>h_callback = Some c, h_cancelled = False, h_when = None, h_scheduled = False\<rparr>" and ?n = "length (l_handles l)"
  have l': "l' = l\<lparr>l_handles := l_handles l @ [?x], l_ready := l_ready l @ [?n], l_io := l_io l\<rparr>"
    using assms(2) by (auto simp: loop_call_soon_def split: if_splits)
  have less: "h \<in> set (log @ l_ready l) \<union> set (l_io l) \<union> set (l_timers l) \<Longrightarrow> h < ?n" for h using loop_ok_less [OF ok] .
  have "timers_ok l'" unfolding l' by (rule timers_ok_new) (use ok in \<open>simp_all add: loop_ok_def\<close>)
  moreover have "todo_ok l'" using ok by (auto simp: l' loop_ok_def todo_ok_def split: phase.splits)
  moreover have "not_io l' (log @ l_ready l') = not_io l (log @ l_ready l) @ [?n]"
    using lists_new(1) [of "log @ l_ready l" l "l_ready l @ [?n]" ?x] less unfolding l' by (auto simp: not_io_def)
  moreover have "soon l' (log @ l_ready l') = soon l (log @ l_ready l) @ [?n]"
    using lists_new(2) [of "log @ l_ready l" l "l_ready l @ [?n]" ?x] less unfolding l' by (auto simp: soon_def)
  moreover have "\<forall>h \<in> set (not_io l (log @ l_ready l)) \<union> set (l_timers l) \<union> set (soon l (log @ l_ready l)). h < ?n"
    using less by (auto simp: not_io_def soon_def)
  ultimately show ?thesis
    using ok less unfolding loop_ok_def by (auto simp: l' nth_append sorted_wrt_append less_SucI)
qed

lemma loop_ok_add_io:
  assumes ok: "loop_ok log l"
  shows "loop_ok log (fst (loop_add_io l c))"
proof -
  let ?x = "\<lparr>h_callback = Some c, h_cancelled = False, h_when = None, h_scheduled = False\<rparr>" and ?n = "length (l_handles l)"
  let ?l = "l\<lparr>l_handles := l_handles l @ [?x], l_ready := l_ready l, l_io := ?n # l_io l\<rparr>"
  have l': "fst (loop_add_io l c) = ?l" by (simp add: loop_add_io_def)
  have less: "h \<in> set (log @ l_ready l) \<union> set (l_io l) \<union> set (l_timers l) \<Longrightarrow> h < ?n" for h using loop_ok_less [OF ok] .
  have "timers_ok ?l" by (rule timers_ok_new) (use ok in \<open>simp_all add: loop_ok_def\<close>)
  moreover have "todo_ok ?l" using ok by (auto simp: loop_ok_def todo_ok_def split: phase.splits)
  moreover have "not_io ?l (log @ l_ready l) = not_io l (log @ l_ready l)" "soon ?l (log @ l_ready l) = soon l (log @ l_ready l)"
    using lists_new(3,4) [of "log @ l_ready l" l "l_ready l" ?x] less by auto
  ultimately show ?thesis
    unfolding l' using ok less unfolding loop_ok_def by (auto simp: nth_append less_SucI)
qed

lemma loop_ok_call_at:
  assumes ok: "loop_ok log l" and "loop_call_at l w c = Inr (l', h)"
  shows "loop_ok log l'"
proof -
  have less: "h \<in> set (log @ l_ready l) \<union> set (l_io l) \<union> set (l_timers l) \<Longrightarrow> h < length (l_handles l)" for h using loop_ok_less [OF ok] .
  have t: "timers_ok l" using ok by (simp add: loop_ok_def)
  note c = call_at_ok [OF t assms(2)]
  have "todo_ok l'" using ok by (simp add: loop_ok_def todo_ok_def c split: phase.splits)
  moreover have "soon l' (log @ l_ready l) = soon l (log @ l_ready l)"
    unfolding soon_def using less c(7) by (intro filter_cong) (auto simp: c)
  moreover have "not_io l' = not_io l" by (rule lists_same(1)) (rule c)
  moreover have "set (l_timers l') = insert (length (l_handles l)) (set (l_timers l))"
    using c(2,3) by (metis set_mset_add_mset_insert set_mset_mset)
  moreover have "distinct (l_timers l')" using c(1) by (simp add: timers_ok_def)
  moreover have "length (l_handles l) \<notin> set (not_io l (log @ l_ready l))" using less by (auto simp: not_io_def)
  ultimately show ?thesis
    using ok less c unfolding loop_ok_def by (auto simp: less_SucI)
qed

lemma foldl_add_callback:
  "\<exists>es. foldl loop_add_callback l events = l\<lparr>l_ready := l_ready l @ es\<rparr> \<and> es = filter (\<lambda>h. \<not> h_cancelled (l_handles l ! h)) events"
  by (induction events arbitrary: l) (auto simp: loop_add_callback_def)

lemma loop_polled_ok:
  assumes "timers_ok l"
  shows "\<exists>es ds. es = filter (\<lambda>h. \<not> h_cancelled (l_handles l ! h)) events \<and>
     l_ready (loop_polled l events now) = l_ready l @ es @ ds \<and> l_phase (loop_polled l events now) = Todo (length (l_ready l @ es @ ds)) \<and>
     timers_ok (loop_polled l events now) \<and> same_handles l ((loop_polled l events now)\<lparr>l_phase := l_phase l\<rparr>) \<and>
     mset (l_timers l) = mset ds + mset (l_timers (loop_polled l events now)) \<and>
     sorted (map (h_time (l_handles l)) ds) \<and> (\<forall>d \<in> set ds. h_time (l_handles l) d < now + clock_resolution) \<and>
     (\<forall>t \<in> set (l_timers (loop_polled l events now)). now + clock_resolution \<le> h_time (l_handles l) t)"
proof -
  obtain es where es: "foldl loop_add_callback l events = l\<lparr>l_ready := l_ready l @ es\<rparr>"
      "es = filter (\<lambda>h. \<not> h_cancelled (l_handles l ! h)) events"
    using foldl_add_callback [of l events] by blast
  have "timers_ok (l\<lparr>l_ready := l_ready l @ es\<rparr>)" using assms by (simp add: timers_ok_def)
  from loop_due_ok [OF this, of "now + clock_resolution"] obtain ds where ds:
      "timers_ok (loop_due (now + clock_resolution) (l\<lparr>l_ready := l_ready l @ es\<rparr>))"
      "same_handles (l\<lparr>l_ready := l_ready l @ es\<rparr>) (loop_due (now + clock_resolution) (l\<lparr>l_ready := l_ready l @ es\<rparr>))"
      "l_ready (loop_due (now + clock_resolution) (l\<lparr>l_ready := l_ready l @ es\<rparr>)) = (l_ready l @ es) @ ds"
      "mset (l_timers l) = mset ds + mset (l_timers (loop_due (now + clock_resolution) (l\<lparr>l_ready := l_ready l @ es\<rparr>)))"
      "sorted (map (h_time (l_handles l)) ds)" "\<forall>d \<in> set ds. h_time (l_handles l) d < now + clock_resolution"
      "\<forall>t \<in> set (l_timers (loop_due (now + clock_resolution) (l\<lparr>l_ready := l_ready l @ es\<rparr>))). now + clock_resolution \<le> h_time (l_handles l) t"
    by auto
  have "timers_ok (loop_polled l events now)" using ds(1) by (simp add: loop_polled_def Let_def es(1) timers_ok_def)
  then show ?thesis using ds es(2)
    by (intro exI [of _ es] exI [of _ ds]) (simp add: loop_polled_def Let_def es(1) same_handles_def)
qed

lemma same_handles_lists:
  assumes "same_handles l (l'\<lparr>l_phase := p\<rparr>)"
  shows "not_io l' = not_io l" "soon l' = soon l" "length (l_handles l') = length (l_handles l)" "l_io l' = l_io l"
    "h_when (l_handles l' ! i) = h_when (l_handles l ! i)" "h_cancelled (l_handles l' ! i) = h_cancelled (l_handles l ! i)"
  using assms by (simp_all add: same_handles_def not_io_def soon_def fun_eq_iff)

lemma loop_ok_polled:
  assumes ok: "loop_ok log l" and io: "set events \<subseteq> set (l_io l)"
  shows "loop_ok log (loop_polled l events now)"
proof -
  let ?l = "loop_polled l events now"
  have t: "timers_ok l" using ok by (simp add: loop_ok_def)
  obtain es ds where p: "es = filter (\<lambda>h. \<not> h_cancelled (l_handles l ! h)) events" "l_ready ?l = l_ready l @ es @ ds"
      "l_phase ?l = Todo (length (l_ready l @ es @ ds))" "timers_ok ?l" "same_handles l (?l\<lparr>l_phase := l_phase l\<rparr>)"
      "mset (l_timers l) = mset ds + mset (l_timers ?l)"
    using loop_polled_ok [OF t, of events now] by blast
  note sl = same_handles_lists [OF p(5)]
  have s: "set (l_timers l) = set ds \<union> set (l_timers ?l)" using p(6) by (metis set_mset_mset set_mset_union)
  have es: "set es \<subseteq> set (l_io l)" using p(1) io by auto
  have w: "h_when (l_handles l ! d) \<noteq> None" "d < length (l_handles l)" if "d \<in> set ds" for d
    using t that s by (auto simp: timers_ok_def)
  have dt: "h_when (l_handles l ! d) \<noteq> None" "d \<notin> set (l_io l)" "d < length (l_handles l)" if "d \<in> set ds" for d
    using w [OF that] ok unfolding loop_ok_def by metis+
  have "not_io l es = []" "soon l es = []" "soon l ds = []" "not_io l ds = ds"
    using es dt by (auto simp: not_io_def soon_def filter_empty_conv intro: filter_True)
  then have lists: "not_io l (log @ l_ready ?l) = not_io l (log @ l_ready l) @ ds" "soon l (log @ l_ready ?l) = soon l (log @ l_ready l)"
    unfolding p(2) lists_append by simp_all
  have "distinct (ds @ l_timers ?l)"
    using t mset_eq_imp_distinct_iff [of "ds @ l_timers ?l" "l_timers l"] p(6) by (simp add: timers_ok_def)
  moreover have "set (not_io l (log @ l_ready l)) \<inter> (set ds \<union> set (l_timers ?l)) = {}" "distinct (not_io l (log @ l_ready l))"
    using ok s by (auto simp: loop_ok_def)
  ultimately have "distinct (not_io l (log @ l_ready ?l) @ l_timers ?l)" unfolding lists by auto
  moreover have "\<forall>h \<in> set log \<union> set (l_ready ?l) \<union> set (l_io ?l). h < length (l_handles ?l)"
    unfolding p(2) sl using ok es dt by (auto simp: loop_ok_def)
  moreover have "todo_ok ?l" unfolding todo_ok_def p(2,3) by simp
  ultimately show ?thesis using ok p(4) by (simp add: loop_ok_def sl lists)
qed

lemma loop_ok_next:
  assumes ok: "loop_ok log l" and ph: "l_phase l = Todo (Suc n)" and nx: "loop_next l n = (l', called)"
  shows "loop_ok (log @ (case called of None \<Rightarrow> [] | Some h \<Rightarrow> [h])) l'"
proof -
  obtain h rs where r: "l_ready l = h # rs" "n \<le> length rs"
    using ok ph by (cases "l_ready l") (auto simp: loop_ok_def todo_ok_def)
  have lists: "not_io l' = not_io l" "soon l' = soon l" "l_timers l' = l_timers l" "l_handles l' = l_handles l" "l_io l' = l_io l" "l_ready l' = rs"
      "timers_ok l' = timers_ok l" "todo_ok l'"
    using nx r by (auto simp: loop_next_def Let_def fun_eq_iff not_io_def soon_def timers_ok_def todo_ok_def split: if_splits)
  have one: "not_io l (h # rs) = not_io l [h] @ not_io l rs" "soon l (h # rs) = soon l [h] @ soon l rs"
    using lists_append(1,2) [of l "[h]" rs] by simp_all
  show ?thesis
    using ok nx unfolding loop_ok_def lists
    by (cases called) (auto simp: r(1) loop_next_def Let_def lists_append one sorted_wrt_append lists(8) split: if_splits)
qed

lemma loop_ok_phase: "loop_ok log l \<Longrightarrow> todo_ok (l\<lparr>l_phase := p\<rparr>) \<Longrightarrow> loop_ok log (l\<lparr>l_stopping := b, l_phase := p\<rparr>)"
  by (simp add: loop_ok_def timers_ok_def todo_ok_def not_io_def soon_def split: phase.splits)

lemma loop_ok_step:
  assumes ok: "loop_ok log l" and st: "loop_step e l = Some (l', called)"
  shows "loop_ok (log @ (case called of None \<Rightarrow> [] | Some h \<Rightarrow> [h])) l'"
proof (cases e)
  case (CallSoon c)
  then show ?thesis using st ok loop_ok_call_soon [OF ok, of c] by (auto simp: or_same_def split: sum.splits)
next
  case (CallAt w c)
  then show ?thesis using st ok loop_ok_call_at [OF ok, of w c] by (auto simp: or_same_def split: sum.splits if_splits)
next
  case (CallLater now d c)
  then show ?thesis using st ok loop_ok_call_at [OF ok, of "now + d" c]
    by (auto simp: or_same_def loop_call_later_def split: sum.splits if_splits)
next
  case (Cancel h)
  then have h: "h < length (l_handles l)" "l' = handle_cancel l h" "called = None" using st by (auto split: if_splits)
  have t: "timers_ok l" using ok by (simp add: loop_ok_def)
  note c = handle_cancel_ok [OF t h(1)]
  have "todo_ok (handle_cancel l h)" using ok by (simp add: loop_ok_def todo_ok_def c split: phase.splits)
  then show ?thesis using loop_ok_frame [OF ok c(1) _ c(2,6,3,5), of "{#}"] by (simp add: h c(4))
next
  case (AddIO c)
  then show ?thesis using st loop_ok_add_io [OF ok, of c] by (auto split: if_splits)
next
  case Stop
  then show ?thesis using st loop_ok_phase [OF ok, of "l_phase l" True] ok by (auto simp: loop_stop_def loop_ok_def split: if_splits)
next
  case Close
  show ?thesis
  proof (cases "l' = l")
    case True
    then show ?thesis using st Close ok by (auto split: if_splits)
  next
    case False
    then have l': "l' = l\<lparr>l_closed := True, l_ready := [], l_timers := []\<rparr>" "called = None" "l_phase l = Off"
      using st Close by (auto simp: loop_close_def loop_is_running_def split: if_splits)
    then show ?thesis using ok
      by (auto simp: loop_ok_def timers_ok_def todo_ok_def not_io_def soon_def is_heap_def sorted_wrt_append)
  qed
next
  case RunForever
  then show ?thesis using st loop_ok_phase [OF ok, of Top "l_stopping l"] by (auto simp: todo_ok_def split: if_splits)
next
  case (Tick now)
  then have l': "l' = (loop_purge l)\<lparr>l_phase := Polling\<rparr>" "called = None" using st by (auto split: if_splits)
  have t: "timers_ok l" using ok by (simp add: loop_ok_def)
  obtain ds where p: "timers_ok (loop_purge l)" "same_handles l (loop_purge l)" "l_ready (loop_purge l) = l_ready l"
      "mset (l_timers l) = mset ds + mset (l_timers (loop_purge l))"
    using loop_purge_ok [OF t] by blast
  have "timers_ok l'" using p(1) by (simp add: l' timers_ok_def)
  moreover have "same_handles l (l'\<lparr>l_phase := l_phase l\<rparr>)" using p(2) by (simp add: l' same_handles_def)
  note sl = same_handles_lists [OF this]
  moreover have "todo_ok l'" by (simp add: l' todo_ok_def)
  ultimately show ?thesis
    using loop_ok_frame [OF ok, of l' "mset ds"] p(3,4) by (simp add: l'(2)) (simp add: l'(1))
next
  case (Polled events now)
  then show ?thesis using st loop_ok_polled [OF ok, of events now] by (auto split: if_splits)
next
  case Next
  then obtain n where "l_phase l = Todo (Suc n)" "loop_next l n = (l', called)"
    using st by (auto split: phase.splits nat.splits)
  then show ?thesis by (rule loop_ok_next [OF ok])
next
  case Returned
  then obtain n where "l_phase l = Calling n" "l' = l\<lparr>l_phase := Todo n\<rparr>" "called = None" using st by (auto split: phase.splits)
  then show ?thesis using loop_ok_phase [OF ok, of "Todo n" "l_stopping l"] ok by (auto simp: loop_ok_def todo_ok_def)
next
  case Aborted
  then have "l' = loop_finish l" "called = None" using st by (auto split: phase.splits)
  then show ?thesis using loop_ok_phase [OF ok, of Off False] by (simp add: loop_finish_def todo_ok_def)
next
  case Finish
  then have "l' = (if l_stopping l then loop_finish l else l\<lparr>l_phase := Top\<rparr>)" "called = None" using st by (auto split: if_splits)
  then show ?thesis
    using loop_ok_phase [OF ok, of Off False] loop_ok_phase [OF ok, of Top "l_stopping l"] by (simp add: loop_finish_def todo_ok_def)
qed

lemma loop_run_Cons:
  "loop_run (e # es) l = Some (l'', log) \<longleftrightarrow>
     (\<exists>l' called log'. loop_step e l = Some (l', called) \<and> loop_run es l' = Some (l'', log') \<and>
        log = (case called of None \<Rightarrow> [] | Some h \<Rightarrow> [h]) @ log')"
  by (auto split: option.splits)

declare loop_run.simps(2) [simp del] loop_run_Cons [simp]

lemma loop_ok_run: "loop_ok log l \<Longrightarrow> loop_run es l = Some (l', log') \<Longrightarrow> loop_ok (log @ log') l'"
proof (induction es arbitrary: log l log')
  case (Cons e es)
  then obtain l1 called log1 where r: "loop_step e l = Some (l1, called)" "loop_run es l1 = Some (l', log1)"
      "log' = (case called of None \<Rightarrow> [] | Some h \<Rightarrow> [h]) @ log1" by auto
  show ?case using Cons.IH [OF loop_ok_step [OF Cons.prems(1) r(1)] r(2)] r(3) by simp
qed simp

section \<open>Cancelled handles and timers\<close>

text \<open>A step never un-cancels a handle, nor changes the time of one.\<close>

lemma step_handles:
  assumes ok: "loop_ok log l" and st: "loop_step e l = Some (l', called)" and h: "h < length (l_handles l)"
  shows "h < length (l_handles l') \<and> h_when (l_handles l' ! h) = h_when (l_handles l ! h) \<and>
    (h_cancelled (l_handles l ! h) \<longrightarrow> h_cancelled (l_handles l' ! h))"
proof -
  have t: "timers_ok l" using ok by (simp add: loop_ok_def)
  have purge: "same_handles l (loop_purge l)" using loop_purge_ok [OF t] by blast
  have polled: "same_handles l ((loop_polled l es now)\<lparr>l_phase := l_phase l\<rparr>)" for es now using loop_polled_ok [OF t, of es now] by blast
  show ?thesis
    using st h same_handles_lists [OF polled] purge
    by (cases e)
      (auto simp: or_same_def loop_call_soon_def loop_call_at_def loop_call_later_def Let_def nth_append handle_cancel_def nth_list_update
        loop_add_io_def loop_stop_def loop_close_def loop_next_def loop_finish_def same_handles_def
        split: sum.splits if_splits phase.splits nat.splits)
qed

lemma step_io:
  assumes ok: "loop_ok log l" and st: "loop_step e l = Some (l', called)"
  shows "set (l_io l') \<subseteq> insert (length (l_handles l)) (set (l_io l))"
proof -
  have t: "timers_ok l" using ok by (simp add: loop_ok_def)
  have purge: "l_io (loop_purge l) = l_io l" using loop_purge_ok [OF t] by (simp add: same_handles_def)
  have polled: "l_io (loop_polled l es now) = l_io l" for es now
    using loop_polled_ok [OF t, of es now] by (auto simp: same_handles_def)
  show ?thesis
    using st purge polled
    by (cases e)
      (auto simp: or_same_def loop_call_soon_def loop_call_at_def loop_call_later_def Let_def handle_cancel_def
        loop_add_io_def loop_stop_def loop_close_def loop_next_def loop_finish_def
        split: sum.splits if_splits phase.splits nat.splits)
qed

lemma called_not_cancelled: "loop_step e l = Some (l', Some h) \<Longrightarrow> \<not> h_cancelled (l_handles l ! h) \<and> h = hd (l_ready l) \<and> e = Next"
  by (cases e) (auto simp: loop_next_def Let_def split: if_splits phase.splits nat.splits)

lemma cancelled_not_called:
  assumes "loop_ok log l" "loop_run es l = Some (l', log')" "h < length (l_handles l)" "h_cancelled (l_handles l ! h)"
  shows "h \<notin> set log'"
  using assms
proof (induction es arbitrary: log l log')
  case (Cons e es)
  then obtain l1 called log1 where r: "loop_step e l = Some (l1, called)" "loop_run es l1 = Some (l', log1)"
      "log' = (case called of None \<Rightarrow> [] | Some h \<Rightarrow> [h]) @ log1" by auto
  have "h \<notin> set log1"
    using Cons.IH [OF loop_ok_step [OF Cons.prems(1) r(1)] r(2)] step_handles [OF Cons.prems(1) r(1) Cons.prems(3)] Cons.prems(4) by blast
  then show ?case using called_not_cancelled [of e l l1 h] r(1,3) Cons.prems(4) by (auto split: option.splits)
qed simp

lemma timer_rests:
  assumes ok: "loop_ok log l" and h: "h \<in> set (l_timers l)"
  shows "h \<notin> set (l_io l)" "h \<notin> set (l_ready l)"
proof -
  have "h_when (l_handles l ! h) \<noteq> None" using ok h by (simp add: loop_ok_def timers_ok_def)
  then show io: "h \<notin> set (l_io l)" using ok by (auto simp: loop_ok_def)
  show "h \<notin> set (l_ready l)"
    using ok h io by (auto simp: loop_ok_def not_io_def)
qed

text \<open>Where a step takes the timers: only a poll that has reached its time, or a cancellation, takes one out of the heap.\<close>

lemma step_timers:
  assumes ok: "loop_ok log l" and st: "loop_step e l = Some (l', called)" and h: "h \<in> set (l_timers l)"
  shows "h \<in> set (l_timers l') \<or> h_cancelled (l_handles l ! h) \<and> h \<notin> set (l_ready l') \<or> h \<notin> set (l_ready l') \<and> e = Close \<or>
    (\<exists>events now. e = Polled events now \<and> h_time (l_handles l) h < now + clock_resolution)"
proof -
  have t: "timers_ok l" using ok by (simp add: loop_ok_def)
  have hl: "h \<notin> set (l_ready l)" by (rule timer_rests(2) [OF ok h])
  show ?thesis
  proof (cases "\<exists>now. e = Tick now")
    case True
    then have l': "l' = (loop_purge l)\<lparr>l_phase := Polling\<rparr>" using st by (auto split: if_splits)
    obtain ds where p: "l_ready (loop_purge l) = l_ready l" "mset (l_timers l) = mset ds + mset (l_timers (loop_purge l))"
        "\<forall>d \<in> set ds. h_cancelled (l_handles l ! d)"
      using loop_purge_ok [OF t] by blast
    have "set (l_timers l) = set ds \<union> set (l_timers (loop_purge l))" using p(2) by (metis set_mset_mset set_mset_union)
    then show ?thesis using h p hl l' by auto
  next
    case nt: False
    show ?thesis
    proof (cases "\<exists>events now. e = Polled events now")
      case True
      then obtain events now where e: "e = Polled events now" by blast
      then have l': "l' = loop_polled l events now" using st by (auto split: if_splits)
      obtain ds where p: "mset (l_timers l) = mset ds + mset (l_timers l')" "\<forall>d \<in> set ds. h_time (l_handles l) d < now + clock_resolution"
        using loop_polled_ok [OF t, of events now] unfolding l' by blast
      have "set (l_timers l) = set ds \<union> set (l_timers l')" using p(1) by (metis set_mset_mset set_mset_union)
      then show ?thesis using h p(2) e by blast
    next
      case False
      have "set (l_timers l) \<subseteq> set (l_timers l') \<or> e = Close \<and> l_ready l' = []"
      proof (cases e)
        case (CallAt w c)
        then show ?thesis using st call_at_ok(3) [OF t, of w c] 
          by (auto simp: or_same_def split: if_splits sum.splits dest!: arg_cong [of _ _ set_mset])
      next
        case (CallLater now d c)
        then show ?thesis using st call_at_ok(3) [OF t, of "now + d" c] 
          by (auto simp: or_same_def loop_call_later_def split: if_splits sum.splits dest!: arg_cong [of _ _ set_mset])
      qed (use st nt False in \<open>auto simp: or_same_def loop_call_soon_def handle_cancel_def loop_add_io_def loop_stop_def loop_close_def
          loop_next_def loop_finish_def Let_def split: if_splits sum.splits phase.splits nat.splits\<close>)
      then show ?thesis using h hl by auto
    qed
  qed
qed

text \<open>A handle that is in none of the queues stays out of them.\<close>

definition gone :: "nat \<Rightarrow> 'c loop \<Rightarrow> bool" where
  "gone h l \<longleftrightarrow> h < length (l_handles l) \<and> h \<notin> set (l_ready l) \<union> set (l_timers l) \<union> set (l_io l)"

lemma step_gone:
  assumes ok: "loop_ok log l" and st: "loop_step e l = Some (l', called)" and h: "gone h l"
  shows "gone h l'"
proof -
  have t: "timers_ok l" using ok by (simp add: loop_ok_def)
  have hl: "h < length (l_handles l')" using step_handles [OF ok st] h by (simp add: gone_def)
  have sub: "set xs \<subseteq> set ys" if "mset ys = mset ds + mset xs" for xs ys ds :: "nat list"
    using that by (metis set_mset_mset set_mset_union sup.cobounded2)
  consider w c where "e = CallAt w c" | now d c where "e = CallLater now d c" | now where "e = Tick now"
    | events now where "e = Polled events now" | "e = Next"
    | "\<forall>w c. e \<noteq> CallAt w c" "\<forall>now d c. e \<noteq> CallLater now d c" "\<forall>now. e \<noteq> Tick now" "\<forall>events now. e \<noteq> Polled events now" "e \<noteq> Next"
    by (cases e) auto
  then show ?thesis
  proof cases
    case (1 w c)
    then show ?thesis using st h hl call_at_ok(2,3,4,8) [OF t, of w c]
      by (auto simp: or_same_def gone_def split: if_splits sum.splits dest!: arg_cong [of _ _ set_mset])
  next
    case (2 now d c)
    then show ?thesis using st h hl call_at_ok(2,3,4,8) [OF t, of "now + d" c]
      by (auto simp: or_same_def loop_call_later_def gone_def split: if_splits sum.splits dest!: arg_cong [of _ _ set_mset])
  next
    case (3 now)
    then have l': "l' = (loop_purge l)\<lparr>l_phase := Polling\<rparr>" using st by (auto split: if_splits)
    then show ?thesis using loop_purge_ok [OF t] sub h by (auto simp: gone_def same_handles_def)
  next
    case (4 events now)
    then have l': "l' = loop_polled l events now" "set events \<subseteq> set (l_io l)" using st by (auto split: if_splits)
    obtain es ds where p: "es = filter (\<lambda>h. \<not> h_cancelled (l_handles l ! h)) events" "l_ready l' = l_ready l @ es @ ds"
      "same_handles l (l'\<lparr>l_phase := l_phase l\<rparr>)" "mset (l_timers l) = mset ds + mset (l_timers l')"
      using loop_polled_ok [OF t, of events now] unfolding l' by blast
    have "set (l_timers l) = set ds \<union> set (l_timers l')" using p(4) by (metis set_mset_mset set_mset_union)
    then show ?thesis using h p l'(2) same_handles_lists [OF p(3)] by (auto simp: gone_def)
  next
    case 5
    then show ?thesis using st h ok
      by (cases "l_ready l") (auto simp: loop_next_def gone_def Let_def loop_ok_def todo_ok_def split: phase.splits nat.splits if_splits)
  next
    case 6
    then show ?thesis using st h hl
      by (cases e) (auto simp: or_same_def loop_call_soon_def handle_cancel_def loop_add_io_def loop_stop_def loop_close_def gone_def
        loop_finish_def Let_def split: if_splits sum.splits phase.splits)
  qed
qed

lemma called_ready:
  assumes "loop_ok log l" "loop_step e l = Some (l', Some h)"
  shows "h \<in> set (l_ready l)"
proof -
  obtain n where "l_phase l = Todo (Suc n)" using called_not_cancelled [OF assms(2)] assms(2) by (auto split: phase.splits nat.splits)
  then have "l_ready l \<noteq> []" using assms(1) by (auto simp: loop_ok_def todo_ok_def)
  then show ?thesis using called_not_cancelled [OF assms(2)] by simp
qed

lemma timer_waits:
  assumes "loop_ok log l" "h \<in> set (l_timers l) \<or> gone h l" "loop_run es l = Some (l', log')"
    "\<And>events now. Polled events now \<in> set es \<Longrightarrow> now + clock_resolution \<le> h_time (l_handles l) h"
  shows "h \<notin> set log'"
  using assms
proof (induction es arbitrary: log l log')
  case (Cons e es)
  then obtain l1 called log1 where r: "loop_step e l = Some (l1, called)" "loop_run es l1 = Some (l', log1)"
      "log' = (case called of None \<Rightarrow> [] | Some h \<Rightarrow> [h]) @ log1" by auto
  have t: "timers_ok l" using Cons.prems(1) by (simp add: loop_ok_def)
  have hl: "h < length (l_handles l)" using Cons.prems(2) t by (auto simp: gone_def timers_ok_def)
  have w: "h \<notin> set (l_io l)" "h \<notin> set (l_ready l)"
    using Cons.prems(2) timer_rests [OF Cons.prems(1), of h] by (auto simp: gone_def)
  have io: "h \<notin> set (l_io l1)"
    using step_io [OF Cons.prems(1) r(1)] w(1) hl by auto
  have "h \<in> set (l_timers l1) \<or> gone h l1"
  proof (cases "h \<in> set (l_timers l)")
    case True
    then show ?thesis
      using step_timers [OF Cons.prems(1) r(1) True] Cons.prems(4) io step_handles [OF Cons.prems(1) r(1) hl]
      by (fastforce simp: gone_def)
  next
    case False
    then show ?thesis using step_gone [OF Cons.prems(1) r(1)] Cons.prems(2) by blast
  qed
  moreover have "h_time (l_handles l1) h = h_time (l_handles l) h"
    using step_handles [OF Cons.prems(1) r(1) hl] by (simp add: h_time_def)
  ultimately have "h \<notin> set log1"
    using Cons.IH [OF loop_ok_step [OF Cons.prems(1) r(1)] _ r(2)] Cons.prems(4) by auto
  moreover have "called \<noteq> Some h" using called_ready [of log l e l1 h] Cons.prems(1) r(1) w(2) by blast
  ultimately show ?case using r(3) by (auto split: option.splits)
qed simp

section \<open>An iteration calls what was ready\<close>

lemma run_cancelled:
  assumes "loop_ok log l" "loop_run es l = Some (l', log')" "h < length (l_handles l)" "h_cancelled (l_handles l ! h)"
  shows "h_cancelled (l_handles l' ! h)"
  using assms
proof (induction es arbitrary: log l log')
  case (Cons e es)
  then obtain l1 called log1 where r: "loop_step e l = Some (l1, called)" "loop_run es l1 = Some (l', log1)" by auto
  show ?case
    using Cons.IH [OF loop_ok_step [OF Cons.prems(1) r(1)] r(2)] step_handles [OF Cons.prems(1) r(1) Cons.prems(3)] Cons.prems(4) by blast
qed simp

text \<open>While no iteration ends, the callbacks called are some of those counted at its begin, in their order, and at its end all that are not cancelled.\<close>

lemma run_ready:
  assumes "loop_ok log l" "l_phase l = Todo (length R) \<or> l_phase l = Calling (length R)" "l_ready l = R @ later"
    "loop_run es l = Some (l', log')" "Finish \<notin> set es" "Aborted \<notin> set es"
  shows "subseq log' R \<and> (l_phase l' = Todo 0 \<longrightarrow> (\<forall>h \<in> set R. h \<in> set log' \<or> h_cancelled (l_handles l' ! h)))"
  using assms
proof (induction es arbitrary: log l log' R later)
  case (Cons e es)
  then obtain l1 called log1 where r: "loop_step e l = Some (l1, called)" "loop_run es l1 = Some (l', log1)"
      "log' = (case called of None \<Rightarrow> [] | Some h \<Rightarrow> [h]) @ log1" by auto
  note ok = loop_ok_step [OF Cons.prems(1) r(1)]
  have es: "Finish \<notin> set es" "Aborted \<notin> set es" using Cons.prems(5,6) by auto
  show ?case
  proof (cases "e = Next")
    case False
    have "\<exists>later. l_ready l1 = R @ later \<and> (l_phase l1 = Todo (length R) \<or> l_phase l1 = Calling (length R))"
      using r(1) False Cons.prems(2,3,5,6)
      by (cases e) (auto simp: or_same_def loop_call_soon_def loop_call_at_def loop_call_later_def handle_cancel_def loop_add_io_def
          loop_stop_def loop_close_def loop_is_running_def Let_def split: if_splits sum.splits phase.splits)
    then obtain later' where l1: "l_ready l1 = R @ later'" "l_phase l1 = Todo (length R) \<or> l_phase l1 = Calling (length R)" by blast
    have "called = None" using called_not_cancelled [of e l l1] r(1) False by (cases called) auto
    then show ?thesis using Cons.IH [OF ok l1(2,1) r(2) es] r(3) by simp
  next
    case True
    then obtain n where n: "length R = Suc n" "l_phase l = Todo (Suc n)" "loop_next l n = (l1, called)"
      using r(1) Cons.prems(2) by (auto split: phase.splits nat.splits)
    then obtain x R' where R: "R = x # R'" "length R' = n" by (cases R) auto
    then have l1: "l_ready l1 = R' @ later" "l_phase l1 = Todo n \<or> l_phase l1 = Calling n" "l_handles l1 = l_handles l"
        "called = Some x \<or> called = None \<and> h_cancelled (l_handles l ! x)"
      using n(3) Cons.prems(3) by (auto simp: loop_next_def Let_def split: if_splits)
    have xl: "x < length (l_handles l1)" using Cons.prems(1,3) R(1) l1(3) by (auto simp: loop_ok_def)
    have ih: "subseq log1 R' \<and> (l_phase l' = Todo 0 \<longrightarrow> (\<forall>h \<in> set R'. h \<in> set log1 \<or> h_cancelled (l_handles l' ! h)))"
      by (rule Cons.IH [OF ok _ l1(1) r(2) es]) (use l1(2) R(2) in simp)
    have "h_cancelled (l_handles l' ! x)" if "h_cancelled (l_handles l ! x)"
      using run_cancelled [OF ok r(2) xl] that l1(3) by simp
    then show ?thesis using l1(4) ih r(3) unfolding R(1) by (auto simp: subseq_Cons')
  qed
qed auto

section \<open>The event loop's promises\<close>

lemma loop_ok_from_new: "loop_run es loop_new = Some (l, log) \<Longrightarrow> loop_ok log l"
  using loop_ok_run [OF loop_ok_new] by force

text \<open>C5: over any run, a callback given to \<open>call_soon\<close>, \<open>call_at\<close> or \<open>call_later\<close> is called at most once, and those of \<open>call_soon\<close> in the order in which they
  were given. A callback is not called after its handle was cancelled, nor a timer's before the loop has polled at its time or less than the
  clock's resolution before it.\<close>

theorem event_loop_calls:
  assumes "loop_run es loop_new = Some (l, log)" "loop_run es' l = Some (l', log')" "h < length (l_handles l)"
  shows "distinct (not_io l log) \<and> sorted_wrt (<) (soon l log) \<and>
    (h_cancelled (l_handles l ! h) \<longrightarrow> h \<notin> set log') \<and>
    (h \<in> set (l_timers l) \<and> (\<forall>events now. Polled events now \<in> set es' \<longrightarrow> now + clock_resolution \<le> h_time (l_handles l) h) \<longrightarrow>
       h \<notin> set log')"
proof -
  have ok: "loop_ok log l" by (rule loop_ok_from_new [OF assms(1)])
  show ?thesis
    using ok cancelled_not_called [OF ok assms(2,3)] timer_waits [OF ok _ assms(2), of h]
    by (auto simp: loop_ok_def lists_append sorted_wrt_append)
qed

lemma calls_example:
  "case loop_run [CallSoon 1, CallAt 5000000 2, CallLater 10 20 (3 :: nat), Cancel 2] loop_new of None \<Rightarrow> False
   | Some (l, log) \<Rightarrow> log = [] \<and> length (l_handles l) = 3 \<and> h_cancelled (l_handles l ! 2) \<and> 1 \<in> set (l_timers l) \<and> h_time (l_handles l) 1 = 5000000 \<and>
       loop_run [RunForever, Tick 10, Polled [] 4000000, Next, Returned, Finish] l \<noteq> None"
  by code_simp

theorem event_loop_calls_witness:
  "\<exists>l l' log'. loop_run [CallSoon 1, CallAt 5000000 2, CallLater 10 20 (3 :: nat), Cancel 2] loop_new = Some (l, []) \<and>
     loop_run [RunForever, Tick 10, Polled [] 4000000, Next, Returned, Finish] l = Some (l', log') \<and> 1 \<notin> set log' \<and> 2 \<notin> set log'"
proof -
  obtain l where l: "loop_run [CallSoon 1, CallAt 5000000 2, CallLater 10 20 (3 :: nat), Cancel 2] loop_new = Some (l, [])"
      "length (l_handles l) = 3" "h_cancelled (l_handles l ! 2)" "1 \<in> set (l_timers l)" "h_time (l_handles l) 1 = 5000000"
      "loop_run [RunForever, Tick 10, Polled [] 4000000, Next, Returned, Finish] l \<noteq> None"
    using calls_example by (auto simp del: loop_run_Cons split: option.splits)
  then obtain l' log' where r: "loop_run [RunForever, Tick 10, Polled [] 4000000, Next, Returned, Finish] l = Some (l', log')" by fast
  have "1 \<notin> set log'" "2 \<notin> set log'"
    using event_loop_calls [OF l(1) r, of 1] event_loop_calls [OF l(1) r, of 2] l(2-5) by (auto simp: clock_resolution_def)
  then show ?thesis using l(1) r by blast
qed

text \<open>C35: once the loop has polled, it calls, until the iteration ends, exactly those callbacks that were ready then: in this order, those that
  were in the queue before, those that the selector reported and that were not cancelled, and the timers whose time had come, earliest first. It
  calls no others, whatever the callbacks schedule in the meantime; it always has a handle to take as long as it has callbacks left to call; and
  when it has none left it has called all of them but those whose handle was cancelled.\<close>

theorem event_loop_iteration:
  assumes "loop_run es loop_new = Some (l, log)" "loop_run (Polled events now # es') l = Some (l', log')"
    "Finish \<notin> set es'" "Aborted \<notin> set es'"
  shows "\<exists>due. set due = {h \<in> set (l_timers l). h_time (l_handles l) h < now + clock_resolution} \<and> distinct due \<and>
    sorted (map (h_time (l_handles l)) due) \<and>
    (let R = l_ready l @ filter (\<lambda>h. \<not> h_cancelled (l_handles l ! h)) events @ due in
      subseq log' R \<and>
      (\<forall>n. l_phase l' = Todo (Suc n) \<longrightarrow> l_ready l' \<noteq> []) \<and>
      (l_phase l' = Todo 0 \<longrightarrow> (\<forall>h \<in> set R. h \<in> set log' \<or> h_cancelled (l_handles l' ! h))))"
proof -
  have ok: "loop_ok log l" by (rule loop_ok_from_new [OF assms(1)])
  then have t: "timers_ok l" by (simp add: loop_ok_def)
  have run: "loop_run es' (loop_polled l events now) = Some (l', log')" "set events \<subseteq> set (l_io l)"
    using assms(2) by (auto split: if_splits)
  have ok1: "loop_ok log (loop_polled l events now)" by (rule loop_ok_polled [OF ok run(2)])
  have ok': "loop_ok (log @ log') l'" by (rule loop_ok_run [OF ok1 run(1)])
  define fs where "fs = filter (\<lambda>h. \<not> h_cancelled (l_handles l ! h)) events"
  obtain ds where p: "l_ready (loop_polled l events now) = l_ready l @ fs @ ds" "l_phase (loop_polled l events now) = Todo (length (l_ready l @ fs @ ds))"
      "mset (l_timers l) = mset ds + mset (l_timers (loop_polled l events now))"
      "sorted (map (h_time (l_handles l)) ds)" "\<forall>d \<in> set ds. h_time (l_handles l) d < now + clock_resolution"
      "\<forall>t \<in> set (l_timers (loop_polled l events now)). now + clock_resolution \<le> h_time (l_handles l) t"
    using loop_polled_ok [OF t, of events now] unfolding fs_def by blast
  have "set (l_timers l) = set ds \<union> set (l_timers (loop_polled l events now))" using p(3) by (metis set_mset_mset set_mset_union)
  then have due: "set ds = {h \<in> set (l_timers l). h_time (l_handles l) h < now + clock_resolution}" using p(5,6) by force
  have "distinct ds" using t p(3) unfolding timers_ok_def
    by (metis distinct_append mset_append mset_eq_imp_distinct_iff)
  moreover have "subseq log' (l_ready l @ fs @ ds) \<and>
      (l_phase l' = Todo 0 \<longrightarrow> (\<forall>h \<in> set (l_ready l @ fs @ ds). h \<in> set log' \<or> h_cancelled (l_handles l' ! h)))"
    by (rule run_ready [OF ok1 _ _ run(1) assms(3,4), of _ "[]"]) (simp_all add: p(1,2))
  moreover have "l_ready l' \<noteq> []" if "l_phase l' = Todo (Suc n)" for n
    using ok' that by (auto simp: loop_ok_def todo_ok_def)
  ultimately show ?thesis using due p(4) unfolding fs_def Let_def by blast
qed

lemma iteration_example:
  "case loop_run [AddIO 1, CallSoon 2, CallAt 5000000 (3 :: nat), RunForever, Tick 10] loop_new of None \<Rightarrow> False
   | Some (l, log) \<Rightarrow> l_ready l = [1] \<and> l_timers l = [2] \<and> h_time (l_handles l) 2 = 5000000 \<and>
       (case loop_run [Polled [0] 4000001, Next, Returned, Next, Returned, Next, Returned] l of None \<Rightarrow> False
        | Some (l', log') \<Rightarrow> l_phase l' = Todo 0 \<and> \<not> h_cancelled (l_handles l ! 0))"
  by code_simp

theorem event_loop_iteration_witness:
  "\<exists>l log l' log'. loop_run [AddIO 1, CallSoon 2, CallAt 5000000 (3 :: nat), RunForever, Tick 10] loop_new = Some (l, log) \<and>
     loop_run [Polled [0] 4000001, Next, Returned, Next, Returned, Next, Returned] l = Some (l', log') \<and>
     (\<forall>h \<in> {0, 1, 2}. h \<in> set log' \<or> h_cancelled (l_handles l' ! h))"
proof -
  obtain l log l' log' where l: "loop_run [AddIO 1, CallSoon 2, CallAt 5000000 (3 :: nat), RunForever, Tick 10] loop_new = Some (l, log)"
      "loop_run [Polled [0] 4000001, Next, Returned, Next, Returned, Next, Returned] l = Some (l', log')"
      "l_ready l = [1]" "l_timers l = [2]" "h_time (l_handles l) 2 = 5000000" "l_phase l' = Todo 0" "\<not> h_cancelled (l_handles l ! 0)"
    using iteration_example by (auto simp del: loop_run_Cons split: option.splits)
  obtain due where due: "set due = {h \<in> set (l_timers l). h_time (l_handles l) h < 4000001 + clock_resolution}"
      "\<forall>h \<in> set (l_ready l @ filter (\<lambda>h. \<not> h_cancelled (l_handles l ! h)) [0] @ due). h \<in> set log' \<or> h_cancelled (l_handles l' ! h)"
    using event_loop_iteration [OF l(1,2)] l(6) unfolding Let_def by force
  have "set due = {2}" unfolding due(1) using l(4,5) by (auto simp: clock_resolution_def)
  then show ?thesis using l due(2) by (auto simp del: loop_run_Cons)
qed

end
