(* ===== verification/Async_Task.thy ===== *)
theory Async_Task
  imports Loop_Runs
begin

text \<open>
  \<open>asyncio/futures.py\<close> and the class \<open>Task\<close> of \<open>asyncio/tasks.py\<close> over the event loop of \<open>Event_Loop\<close>: futures with their callbacks, tasks as futures with a
  coroutine, and the coroutine as an environment that may call anything between two steps of its task. There is one loop, contexts are left out, and the debug mode is off.
\<close>

section \<open>Futures\<close>

text \<open>
  What the loop calls: \<open>task.__step(exc)\<close>, \<open>task.__wakeup(future)\<close>, or code of the user, which as a done callback gets the future.
\<close>

datatype 'u acb = Step nat "exn option" | Wakeup nat nat | User 'u | UserDone 'u nat

datatype 'u done_callback = DoneWakeup nat | DoneUser 'u

datatype fut_state = PENDING | CANCELLED | FINISHED

record task_part =
  must_cancel :: bool
  fut_waiter :: "nat option"

record ('u, 'v) future =
  f_state :: fut_state
  f_result :: "'v option"
  f_exception :: "exn option"
  f_callbacks :: "'u done_callback list"
  f_blocking :: bool
  f_log_traceback :: bool
  f_task :: "task_part option"

record ('u, 'v) world =
  w_loop :: "'u acb loop"
  w_futs :: "('u, 'v) future list"
  w_current :: "nat option"

definition world_new :: "('u, 'v) world" where
  "world_new = \<lparr>w_loop = loop_new, w_futs = [], w_current = None\<rparr>"

definition fut :: "('u, 'v) world \<Rightarrow> nat \<Rightarrow> ('u, 'v) future" where
  "fut w f = w_futs w ! f"

definition put_fut :: "('u, 'v) world \<Rightarrow> nat \<Rightarrow> ('u, 'v) future \<Rightarrow> ('u, 'v) world" where
  "put_fut w f x = w\<lparr>w_futs := (w_futs w)[f := x]\<rparr>"

definition fut_new :: "('u, 'v) future" where
  "fut_new = \<lparr>f_state = PENDING, f_result = None, f_exception = None, f_callbacks = [], f_blocking = False,
     f_log_traceback = False, f_task = None\<rparr>"

definition create_future :: "('u, 'v) world \<Rightarrow> ('u, 'v) world \<times> nat" where
  "create_future w = (w\<lparr>w_futs := w_futs w @ [fut_new]\<rparr>, length (w_futs w))"

definition future_done :: "('u, 'v) world \<Rightarrow> nat \<Rightarrow> bool" where
  "future_done w f \<longleftrightarrow> f_state (fut w f) \<noteq> PENDING"

definition future_cancelled :: "('u, 'v) world \<Rightarrow> nat \<Rightarrow> bool" where
  "future_cancelled w f \<longleftrightarrow> f_state (fut w f) = CANCELLED"

definition w_call_soon :: "('u, 'v) world \<Rightarrow> 'u acb \<Rightarrow> ('u, 'v) world result" where
  "w_call_soon w c = rbind (loop_call_soon (w_loop w) c) (\<lambda>(l, h). Inr (w\<lparr>w_loop := l\<rparr>))"

fun callback_for :: "nat \<Rightarrow> 'u done_callback \<Rightarrow> 'u acb" where
  "callback_for f (DoneWakeup t) = Wakeup t f"
| "callback_for f (DoneUser u) = UserDone u f"

text \<open>An operation changes the world and returns, or raises.\<close>

type_synonym ('u, 'v, 'r) act = "('u, 'v) world \<times> 'r result"

fun call_all :: "('u, 'v) world \<Rightarrow> nat \<Rightarrow> 'u done_callback list \<Rightarrow> ('u, 'v, unit) act" where
  "call_all w f [] = (w, Inr ())"
| "call_all w f (c # cs) =
     (case w_call_soon w (callback_for f c) of
        Inl e \<Rightarrow> (w, Inl e)
      | Inr w' \<Rightarrow> call_all w' f cs)"

definition schedule_callbacks :: "('u, 'v) world \<Rightarrow> nat \<Rightarrow> ('u, 'v, unit) act" where
  "schedule_callbacks w f =
     (let cs = f_callbacks (fut w f) in
      if cs = [] then (w, Inr ()) else call_all (put_fut w f ((fut w f)\<lparr>f_callbacks := []\<rparr>)) f cs)"

definition future_cancel :: "('u, 'v) world \<Rightarrow> nat \<Rightarrow> ('u, 'v, bool) act" where
  "future_cancel w f =
     (let w = put_fut w f ((fut w f)\<lparr>f_log_traceback := False\<rparr>) in
      if f_state (fut w f) \<noteq> PENDING then (w, Inr False)
      else let (w, r) = schedule_callbacks (put_fut w f ((fut w f)\<lparr>f_state := CANCELLED\<rparr>)) f
           in (w, rbind r (\<lambda>_. Inr True)))"

definition future_result :: "('u, 'v) world \<Rightarrow> nat \<Rightarrow> ('u, 'v, 'v option) act" where
  "future_result w f =
     (if f_state (fut w f) = CANCELLED then (w, Inl CancelledError)
      else if f_state (fut w f) \<noteq> FINISHED then (w, Inl InvalidStateError)
      else (put_fut w f ((fut w f)\<lparr>f_log_traceback := False\<rparr>),
            case f_exception (fut w f) of Some e \<Rightarrow> Inl e | None \<Rightarrow> Inr (f_result (fut w f))))"

definition future_exception :: "('u, 'v) world \<Rightarrow> nat \<Rightarrow> ('u, 'v, exn option) act" where
  "future_exception w f =
     (if f_state (fut w f) = CANCELLED then (w, Inl CancelledError)
      else if f_state (fut w f) \<noteq> FINISHED then (w, Inl InvalidStateError)
      else (put_fut w f ((fut w f)\<lparr>f_log_traceback := False\<rparr>), Inr (f_exception (fut w f))))"

definition add_done_callback :: "('u, 'v) world \<Rightarrow> nat \<Rightarrow> 'u done_callback \<Rightarrow> ('u, 'v, unit) act" where
  "add_done_callback w f c =
     (if f_state (fut w f) \<noteq> PENDING
      then (case w_call_soon w (callback_for f c) of Inl e \<Rightarrow> (w, Inl e) | Inr w' \<Rightarrow> (w', Inr ()))
      else (put_fut w f ((fut w f)\<lparr>f_callbacks := f_callbacks (fut w f) @ [c]\<rparr>), Inr ()))"

definition remove_done_callback :: "('u, 'v) world \<Rightarrow> nat \<Rightarrow> 'u done_callback \<Rightarrow> ('u, 'v) world \<times> nat" where
  "remove_done_callback w f c =
     (let filtered = filter (\<lambda>x. x \<noteq> c) (f_callbacks (fut w f));
          removed = length (f_callbacks (fut w f)) - length filtered
      in (if removed \<noteq> 0 then put_fut w f ((fut w f)\<lparr>f_callbacks := filtered\<rparr>) else w, removed))"

definition future_set_result :: "('u, 'v) world \<Rightarrow> nat \<Rightarrow> 'v \<Rightarrow> ('u, 'v, unit) act" where
  "future_set_result w f v =
     (if f_state (fut w f) \<noteq> PENDING then (w, Inl InvalidStateError)
      else schedule_callbacks (put_fut w f ((fut w f)\<lparr>f_result := Some v, f_state := FINISHED\<rparr>)) f)"

definition future_set_exception :: "('u, 'v) world \<Rightarrow> nat \<Rightarrow> exn \<Rightarrow> ('u, 'v, unit) act" where
  "future_set_exception w f e =
     (if f_state (fut w f) \<noteq> PENDING then (w, Inl InvalidStateError)
      else if e = StopIteration then (w, Inl TypeError)
      else let (w, r) = schedule_callbacks (put_fut w f ((fut w f)\<lparr>f_exception := Some e, f_state := FINISHED\<rparr>)) f
           in case r of Inl e \<Rightarrow> (w, Inl e) | Inr _ \<Rightarrow> (put_fut w f ((fut w f)\<lparr>f_log_traceback := True\<rparr>), Inr ()))"

text \<open>\<open>_set_result_unless_cancelled\<close>, \<open>_copy_future_state\<close>\<close>

definition set_result_unless_cancelled :: "('u, 'v) world \<Rightarrow> nat \<Rightarrow> 'v \<Rightarrow> ('u, 'v, unit) act" where
  "set_result_unless_cancelled w f v = (if future_cancelled w f then (w, Inr ()) else future_set_result w f v)"

section \<open>Tasks\<close>

definition task_new :: "('u, 'v) world \<Rightarrow> ('u, 'v, nat) act" where
  "task_new w =
     (let t = length (w_futs w);
          w = w\<lparr>w_futs := w_futs w @ [fut_new\<lparr>f_task := Some \<lparr>must_cancel = False, fut_waiter = None\<rparr>\<rparr>]\<rparr>
      in case w_call_soon w (Step t None) of Inl e \<Rightarrow> (w, Inl e) | Inr w' \<Rightarrow> (w', Inr t))"

definition set_task :: "('u, 'v) world \<Rightarrow> nat \<Rightarrow> task_part \<Rightarrow> ('u, 'v) world" where
  "set_task w t p = put_fut w t ((fut w t)\<lparr>f_task := Some p\<rparr>)"

definition task :: "('u, 'v) world \<Rightarrow> nat \<Rightarrow> task_part" where
  "task w t = the (f_task (fut w t))"

text \<open>
  \<open>cancel\<close> of a future or of a task, which passes it on to what the task waits for. The argument \<open>n\<close> bounds the depth: tasks that wait for each other in
  a circle make the code call itself until Python's limit, which is the \<open>RuntimeError\<close> at 0.
\<close>

fun object_cancel :: "nat \<Rightarrow> ('u, 'v) world \<Rightarrow> nat \<Rightarrow> ('u, 'v, bool) act" where
  "object_cancel 0 w f = (w, Inl RuntimeError)"
| "object_cancel (Suc n) w f =
     (case f_task (fut w f) of
        None \<Rightarrow> future_cancel w f
      | Some _ \<Rightarrow>
          let w = put_fut w f ((fut w f)\<lparr>f_log_traceback := False\<rparr>) in
          if future_done w f then (w, Inr False)
          else (case fut_waiter (task w f) of
                  None \<Rightarrow> (set_task w f ((task w f)\<lparr>must_cancel := True\<rparr>), Inr True)
                | Some g \<Rightarrow>
                    let (w, r) = object_cancel n w g in
                    (case r of
                       Inl e \<Rightarrow> (w, Inl e)
                     | Inr True \<Rightarrow> (w, Inr True)
                     | Inr False \<Rightarrow> (set_task w f ((task w f)\<lparr>must_cancel := True\<rparr>), Inr True))))"

definition cancel_depth :: "('u, 'v) world \<Rightarrow> nat" where
  "cancel_depth w = length (w_futs w) + 1"

definition task_cancel :: "('u, 'v) world \<Rightarrow> nat \<Rightarrow> ('u, 'v, bool) act" where
  "task_cancel w f = object_cancel (cancel_depth w) w f"

text \<open>\<open>__step\<close> until the coroutine runs: what is thrown into it, or \<open>None\<close> when it is sent \<open>None\<close>.\<close>

definition step_begin :: "('u, 'v) world \<Rightarrow> nat \<Rightarrow> exn option \<Rightarrow> ('u, 'v, exn option) act" where
  "step_begin w t exc =
     (if future_done w t then (w, Inl InvalidStateError)
      else let exc = (if must_cancel (task w t) \<and> exc \<noteq> Some CancelledError then Some CancelledError else exc);
               w = set_task w t \<lparr>must_cancel = False, fut_waiter = None\<rparr>
           in if w_current w \<noteq> None then (w, Inl RuntimeError)
              else (w\<lparr>w_current := Some t\<rparr>, Inr exc))"

definition wakeup_begin :: "('u, 'v) world \<Rightarrow> nat \<Rightarrow> nat \<Rightarrow> ('u, 'v, exn option) act" where
  "wakeup_begin w t f =
     (let (w, r) = future_result w f in
      case r of
        Inl e \<Rightarrow> if is_exception e then step_begin w t (Some e) else (w, Inl e)
      | Inr v \<Rightarrow> step_begin w t None)"

text \<open>
  How a coroutine gives control back: it returns, raises, or yields: a future, by \<open>await\<close> or by a plain \<open>yield\<close>, nothing, or something else.
\<close>

datatype 'v coro_end = CoroReturn 'v | CoroRaise exn | CoroYield nat | CoroYieldNone | CoroYieldOther

definition then_unit :: "('u, 'v, 'r) act \<Rightarrow> ('u, 'v, unit) act" where
  "then_unit a = (fst a, rbind (snd a) (\<lambda>_. Inr ()))"

definition call_step :: "('u, 'v) world \<Rightarrow> nat \<Rightarrow> exn option \<Rightarrow> ('u, 'v, unit) act" where
  "call_step w t exc = (case w_call_soon w (Step t exc) of Inl e \<Rightarrow> (w, Inl e) | Inr w' \<Rightarrow> (w', Inr ()))"

definition step_wait :: "('u, 'v) world \<Rightarrow> nat \<Rightarrow> nat \<Rightarrow> ('u, 'v, unit) act" where
  "step_wait w t g =
     (if \<not> f_blocking (fut w g) then call_step w t (Some RuntimeError)
      else if g = t then call_step w t (Some RuntimeError)
      else let w = put_fut w g ((fut w g)\<lparr>f_blocking := False\<rparr>);
               (w, r) = add_done_callback w g (DoneWakeup t)
           in case r of
                Inl e \<Rightarrow> (w, Inl e)
              | Inr _ \<Rightarrow>
                  let w = set_task w t ((task w t)\<lparr>fut_waiter := Some g\<rparr>) in
                  if must_cancel (task w t)
                  then let (w, r) = task_cancel w g in
                       (case r of
                          Inl e \<Rightarrow> (w, Inl e)
                        | Inr b \<Rightarrow> (if b then set_task w t ((task w t)\<lparr>must_cancel := False\<rparr>) else w, Inr ()))
                  else (w, Inr ()))"

definition step_end :: "('u, 'v) world \<Rightarrow> nat \<Rightarrow> 'v coro_end \<Rightarrow> ('u, 'v, unit) act" where
  "step_end w t out =
     (let (w, r) =
        (case out of
           CoroReturn v \<Rightarrow>
             if must_cancel (task w t)
             then future_set_exception (set_task w t ((task w t)\<lparr>must_cancel := False\<rparr>)) t CancelledError
             else future_set_result w t v
         | CoroRaise e \<Rightarrow>
             if e = CancelledError then then_unit (future_cancel w t)
             else if is_exception e then future_set_exception w t e
             else let (w, r) = future_set_exception w t e in (w, rbind r (\<lambda>_. Inl e))
         | CoroYield g \<Rightarrow> step_wait w t g
         | CoroYieldNone \<Rightarrow> call_step w t None
         | CoroYieldOther \<Rightarrow> call_step w t (Some RuntimeError))
      in (w\<lparr>w_current := None\<rparr>, r))"

text \<open>\<open>__await__\<close> on a future that is not done: it is yielded with its mark set.\<close>

definition await_future :: "('u, 'v) world \<Rightarrow> nat \<Rightarrow> ('u, 'v) world" where
  "await_future w f = put_fut w f ((fut w f)\<lparr>f_blocking := True\<rparr>)"

end
