(* ===== verification/Task_Runs.thy ===== *)
theory Task_Runs
  imports Async_Task
begin

text \<open>
  Runs of tasks on the event loop, and the invariant that \<open>tasks.py\<close> states in a comment: a task that is not done is either about to be stepped, and waits for
  nothing, or waits for one future, which will wake it up; it is never both, and never neither.
\<close>

section \<open>Runs\<close>

text \<open>
  \<open>Do\<close> is what code of the user, or the thread of the loop, does with the loop itself; only handles that such code was given can be cancelled by it, and the loop
  is not closed. \<open>CallNext\<close> takes the next handle and begins its callback; a callback of the user ends by \<open>CallbackReturns\<close> or \<open>CallbackAborts\<close>, a step of a task when
  the coroutine gives control back.
\<close>

datatype ('u, 'v) async_event =
    Do "'u acb loop_event"
  | CreateFuture | CreateTask | SetResult nat 'v | SetException nat exn | CancelObject nat | AddDone nat 'u | RemoveDone nat 'u
  | GetResult nat | GetException nat
  | CallNext | CallbackReturns | CallbackAborts | CoroEnds "'v coro_end" | CoroAwaits nat

fun user_callback :: "'u acb \<Rightarrow> bool" where
  "user_callback (User u) = True"
| "user_callback _ = False"

fun user_event :: "'u acb loop \<Rightarrow> 'u acb loop_event \<Rightarrow> bool" where
  "user_event l (CallSoon c) = user_callback c"
| "user_event l (CallAt w c) = user_callback c"
| "user_event l (CallLater now d c) = user_callback c"
| "user_event l (AddIO c) = user_callback c"
| "user_event l (Cancel h) =
     (h < length (l_handles l) \<and> (case h_callback (l_handles l ! h) of None \<Rightarrow> True | Some c \<Rightarrow> user_callback c))"
| "user_event l Close = False"
| "user_event l Next = False"
| "user_event l Returned = False"
| "user_event l Aborted = False"
| "user_event l _ = True"

definition with_loop :: "('u, 'v) world \<Rightarrow> 'u acb loop_event \<Rightarrow> ('u, 'v) world option" where
  "with_loop w e = map_option (\<lambda>(l, called). w\<lparr>w_loop := l\<rparr>) (loop_step e (w_loop w))"

definition begin_call :: "('u, 'v) world \<Rightarrow> 'u acb \<Rightarrow> ('u, 'v, exn option) act" where
  "begin_call w c = (case c of Step t exc \<Rightarrow> step_begin w t exc | Wakeup t f \<Rightarrow> wakeup_begin w t f | _ \<Rightarrow> (w, Inr None))"

text \<open>\<open>Handle._run\<close> handles an \<open>Exception\<close>; any other one ends \<open>run_forever\<close>.\<close>

definition run_end :: "'a result \<Rightarrow> 'u acb loop_event" where
  "run_end r = (case r of Inl e \<Rightarrow> if is_exception e then Returned else Aborted | Inr _ \<Rightarrow> Returned)"

definition after_begin :: "('u, 'v, exn option) act \<Rightarrow> ('u, 'v) world option" where
  "after_begin a = (case snd a of Inl e \<Rightarrow> with_loop (fst a) (run_end (snd a)) | Inr exc \<Rightarrow> Some (fst a))"

definition call_next :: "('u, 'v) world \<Rightarrow> ('u, 'v) world option" where
  "call_next w =
     (case loop_step Next (w_loop w) of
        None \<Rightarrow> None
      | Some (l, called) \<Rightarrow>
          let w = w\<lparr>w_loop := l\<rparr> in
          (case called of
             None \<Rightarrow> Some w
           | Some h \<Rightarrow>
               (case h_callback (l_handles l ! h) of None \<Rightarrow> Some w | Some c \<Rightarrow> after_begin (begin_call w c))))"

definition coro_ends :: "('u, 'v) world \<Rightarrow> 'v coro_end \<Rightarrow> ('u, 'v) world option" where
  "coro_ends w out =
     (case w_current w of
        None \<Rightarrow> None
      | Some t \<Rightarrow> with_loop (fst (step_end w t out)) (run_end (snd (step_end w t out))))"

definition calls_allowed :: "('u, 'v) world \<Rightarrow> bool" where
  "calls_allowed w \<longleftrightarrow> free_phase (l_phase (w_loop w))"

definition on_future :: "('u, 'v) world \<Rightarrow> nat \<Rightarrow> ('u, 'v) world \<Rightarrow> ('u, 'v) world option" where
  "on_future w f w' = (if calls_allowed w \<and> f < length (w_futs w) then Some w' else None)"

text \<open>\<open>Task\<close> refuses \<open>set_result\<close> and \<open>set_exception\<close>. A coroutine cannot raise \<open>StopIteration\<close>: that is how it returns.\<close>

fun async_step :: "('u, 'v) async_event \<Rightarrow> ('u, 'v) world \<Rightarrow> ('u, 'v) world option" where
  "async_step (Do e) w = (if user_event (w_loop w) e then with_loop w e else None)"
| "async_step CreateFuture w = (if calls_allowed w then Some (fst (create_future w)) else None)"
| "async_step CreateTask w = (if calls_allowed w then Some (fst (task_new w)) else None)"
| "async_step (SetResult f v) w = on_future w f (if f_task (fut w f) = None then fst (future_set_result w f v) else w)"
| "async_step (SetException f e) w = on_future w f (if f_task (fut w f) = None then fst (future_set_exception w f e) else w)"
| "async_step (CancelObject f) w = on_future w f (fst (task_cancel w f))"
| "async_step (AddDone f u) w = on_future w f (fst (add_done_callback w f (DoneUser u)))"
| "async_step (RemoveDone f u) w = on_future w f (fst (remove_done_callback w f (DoneUser u)))"
| "async_step (GetResult f) w = on_future w f (fst (future_result w f))"
| "async_step (GetException f) w = on_future w f (fst (future_exception w f))"
| "async_step CallNext w = call_next w"
| "async_step CallbackReturns w = (if w_current w = None then with_loop w Returned else None)"
| "async_step CallbackAborts w = (if w_current w = None then with_loop w Aborted else None)"
| "async_step (CoroEnds out) w =
     (case out of
        CoroRaise e \<Rightarrow> if e = StopIteration then None else coro_ends w out
      | CoroYield f \<Rightarrow> if f < length (w_futs w) then coro_ends w out else None
      | _ \<Rightarrow> coro_ends w out)"
| "async_step (CoroAwaits f) w =
     (if w_current w \<noteq> None \<and> f < length (w_futs w) \<and> \<not> future_done w f
      then coro_ends (await_future w f) (CoroYield f) else None)"

fun async_run :: "('u, 'v) async_event list \<Rightarrow> ('u, 'v) world \<Rightarrow> ('u, 'v) world option" where
  "async_run [] w = Some w"
| "async_run (e # es) w = (case async_step e w of None \<Rightarrow> None | Some w' \<Rightarrow> async_run es w')"

section \<open>The tokens of a task\<close>

text \<open>A scheduled or running step of a task, and a wake-up of a task by a future.\<close>

datatype tok = TStep nat | TWake nat nat

fun tok_of :: "'u acb \<Rightarrow> tok multiset" where
  "tok_of (Step t exc) = {#TStep t#}"
| "tok_of (Wakeup t f) = {#TWake t f#}"
| "tok_of _ = {#}"

definition handle_toks :: "'u acb handle \<Rightarrow> tok multiset" where
  "handle_toks h = (case h_callback h of None \<Rightarrow> {#} | Some c \<Rightarrow> tok_of c)"

definition ready_toks :: "'u acb loop \<Rightarrow> tok multiset" where
  "ready_toks l = (\<Sum>h\<leftarrow>l_ready l. handle_toks (l_handles l ! h))"

definition fut_toks :: "nat \<Rightarrow> ('u, 'v) future \<Rightarrow> tok multiset" where
  "fut_toks f x = (\<Sum>c\<leftarrow>f_callbacks x. tok_of (callback_for f c))"

definition all_toks :: "('u, 'v) world \<Rightarrow> tok multiset" where
  "all_toks w = ready_toks (w_loop w) + (\<Sum>f<length (w_futs w). fut_toks f (fut w f)) +
     (case w_current w of None \<Rightarrow> {#} | Some t \<Rightarrow> {#TStep t#})"

text \<open>The one token that a task which is not done must have.\<close>

definition due_tok :: "nat \<Rightarrow> ('u, 'v) future \<Rightarrow> tok multiset" where
  "due_tok t x =
     (case f_task x of
        None \<Rightarrow> {#}
      | Some p \<Rightarrow> if f_state x = PENDING then {#case fut_waiter p of None \<Rightarrow> TStep t | Some g \<Rightarrow> TWake t g#} else {#})"

definition due_toks :: "('u, 'v) world \<Rightarrow> tok multiset" where
  "due_toks w = (\<Sum>t<length (w_futs w). due_tok t (fut w t))"

definition loop_inv :: "'u acb loop \<Rightarrow> bool" where
  "loop_inv l \<longleftrightarrow> (\<exists>log. loop_ok log l) \<and> \<not> l_closed l \<and>
     (\<forall>h < length (l_handles l). h_cancelled (l_handles l ! h) \<longleftrightarrow> h_callback (l_handles l ! h) = None) \<and>
     (\<forall>h \<in> set (l_timers l) \<union> set (l_io l). handle_toks (l_handles l ! h) = {#})"

definition fut_ok :: "nat \<Rightarrow> ('u, 'v) future \<Rightarrow> bool" where
  "fut_ok n x \<longleftrightarrow> (f_state x \<noteq> PENDING \<longrightarrow> f_callbacks x = []) \<and>
     (\<forall>p g. f_task x = Some p \<longrightarrow> f_state x = PENDING \<longrightarrow> fut_waiter p = Some g \<longrightarrow> g < n)"

text \<open>
  A wake-up that is ready comes from a future that is done. The tokens \<open>L\<close> are lost: wake-ups by a future whose exception is no \<open>Exception\<close>, which
  \<open>__wakeup\<close> does not catch.
\<close>

definition failed_base :: "('u, 'v) future \<Rightarrow> bool" where
  "failed_base x \<longleftrightarrow> f_state x = FINISHED \<and> (case f_exception x of None \<Rightarrow> False | Some e \<Rightarrow> \<not> is_exception e)"

lemma failed_base_simps [simp]:
  "failed_base (x\<lparr>f_callbacks := cs\<rparr>) = failed_base x" "failed_base (x\<lparr>f_blocking := b\<rparr>) = failed_base x"
  "failed_base (x\<lparr>f_log_traceback := b\<rparr>) = failed_base x" "failed_base (x\<lparr>f_task := p\<rparr>) = failed_base x"
  "f_state x = PENDING \<Longrightarrow> \<not> failed_base x"
  by (simp_all add: failed_base_def)

definition wake_ok :: "tok multiset \<Rightarrow> ('u, 'v) world \<Rightarrow> bool" where
  "wake_ok L w \<longleftrightarrow> (\<forall>t f. TWake t f \<in># ready_toks (w_loop w) \<longrightarrow> f < length (w_futs w) \<and> f_state (fut w f) \<noteq> PENDING) \<and>
     (\<forall>x. x \<in># L \<longrightarrow> (\<exists>t f. x = TWake t f \<and> f < length (w_futs w) \<and> failed_base (fut w f)))"

text \<open>Every due token is there, or lost.\<close>

definition world_inv :: "tok multiset \<Rightarrow> ('u, 'v) world \<Rightarrow> bool" where
  "world_inv L w \<longleftrightarrow> loop_inv (w_loop w) \<and> (\<forall>f < length (w_futs w). fut_ok (length (w_futs w)) (fut w f)) \<and>
     wake_ok L w \<and> all_toks w + L = due_toks w \<and> (w_current w \<noteq> None \<longrightarrow> (\<exists>n. l_phase (w_loop w) = Calling n))"

definition world_ok :: "('u, 'v) world \<Rightarrow> bool" where
  "world_ok w \<longleftrightarrow> (\<exists>L. world_inv L w)"

section \<open>The loop's events keep the tokens that are ready\<close>

lemma handle_toks_simps [simp]: "handle_toks (h\<lparr>h_scheduled := b\<rparr>) = handle_toks h"
  by (simp add: handle_toks_def)

lemma loop_inv_less: "loop_inv l \<Longrightarrow> h \<in> set (l_ready l) \<union> set (l_io l) \<union> set (l_timers l) \<Longrightarrow> h < length (l_handles l)"
  unfolding loop_inv_def using loop_ok_less by fastforce

lemma ready_toks_append:
  assumes "\<forall>h \<in> set (l_ready l). h < length (l_handles l)"
  shows "(\<Sum>h\<leftarrow>l_ready l. handle_toks ((l_handles l @ [x]) ! h)) = ready_toks l"
  unfolding ready_toks_def using assms by (intro arg_cong [of _ _ sum_list] map_cong) (simp_all add: nth_append)

lemma call_soon_toks:
  assumes inv: "loop_inv l" and "loop_call_soon l c = Inr (l', h)"
  shows "loop_inv l'" "ready_toks l' = ready_toks l + tok_of c" "l_phase l' = l_phase l"
proof -
  let ?x = "\<lparr>h_callback = Some c, h_cancelled = False, h_when = None, h_scheduled = False\<rparr>"
  have l': "l' = l\<lparr>l_handles := l_handles l @ [?x], l_ready := l_ready l @ [length (l_handles l)]\<rparr>"
    using assms(2) by (auto simp: loop_call_soon_def split: if_splits)
  note less = loop_inv_less [OF inv]
  obtain log where log: "loop_ok log l" using inv by (auto simp: loop_inv_def)
  have "loop_ok log l'" by (rule loop_ok_call_soon [OF log assms(2)])
  then show "loop_inv l'" using inv less unfolding loop_inv_def l' by (auto simp: nth_append less_Suc_eq)
  show "l_phase l' = l_phase l" by (simp add: l')
  show "ready_toks l' = ready_toks l + tok_of c"
    using ready_toks_append [of l ?x] less unfolding l' by (simp add: ready_toks_def nth_append handle_toks_def)
qed

lemma user_callback_toks: "user_callback c \<Longrightarrow> tok_of c = {#}"
  by (cases c) auto

lemma same_handles_toks:
  assumes "same_handles l (l'\<lparr>l_phase := p\<rparr>)"
  shows "handle_toks (l_handles l' ! h) = handle_toks (l_handles l ! h)"
    "h_cancelled (l_handles l' ! h) = h_cancelled (l_handles l ! h)" "h_callback (l_handles l' ! h) = h_callback (l_handles l ! h)"
    "length (l_handles l') = length (l_handles l)" "l_io l' = l_io l" "l_closed l' = l_closed l"
  using assms by (simp_all add: same_handles_def handle_toks_def)

lemma ready_toks_cong:
  "l_ready l' = l_ready l \<Longrightarrow> (\<And>h. h \<in> set (l_ready l) \<Longrightarrow> handle_toks (l_handles l' ! h) = handle_toks (l_handles l ! h)) \<Longrightarrow>
     ready_toks l' = ready_toks l"
  unfolding ready_toks_def by (intro arg_cong [of _ _ sum_list] map_cong) simp_all

lemma no_toks: "\<forall>h \<in> set hs. handle_toks (l_handles l ! h) = {#} \<Longrightarrow> (\<Sum>h\<leftarrow>hs. handle_toks (l_handles l ! h)) = {#}"
  by (induction hs) auto

lemma loop_inv_step:
  "loop_inv l \<Longrightarrow> loop_step e l = Some (l', called) \<Longrightarrow> \<not> l_closed l' \<Longrightarrow>
     (\<forall>h < length (l_handles l'). h_cancelled (l_handles l' ! h) \<longleftrightarrow> h_callback (l_handles l' ! h) = None) \<Longrightarrow>
     (\<forall>h \<in> set (l_timers l') \<union> set (l_io l'). handle_toks (l_handles l' ! h) = {#}) \<Longrightarrow> loop_inv l'"
  unfolding loop_inv_def using loop_ok_step by blast

lemma call_at_toks:
  assumes inv: "loop_inv l" and c: "loop_call_at l w c = Inr (l', h)" and u: "user_callback c"
  shows "\<not> l_closed l'" "\<forall>h < length (l_handles l'). h_cancelled (l_handles l' ! h) \<longleftrightarrow> h_callback (l_handles l' ! h) = None"
    "\<forall>h \<in> set (l_timers l') \<union> set (l_io l'). handle_toks (l_handles l' ! h) = {#}" "ready_toks l' = ready_toks l" "l_phase l' = l_phase l"
proof -
  let ?x = "\<lparr>h_callback = Some c, h_cancelled = False, h_when = Some w, h_scheduled = False\<rparr>"
  note less = loop_inv_less [OF inv]
  have l': "l_handles l' = set_scheduled True (length (l_handles l)) (l_handles l @ [?x])" "l_ready l' = l_ready l" "l_io l' = l_io l"
      "mset (l_timers l') = add_mset (length (l_handles l)) (mset (l_timers l))" "l_closed l' = l_closed l" "l_phase l' = l_phase l"
    using c by (auto simp: loop_call_at_def Let_def split: if_splits)
  have t: "set (l_timers l') = insert (length (l_handles l)) (set (l_timers l))"
    using l'(4) by (metis set_mset_add_mset_insert set_mset_mset)
  have toks: "handle_toks (l_handles l' ! h) = handle_toks (l_handles l ! h)" if "h < length (l_handles l)" for h
    using that by (simp add: l'(1) set_scheduled_nth nth_append)
  have new: "handle_toks (l_handles l' ! length (l_handles l)) = {#}"
    using user_callback_toks [OF u] by (simp add: l'(1) set_scheduled_nth nth_append handle_toks_def)
  show "\<not> l_closed l'" "l_phase l' = l_phase l" using inv by (simp_all add: l' loop_inv_def)
  show "\<forall>h < length (l_handles l'). h_cancelled (l_handles l' ! h) \<longleftrightarrow> h_callback (l_handles l' ! h) = None"
    using inv by (auto simp: l'(1) nth_append less_Suc_eq loop_inv_def)
  show "\<forall>h \<in> set (l_timers l') \<union> set (l_io l'). handle_toks (l_handles l' ! h) = {#}"
    using inv toks new less by (auto simp: t l'(3) loop_inv_def)
  show "ready_toks l' = ready_toks l" by (rule ready_toks_cong [OF l'(2)]) (use toks less in auto)
qed

lemma user_event_ok:
  assumes inv: "loop_inv l" and u: "user_event l e" and st: "loop_step e l = Some (l', called)"
  shows "loop_inv l' \<and> ready_toks l' = ready_toks l \<and> called = None \<and> (\<forall>n. l_phase l = Calling n \<longrightarrow> l_phase l' = Calling n)"
proof -
  obtain log where log: "loop_ok log l" using inv by (auto simp: loop_inv_def)
  then have t: "timers_ok l" by (simp add: loop_ok_def)
  note less = loop_inv_less [OF inv]
  note step = loop_inv_step [OF inv st]
  have hc: "\<forall>h < length (l_handles l). h_cancelled (l_handles l ! h) \<longleftrightarrow> h_callback (l_handles l ! h) = None" "\<not> l_closed l"
    and quiet: "\<forall>h \<in> set (l_timers l) \<union> set (l_io l). handle_toks (l_handles l ! h) = {#}"
    using inv by (simp_all add: loop_inv_def)
  show ?thesis
  proof (cases e)
    case (CallSoon c)
    then show ?thesis
      using st u inv call_soon_toks [OF inv, of c] user_callback_toks [of c] by (auto simp: or_same_def split: sum.splits)
  next
    case (CallAt w c)
    then show ?thesis using st u inv step call_at_toks [OF inv, of w c] by (auto simp: or_same_def split: sum.splits if_splits)
  next
    case (CallLater now d c)
    then show ?thesis using st u inv step call_at_toks [OF inv, of "now + d" c]
      by (auto simp: or_same_def loop_call_later_def split: sum.splits if_splits)
  next
    case (Cancel h)
    then have l': "l' = handle_cancel l h" "called = None" using st by (auto split: if_splits)
    have h: "h < length (l_handles l)" using u Cancel by simp
    have hs: "h_callback (l_handles l' ! i) = (if i = h then None else h_callback (l_handles l ! i))"
        "h_cancelled (l_handles l' ! i) = (i = h \<or> h_cancelled (l_handles l ! i))" for i
      using h hc(1) unfolding l' handle_cancel_def by (auto simp: nth_list_update)
    have ht: "handle_toks (l_handles l ! h) = {#}"
      using u Cancel user_callback_toks by (auto simp: handle_toks_def split: option.splits)
    then have toks: "handle_toks (l_handles l' ! i) = handle_toks (l_handles l ! i)" for i
      using hs(1) [of i] by (auto simp: handle_toks_def)
    have q: "l_timers l' = l_timers l" "l_io l' = l_io l" "l_ready l' = l_ready l" "l_phase l' = l_phase l" "l_closed l' = l_closed l"
        "length (l_handles l') = length (l_handles l)"
      by (simp_all add: l' handle_cancel_def)
    have "loop_inv l'" using hc quiet by (intro step) (auto simp: hs q toks)
    then show ?thesis using ready_toks_cong [of l' l] toks q l'(2) by simp
  next
    case (AddIO c)
    let ?x = "\<lparr>h_callback = Some c, h_cancelled = False, h_when = None, h_scheduled = False\<rparr>"
    have l': "l' = l\<lparr>l_handles := l_handles l @ [?x], l_io := length (l_handles l) # l_io l\<rparr>" "called = None"
      using st AddIO by (auto simp: loop_add_io_def split: if_splits)
    have "handle_toks ?x = {#}" using u AddIO user_callback_toks [of c] by (simp add: handle_toks_def)
    then have "loop_inv l'" using hc quiet less by (intro step) (auto simp: l' nth_append less_Suc_eq)
    moreover have "ready_toks l' = ready_toks l" by (rule ready_toks_cong) (use less in \<open>auto simp: l' nth_append\<close>)
    ultimately show ?thesis by (simp add: l')
  next
    case Stop
    then have l': "l' = l\<lparr>l_stopping := True\<rparr>" "called = None" using st by (auto simp: loop_stop_def split: if_splits)
    then have "loop_inv l'" using hc quiet by (intro step) auto
    then show ?thesis using l' by (simp add: ready_toks_def)
  next
    case RunForever
    then have l': "l' = l\<lparr>l_phase := Top\<rparr>" "called = None" "l_phase l = Off" using st by (auto split: if_splits)
    then have "loop_inv l'" using hc quiet by (intro step) auto
    then show ?thesis using l' by (simp add: ready_toks_def)
  next
    case (Tick now)
    then have l': "l' = (loop_purge l)\<lparr>l_phase := Polling\<rparr>" "called = None" "l_phase l = Top" using st by (auto split: if_splits)
    obtain ds where p: "same_handles l (loop_purge l)" "l_ready (loop_purge l) = l_ready l" "mset (l_timers l) = mset ds + mset (l_timers (loop_purge l))"
      using loop_purge_ok [OF t] by blast
    have "same_handles l (l'\<lparr>l_phase := l_phase l\<rparr>)" using p(1) by (simp add: l' same_handles_def)
    note sh = same_handles_toks [OF this]
    have "set (l_timers l') \<subseteq> set (l_timers l)" using p(3) l'(1) by simp (metis set_mset_mset set_mset_union sup.cobounded2)
    then have "loop_inv l'" using hc quiet by (intro step) (auto simp: sh)
    moreover have "ready_toks l' = ready_toks l" by (rule ready_toks_cong) (use p(2) sh in \<open>simp_all add: l'(1)\<close>)
    ultimately show ?thesis using l' by simp
  next
    case (Polled events now)
    then have l': "l' = loop_polled l events now" "called = None" "l_phase l = Polling" "set events \<subseteq> set (l_io l)" using st by (auto split: if_splits)
    obtain es ds where p: "es = filter (\<lambda>h. \<not> h_cancelled (l_handles l ! h)) events" "l_ready l' = l_ready l @ es @ ds"
        "same_handles l (l'\<lparr>l_phase := l_phase l\<rparr>)" "mset (l_timers l) = mset ds + mset (l_timers l')"
      using loop_polled_ok [OF t, of events now] unfolding l'(1) by blast
    note sh = same_handles_toks [OF p(3)]
    have tt: "set (l_timers l) = set ds \<union> set (l_timers l')" using p(4) by (metis set_mset_mset set_mset_union)
    have inv': "loop_inv l'" using hc quiet tt by (intro step) (auto simp: sh)
    have "\<forall>h \<in> set (es @ ds). handle_toks (l_handles l ! h) = {#}" using p(1) l'(4) quiet tt by auto
    from no_toks [OF this] have "ready_toks l' = ready_toks l" by (simp add: ready_toks_def p(2) sh)
    then show ?thesis using inv' l' by simp
  next
    case Finish
    then have l': "l' = (if l_stopping l then loop_finish l else l\<lparr>l_phase := Top\<rparr>)" "called = None" "l_phase l = Todo 0" using st by (auto split: if_splits)
    then have "loop_inv l'" using hc quiet by (intro step) (auto simp: loop_finish_def)
    then show ?thesis using l' by (simp add: ready_toks_def loop_finish_def)
  qed (use u in simp_all)
qed

section \<open>Operations on futures keep the tokens\<close>

text \<open>In the middle of a step there may be tokens too many: those of \<open>T\<close>.\<close>

definition balanced :: "tok multiset \<Rightarrow> tok multiset \<Rightarrow> ('u, 'v) world \<Rightarrow> bool" where
  "balanced L T w \<longleftrightarrow> loop_inv (w_loop w) \<and> (\<forall>f < length (w_futs w). fut_ok (length (w_futs w)) (fut w f)) \<and>
     wake_ok L w \<and> all_toks w + L = due_toks w + T"

definition same_shape :: "('u, 'v) world \<Rightarrow> ('u, 'v) world \<Rightarrow> bool" where
  "same_shape w w' \<longleftrightarrow> length (w_futs w') = length (w_futs w) \<and> w_current w' = w_current w \<and> l_phase (w_loop w') = l_phase (w_loop w) \<and>
     (\<forall>i. f_task (fut w' i) = None \<longleftrightarrow> f_task (fut w i) = None)"

lemma same_shape_refl [simp]: "same_shape w w"
  by (simp add: same_shape_def)

lemma same_shape_trans: "same_shape w w' \<Longrightarrow> same_shape w' w'' \<Longrightarrow> same_shape w w''"
  by (simp add: same_shape_def)

lemma put_fut_simps [simp]:
  "w_loop (put_fut w f x) = w_loop w" "w_current (put_fut w f x) = w_current w" "length (w_futs (put_fut w f x)) = length (w_futs w)"
  "f < length (w_futs w) \<Longrightarrow> fut (put_fut w f x) i = (if i = f then x else fut w i)"
  by (simp_all add: put_fut_def fut_def)

lemma sum_update:
  fixes g :: "nat \<Rightarrow> 'a \<Rightarrow> 'b::comm_monoid_add"
  assumes "f < n" "\<And>i. i < n \<Longrightarrow> i \<noteq> f \<Longrightarrow> h' i = h i"
  shows "(\<Sum>i<n. g i (h' i)) + g f (h f) = (\<Sum>i<n. g i (h i)) + g f (h' f)"
proof -
  have "(\<Sum>i<n. g i (h' i)) = g f (h' f) + (\<Sum>i \<in> {..<n} - {f}. g i (h' i))"
    "(\<Sum>i<n. g i (h i)) = g f (h f) + (\<Sum>i \<in> {..<n} - {f}. g i (h i))"
    using assms(1) by (simp_all add: sum.remove)
  moreover have "(\<Sum>i \<in> {..<n} - {f}. g i (h' i)) = (\<Sum>i \<in> {..<n} - {f}. g i (h i))"
    using assms(2) by (intro sum.cong) auto
  ultimately show ?thesis by (simp add: ac_simps)
qed

lemma put_fut_toks:
  assumes "f < length (w_futs w)"
  shows "all_toks (put_fut w f x) + fut_toks f (fut w f) = all_toks w + fut_toks f x"
    "due_toks (put_fut w f x) + due_tok f (fut w f) = due_toks w + due_tok f x"
  using sum_update [OF assms, of "fut (put_fut w f x)" "fut w" fut_toks] sum_update [OF assms, of "fut (put_fut w f x)" "fut w" due_tok] assms
  by (simp_all add: all_toks_def due_toks_def ac_simps)

lemma wake_ok_put_fut:
  "wake_ok L w \<Longrightarrow> f < length (w_futs w) \<Longrightarrow> (f_state x = PENDING \<Longrightarrow> f_state (fut w f) = PENDING) \<Longrightarrow>
     (failed_base (fut w f) \<Longrightarrow> failed_base x) \<Longrightarrow> wake_ok L (put_fut w f x)"
  unfolding wake_ok_def by simp blast

text \<open>A change that concerns neither the callbacks nor what the task of the future waits for.\<close>

definition like_fut :: "('u, 'v) future \<Rightarrow> ('u, 'v) future \<Rightarrow> bool" where
  "like_fut x y \<longleftrightarrow> f_state x = f_state y \<and> f_callbacks x = f_callbacks y \<and> f_exception x = f_exception y \<and>
     map_option fut_waiter (f_task x) = map_option fut_waiter (f_task y)"

lemma like_fut_simps [simp]:
  "like_fut (x\<lparr>f_log_traceback := b\<rparr>) x" "like_fut (x\<lparr>f_blocking := b\<rparr>) x"
  "f_task x \<noteq> None \<Longrightarrow> fut_waiter p = fut_waiter (the (f_task x)) \<Longrightarrow> like_fut (x\<lparr>f_task := Some p\<rparr>) x"
  by (auto simp: like_fut_def)

lemma like_futD:
  assumes "like_fut x y"
  shows "fut_toks f x = fut_toks f y" "due_tok f x = due_tok f y" "fut_ok n x = fut_ok n y" "f_task x = None \<longleftrightarrow> f_task y = None"
    "f_state x = f_state y" "failed_base x = failed_base y"
  using assms by (cases "f_task x"; cases "f_task y"; auto simp: like_fut_def fut_toks_def due_tok_def fut_ok_def failed_base_def)+

lemma put_fut_plain:
  assumes b: "balanced L T w" and f: "f < length (w_futs w)" and x: "like_fut x (fut w f)"
  shows "balanced L T (put_fut w f x)" "same_shape w (put_fut w f x)"
proof -
  have "wake_ok L (put_fut w f x)" using wake_ok_put_fut [of L w f x] b f like_futD(5,6) [OF x] by (simp add: balanced_def)
  then show "balanced L T (put_fut w f x)" "same_shape w (put_fut w f x)"
    using b f put_fut_toks [OF f, of x] like_futD [OF x] by (auto simp: balanced_def same_shape_def)
qed

lemma set_task_plain:
  assumes "balanced L T w" "f < length (w_futs w)" "f_task (fut w f) \<noteq> None" "fut_waiter p = fut_waiter (task w f)"
  shows "balanced L T (set_task w f p)" "same_shape w (set_task w f p)"
  using assms put_fut_plain [OF assms(1,2), of "(fut w f)\<lparr>f_task := Some p\<rparr>"] by (simp_all add: set_task_def task_def)

lemma w_call_soon_ok:
  assumes "loop_inv (w_loop w)"
  shows "\<exists>w'. w_call_soon w c = Inr w' \<and> loop_inv (w_loop w') \<and> w_futs w' = w_futs w \<and> w_current w' = w_current w \<and>
     l_phase (w_loop w') = l_phase (w_loop w) \<and> ready_toks (w_loop w') = ready_toks (w_loop w) + tok_of c"
proof -
  have "\<not> l_closed (w_loop w)" using assms by (simp add: loop_inv_def)
  then obtain l h where l: "loop_call_soon (w_loop w) c = Inr (l, h)" by (simp add: loop_call_soon_def)
  show ?thesis using call_soon_toks [OF assms l] l by (simp add: w_call_soon_def)
qed

lemma call_soon_balanced:
  assumes "balanced L T w" and c: "\<And>t f. c = Wakeup t f \<Longrightarrow> f < length (w_futs w) \<and> f_state (fut w f) \<noteq> PENDING"
  shows "\<exists>w'. w_call_soon w c = Inr w' \<and> balanced L (T + tok_of c) w' \<and> same_shape w w' \<and> fut w' = fut w"
proof -
  have "loop_inv (w_loop w)" using assms(1) by (simp add: balanced_def)
  from w_call_soon_ok [OF this, of c] obtain w' where w': "w_call_soon w c = Inr w'" "loop_inv (w_loop w')" "w_futs w' = w_futs w"
      "w_current w' = w_current w" "l_phase (w_loop w') = l_phase (w_loop w)" "ready_toks (w_loop w') = ready_toks (w_loop w) + tok_of c"
    by blast
  then have fw: "fut w' = fut w" "same_shape w w'" by (auto simp: fut_def fun_eq_iff same_shape_def)
  have "wake_ok L w'" using assms(1) c w'(3,6) fw by (cases c) (auto simp: wake_ok_def balanced_def)
  then have "balanced L (T + tok_of c) w'" using assms(1) w' fw by (auto simp: balanced_def all_toks_def due_toks_def ac_simps)
  then show ?thesis using w'(1) fw by blast
qed

lemma call_all_ok:
  "loop_inv (w_loop w) \<Longrightarrow> \<exists>w'. call_all w f cs = (w', Inr ()) \<and> loop_inv (w_loop w') \<and> w_futs w' = w_futs w \<and> w_current w' = w_current w \<and>
     l_phase (w_loop w') = l_phase (w_loop w) \<and> ready_toks (w_loop w') = ready_toks (w_loop w) + (\<Sum>c\<leftarrow>cs. tok_of (callback_for f c))"
proof (induction cs arbitrary: w)
  case (Cons c cs)
  obtain w1 where w1: "w_call_soon w (callback_for f c) = Inr w1" "loop_inv (w_loop w1)" "w_futs w1 = w_futs w" "w_current w1 = w_current w"
      "l_phase (w_loop w1) = l_phase (w_loop w)" "ready_toks (w_loop w1) = ready_toks (w_loop w) + tok_of (callback_for f c)"
    using w_call_soon_ok [OF Cons.prems] by blast
  show ?case using Cons.IH [OF w1(2)] w1 by (auto simp: ac_simps)
qed simp

lemma callback_tok_future: "TWake t g \<in># (\<Sum>c\<leftarrow>cs. tok_of (callback_for f c)) \<Longrightarrow> g = f"
proof (induction cs)
  case (Cons c cs)
  then show ?case by (cases c) auto
qed simp

text \<open>A future becomes done: its callbacks are scheduled, and a task no longer needs its token.\<close>

lemma finish:
  assumes b: "balanced L T w" and f: "f < length (w_futs w)"
    and x: "f_state x \<noteq> PENDING" "f_callbacks x = f_callbacks (fut w f)" "f_task x = None \<longleftrightarrow> f_task (fut w f) = None"
    and pending: "f_state (fut w f) = PENDING"
  shows "\<exists>w'. schedule_callbacks (put_fut w f x) f = (w', Inr ()) \<and> balanced L (T + due_tok f (fut w f)) w' \<and> same_shape w w' \<and>
     fut w' f = x\<lparr>f_callbacks := []\<rparr>"
proof -
  let ?w1 = "put_fut w f x" and ?y = "x\<lparr>f_callbacks := []\<rparr>"
  let ?w2 = "if f_callbacks x = [] then ?w1 else put_fut ?w1 f ?y"
  have inv: "loop_inv (w_loop ?w2)" using b by (simp add: balanced_def)
  have y: "fut ?w2 = (\<lambda>i. if i = f then ?y else fut w i)" using f by (auto simp: fun_eq_iff)
  obtain w' where w': "call_all ?w2 f (f_callbacks x) = (w', Inr ())" "loop_inv (w_loop w')" "w_futs w' = w_futs ?w2" "w_current w' = w_current ?w2"
      "l_phase (w_loop w') = l_phase (w_loop ?w2)" "ready_toks (w_loop w') = ready_toks (w_loop ?w2) + fut_toks f x"
    using call_all_ok [OF inv, of f "f_callbacks x"] unfolding fut_toks_def by blast
  have fw: "fut w' = fut ?w2" using w'(3) by (simp add: fut_def fun_eq_iff)
  have "schedule_callbacks ?w1 f = call_all ?w2 f (f_callbacks x)"
    using f by (simp add: schedule_callbacks_def Let_def)
  then have sch: "schedule_callbacks ?w1 f = (w', Inr ())" using w'(1) by simp
  have len: "length (w_futs w') = length (w_futs w)" using w'(3) by simp
  have zero: "fut_toks f ?y = {#}" "due_tok f ?y = {#}" "fut_toks f x = fut_toks f (fut w f)"
    using x by (simp_all add: fut_toks_def due_tok_def split: option.split)
  have "(\<Sum>i<length (w_futs w). fut_toks i (fut w' i)) + fut_toks f (fut w f) = (\<Sum>i<length (w_futs w). fut_toks i (fut w i)) + fut_toks f (fut w' f)"
    by (rule sum_update [OF f]) (simp add: fw y)
  then have all: "all_toks w' = all_toks w"
    using w'(4,6) f by (simp add: all_toks_def len zero fw y) (simp add: ac_simps)
  have "(\<Sum>i<length (w_futs w). due_tok i (fut w' i)) + due_tok f (fut w f) = (\<Sum>i<length (w_futs w). due_tok i (fut w i)) + due_tok f (fut w' f)"
    by (rule sum_update [OF f]) (simp add: fw y)
  then have due: "due_toks w' + due_tok f (fut w f) = due_toks w" by (simp add: due_toks_def len zero fw y)
  have wk: "wake_ok L w" using b by (simp add: balanced_def)
  have "wake_ok {#} w'"
    using wk x(1) f callback_tok_future [of _ _ f "f_callbacks x"] unfolding wake_ok_def fut_toks_def
    by (auto simp: fw y len w'(6) fut_toks_def)
  moreover have "\<exists>t g. k = TWake t g \<and> g < length (w_futs w') \<and> failed_base (fut w' g)" if k: "k \<in># L" for k
  proof -
    obtain t g where g: "k = TWake t g" "g < length (w_futs w)" "failed_base (fut w g)" using wk k by (auto simp: wake_ok_def)
    then have "g \<noteq> f" using pending by auto
    then show ?thesis using g by (simp add: fw y len)
  qed
  ultimately have "wake_ok L w'" by (simp add: wake_ok_def)
  then have "balanced L (T + due_tok f (fut w f)) w'"
    using b w'(2) due x(1) unfolding balanced_def all len by (auto simp: fw y fut_ok_def ac_simps)
  moreover have "same_shape w w'" using w'(4,5) x(3) by (simp add: same_shape_def len fw y)
  ultimately show ?thesis using sch by (simp add: fw y)
qed

lemma future_cancel_ok:
  assumes b: "balanced L T w" and f: "f < length (w_futs w)"
  shows "\<exists>w' r. future_cancel w f = (w', Inr r) \<and> same_shape w w' \<and> f_state (fut w' f) \<noteq> PENDING \<and>
     balanced L (T + due_tok f (fut w f)) w'"
proof -
  let ?x = "(fut w f)\<lparr>f_log_traceback := False\<rparr>"
  let ?w = "put_fut w f ?x"
  have b': "balanced L T ?w" "same_shape w ?w" by (rule put_fut_plain [OF b f], simp)+
  have due: "due_tok f ?x = due_tok f (fut w f)" by (rule like_futD) simp
  show ?thesis
  proof (cases "f_state (fut w f) = PENDING")
    case True
    have "\<exists>w'. schedule_callbacks (put_fut ?w f (?x\<lparr>f_state := CANCELLED\<rparr>)) f = (w', Inr ()) \<and> balanced L (T + due_tok f (fut ?w f)) w' \<and>
        same_shape ?w w' \<and> fut w' f = (?x\<lparr>f_state := CANCELLED\<rparr>)\<lparr>f_callbacks := []\<rparr>"
      by (rule finish [OF b'(1)]) (use f True in simp_all)
    then obtain w' where w': "schedule_callbacks (put_fut ?w f (?x\<lparr>f_state := CANCELLED\<rparr>)) f = (w', Inr ())"
        "balanced L (T + due_tok f (fut ?w f)) w'" "same_shape ?w w'" "fut w' f = (?x\<lparr>f_state := CANCELLED\<rparr>)\<lparr>f_callbacks := []\<rparr>"
      by blast
    then show ?thesis using True f b'(2) due same_shape_trans by (auto simp: future_cancel_def Let_def)
  next
    case False
    then have "due_tok f (fut w f) = {#}" by (simp add: due_tok_def split: option.split)
    moreover have "future_cancel w f = (?w, Inr False)" using False f by (simp add: future_cancel_def Let_def)
    moreover have "f_state (fut ?w f) \<noteq> PENDING" using False f by simp
    ultimately show ?thesis using b' by auto
  qed
qed

lemma object_cancel_ok:
  "balanced L T w \<Longrightarrow> f < length (w_futs w) \<Longrightarrow> balanced L T (fst (object_cancel n w f)) \<and> same_shape w (fst (object_cancel n w f))"
proof (induction n arbitrary: w f)
  case (Suc n)
  note b = Suc.prems(1) and f = Suc.prems(2)
  show ?case
  proof (cases "f_task (fut w f)")
    case None
    then have "due_tok f (fut w f) = {#}" by (simp add: due_tok_def)
    then show ?thesis using None future_cancel_ok [OF b f] by auto
  next
    case (Some p)
    let ?x = "(fut w f)\<lparr>f_log_traceback := False\<rparr>"
    let ?w = "put_fut w f ?x"
    have b': "balanced L T ?w" "same_shape w ?w" by (rule put_fut_plain [OF b f], simp)+
    have mark: "balanced L T (set_task v f ((task v f)\<lparr>must_cancel := True\<rparr>)) \<and> same_shape v (set_task v f ((task v f)\<lparr>must_cancel := True\<rparr>))"
      if "balanced L T v" "same_shape w v" for v
    proof -
      have "f < length (w_futs v)" "f_task (fut v f) \<noteq> None" using that(2) f Some by (auto simp: same_shape_def)
      from set_task_plain [OF that(1) this, of "(task v f)\<lparr>must_cancel := True\<rparr>"] show ?thesis by simp
    qed
    show ?thesis
    proof (cases "future_done ?w f \<or> fut_waiter p = None")
      case True
      then show ?thesis using Some b' mark [OF b'] f same_shape_trans [OF b'(2)] by (auto simp: task_def Let_def)
    next
      case False
      then obtain g where g: "fut_waiter p = Some g" by blast
      have "g < length (w_futs ?w)" using b f False Some g by (auto simp: balanced_def fut_ok_def future_done_def)
      note ih = Suc.IH [OF b'(1) this]
      obtain v r where v: "object_cancel n ?w g = (v, r)" by fastforce
      have v': "balanced L T v" "same_shape w v" using ih v same_shape_trans [OF b'(2)] by auto
      show ?thesis using False Some g v v' mark [OF v'] f same_shape_trans [OF v'(2)]
        by (auto simp: task_def Let_def split: sum.splits bool.splits)
    qed
  qed
qed simp

lemma task_cancel_ok:
  "balanced L T w \<Longrightarrow> f < length (w_futs w) \<Longrightarrow> balanced L T (fst (task_cancel w f)) \<and> same_shape w (fst (task_cancel w f))"
  unfolding task_cancel_def by (rule object_cancel_ok)

lemma set_result_ok:
  assumes b: "balanced L T w" and f: "f < length (w_futs w)" and pending: "f_state (fut w f) = PENDING"
  shows "\<exists>w'. future_set_result w f v = (w', Inr ()) \<and> same_shape w w' \<and> balanced L (T + due_tok f (fut w f)) w'"
  using finish [OF b f, of "(fut w f)\<lparr>f_result := Some v, f_state := FINISHED\<rparr>"] pending by (auto simp: future_set_result_def)

lemma set_exception_ok:
  assumes b: "balanced L T w" and f: "f < length (w_futs w)" and e: "f_state (fut w f) = PENDING" "e \<noteq> StopIteration"
  shows "\<exists>w'. future_set_exception w f e = (w', Inr ()) \<and> same_shape w w' \<and> balanced L (T + due_tok f (fut w f)) w'"
proof -
  obtain w' where w': "schedule_callbacks (put_fut w f ((fut w f)\<lparr>f_exception := Some e, f_state := FINISHED\<rparr>)) f = (w', Inr ())"
      "balanced L (T + due_tok f (fut w f)) w'" "same_shape w w'"
    using finish [OF b f, of "(fut w f)\<lparr>f_exception := Some e, f_state := FINISHED\<rparr>"] e(1) by auto
  have f': "f < length (w_futs w')" using w'(3) f by (simp add: same_shape_def)
  have "balanced L (T + due_tok f (fut w f)) (put_fut w' f ((fut w' f)\<lparr>f_log_traceback := True\<rparr>))"
    "same_shape w' (put_fut w' f ((fut w' f)\<lparr>f_log_traceback := True\<rparr>))"
    by (rule put_fut_plain [OF w'(2) f'], simp)+
  then show ?thesis using w' e same_shape_trans [OF w'(3)] by (simp add: future_set_exception_def)
qed

lemma set_result_keeps:
  assumes b: "balanced L T w" and f: "f < length (w_futs w)" and t: "f_task (fut w f) = None"
  shows "balanced L T (fst (future_set_result w f v)) \<and> same_shape w (fst (future_set_result w f v))"
proof (cases "f_state (fut w f) = PENDING")
  case True
  have "due_tok f (fut w f) = {#}" using t by (simp add: due_tok_def)
  then show ?thesis using set_result_ok [OF b f True, of v] by auto
qed (use b in \<open>simp add: future_set_result_def\<close>)

lemma set_exception_keeps:
  assumes b: "balanced L T w" and f: "f < length (w_futs w)" and t: "f_task (fut w f) = None"
  shows "balanced L T (fst (future_set_exception w f e)) \<and> same_shape w (fst (future_set_exception w f e))"
proof (cases "f_state (fut w f) = PENDING \<and> e \<noteq> StopIteration")
  case True
  have "due_tok f (fut w f) = {#}" using t by (simp add: due_tok_def)
  then show ?thesis using set_exception_ok [OF b f, of e] True by auto
qed (use b in \<open>auto simp: future_set_exception_def\<close>)

lemma reads_ok:
  assumes b: "balanced L T w" and f: "f < length (w_futs w)"
  shows "balanced L T (fst (future_result w f)) \<and> same_shape w (fst (future_result w f))"
    "balanced L T (fst (future_exception w f)) \<and> same_shape w (fst (future_exception w f))"
  using b put_fut_plain [OF b f, of "(fut w f)\<lparr>f_log_traceback := False\<rparr>"]
  by (simp_all add: future_result_def future_exception_def)

lemma sum_toks_append [simp]: "fut_toks f (x\<lparr>f_callbacks := cs @ [c]\<rparr>) = (\<Sum>c\<leftarrow>cs. tok_of (callback_for f c)) + tok_of (callback_for f c)"
  by (simp add: fut_toks_def)

lemma due_tok_callbacks [simp]: "due_tok f (x\<lparr>f_callbacks := cs\<rparr>) = due_tok f x"
  by (simp add: due_tok_def split: option.split)

lemma add_done_callback_ok:
  assumes b: "balanced L T w" and f: "f < length (w_futs w)"
  shows "\<exists>w'. add_done_callback w f c = (w', Inr ()) \<and> same_shape w w' \<and> balanced L (T + tok_of (callback_for f c)) w' \<and>
     (\<forall>i. f_task (fut w' i) = f_task (fut w i) \<and> f_state (fut w' i) = f_state (fut w i))"
proof (cases "f_state (fut w f) = PENDING")
  case True
  let ?x = "(fut w f)\<lparr>f_callbacks := f_callbacks (fut w f) @ [c]\<rparr>"
  have "wake_ok L (put_fut w f ?x)" using wake_ok_put_fut [of L w f ?x] b f by (simp add: balanced_def)
  moreover have "all_toks (put_fut w f ?x) = all_toks w + tok_of (callback_for f c)"
    using put_fut_toks(1) [OF f, of ?x] by (simp add: fut_toks_def ac_simps)
  moreover have "due_toks (put_fut w f ?x) = due_toks w" using put_fut_toks(2) [OF f, of ?x] by simp
  ultimately have "balanced L (T + tok_of (callback_for f c)) (put_fut w f ?x)"
    using b f True by (auto simp: balanced_def fut_ok_def)
  moreover have "same_shape w (put_fut w f ?x)" using f by (simp add: same_shape_def)
  ultimately show ?thesis using True f by (simp add: add_done_callback_def)
next
  case False
  have "g < length (w_futs w) \<and> f_state (fut w g) \<noteq> PENDING" if "callback_for f c = Wakeup t g" for t g
    using that f False by (cases c) auto
  then show ?thesis using call_soon_balanced [OF b, of "callback_for f c"] False by (auto simp: add_done_callback_def)
qed

lemma user_filter_toks: "(\<Sum>c\<leftarrow>filter (\<lambda>x. x \<noteq> DoneUser u) cs. tok_of (callback_for f c)) = (\<Sum>c\<leftarrow>cs. tok_of (callback_for f c))"
  by (induction cs) auto

lemma remove_done_callback_ok:
  assumes b: "balanced L T w" and f: "f < length (w_futs w)"
  shows "balanced L T (fst (remove_done_callback w f (DoneUser u))) \<and> same_shape w (fst (remove_done_callback w f (DoneUser u)))"
proof -
  let ?x = "(fut w f)\<lparr>f_callbacks := filter (\<lambda>x. x \<noteq> DoneUser u) (f_callbacks (fut w f))\<rparr>"
  have "wake_ok L (put_fut w f ?x)" using wake_ok_put_fut [of L w f ?x] b f by (simp add: balanced_def)
  moreover have "all_toks (put_fut w f ?x) = all_toks w"
    using put_fut_toks(1) [OF f, of ?x] by (simp add: fut_toks_def user_filter_toks)
  moreover have "due_toks (put_fut w f ?x) = due_toks w" using put_fut_toks(2) [OF f, of ?x] by simp
  ultimately have "balanced L T (put_fut w f ?x)" using b f by (auto simp: balanced_def fut_ok_def)
  moreover have "same_shape w (put_fut w f ?x)" using f by (simp add: same_shape_def)
  ultimately show ?thesis using b by (simp add: remove_done_callback_def Let_def)
qed

section \<open>The steps of a task\<close>

lemma call_step_ok:
  assumes "balanced L T w"
  shows "\<exists>w'. call_step w t exc = (w', Inr ()) \<and> balanced L (T + {#TStep t#}) w' \<and> same_shape w w'"
proof -
  obtain w' where "w_call_soon w (Step t exc) = Inr w'" "balanced L (T + {#TStep t#}) w'" "same_shape w w'"
    using call_soon_balanced [OF assms, of "Step t exc"] by auto
  then show ?thesis by (simp add: call_step_def)
qed

lemma due_tok_task: "f_task x = Some p \<Longrightarrow> f_state x = PENDING \<Longrightarrow> due_tok t x = {#case fut_waiter p of None \<Rightarrow> TStep t | Some g \<Rightarrow> TWake t g#}"
  by (simp add: due_tok_def)

lemma step_wait_ok:
  assumes b: "balanced L {#} w" and t: "t < length (w_futs w)" "due_tok t (fut w t) = {#TStep t#}" and g: "g < length (w_futs w)"
  shows "\<exists>w' r. step_wait w t g = (w', r) \<and> balanced L {#TStep t#} w' \<and> same_shape w w'"
proof (cases "f_blocking (fut w g) \<and> g \<noteq> t")
  case False
  then show ?thesis using call_step_ok [OF b, of t "Some RuntimeError"] by (auto simp: step_wait_def)
next
  case True
  let ?w1 = "put_fut w g ((fut w g)\<lparr>f_blocking := False\<rparr>)"
  have b1: "balanced L {#} ?w1" "same_shape w ?w1" by (rule put_fut_plain [OF b g], simp)+
  have g1: "g < length (w_futs ?w1)" using g by simp
  obtain w2 where w2: "add_done_callback ?w1 g (DoneWakeup t) = (w2, Inr ())" "same_shape ?w1 w2" "balanced L {#TWake t g#} w2"
      "\<forall>i. f_task (fut w2 i) = f_task (fut ?w1 i) \<and> f_state (fut w2 i) = f_state (fut ?w1 i)"
    using add_done_callback_ok [OF b1(1) g1, of "DoneWakeup t"] by auto
  have len: "length (w_futs w2) = length (w_futs w)" using w2(2) by (simp add: same_shape_def)
  obtain p where p: "f_task (fut w t) = Some p" "f_state (fut w t) = PENDING" "fut_waiter p = None"
    using t(2) by (auto simp: due_tok_def split: option.splits if_splits)
  have p2: "f_task (fut w2 t) = Some p" "f_state (fut w2 t) = PENDING" using w2(4) p True g by auto
  let ?p = "p\<lparr>fut_waiter := Some g\<rparr>"
  let ?x = "(fut w2 t)\<lparr>f_task := Some ?p\<rparr>"
  let ?w3 = "put_fut w2 t ?x"
  have t2: "t < length (w_futs w2)" using t len by simp
  have toks: "all_toks ?w3 = all_toks w2" "due_toks ?w3 + {#TStep t#} = due_toks w2 + {#TWake t g#}"
    using put_fut_toks [OF t2, of ?x] p2 p(3) by (simp_all add: fut_toks_def due_tok_task)
  have "wake_ok L ?w3" using wake_ok_put_fut [of L w2 t ?x] w2(3) t2 by (simp add: balanced_def)
  then have b3: "balanced L {#TStep t#} ?w3" using w2(3) toks t2 g len by (auto simp: balanced_def fut_ok_def)
  have s3: "same_shape w ?w3"
    using same_shape_trans [OF b1(2) w2(2)] t2 p p2 by (auto simp: same_shape_def)
  have w3: "set_task w2 t ((task w2 t)\<lparr>fut_waiter := Some g\<rparr>) = ?w3" "task ?w3 t = ?p"
    using p2 t2 by (simp_all add: set_task_def task_def)
  show ?thesis
  proof (cases "must_cancel p")
    case False
    then show ?thesis using True w2(1) b3 s3 w3 by (simp add: step_wait_def Let_def)
  next
    case mc: True
    have g3: "g < length (w_futs ?w3)" using g len by simp
    obtain w4 r where w4: "task_cancel ?w3 g = (w4, r)" by fastforce
    then have b4: "balanced L {#TStep t#} w4" "same_shape w w4"
      using task_cancel_ok [OF b3 g3] same_shape_trans [OF s3] by auto
    have t4: "t < length (w_futs w4)" "f_task (fut w4 t) \<noteq> None" using b4(2) t p by (auto simp: same_shape_def)
    have "balanced L {#TStep t#} (set_task w4 t ((task w4 t)\<lparr>must_cancel := False\<rparr>)) \<and> same_shape w4 (set_task w4 t ((task w4 t)\<lparr>must_cancel := False\<rparr>))"
      using set_task_plain [OF b4(1) t4, of "(task w4 t)\<lparr>must_cancel := False\<rparr>"] by simp
    then show ?thesis using True mc w2(1) b4 w3 w4 same_shape_trans [OF b4(2)]
      by (auto simp: step_wait_def Let_def split: sum.splits)
  qed
qed

lemma step_end_ok:
  assumes b: "balanced L {#} w" and t: "w_current w = Some t" "t < length (w_futs w)" "due_tok t (fut w t) = {#TStep t#}"
    and out: "out \<noteq> CoroRaise StopIteration" "\<And>g. out = CoroYield g \<Longrightarrow> g < length (w_futs w)"
  shows "balanced L {#} (fst (step_end w t out)) \<and> w_current (fst (step_end w t out)) = None \<and>
     l_phase (w_loop (fst (step_end w t out))) = l_phase (w_loop w) \<and> length (w_futs (fst (step_end w t out))) = length (w_futs w)"
proof -
  obtain p where p: "f_task (fut w t) = Some p" "f_state (fut w t) = PENDING" "fut_waiter p = None"
    using t(3) by (auto simp: due_tok_def split: option.splits if_splits)
  have mid: "\<exists>w' r. step_end w t out = (w'\<lparr>w_current := None\<rparr>, r) \<and> balanced L {#TStep t#} w' \<and> same_shape w w'"
  proof (cases out)
    case (CoroReturn v)
    show ?thesis
    proof (cases "must_cancel p")
      case False
      then show ?thesis using set_result_ok [OF b t(2) p(2), of v] p CoroReturn t(3) by (auto simp: step_end_def task_def)
    next
      case True
      let ?p = "p\<lparr>must_cancel := False\<rparr>"
      have b1: "balanced L {#} (set_task w t ?p)" "same_shape w (set_task w t ?p)"
        using set_task_plain [OF b t(2), of ?p] p by (simp_all add: task_def)
      have "t < length (w_futs (set_task w t ?p))" "f_state (fut (set_task w t ?p) t) = PENDING"
        "due_tok t (fut (set_task w t ?p) t) = {#TStep t#}"
        using p t by (simp_all add: set_task_def due_tok_def)
      with set_exception_ok [OF b1(1) this(1,2), of CancelledError] show ?thesis
        using True p CoroReturn same_shape_trans [OF b1(2)] by (auto simp: step_end_def task_def)
    qed
  next
    case (CoroRaise e)
    then show ?thesis
      using set_exception_ok [OF b t(2) p(2), of e] future_cancel_ok [OF b t(2)] out(1) t(3) by (auto simp: step_end_def then_unit_def)
  next
    case (CoroYield g)
    then show ?thesis using step_wait_ok [OF b t(2,3) out(2)] by (auto simp: step_end_def)
  next
    case CoroYieldNone
    then show ?thesis using call_step_ok [OF b, of t None] by (auto simp: step_end_def)
  next
    case CoroYieldOther
    then show ?thesis using call_step_ok [OF b, of t "Some RuntimeError"] by (auto simp: step_end_def)
  qed
  then obtain w' r where w': "step_end w t out = (w'\<lparr>w_current := None\<rparr>, r)" "balanced L {#TStep t#} w'" "same_shape w w'" by blast
  have "balanced L {#} (w'\<lparr>w_current := None\<rparr>)"
    using w'(2,3) t(1) by (auto simp: balanced_def wake_ok_def all_toks_def due_toks_def fut_def same_shape_def)
  then show ?thesis using w'(1,3) by (simp add: same_shape_def)
qed

text \<open>The due token of a task that is about to run.\<close>

lemma due_toks_elem:
  assumes "x \<in># due_toks w"
  obtains t p where "t < length (w_futs w)" "f_task (fut w t) = Some p" "f_state (fut w t) = PENDING"
    "x = (case fut_waiter p of None \<Rightarrow> TStep t | Some g \<Rightarrow> TWake t g)"
proof -
  obtain t where "t < length (w_futs w)" "x \<in># due_tok t (fut w t)" using assms by (auto simp: due_toks_def set_mset_sum)
  then show ?thesis using that by (auto simp: due_tok_def split: option.splits if_splits)
qed

lemma due_step:
  assumes "TStep t \<in># due_toks w"
  obtains p where "t < length (w_futs w)" "f_task (fut w t) = Some p" "f_state (fut w t) = PENDING" "fut_waiter p = None"
  using assms by (rule due_toks_elem) (auto split: option.splits)

lemma due_wake:
  assumes "TWake t g \<in># due_toks w"
  obtains p where "t < length (w_futs w)" "f_task (fut w t) = Some p" "f_state (fut w t) = PENDING" "fut_waiter p = Some g"
  using assms by (rule due_toks_elem) (auto split: option.splits)

text \<open>Between the calls, \<open>lacking L T\<close>: the callback of the handle just taken off, whose tokens were \<open>T\<close>, has not begun.\<close>

definition lacking :: "tok multiset \<Rightarrow> tok multiset \<Rightarrow> ('u, 'v) world \<Rightarrow> bool" where
  "lacking L T w \<longleftrightarrow> loop_inv (w_loop w) \<and> (\<forall>f < length (w_futs w). fut_ok (length (w_futs w)) (fut w f)) \<and>
     wake_ok L w \<and> all_toks w + T + L = due_toks w \<and> w_current w = None"

lemma enter_step:
  assumes l: "lacking L T w" and t: "t < length (w_futs w)" "f_task (fut w t) = Some p" "f_state (fut w t) = PENDING"
    and T: "T = {#case fut_waiter p of None \<Rightarrow> TStep t | Some g \<Rightarrow> TWake t g#}"
  shows "\<exists>w'. step_begin w t exc = (w', Inr (if must_cancel p then Some CancelledError else exc)) \<and> balanced L {#} w' \<and> w_current w' = Some t \<and>
     w_loop w' = w_loop w \<and> f_task (fut w' t) = Some \<lparr>must_cancel = False, fut_waiter = None\<rparr>"
proof -
  let ?p = "\<lparr>must_cancel = False, fut_waiter = None\<rparr>"
  let ?x = "(fut w t)\<lparr>f_task := Some ?p\<rparr>"
  let ?w1 = "put_fut w t ?x"
  let ?w' = "?w1\<lparr>w_current := Some t\<rparr>"
  have toks: "all_toks ?w1 = all_toks w" "due_toks ?w1 + T = due_toks w + {#TStep t#}"
    using put_fut_toks [OF t(1), of ?x] t T by (simp_all add: fut_toks_def due_tok_task)
  have "wake_ok L ?w1" using wake_ok_put_fut [of L w t ?x] l t by (simp add: lacking_def)
  moreover have "fut ?w' = fut ?w1" by (simp add: fut_def fun_eq_iff)
  ultimately have w: "wake_ok L ?w'" "due_toks ?w' = due_toks ?w1" "all_toks ?w' = all_toks ?w1 + {#TStep t#}"
    using l by (simp_all add: wake_ok_def due_toks_def all_toks_def lacking_def)
  have "all_toks w + T + L = due_toks w" using l by (simp add: lacking_def)
  then have "due_toks ?w1 + T = all_toks ?w1 + L + {#TStep t#} + T" using toks by (metis add.assoc add.commute)
  then have "due_toks ?w1 = all_toks ?w1 + L + {#TStep t#}" by (rule add_right_imp_eq)
  then have "balanced L {#} ?w'"
    using w l t by (auto simp: balanced_def lacking_def fut_ok_def fut_def [of ?w'] fut_def [of ?w1, symmetric])
  moreover have "step_begin w t exc = (?w', Inr (if must_cancel p then Some CancelledError else exc))"
    using l t by (auto simp: step_begin_def future_done_def task_def set_task_def lacking_def Let_def)
  moreover have "f_task (fut ?w' t) = Some ?p" using t by (simp add: fut_def put_fut_def)
  ultimately show ?thesis by auto
qed

section \<open>Every step keeps the invariant\<close>

lemma world_inv_balanced: "world_inv L w \<longleftrightarrow> balanced L {#} w \<and> (w_current w \<noteq> None \<longrightarrow> (\<exists>n. l_phase (w_loop w) = Calling n))"
  by (auto simp: world_inv_def balanced_def)

lemma world_inv_same_shape: "world_inv L w \<Longrightarrow> balanced L {#} w' \<and> same_shape w w' \<Longrightarrow> world_inv L w'"
  by (auto simp: world_inv_balanced same_shape_def)

lemma with_loop_ok:
  assumes w: "world_inv L w" and l: "loop_inv l" "ready_toks l = ready_toks (w_loop w)" "w_current w \<noteq> None \<longrightarrow> (\<exists>n. l_phase l = Calling n)"
  shows "world_inv L (w\<lparr>w_loop := l\<rparr>)"
  using assms by (auto simp: world_inv_def wake_ok_def all_toks_def due_toks_def fut_def)

lemma end_event_ok:
  assumes w: "balanced L {#} w" "w_current w = None" and e: "e = Returned \<or> e = Aborted" and st: "with_loop w e = Some w'"
  shows "world_inv L w'"
proof -
  from w have w': "world_inv L w" by (simp add: world_inv_balanced)
  obtain n where n: "l_phase (w_loop w) = Calling n" using e st by (auto simp: with_loop_def split: phase.splits)
  obtain l where l: "loop_step e (w_loop w) = Some (l, None)" "w' = w\<lparr>w_loop := l\<rparr>"
    using e st n by (auto simp: with_loop_def)
  have rest: "l_handles l = l_handles (w_loop w)" "l_ready l = l_ready (w_loop w)" "l_timers l = l_timers (w_loop w)"
      "l_io l = l_io (w_loop w)" "l_closed l = l_closed (w_loop w)"
    using e l n by (auto simp: loop_finish_def)
  have "loop_inv l" using loop_inv_step [OF _ l(1)] w by (auto simp: rest balanced_def loop_inv_def)
  then show ?thesis unfolding l(2) using w' w(2) by (intro with_loop_ok) (simp_all add: ready_toks_def rest)
qed

lemma next_ok:
  assumes inv: "loop_inv l" and st: "loop_step Next l = Some (l', called)"
  shows "loop_inv l'" "l_handles l' = l_handles l" "\<exists>n. l_phase l = Todo (Suc n) \<and> l_phase l' = (if called = None then Todo n else Calling n)"
    "ready_toks l = (case called of None \<Rightarrow> {#} | Some h \<Rightarrow> handle_toks (l_handles l ! h)) + ready_toks l'"
    "\<And>h. called = Some h \<Longrightarrow> h < length (l_handles l) \<and> h_callback (l_handles l ! h) \<noteq> None"
proof -
  obtain n where n: "l_phase l = Todo (Suc n)" "loop_next l n = (l', called)" using st by (auto split: phase.splits nat.splits)
  have "todo_ok l" using inv by (auto simp: loop_inv_def loop_ok_def)
  then obtain h rest where r: "l_ready l = h # rest" using n(1) by (cases "l_ready l") (auto simp: todo_ok_def)
  have h: "h < length (l_handles l)" using loop_inv_less [OF inv, of h] r by simp
  have dead: "h_cancelled (l_handles l ! h) \<longleftrightarrow> h_callback (l_handles l ! h) = None" using inv h by (simp add: loop_inv_def)
  have l': "l_handles l' = l_handles l" "l_ready l' = rest" "l_timers l' = l_timers l" "l_io l' = l_io l" "l_closed l' = l_closed l"
      "called = (if h_cancelled (l_handles l ! h) then None else Some h)" "l_phase l' = (if called = None then Todo n else Calling n)"
    using n(2) r by (auto simp: loop_next_def Let_def split: if_splits)
  show "loop_inv l'" using loop_inv_step [OF inv st] inv by (simp add: l' loop_inv_def)
  show "l_handles l' = l_handles l" "\<exists>n. l_phase l = Todo (Suc n) \<and> l_phase l' = (if called = None then Todo n else Calling n)"
    using l' n(1) by auto
  show "ready_toks l = (case called of None \<Rightarrow> {#} | Some h \<Rightarrow> handle_toks (l_handles l ! h)) + ready_toks l'"
    using dead by (auto simp: ready_toks_def l' r handle_toks_def)
  show "\<And>h. called = Some h \<Longrightarrow> h < length (l_handles l) \<and> h_callback (l_handles l ! h) \<noteq> None"
    using l'(6) h dead by (auto split: if_splits)
qed

lemma next_lacking:
  assumes w: "world_inv L w" and st: "loop_step Next (w_loop w) = Some (l, called)"
  shows "lacking L (case called of None \<Rightarrow> {#} | Some h \<Rightarrow> handle_toks (l_handles l ! h)) (w\<lparr>w_loop := l\<rparr>)"
    "called = None \<Longrightarrow> world_inv L (w\<lparr>w_loop := l\<rparr>)"
proof -
  have inv: "loop_inv (w_loop w)" using w by (simp add: world_inv_def)
  note nx = next_ok [OF inv st]
  have c: "w_current w = None" using w nx(3) by (auto simp: world_inv_def)
  have r: "ready_toks (w_loop w) = (case called of None \<Rightarrow> {#} | Some h \<Rightarrow> handle_toks (l_handles l ! h)) + ready_toks l"
    using nx(2,4) by (cases called) simp_all
  have "wake_ok L (w\<lparr>w_loop := l\<rparr>)" using w nx(4) by (auto simp: world_inv_def wake_ok_def fut_def)
  then show "lacking L (case called of None \<Rightarrow> {#} | Some h \<Rightarrow> handle_toks (l_handles l ! h)) (w\<lparr>w_loop := l\<rparr>)"
    using w nx(1) r c unfolding world_inv_def lacking_def all_toks_def due_toks_def by (simp add: fut_def ac_simps)
  show "world_inv L (w\<lparr>w_loop := l\<rparr>)" if "called = None"
    using that nx c by (intro with_loop_ok [OF w]) auto
qed

lemma lacking_unread:
  assumes l: "lacking L T w" and f: "f < length (w_futs w)"
  shows "lacking L T (put_fut w f ((fut w f)\<lparr>f_log_traceback := b\<rparr>))"
proof -
  let ?x = "(fut w f)\<lparr>f_log_traceback := b\<rparr>"
  have a: "like_fut ?x (fut w f)" by simp
  have "wake_ok L (put_fut w f ?x)" using wake_ok_put_fut [of L w f ?x] l f by (simp add: lacking_def)
  then show ?thesis using l f put_fut_toks [OF f, of ?x] like_futD [OF a] by (auto simp: lacking_def)
qed

text \<open>A wake-up that is called reads a future that is done, and its task still waits for it.\<close>

lemma wakeup_reads:
  assumes w: "world_inv L w" and st: "loop_step Next (w_loop w) = Some (l, Some h)"
    and c: "h_callback (l_handles l ! h) = Some c" "tok_of c = {#TWake t f#}" and v: "future_result (w\<lparr>w_loop := l\<rparr>) f = (v, r)"
  shows "f < length (w_futs w) \<and> f_state (fut w f) \<noteq> PENDING \<and> f \<noteq> t \<and> lacking L {#TWake t f#} v \<and> w_loop v = l \<and> fut v t = fut w t \<and>
     length (w_futs v) = length (w_futs w) \<and> t < length (w_futs v) \<and>
     (\<exists>p. f_task (fut v t) = Some p \<and> f_task (fut w t) = Some p \<and> f_state (fut v t) = PENDING \<and> fut_waiter p = Some f) \<and>
     (case r of Inl e \<Rightarrow> (if future_cancelled w f then Some CancelledError else f_exception (fut w f)) = Some e
      | Inr a \<Rightarrow> \<not> future_cancelled w f \<and> f_exception (fut w f) = None)"
proof -
  let ?w = "w\<lparr>w_loop := l\<rparr>"
  have inv: "loop_inv (w_loop w)" using w by (simp add: world_inv_def)
  note nx = next_ok [OF inv st]
  have fw: "fut ?w = fut w" by (simp add: fut_def fun_eq_iff)
  have lack: "lacking L {#TWake t f#} ?w" using next_lacking(1) [OF w st] c by (simp add: handle_toks_def)
  have due: "TWake t f \<in># due_toks ?w" using lack unfolding lacking_def by (metis union_iff union_single_eq_member)
  obtain p where p: "t < length (w_futs ?w)" "f_task (fut ?w t) = Some p" "f_state (fut ?w t) = PENDING" "fut_waiter p = Some f"
    using due_wake [of t f ?w] due by blast
  have "TWake t f \<in># ready_toks (w_loop w)" using nx(2,4) c by (simp add: handle_toks_def)
  then have f: "f < length (w_futs w)" "f_state (fut w f) \<noteq> PENDING" using w by (auto simp: world_inv_def wake_ok_def)
  then have ne: "f \<noteq> t" using p(3) fw by auto
  have v': "v = ?w \<or> v = put_fut ?w f ((fut ?w f)\<lparr>f_log_traceback := False\<rparr>)"
    "case r of Inl e \<Rightarrow> (if future_cancelled w f then Some CancelledError else f_exception (fut w f)) = Some e
     | Inr a \<Rightarrow> \<not> future_cancelled w f \<and> f_exception (fut w f) = None"
    using v f fw by (cases "f_state (fut w f)"; auto simp: future_result_def future_cancelled_def split: option.splits)+
  have lv: "lacking L {#TWake t f#} v" "fut v t = fut ?w t" "length (w_futs v) = length (w_futs w)" "w_loop v = l"
    using v'(1) lack lacking_unread [OF lack, of f False] f ne by auto
  show ?thesis using f ne lv p fw v'(2) by auto
qed

text \<open>
  A callback that is a step or a wake-up of a task enters the task, and what it throws into the coroutine is this; but a wake-up by a future whose
  exception is no \<open>Exception\<close> raises it, and its token is lost.
\<close>

definition thrown_by :: "('u, 'v) world \<Rightarrow> 'u acb \<Rightarrow> exn option" where
  "thrown_by w c =
     (case c of
        Step t exc \<Rightarrow> if must_cancel (task w t) then Some CancelledError else exc
      | Wakeup t f \<Rightarrow>
          if must_cancel (task w t) \<or> future_cancelled w f then Some CancelledError else f_exception (fut w f)
      | _ \<Rightarrow> None)"

fun wakeup_fails :: "('u, 'v) world \<Rightarrow> 'u acb \<Rightarrow> bool" where
  "wakeup_fails w (Wakeup t f) = failed_base (fut w f)"
| "wakeup_fails w _ = False"

lemma begin_call_ok:
  assumes w: "world_inv L w" and st: "loop_step Next (w_loop w) = Some (l, Some h)"
    and c: "h_callback (l_handles l ! h) = Some c" "tok_of c = {#x#}" and t: "x = TStep t \<or> (\<exists>f. x = TWake t f)"
  shows "\<not> wakeup_fails w c \<Longrightarrow> \<exists>w'. begin_call (w\<lparr>w_loop := l\<rparr>) c = (w', Inr (thrown_by w c)) \<and> world_inv L w' \<and> w_current w' = Some t \<and>
     f_task (fut w' t) = Some \<lparr>must_cancel = False, fut_waiter = None\<rparr>"
    "wakeup_fails w c \<Longrightarrow> \<exists>f e v. c = Wakeup t f \<and> f_exception (fut w f) = Some e \<and> \<not> is_exception e \<and>
     begin_call (w\<lparr>w_loop := l\<rparr>) c = (v, Inl e) \<and> balanced (L + {#x#}) {#} v \<and> w_current v = None \<and> w_loop v = l \<and>
     fut v t = fut w t \<and> length (w_futs v) = length (w_futs w)"
proof -
  let ?w = "w\<lparr>w_loop := l\<rparr>"
  have inv: "loop_inv (w_loop w)" using w by (simp add: world_inv_def)
  note nx = next_ok [OF inv st]
  have fw: "fut ?w = fut w" by (simp add: fut_def fun_eq_iff)
  have lack: "lacking L {#x#} ?w" using next_lacking(1) [OF w st] c by (simp add: handle_toks_def)
  have due: "x \<in># due_toks ?w" using lack unfolding lacking_def by (metis union_iff union_single_eq_member)
  have phase: "\<exists>n. l_phase l = Calling n" using nx(3) by auto
  have fin: "world_inv L w'" if "balanced L {#} w'" "w_loop w' = l" for w' :: "('a, 'b) world"
    using that phase by (simp add: world_inv_balanced)
  show "\<exists>w'. begin_call ?w c = (w', Inr (thrown_by w c)) \<and> world_inv L w' \<and> w_current w' = Some t \<and>
     f_task (fut w' t) = Some \<lparr>must_cancel = False, fut_waiter = None\<rparr>" if nf: "\<not> wakeup_fails w c"
  proof (cases c)
    case (Step u exc)
    then have x: "x = TStep u" "u = t" using c(2) t by auto
    obtain p where p: "t < length (w_futs ?w)" "f_task (fut ?w t) = Some p" "f_state (fut ?w t) = PENDING" "fut_waiter p = None"
      using due_step [of t ?w] due x by blast
    obtain w' where "step_begin ?w t exc = (w', Inr (if must_cancel p then Some CancelledError else exc))" "balanced L {#} w'" "w_current w' = Some t"
        "w_loop w' = l" "f_task (fut w' t) = Some \<lparr>must_cancel = False, fut_waiter = None\<rparr>"
      using enter_step [OF lack p(1-3)] p(4) x by auto
    then show ?thesis using Step x fin p(2) fw by (auto simp: begin_call_def thrown_by_def task_def)
  next
    case (Wakeup u f)
    then have x: "x = TWake t f" "u = t" using c(2) t by auto
    note W = wakeup_reads [OF w st c [unfolded x(1)]]
    obtain v r where v: "future_result ?w f = (v, r)" by fastforce
    obtain p where p: "t < length (w_futs v)" "f_task (fut v t) = Some p" "f_task (fut w t) = Some p" "f_state (fut v t) = PENDING" "fut_waiter p = Some f"
        "lacking L {#TWake t f#} v" "w_loop v = l" "case r of Inl e \<Rightarrow> (if future_cancelled w f then Some CancelledError else f_exception (fut w f)) = Some e
       | Inr a \<Rightarrow> \<not> future_cancelled w f \<and> f_exception (fut w f) = None" "f_state (fut w f) \<noteq> PENDING"
      using W [OF v] by metis
    have ex: "is_exception e" if "r = Inl e" for e
      using nf p(8,9) that Wakeup x
      by (cases "f_state (fut w f)") (auto simp: failed_base_def future_cancelled_def is_exception_def split: option.splits if_splits)
    let ?e = "case r of Inl e \<Rightarrow> Some e | Inr a \<Rightarrow> None"
    obtain w' where "step_begin v t ?e = (w', Inr (if must_cancel p then Some CancelledError else ?e))" "balanced L {#} w'" "w_current w' = Some t"
        "w_loop w' = l" "f_task (fut w' t) = Some \<lparr>must_cancel = False, fut_waiter = None\<rparr>"
      using enter_step [OF p(6,1,2,4)] p(5,7) by auto
    then show ?thesis using Wakeup x fin p(3,8) v ex
      by (auto simp: begin_call_def wakeup_begin_def thrown_by_def task_def split: sum.splits if_splits)
  qed (use c(2) in simp_all)
  show "\<exists>f e v. c = Wakeup t f \<and> f_exception (fut w f) = Some e \<and> \<not> is_exception e \<and>
     begin_call ?w c = (v, Inl e) \<and> balanced (L + {#x#}) {#} v \<and> w_current v = None \<and> w_loop v = l \<and>
     fut v t = fut w t \<and> length (w_futs v) = length (w_futs w)" if fails: "wakeup_fails w c"
  proof -
    obtain f where f: "c = Wakeup t f" "failed_base (fut w f)" using fails c(2) t by (cases c) auto
    then have x: "x = TWake t f" using c(2) by simp
    obtain e where e: "f_exception (fut w f) = Some e" "\<not> is_exception e" using f(2) by (auto simp: failed_base_def split: option.splits)
    note W = wakeup_reads [OF w st c [unfolded x]]
    obtain v r where v: "future_result ?w f = (v, r)" by fastforce
    have fl: "f < length (w_futs w)" "f \<noteq> t" and lv: "lacking L {#TWake t f#} v" "w_loop v = l" "fut v t = fut w t" "length (w_futs v) = length (w_futs w)"
      using W [OF v] f(2) by auto
    have "r = Inl e" using v f(2) e(1) fw by (auto simp: future_result_def failed_base_def)
    then have "begin_call ?w c = (v, Inl e)" using f(1) v e(2) by (simp add: begin_call_def wakeup_begin_def)
    moreover have "failed_base (fut v f)" using v f(2) fw fl(1) by (auto simp: future_result_def split: if_splits)
    then have "balanced (L + {#x#}) {#} v"
      using lv fl(1) x by (auto simp: lacking_def balanced_def wake_ok_def ac_simps)
    ultimately show ?thesis using f e lv by (auto simp: lacking_def)
  qed
qed

lemma call_next_ok:
  assumes w: "world_inv L w" and st: "call_next w = Some w'"
  shows "world_ok w'"
proof -
  obtain l called where l: "loop_step Next (w_loop w) = Some (l, called)"
    using st by (auto simp: call_next_def split: option.splits)
  show ?thesis
  proof (cases called)
    case None
    then show ?thesis using st l next_lacking(2) [OF w l] by (auto simp: call_next_def world_ok_def)
  next
    case (Some h)
    have inv: "loop_inv (w_loop w)" using w by (simp add: world_inv_def)
    note nx = next_ok [OF inv l]
    obtain c where c: "h_callback (l_handles l ! h) = Some c" using nx(2,5) Some by auto
    then have st': "after_begin (begin_call (w\<lparr>w_loop := l\<rparr>) c) = Some w'" using st l Some by (simp add: call_next_def)
    show ?thesis
    proof (cases "tok_of c = {#}")
      case True
      then have "w' = w\<lparr>w_loop := l\<rparr>" using st' by (cases c) (simp_all add: begin_call_def after_begin_def)
      moreover have "w_current w = None" using w nx(3) by (auto simp: world_inv_def)
      ultimately show ?thesis
        using with_loop_ok [OF w nx(1)] nx(2,4) c Some True by (auto simp: handle_toks_def world_ok_def)
    next
      case False
      then obtain x t where x: "tok_of c = {#x#}" "x = TStep t \<or> (\<exists>f. x = TWake t f)" by (cases c) auto
      note B = begin_call_ok [OF w l [unfolded Some] c x]
      show ?thesis
      proof (cases "wakeup_fails w c")
        case True
        then obtain e v where v: "begin_call (w\<lparr>w_loop := l\<rparr>) c = (v, Inl e)" "balanced (L + {#x#}) {#} v" "w_current v = None" "\<not> is_exception e"
          using B(2) by blast
        then have "with_loop v Aborted = Some w'" using st' by (simp add: after_begin_def run_end_def)
        then show ?thesis using end_event_ok [OF v(2,3)] by (auto simp: world_ok_def)
      qed (use B(1) st' in \<open>auto simp: after_begin_def world_ok_def\<close>)
    qed
  qed
qed

lemma append_fut:
  fixes w :: "('u, 'v) world"
  assumes "fut_toks (length (w_futs w)) x = {#}"
  shows "all_toks (w\<lparr>w_futs := w_futs w @ [x]\<rparr>) = all_toks w"
    "due_toks (w\<lparr>w_futs := w_futs w @ [x]\<rparr>) = due_toks w + due_tok (length (w_futs w)) x"
    "\<And>i. i \<le> length (w_futs w) \<Longrightarrow> fut (w\<lparr>w_futs := w_futs w @ [x]\<rparr>) i = (if i = length (w_futs w) then x else fut w i)"
proof -
  have f: "fut (w\<lparr>w_futs := w_futs w @ [x]\<rparr>) i = (if i = length (w_futs w) then x else fut w i)" if "i \<le> length (w_futs w)" for i
    using that by (auto simp: fut_def nth_append)
  have s: "(\<Sum>i<length (w_futs w). g i (fut (w\<lparr>w_futs := w_futs w @ [x]\<rparr>) i)) = (\<Sum>i<length (w_futs w). g i (fut w i))"
    for g :: "nat \<Rightarrow> ('u, 'v) future \<Rightarrow> tok multiset" by (intro sum.cong) (simp_all add: f)
  show "all_toks (w\<lparr>w_futs := w_futs w @ [x]\<rparr>) = all_toks w"
    "due_toks (w\<lparr>w_futs := w_futs w @ [x]\<rparr>) = due_toks w + due_tok (length (w_futs w)) x"
    by (simp_all add: all_toks_def due_toks_def s f assms)
  show "\<And>i. i \<le> length (w_futs w) \<Longrightarrow> fut (w\<lparr>w_futs := w_futs w @ [x]\<rparr>) i = (if i = length (w_futs w) then x else fut w i)"
    by (rule f)
qed

lemma append_fut_ok:
  assumes w: "world_inv L w" and x: "f_callbacks x = []" "\<And>p. f_task x = Some p \<Longrightarrow> fut_waiter p = None"
  shows "\<forall>f < Suc (length (w_futs w)). fut_ok (Suc (length (w_futs w))) (fut (w\<lparr>w_futs := w_futs w @ [x]\<rparr>) f)"
    "wake_ok L (w\<lparr>w_futs := w_futs w @ [x]\<rparr>)"
proof -
  have t: "fut_toks (length (w_futs w)) x = {#}" using x by (simp add: fut_toks_def)
  note f = append_fut(3) [OF t]
  have old: "fut_ok (Suc (length (w_futs w))) (fut w i)" if "i < length (w_futs w)" for i
    using w that unfolding world_inv_def fut_ok_def by (meson less_SucI)
  show "\<forall>f < Suc (length (w_futs w)). fut_ok (Suc (length (w_futs w))) (fut (w\<lparr>w_futs := w_futs w @ [x]\<rparr>) f)"
    using old x by (auto simp: f less_Suc_eq) (simp add: fut_ok_def)
  have wk: "wake_ok L w" using w by (simp add: world_inv_def)
  have same: "fut (w\<lparr>w_futs := w_futs w @ [x]\<rparr>) g = fut w g" if "g < length (w_futs w)" for g using f [of g] that by simp
  have a: "g < Suc (length (w_futs w)) \<and> f_state (fut (w\<lparr>w_futs := w_futs w @ [x]\<rparr>) g) \<noteq> PENDING" if "TWake t g \<in># ready_toks (w_loop w)" for t g
  proof -
    have "g < length (w_futs w) \<and> f_state (fut w g) \<noteq> PENDING" using wk that by (auto simp: wake_ok_def)
    then show ?thesis by (simp add: same)
  qed
  have b: "\<exists>t g. k = TWake t g \<and> g < Suc (length (w_futs w)) \<and> failed_base (fut (w\<lparr>w_futs := w_futs w @ [x]\<rparr>) g)" if k: "k \<in># L" for k
  proof -
    obtain t g where "k = TWake t g" "g < length (w_futs w)" "failed_base (fut w g)" using wk k unfolding wake_ok_def by blast
    then show ?thesis by (simp add: same)
  qed
  show "wake_ok L (w\<lparr>w_futs := w_futs w @ [x]\<rparr>)" using a b by (simp add: wake_ok_def)
qed

lemma create_ok:
  fixes w :: "('u, 'v) world"
  assumes w: "world_inv L w"
  shows "world_inv L (fst (create_future w))" "world_inv L (fst (task_new w))"
proof -
  have t: "fut_toks n (fut_new :: ('u, 'v) future) = {#}" "due_tok n (fut_new :: ('u, 'v) future) = {#}" for n by (simp_all add: fut_toks_def fut_new_def due_tok_def)
  show "world_inv L (fst (create_future w))"
    using w append_fut(1,2) [of w fut_new, OF t(1)] append_fut_ok [OF w, of fut_new]
    by (simp add: world_inv_def create_future_def t) (simp add: fut_new_def)
next
  let ?n = "length (w_futs w)"
  let ?x = "fut_new\<lparr>f_task := Some \<lparr>must_cancel = False, fut_waiter = None\<rparr>\<rparr> :: ('u, 'v) future"
  let ?w1 = "w\<lparr>w_futs := w_futs w @ [?x]\<rparr>"
  have t: "fut_toks ?n ?x = {#}" "due_tok ?n ?x = {#TStep ?n#}" by (simp_all add: fut_toks_def fut_new_def due_tok_def)
  have inv: "loop_inv (w_loop ?w1)" using w by (simp add: world_inv_def)
  obtain w2 where w2: "w_call_soon ?w1 (Step ?n None) = Inr w2" "loop_inv (w_loop w2)" "w_futs w2 = w_futs ?w1" "w_current w2 = w_current ?w1"
      "l_phase (w_loop w2) = l_phase (w_loop ?w1)" "ready_toks (w_loop w2) = ready_toks (w_loop ?w1) + {#TStep ?n#}"
    using w_call_soon_ok [OF inv, of "Step ?n None"] by auto
  have fw: "fut w2 = fut ?w1" using w2(3) by (simp add: fut_def fun_eq_iff)
  have "wake_ok L w2" using append_fut_ok(2) [OF w, of ?x] unfolding wake_ok_def fw w2 by (simp add: fut_new_def)
  moreover have "all_toks w2 = all_toks ?w1 + {#TStep ?n#}" "due_toks w2 = due_toks ?w1"
    unfolding all_toks_def due_toks_def fw w2 by (simp_all add: ac_simps)
  moreover have "\<forall>f < length (w_futs w2). fut_ok (length (w_futs w2)) (fut w2 f)"
    using append_fut_ok(1) [OF w, of ?x] unfolding fw w2 by (simp add: fut_new_def)
  ultimately have "world_inv L w2"
    using w w2 append_fut(1,2) [of w ?x, OF t(1)] t(2) by (simp add: world_inv_def)
  then show "world_inv L (fst (task_new w))" using w2(1) by (simp add: task_new_def)
qed

lemma with_loop_user_ok:
  assumes w: "world_inv L w" and u: "user_event (w_loop w) e" and st: "with_loop w e = Some w'"
  shows "world_inv L w'"
proof -
  obtain l called where l: "loop_step e (w_loop w) = Some (l, called)" "w' = w\<lparr>w_loop := l\<rparr>" using st by (auto simp: with_loop_def)
  have inv: "loop_inv (w_loop w)" using w by (simp add: world_inv_def)
  show ?thesis using user_event_ok [OF inv u l(1)] w l(2) by (intro with_loop_ok [OF w, of l, folded l(2)]) (auto simp: world_inv_def)
qed

lemma current_due:
  assumes w: "world_inv L w" and t: "w_current w = Some t"
  shows "t < length (w_futs w)" "due_tok t (fut w t) = {#TStep t#}"
proof -
  have "TStep t \<in># due_toks w" using w t by (auto simp: world_inv_def all_toks_def) (metis union_single_eq_member)
  then show "t < length (w_futs w)" "due_tok t (fut w t) = {#TStep t#}"
    by (rule due_step, auto simp: due_tok_task)+
qed

lemma coro_ends_ok:
  assumes w: "world_inv L w" and st: "coro_ends w out = Some w'"
    and out: "out \<noteq> CoroRaise StopIteration" "\<And>g. out = CoroYield g \<Longrightarrow> g < length (w_futs w)"
  shows "world_inv L w'"
proof -
  obtain t where t: "w_current w = Some t" using st by (auto simp: coro_ends_def split: option.splits)
  have b: "balanced L {#} w" using w by (simp add: world_inv_balanced)
  note e = step_end_ok [OF b t current_due [OF w t] out]
  have "with_loop (fst (step_end w t out)) (run_end (snd (step_end w t out))) = Some w'"
    using st t by (simp add: coro_ends_def)
  then show ?thesis using e by (intro end_event_ok [where w = "fst (step_end w t out)"]) (auto simp: run_end_def split: sum.splits)
qed

lemma async_step_ok:
  assumes w: "world_inv L w" and st: "async_step e w = Some w'"
  shows "world_ok w'"
proof -
  have b: "balanced L {#} w" using w by (simp add: world_inv_balanced)
  have ok: "world_inv L v \<Longrightarrow> world_ok v" for v :: "('a, 'b) world" by (auto simp: world_ok_def)
  note keep = world_inv_same_shape [OF w, THEN ok]
  show ?thesis
  proof (cases e)
    case (Do e)
    then show ?thesis using st ok [OF with_loop_user_ok [OF w]] by (auto split: if_splits)
  next
    case (SetResult f v)
    then show ?thesis using st ok [OF w] keep [OF set_result_keeps [OF b]] by (auto simp: on_future_def split: if_splits)
  next
    case (SetException f v)
    then show ?thesis using st ok [OF w] keep [OF set_exception_keeps [OF b]] by (auto simp: on_future_def split: if_splits)
  next
    case (CancelObject f)
    then show ?thesis using st keep [OF task_cancel_ok [OF b]] by (auto simp: on_future_def split: if_splits)
  next
    case (AddDone f u)
    then have "f < length (w_futs w)" "w' = fst (add_done_callback w f (DoneUser u))" using st by (auto simp: on_future_def split: if_splits)
    then show ?thesis using keep [of w'] add_done_callback_ok [OF b, of f "DoneUser u"] by auto
  next
    case (RemoveDone f u)
    then show ?thesis using st keep [OF remove_done_callback_ok [OF b]] by (auto simp: on_future_def split: if_splits)
  next
    case (GetResult f)
    then show ?thesis using st keep [OF reads_ok(1) [OF b]] by (auto simp: on_future_def split: if_splits)
  next
    case (GetException f)
    then show ?thesis using st keep [OF reads_ok(2) [OF b]] by (auto simp: on_future_def split: if_splits)
  next
    case (CoroEnds out)
    then show ?thesis using st ok [OF coro_ends_ok [OF w, of out]] by (cases out) (auto split: if_splits)
  next
    case (CoroAwaits f)
    then have f: "f < length (w_futs w)" "coro_ends (await_future w f) (CoroYield f) = Some w'" using st by (auto split: if_splits)
    have "balanced L {#} (await_future w f) \<and> same_shape w (await_future w f)"
      using put_fut_plain [OF b f(1), of "(fut w f)\<lparr>f_blocking := True\<rparr>"] by (simp add: await_future_def)
    then show ?thesis using coro_ends_ok [OF world_inv_same_shape [OF w] f(2)] f(1) by (auto simp: same_shape_def intro!: ok)
  qed (use st create_ok [OF w, THEN ok] call_next_ok [OF w] ok [OF end_event_ok [OF b]] in \<open>auto split: if_splits\<close>)
qed

lemma async_run_ok: "world_ok w \<Longrightarrow> async_run es w = Some w' \<Longrightarrow> world_ok w'"
  unfolding world_ok_def
proof (induction es arbitrary: w)
  case (Cons e es)
  then show ?case using async_step_ok [of _ w e] by (fastforce simp: world_ok_def split: option.splits)
qed auto

lemma world_ok_new: "world_ok (world_new :: ('u, 'v) world)"
proof -
  have "loop_inv (loop_new :: 'u acb loop)" using loop_ok_new unfolding loop_inv_def by (auto simp: loop_new_def)
  moreover have "ready_toks (loop_new :: 'u acb loop) = {#}" by (simp add: ready_toks_def loop_new_def)
  ultimately show ?thesis 
    by (auto intro!: exI [of _ "{#}"] simp: world_ok_def world_inv_def world_new_def all_toks_def due_toks_def wake_ok_def)
qed

end
