(* ===== verification/Task_Wakeups.thy ===== *)
theory Task_Wakeups
  imports Task_Runs
begin

text \<open>What the invariant of \<open>Task_Runs\<close> says of the ready queue, the callbacks of the futures and the task that runs, for any run of a program.\<close>

definition ready_calls :: "'c loop \<Rightarrow> 'c list" where
  "ready_calls l = List.map_filter (\<lambda>h. h_callback (l_handles l ! h)) (l_ready l)"

fun step_of :: "nat \<Rightarrow> 'u acb \<Rightarrow> bool" where
  "step_of t (Step u exc) = (u = t)"
| "step_of t _ = False"

fun wakeup_of :: "nat \<Rightarrow> nat \<Rightarrow> 'u acb \<Rightarrow> bool" where
  "wakeup_of t f (Wakeup u g) = (u = t \<and> g = f)"
| "wakeup_of t f _ = False"

fun wakes :: "nat \<Rightarrow> 'u done_callback \<Rightarrow> bool" where
  "wakes t (DoneWakeup u) = (u = t)"
| "wakes t _ = False"

definition task_steps :: "('u, 'v) world \<Rightarrow> nat \<Rightarrow> nat" where
  "task_steps w t = length (filter (step_of t) (ready_calls (w_loop w))) + (if w_current w = Some t then 1 else 0)"

definition ready_wakeups :: "('u, 'v) world \<Rightarrow> nat \<Rightarrow> nat \<Rightarrow> nat" where
  "ready_wakeups w t f = length (filter (wakeup_of t f) (ready_calls (w_loop w)))"

definition future_wakeups :: "('u, 'v) world \<Rightarrow> nat \<Rightarrow> nat \<Rightarrow> nat" where
  "future_wakeups w t f = length (filter (wakes t) (f_callbacks (fut w f)))"

lemma count_tok_of: "Multiset.count (tok_of c) (TStep t) = (if step_of t c then 1 else 0)"
  "Multiset.count (tok_of c) (TWake t f) = (if wakeup_of t f c then 1 else 0)"
  by (cases c; simp)+

lemma count_ready_toks:
  "Multiset.count (ready_toks l) (TStep t) = length (filter (step_of t) (ready_calls l))"
  "Multiset.count (ready_toks l) (TWake t f) = length (filter (wakeup_of t f) (ready_calls l))"
proof -
  have "Multiset.count (\<Sum>h\<leftarrow>hs. handle_toks (l_handles l ! h)) (TStep t) =
      length (filter (step_of t) (List.map_filter (\<lambda>h. h_callback (l_handles l ! h)) hs)) \<and>
    Multiset.count (\<Sum>h\<leftarrow>hs. handle_toks (l_handles l ! h)) (TWake t f) =
      length (filter (wakeup_of t f) (List.map_filter (\<lambda>h. h_callback (l_handles l ! h)) hs))" for hs
    by (induction hs) (auto simp: map_filter_simps handle_toks_def count_tok_of split: option.splits)
  then show "Multiset.count (ready_toks l) (TStep t) = length (filter (step_of t) (ready_calls l))"
    "Multiset.count (ready_toks l) (TWake t f) = length (filter (wakeup_of t f) (ready_calls l))"
    by (simp_all add: ready_toks_def ready_calls_def)
qed

lemma count_fut_toks:
  "Multiset.count (fut_toks g x) (TStep t) = 0"
  "Multiset.count (fut_toks g x) (TWake t f) = (if g = f then length (filter (wakes t) (f_callbacks x)) else 0)"
proof -
  have "Multiset.count (\<Sum>c\<leftarrow>cs. tok_of (callback_for g c)) (TStep t) = 0 \<and>
    Multiset.count (\<Sum>c\<leftarrow>cs. tok_of (callback_for g c)) (TWake t f) = (if g = f then length (filter (wakes t) cs) else 0)"
    for cs :: "'a done_callback list"
  proof (induction cs)
    case (Cons c cs)
    then show ?case by (cases c) auto
  qed simp
  then show "Multiset.count (fut_toks g x) (TStep t) = 0"
    "Multiset.count (fut_toks g x) (TWake t f) = (if g = f then length (filter (wakes t) (f_callbacks x)) else 0)"
    by (simp_all add: fut_toks_def)
qed

lemma count_all_toks:
  "Multiset.count (all_toks w) (TStep t) = task_steps w t"
  "f < length (w_futs w) \<Longrightarrow> Multiset.count (all_toks w) (TWake t f) = ready_wakeups w t f + future_wakeups w t f"
  by (auto simp: all_toks_def count_sum count_ready_toks count_fut_toks task_steps_def ready_wakeups_def future_wakeups_def
      split: option.splits)

lemma count_due_tok:
  "Multiset.count (due_tok u x) (TStep t) =
     (if u = t \<and> f_state x = PENDING \<and> (\<exists>p. f_task x = Some p \<and> fut_waiter p = None) then 1 else 0)"
  "Multiset.count (due_tok u x) (TWake t f) =
     (if u = t \<and> f_state x = PENDING \<and> (\<exists>p. f_task x = Some p \<and> fut_waiter p = Some f) then 1 else 0)"
  by (auto simp: due_tok_def split: option.splits)

lemma one_index:
  fixes t :: nat
  assumes "t < n"
  shows "(\<Sum>a<n. if a = t \<and> P a then 1 else 0 :: nat) = (if P t then 1 else 0)"
proof -
  have "(\<Sum>a<n. if a = t \<and> P a then 1 else 0 :: nat) = (\<Sum>a<n. if a = t then (if P t then 1 else 0) else 0)"
    by (intro sum.cong) auto
  also have "\<dots> = (if P t then 1 else 0)" using assms by (simp only: sum.delta [OF finite_lessThan]) simp
  finally show ?thesis .
qed

lemma count_due_toks:
  assumes "t < length (w_futs w)" "f_task (fut w t) = Some p"
  shows "Multiset.count (due_toks w) (TStep t) = (if f_state (fut w t) = PENDING \<and> fut_waiter p = None then 1 else 0)"
    "Multiset.count (due_toks w) (TWake t f) = (if f_state (fut w t) = PENDING \<and> fut_waiter p = Some f then 1 else 0)"
  unfolding due_toks_def count_sum count_due_tok one_index [OF assms(1)] using assms(2) by simp_all

text \<open>Every token that is due is there or lost, so it is counted once.\<close>

lemma tok_counts:
  assumes "world_inv L w" "t < length (w_futs w)" "f_task (fut w t) = Some p"
  shows "task_steps w t + Multiset.count L (TStep t) = (if \<not> future_done w t \<and> fut_waiter p = None then 1 else 0)"
    "f < length (w_futs w) \<Longrightarrow> ready_wakeups w t f + future_wakeups w t f + Multiset.count L (TWake t f) =
       (if \<not> future_done w t \<and> fut_waiter p = Some f then 1 else 0)"
proof -
  have "all_toks w + L = due_toks w" using assms(1) by (simp add: world_inv_def)
  then have c: "Multiset.count (all_toks w) k + Multiset.count L k = Multiset.count (due_toks w) k" for k by (metis count_union)
  show "task_steps w t + Multiset.count L (TStep t) = (if \<not> future_done w t \<and> fut_waiter p = None then 1 else 0)"
    using c [of "TStep t"] count_due_toks(1) [OF assms(2,3)] by (simp add: count_all_toks future_done_def)
  show "ready_wakeups w t f + future_wakeups w t f + Multiset.count L (TWake t f) =
       (if \<not> future_done w t \<and> fut_waiter p = Some f then 1 else 0)" if "f < length (w_futs w)"
    using c [of "TWake t f"] count_due_toks(2) [OF assms(2,3)] that by (simp add: count_all_toks future_done_def)
qed

lemma lost_wakeup:
  assumes "world_inv L w" "x \<in># L"
  obtains t f where "x = TWake t f" "failed_base (fut w f)"
  using assms unfolding world_inv_def wake_ok_def by blast

text \<open>C1: whatever a program does with the loop, the futures and the tasks, a task that is not done and waits for nothing has exactly one step that is
  scheduled or running; one that waits for a future has no step, and one wake-up, by that future: among its callbacks as long as the future is
  not done, and in the ready queue from then on. A task that is done has neither. So no task is stepped twice, and the only wake-up that can be lost
  is that by a future whose exception is no \<open>Exception\<close>.\<close>

theorem task_wakeups:
  assumes "async_run es world_new = Some w" "t < length (w_futs w)" "f_task (fut w t) = Some p"
  shows "task_steps w t = (if \<not> future_done w t \<and> fut_waiter p = None then 1 else 0) \<and>
     (\<forall>f < length (w_futs w).
        if future_done w t \<or> fut_waiter p \<noteq> Some f then ready_wakeups w t f = 0 \<and> future_wakeups w t f = 0
        else if \<not> future_done w f then ready_wakeups w t f = 0 \<and> future_wakeups w t f = 1
        else future_wakeups w t f = 0 \<and> (if failed_base (fut w f) then ready_wakeups w t f \<le> 1 else ready_wakeups w t f = 1)) \<and>
     (\<not> future_done w t \<longrightarrow> (case fut_waiter p of None \<Rightarrow> True | Some f \<Rightarrow> f < length (w_futs w)))"
proof -
  obtain L where ok: "world_inv L w" using async_run_ok [OF world_ok_new assms(1)] by (auto simp: world_ok_def)
  then have fo: "\<forall>f < length (w_futs w). fut_ok (length (w_futs w)) (fut w f)" and wake: "wake_ok L w" by (simp_all add: world_inv_def)
  note counts = tok_counts [OF ok assms(2,3)]
  have pending: "future_done w f" if "ready_wakeups w t f \<noteq> 0" for f
  proof -
    have "Multiset.count (ready_toks (w_loop w)) (TWake t f) \<noteq> 0" using that by (simp add: count_ready_toks ready_wakeups_def)
    then show ?thesis using wake by (simp add: wake_ok_def future_done_def)
  qed
  have finished: "future_wakeups w t f = 0" if "f < length (w_futs w)" "future_done w f" for f
    using fo that by (simp add: fut_ok_def future_done_def future_wakeups_def)
  have lost: "Multiset.count L (TWake t f) = 0" if "\<not> failed_base (fut w f)" for f
    using lost_wakeup [OF ok, of "TWake t f"] that by (auto simp: count_eq_zero_iff)
  have "task_steps w t = (if \<not> future_done w t \<and> fut_waiter p = None then 1 else 0)"
  proof -
    have "TStep t \<notin># L" using lost_wakeup [OF ok, of "TStep t"] by blast
    then have "Multiset.count L (TStep t) = 0" by (simp add: count_eq_zero_iff)
    then show ?thesis using counts(1) by simp
  qed
  moreover have "if future_done w t \<or> fut_waiter p \<noteq> Some f then ready_wakeups w t f = 0 \<and> future_wakeups w t f = 0
      else if \<not> future_done w f then ready_wakeups w t f = 0 \<and> future_wakeups w t f = 1
      else future_wakeups w t f = 0 \<and> (if failed_base (fut w f) then ready_wakeups w t f \<le> 1 else ready_wakeups w t f = 1)"
    if "f < length (w_futs w)" for f
  proof (cases "future_done w f")
    case True
    then show ?thesis using counts(2) [OF that] finished [OF that True] lost [of f] by (auto split: if_splits)
  next
    case False
    then have "\<not> failed_base (fut w f)" by (simp add: future_done_def)
    then show ?thesis using counts(2) [OF that] False pending [of f] lost [of f] by (cases "ready_wakeups w t f = 0") (auto split: if_splits)
  qed
  moreover have "\<not> future_done w t \<longrightarrow> (case fut_waiter p of None \<Rightarrow> True | Some f \<Rightarrow> f < length (w_futs w))"
    using fo assms(2,3) by (auto simp: fut_ok_def future_done_def split: option.splits)
  ultimately show ?thesis by blast
qed

text \<open>
  Future 0 and task 1, which awaits it; the future gets its result, so the task's wake-up is ready; and task 2, which runs.
\<close>

definition woken_run :: "(nat, nat) async_event list" where
  "woken_run = [CreateFuture, CreateTask, CreateTask, Do RunForever, Do (Tick 0), Do (Polled [] 0), CallNext, CoroAwaits 0, CallNext, SetResult 0 7]"

lemma woken_run_result:
  "case async_run woken_run world_new of None \<Rightarrow> False
   | Some w \<Rightarrow> length (w_futs w) = 3 \<and> f_task (fut w 1) = Some \<lparr>must_cancel = False, fut_waiter = Some 0\<rparr> \<and> future_done w 0 \<and> \<not> future_done w 1 \<and>
      \<not> failed_base (fut w 0) \<and>
      f_task (fut w 2) = Some \<lparr>must_cancel = False, fut_waiter = None\<rparr> \<and> w_current w = Some 2 \<and> \<not> future_done w 2"
  by code_simp

theorem task_wakeups_witness:
  "\<exists>w. async_run woken_run world_new = Some w \<and> ready_wakeups w 1 0 = 1 \<and> future_wakeups w 1 0 = 0 \<and> task_steps w 1 = 0 \<and> task_steps w 2 = 1"
proof -
  obtain w where w: "async_run woken_run world_new = Some w" "length (w_futs w) = 3"
      "f_task (fut w 1) = Some \<lparr>must_cancel = False, fut_waiter = Some 0\<rparr>" "future_done w 0" "\<not> future_done w 1"
      "\<not> failed_base (fut w 0)"
      "f_task (fut w 2) = Some \<lparr>must_cancel = False, fut_waiter = None\<rparr>" "w_current w = Some 2" "\<not> future_done w 2"
    using woken_run_result by (auto split: option.splits)
  show ?thesis using task_wakeups [OF w(1) _ w(3)] task_wakeups [OF w(1) _ w(7)] w by fastforce
qed

text \<open>C6: when the loop takes a handle whose callback is a step or a wake-up of a task, the task is not done and no other runs. It is entered, then
  waits for nothing, a cancellation asked for before is no longer pending, and what the coroutine is resumed with is \<open>CancelledError\<close> if there was
  one or the future was cancelled, else the exception of the future or of the step, if any, and its value otherwise. The one exception is a wake-up
  by a future whose exception is no \<open>Exception\<close>: it is raised out of the loop, which stops, and the task, still waiting for that future, is left
  without any step or wake-up.\<close>

theorem task_entered:
  assumes "async_run es world_new = Some w" "loop_step Next (w_loop w) = Some (l, Some h)" "h_callback (l_handles l ! h) = Some c"
    and "step_of t c \<or> (\<exists>f. wakeup_of t f c)"
  shows "\<not> future_done w t \<and> w_current w = None \<and>
     (if wakeup_fails w c
      then \<exists>f e v w'. c = Wakeup t f \<and> f_exception (fut w f) = Some e \<and> \<not> is_exception e \<and> begin_call (w\<lparr>w_loop := l\<rparr>) c = (v, Inl e) \<and>
        async_step CallNext w = Some w' \<and> l_phase (w_loop w') = Off \<and> w_current w' = None \<and> fut w' t = fut w t \<and> task_steps w' t = 0 \<and>
        (\<forall>g < length (w_futs w'). ready_wakeups w' t g = 0 \<and> future_wakeups w' t g = 0)
      else \<exists>w'. begin_call (w\<lparr>w_loop := l\<rparr>) c = (w', Inr (thrown_by w c)) \<and> async_step CallNext w = Some w' \<and> w_current w' = Some t \<and>
        \<not> future_done w' t \<and> f_task (fut w' t) = Some \<lparr>must_cancel = False, fut_waiter = None\<rparr>)"
proof -
  obtain L where ok: "world_inv L w" using async_run_ok [OF world_ok_new assms(1)] by (auto simp: world_ok_def)
  obtain x where x: "tok_of c = {#x#}" "x = TStep t \<or> (\<exists>f. x = TWake t f)" using assms(4) by (cases c) auto
  note B = begin_call_ok [OF ok assms(2,3) x]
  have inv: "loop_inv (w_loop w)" using ok by (simp add: world_inv_def)
  note nx = next_ok [OF inv assms(2)]
  have idle: "w_current w = None" using ok nx(3) by (auto simp: world_inv_def)
  have "x \<in># due_toks w"
  proof -
    have "x \<in># ready_toks (w_loop w)" using nx(2,4) assms(3) x(1) by (simp add: handle_toks_def)
    then have "x \<in># all_toks w + L" by (simp add: all_toks_def)
    moreover have "all_toks w + L = due_toks w" using ok by (simp add: world_inv_def)
    ultimately show ?thesis by (simp only:)
  qed
  then obtain p where p: "t < length (w_futs w)" "f_task (fut w t) = Some p" "f_state (fut w t) = PENDING"
    "x = (case fut_waiter p of None \<Rightarrow> TStep t | Some g \<Rightarrow> TWake t g)"
    using x(2) by (elim due_toks_elem) (auto split: option.splits)
  have nd: "\<not> future_done w t" using p(3) by (simp add: future_done_def)
  show ?thesis
  proof (cases "wakeup_fails w c")
    case True
    obtain f e v where v: "c = Wakeup t f" "f_exception (fut w f) = Some e" "\<not> is_exception e" "begin_call (w\<lparr>w_loop := l\<rparr>) c = (v, Inl e)"
        "balanced (L + {#x#}) {#} v" "w_current v = None" "w_loop v = l" "fut v t = fut w t" "length (w_futs v) = length (w_futs w)"
      using B(2) [OF True] by blast
    obtain n where n: "l_phase l = Calling n" using nx(3) by auto
    let ?w' = "v\<lparr>w_loop := loop_finish l\<rparr>"
    have al: "with_loop v Aborted = Some ?w'" using n v(7) by (simp add: with_loop_def)
    have st: "async_step CallNext w = Some ?w'"
      using assms(2,3) v(3,4) al by (simp add: call_next_def after_begin_def run_end_def)
    have ok': "world_inv (L + {#x#}) ?w'" by (rule end_event_ok [OF v(5,6) _ al]) simp
    have same: "fut ?w' t = fut w t" "length (w_futs ?w') = length (w_futs w)" using v(8,9) by (simp_all add: fut_def)
    have wf: "fut_waiter p = Some f" "x = TWake t f" using p(4) v(1) x(1) by (auto split: option.splits)
    note counts = tok_counts [OF ok', of t p, unfolded same, OF p(1,2)]
    have "task_steps ?w' t = 0" using counts(1) wf(1) by simp
    moreover have "ready_wakeups ?w' t g = 0 \<and> future_wakeups ?w' t g = 0" if "g < length (w_futs ?w')" for g
      using counts(2) [of g] that same wf by (cases "g = f") (auto split: if_splits)
    ultimately show ?thesis using True v st same(1) nd idle by (auto simp: loop_finish_def intro!: exI [of _ ?w'])
  next
    case False
    then obtain w' where w': "begin_call (w\<lparr>w_loop := l\<rparr>) c = (w', Inr (thrown_by w c))" "world_inv L w'" "w_current w' = Some t"
        "f_task (fut w' t) = Some \<lparr>must_cancel = False, fut_waiter = None\<rparr>"
      using B(1) by blast
    have "async_step CallNext w = Some w'" using assms(2,3) w'(1) by (simp add: call_next_def after_begin_def)
    moreover have "\<not> future_done w' t" using current_due(2) [OF w'(2,3)] by (auto simp: future_done_def due_tok_def split: option.splits if_splits)
    ultimately show ?thesis using w' False nd idle by auto
  qed
qed

text \<open>
  Task 1 awaits future 0 and is cancelled by task 2: the future is cancelled, and the task's next step throws \<open>CancelledError\<close>. In the second run task 0
  awaits task 1, which raises \<open>KeyboardInterrupt\<close>; the loop is started again, and task 0 is never resumed.
\<close>

definition cancelled_run :: "(nat, nat) async_event list" where
  "cancelled_run = [CreateFuture, CreateTask, CreateTask, Do RunForever, Do (Tick 0), Do (Polled [] 0), CallNext, CoroAwaits 0,
     CallNext, CancelObject 1, CoroEnds CoroYieldNone, Do Finish, Do (Tick 0), Do (Polled [] 0)]"

definition interrupted_run :: "(nat, nat) async_event list" where
  "interrupted_run = [CreateTask, CreateTask, Do RunForever, Do (Tick 0), Do (Polled [] 0), CallNext, CoroAwaits 1,
     CallNext, CoroEnds (CoroRaise KeyboardInterrupt), Do RunForever, Do (Tick 0), Do (Polled [] 0)]"

lemma cancelled_run_result:
  "case async_run cancelled_run world_new of None \<Rightarrow> False
   | Some w \<Rightarrow> future_cancelled w 0 \<and> \<not> failed_base (fut w 0) \<and>
      (case loop_step Next (w_loop w) of None \<Rightarrow> False
       | Some (l, called) \<Rightarrow> called = Some 2 \<and> h_callback (l_handles l ! 2) = Some (Wakeup 1 0))"
  by code_simp

lemma interrupted_run_result:
  "case async_run interrupted_run world_new of None \<Rightarrow> False
   | Some w \<Rightarrow> failed_base (fut w 1) \<and>
      (case loop_step Next (w_loop w) of None \<Rightarrow> False
       | Some (l, called) \<Rightarrow> called = Some 2 \<and> h_callback (l_handles l ! 2) = Some (Wakeup 0 1))"
  by code_simp

theorem task_entered_witness:
  "(\<exists>w w'. async_run cancelled_run world_new = Some w \<and> async_step CallNext w = Some w' \<and> w_current w' = Some 1 \<and>
     thrown_by w (Wakeup 1 0) = Some CancelledError) \<and>
   (\<exists>w w'. async_run interrupted_run world_new = Some w \<and> async_step CallNext w = Some w' \<and> w_current w' = None \<and>
     \<not> future_done w' 0 \<and> task_steps w' 0 = 0)"
proof (rule conjI)
  obtain w l where w: "async_run cancelled_run world_new = Some w" "future_cancelled w 0" "\<not> failed_base (fut w 0)"
      "loop_step Next (w_loop w) = Some (l, Some 2)" "h_callback (l_handles l ! 2) = Some (Wakeup 1 0)"
    using cancelled_run_result by (auto split: option.splits)
  have "step_of 1 (Wakeup 1 0 :: nat acb) \<or> (\<exists>f. wakeup_of 1 f (Wakeup 1 0 :: nat acb))" by simp
  from task_entered [OF w(1,4,5) this]
  show "\<exists>w w'. async_run cancelled_run world_new = Some w \<and> async_step CallNext w = Some w' \<and> w_current w' = Some 1 \<and>
     thrown_by w (Wakeup 1 0) = Some CancelledError"
    using w(1-3) by (auto simp: thrown_by_def)
next
  obtain w l where w: "async_run interrupted_run world_new = Some w" "failed_base (fut w 1)"
      "loop_step Next (w_loop w) = Some (l, Some 2)" "h_callback (l_handles l ! 2) = Some (Wakeup 0 1)"
    using interrupted_run_result by (auto split: option.splits)
  have "step_of 0 (Wakeup 0 1 :: nat acb) \<or> (\<exists>f. wakeup_of 0 f (Wakeup 0 1 :: nat acb))" by simp
  from task_entered [OF w(1,3,4) this]
  show "\<exists>w w'. async_run interrupted_run world_new = Some w \<and> async_step CallNext w = Some w' \<and> w_current w' = None \<and>
     \<not> future_done w' 0 \<and> task_steps w' 0 = 0"
    using w(1,2) by (auto simp: future_done_def)
qed

end
