(* ===== verification/Stream_Reader.thy ===== *)
theory Stream_Reader
  imports Prelude
begin

text \<open>
  \<open>StreamReader\<close> of \<open>python-stdlib/asyncio/streams.py\<close>: the buffer that a transport fills and coroutines read from, with its limit and
  its flow control. A coroutine is cut at its \<open>await\<close>: what is left of it is a \<open>frame\<close>. The future it awaits is named by a number.
\<close>

section \<open>The reader\<close>

datatype wait_state = WPending | WResult | WError exn | WCancelled

text \<open>
  The transport is there or not, whether it can be paused, and whether it is reading: \<open>pause_reading\<close> and \<open>resume_reading\<close> change that.
\<close>

record reader =
  r_limit :: nat
  r_buffer :: bytes
  r_eof :: bool
  r_waiter :: "nat option"
  r_exception :: "exn option"
  r_transport :: bool
  r_paused :: bool
  r_can_pause :: bool
  r_reading :: bool
  r_fut :: "nat \<Rightarrow> wait_state"
  r_next :: nat

definition reader_new :: "nat \<Rightarrow> bool \<Rightarrow> reader result" where
  "reader_new limit can_pause =
     (if limit \<le> 0 then Inl ValueError
      else Inr \<lparr>r_limit = limit, r_buffer = [], r_eof = False, r_waiter = None, r_exception = None, r_transport = False, r_paused = False,
                r_can_pause = can_pause, r_reading = True, r_fut = (\<lambda>_. WPending), r_next = 0\<rparr>)"

definition set_transport :: "reader \<Rightarrow> reader result" where
  "set_transport r = (if r_transport r then Inl AssertionError else Inr (r\<lparr>r_transport := True\<rparr>))"

definition set_stream_exception :: "reader \<Rightarrow> exn \<Rightarrow> reader" where
  "set_stream_exception r e =
     (let r = r\<lparr>r_exception := Some e\<rparr> in
      case r_waiter r of
        None \<Rightarrow> r
      | Some f \<Rightarrow>
          let r = r\<lparr>r_waiter := None\<rparr> in
          if r_fut r f \<noteq> WCancelled then r\<lparr>r_fut := (r_fut r)(f := WError e)\<rparr> else r)"

definition wakeup_waiter :: "reader \<Rightarrow> reader" where
  "wakeup_waiter r =
     (case r_waiter r of
        None \<Rightarrow> r
      | Some f \<Rightarrow>
          let r = r\<lparr>r_waiter := None\<rparr> in
          if r_fut r f \<noteq> WCancelled then r\<lparr>r_fut := (r_fut r)(f := WResult)\<rparr> else r)"

definition resume_transport :: "reader \<Rightarrow> reader" where
  "resume_transport r = r\<lparr>r_paused := False, r_reading := True\<rparr>"

definition maybe_resume_transport :: "reader \<Rightarrow> reader" where
  "maybe_resume_transport r = (if r_paused r \<and> length (r_buffer r) \<le> r_limit r then resume_transport r else r)"

definition feed_eof :: "reader \<Rightarrow> reader" where
  "feed_eof r = wakeup_waiter (r\<lparr>r_eof := True\<rparr>)"

definition at_eof :: "reader \<Rightarrow> bool" where
  "at_eof r \<longleftrightarrow> r_eof r \<and> r_buffer r = []"

definition feed_data :: "reader \<Rightarrow> bytes \<Rightarrow> reader result" where
  "feed_data r data =
     (if r_eof r then Inl AssertionError
      else if data = [] then Inr r
      else let r = wakeup_waiter (r\<lparr>r_buffer := r_buffer r @ data\<rparr>) in
           if r_transport r \<and> \<not> r_paused r \<and> length (r_buffer r) > 2 * r_limit r
           then if r_can_pause r then Inr (r\<lparr>r_reading := False, r_paused := True\<rparr>) else Inr (r\<lparr>r_transport := False\<rparr>)
           else Inr r)"

section \<open>Reading\<close>

text \<open>\<open>buf.find(sub, start)\<close> for a non-empty \<open>sub\<close>\<close>

definition bytes_find :: "bytes \<Rightarrow> bytes \<Rightarrow> nat \<Rightarrow> nat option" where
  "bytes_find buf sub start = List.find (\<lambda>i. take (length sub) (drop i buf) = sub) [start ..< Suc (length buf) - length sub]"

datatype read_error = IncompleteReadError bytes "nat option" | LimitOverrunError nat | Plain exn

text \<open>Where a suspended coroutine goes on. \<open>read(n)\<close> with a negative \<open>n\<close> has collected blocks, and is in a \<open>read(limit)\<close>.\<close>

datatype frame = InUntil bytes nat | InLine nat | InRead nat | InReadAll "bytes list" | InExactly nat

datatype outcome = Ret bytes | Raise read_error | Await nat frame

definition wait_for_data :: "reader \<Rightarrow> frame \<Rightarrow> outcome \<times> reader" where
  "wait_for_data r k =
     (if r_waiter r \<noteq> None then (Raise (Plain RuntimeError), r)
      else if r_eof r then (Raise (Plain AssertionError), r)
      else let r = (if r_paused r then resume_transport r else r);
               f = r_next r
           in (Await f k, r\<lparr>r_next := f + 1, r_fut := (r_fut r)(f := WPending), r_waiter := Some f\<rparr>))"

definition consume :: "reader \<Rightarrow> nat \<Rightarrow> bytes \<times> reader" where
  "consume r n = (take n (r_buffer r), r\<lparr>r_buffer := drop n (r_buffer r)\<rparr>)"

text \<open>The loop of \<open>readuntil\<close> until it waits or ends; \<open>k\<close> makes the frame for the new offset.\<close>

definition until_pass :: "reader \<Rightarrow> bytes \<Rightarrow> nat \<Rightarrow> (nat \<Rightarrow> frame) \<Rightarrow> outcome \<times> reader" where
  "until_pass r sep offset k =
     (let buflen = length (r_buffer r);
          enough = buflen - offset \<ge> length sep;
          isep = (if enough then bytes_find (r_buffer r) sep offset else None);
          offset = (if enough then buflen + 1 - length sep else offset)
      in case isep of
           Some i \<Rightarrow>
             if i > r_limit r then (Raise (LimitOverrunError i), r)
             else let (chunk, r) = consume r (i + length sep) in (Ret chunk, maybe_resume_transport r)
         | None \<Rightarrow>
             if enough \<and> offset > r_limit r then (Raise (LimitOverrunError offset), r)
             else if r_eof r then (Raise (IncompleteReadError (r_buffer r) None), r\<lparr>r_buffer := []\<rparr>)
             else wait_for_data r (k offset))"

definition readuntil :: "reader \<Rightarrow> bytes \<Rightarrow> outcome \<times> reader" where
  "readuntil r sep =
     (if sep = [] then (Raise (Plain ValueError), r)
      else case r_exception r of
             Some e \<Rightarrow> (Raise (Plain e), r)
           | None \<Rightarrow> until_pass r sep 0 (InUntil sep))"

definition newline :: bytes where
  "newline = [10]"

text \<open>What \<open>readline\<close> makes of the end of its \<open>readuntil\<close>\<close>

definition line_end :: "outcome \<times> reader \<Rightarrow> outcome \<times> reader" where
  "line_end a =
     (case a of
        (Raise (IncompleteReadError partial n), r) \<Rightarrow> (Ret partial, r)
      | (Raise (LimitOverrunError consumed), r) \<Rightarrow>
          let r = (if take (length newline) (drop consumed (r_buffer r)) = newline
                   then r\<lparr>r_buffer := drop (consumed + length newline) (r_buffer r)\<rparr> else r\<lparr>r_buffer := []\<rparr>)
          in (Raise (Plain ValueError), maybe_resume_transport r)
      | _ \<Rightarrow> a)"

definition readline :: "reader \<Rightarrow> outcome \<times> reader" where
  "readline r =
     (case r_exception r of
        Some e \<Rightarrow> (Raise (Plain e), r)
      | None \<Rightarrow> line_end (until_pass r newline 0 InLine))"

text \<open>\<open>read(n)\<close> for a positive \<open>n\<close>: after the wait, and before it\<close>

definition read_take :: "reader \<Rightarrow> nat \<Rightarrow> bytes \<times> reader" where
  "read_take r n = (let (data, r) = consume r n in (data, maybe_resume_transport r))"

function read_blocks :: "reader \<Rightarrow> bytes list \<Rightarrow> outcome \<times> reader" where
  "read_blocks r blocks =
     (case r_exception r of
        Some e \<Rightarrow> (Raise (Plain e), r)
      | None \<Rightarrow>
          if r_limit r = 0 then (Ret (concat blocks), r)
          else if r_buffer r = [] \<and> \<not> r_eof r then wait_for_data r (InReadAll blocks)
          else let (block, r') = read_take r (r_limit r) in
               if block = [] then (Ret (concat blocks), r') else read_blocks r' (blocks @ [block]))"
  by pat_completeness auto

lemma maybe_resume_buffer [simp]:
  "r_buffer (maybe_resume_transport r) = r_buffer r" "r_limit (maybe_resume_transport r) = r_limit r"
  "r_eof (maybe_resume_transport r) = r_eof r" "r_exception (maybe_resume_transport r) = r_exception r"
  "r_waiter (maybe_resume_transport r) = r_waiter r" "r_fut (maybe_resume_transport r) = r_fut r"
  "r_next (maybe_resume_transport r) = r_next r"
  by (simp_all add: maybe_resume_transport_def resume_transport_def)

termination read_blocks
  by (relation "measure (\<lambda>(r, _). length (r_buffer r))") (auto simp: read_take_def consume_def split: prod.splits)

declare read_blocks.simps [simp del]

definition read :: "reader \<Rightarrow> int \<Rightarrow> outcome \<times> reader" where
  "read r n =
     (case r_exception r of
        Some e \<Rightarrow> (Raise (Plain e), r)
      | None \<Rightarrow>
          if n = 0 then (Ret [], r)
          else if n < 0 then read_blocks r []
          else if r_buffer r = [] \<and> \<not> r_eof r then wait_for_data r (InRead (nat n))
          else let (data, r) = read_take r (nat n) in (Ret data, r))"

definition exactly_pass :: "reader \<Rightarrow> nat \<Rightarrow> outcome \<times> reader" where
  "exactly_pass r n =
     (if length (r_buffer r) < n
      then if r_eof r then (Raise (IncompleteReadError (r_buffer r) (Some n)), r\<lparr>r_buffer := []\<rparr>)
           else wait_for_data r (InExactly n)
      else let (data, r) = consume r n in (Ret data, maybe_resume_transport r))"

definition readexactly :: "reader \<Rightarrow> int \<Rightarrow> outcome \<times> reader" where
  "readexactly r n =
     (if n < 0 then (Raise (Plain ValueError), r)
      else case r_exception r of
             Some e \<Rightarrow> (Raise (Plain e), r)
           | None \<Rightarrow> if n = 0 then (Ret [], r) else exactly_pass r (nat n))"

datatype call = ReadUntil bytes | ReadLine | Read int | ReadExactly int

fun start_call :: "reader \<Rightarrow> call \<Rightarrow> outcome \<times> reader" where
  "start_call r (ReadUntil sep) = readuntil r sep"
| "start_call r ReadLine = readline r"
| "start_call r (Read n) = read r n"
| "start_call r (ReadExactly n) = readexactly r n"

text \<open>The coroutine goes on after its future: \<open>_waiter\<close> is reset, and an exception of the future goes through.\<close>

fun go_on :: "reader \<Rightarrow> frame \<Rightarrow> outcome \<times> reader" where
  "go_on r (InUntil sep offset) = until_pass r sep offset (InUntil sep)"
| "go_on r (InLine offset) = line_end (until_pass r newline offset InLine)"
| "go_on r (InRead n) = (let (data, r) = read_take r n in (Ret data, r))"
| "go_on r (InReadAll blocks) =
     (let (block, r) = read_take r (r_limit r) in if block = [] then (Ret (concat blocks), r) else read_blocks r (blocks @ [block]))"
| "go_on r (InExactly n) = exactly_pass r n"

definition resume_call :: "reader \<Rightarrow> nat \<Rightarrow> frame \<Rightarrow> outcome \<times> reader" where
  "resume_call r f k =
     (let state = r_fut r f; r = r\<lparr>r_waiter := None\<rparr> in
      case state of
        WError e \<Rightarrow> (Raise (Plain e), r)
      | WCancelled \<Rightarrow> (Raise (Plain CancelledError), r)
      | _ \<Rightarrow> go_on r k)"

definition cancel_wait :: "reader \<Rightarrow> nat \<Rightarrow> reader" where
  "cancel_wait r f = (if r_fut r f = WPending then r\<lparr>r_fut := (r_fut r)(f := WCancelled)\<rparr> else r)"

end
