(* ===== verification/Stream_Runs.thy ===== *)
theory Stream_Runs
  imports Stream_Reader
begin

text \<open>
  Runs of a reader that one coroutine at a time reads from, and the specification of the reads: what they give for the bytes that have arrived.
\<close>

section \<open>Runs\<close>

record stream =
  s_reader :: reader
  s_call :: "(nat \<times> frame \<times> call) option"

datatype stream_event =
    SetTransport | Feed bytes | FeedEof | FeedException exn | Start call | CancelRead | GoOn

definition suspended :: "call \<Rightarrow> outcome \<times> reader \<Rightarrow> stream" where
  "suspended c a =
     \<lparr>s_reader = snd a, s_call = (case fst a of Await f k \<Rightarrow> Some (f, k, c) | _ \<Rightarrow> None)\<rparr>"

fun stream_step :: "stream_event \<Rightarrow> stream \<Rightarrow> (stream \<times> outcome option) option" where
  "stream_step SetTransport s =
     (case set_transport (s_reader s) of Inl e \<Rightarrow> None | Inr r \<Rightarrow> Some (s\<lparr>s_reader := r\<rparr>, None))"
| "stream_step (Feed data) s =
     (case feed_data (s_reader s) data of Inl e \<Rightarrow> None | Inr r \<Rightarrow> Some (s\<lparr>s_reader := r\<rparr>, None))"
| "stream_step FeedEof s = Some (s\<lparr>s_reader := feed_eof (s_reader s)\<rparr>, None)"
| "stream_step (FeedException e) s = Some (s\<lparr>s_reader := set_stream_exception (s_reader s) e\<rparr>, None)"
| "stream_step (Start c) s =
     (if s_call s = None then let a = start_call (s_reader s) c in Some (suspended c a, Some (fst a)) else None)"
| "stream_step CancelRead s =
     (case s_call s of None \<Rightarrow> None | Some (f, k, c) \<Rightarrow> Some (s\<lparr>s_reader := cancel_wait (s_reader s) f\<rparr>, None))"
| "stream_step GoOn s =
     (case s_call s of
        None \<Rightarrow> None
      | Some (f, k, c) \<Rightarrow>
          if r_fut (s_reader s) f = WPending then None
          else let a = resume_call (s_reader s) f k in Some (suspended c a, Some (fst a)))"

fun stream_run :: "stream_event list \<Rightarrow> stream \<Rightarrow> stream option" where
  "stream_run [] s = Some s"
| "stream_run (e # es) s = (case stream_step e s of None \<Rightarrow> None | Some (s', out) \<Rightarrow> stream_run es s')"

definition stream_new :: "nat \<Rightarrow> bool \<Rightarrow> stream option" where
  "stream_new limit can_pause =
     (case reader_new limit can_pause of Inl e \<Rightarrow> None | Inr r \<Rightarrow> Some \<lparr>s_reader = r, s_call = None\<rparr>)"

section \<open>What the reads promise\<close>

text \<open>
  The end of a read of the bytes \<open>buf\<close> and what it leaves of them, or \<open>None\<close> when it has to wait for more.
\<close>

definition until_spec :: "nat \<Rightarrow> bytes \<Rightarrow> bytes \<Rightarrow> bool \<Rightarrow> (outcome \<times> bytes) option" where
  "until_spec limit sep buf eof =
     (case bytes_find buf sep 0 of
        Some i \<Rightarrow>
          Some (if i > limit then (Raise (LimitOverrunError i), buf) else (Ret (take (i + length sep) buf), drop (i + length sep) buf))
      | None \<Rightarrow>
          if length buf + 1 > limit + length sep then Some (Raise (LimitOverrunError (length buf + 1 - length sep)), buf)
          else if eof then Some (Raise (IncompleteReadError buf None), [])
          else None)"

definition line_spec :: "nat \<Rightarrow> bytes \<Rightarrow> bool \<Rightarrow> (outcome \<times> bytes) option" where
  "line_spec limit buf eof =
     (case bytes_find buf newline 0 of
        Some i \<Rightarrow> Some (if i > limit then Raise (Plain ValueError) else Ret (take (i + 1) buf), drop (i + 1) buf)
      | None \<Rightarrow>
          if length buf > limit then Some (Raise (Plain ValueError), [])
          else if eof then Some (Ret buf, []) else None)"

fun call_spec :: "nat \<Rightarrow> call \<Rightarrow> bytes \<Rightarrow> bool \<Rightarrow> (outcome \<times> bytes) option" where
  "call_spec limit (ReadUntil sep) buf eof =
     (if sep = [] then Some (Raise (Plain ValueError), buf) else until_spec limit sep buf eof)"
| "call_spec limit ReadLine buf eof = line_spec limit buf eof"
| "call_spec limit (Read n) buf eof =
     (if n = 0 then Some (Ret [], buf)
      else if n < 0 then (if eof then Some (Ret buf, []) else None)
      else if buf = [] \<and> \<not> eof then None
      else Some (Ret (take (nat n) buf), drop (nat n) buf))"
| "call_spec limit (ReadExactly n) buf eof =
     (if n < 0 then Some (Raise (Plain ValueError), buf)
      else if nat n \<le> length buf then Some (Ret (take (nat n) buf), drop (nat n) buf)
      else if eof then Some (Raise (IncompleteReadError buf (Some (nat n))), [])
      else None)"

text \<open>The bytes that a suspended read has taken off the buffer already.\<close>

fun held :: "frame \<Rightarrow> bytes" where
  "held (InReadAll blocks) = concat blocks"
| "held _ = []"

definition ends_as :: "outcome \<times> reader \<Rightarrow> (outcome \<times> bytes) option \<Rightarrow> bytes \<Rightarrow> bool" where
  "ends_as a spec bytes \<longleftrightarrow>
     (case spec of
        Some (out, rest) \<Rightarrow> fst a = out \<and> r_buffer (snd a) = rest
      | None \<Rightarrow> \<exists>f k. fst a = Await f k \<and> held k @ r_buffer (snd a) = bytes)"

section \<open>Searching\<close>

definition occurs :: "bytes \<Rightarrow> bytes \<Rightarrow> nat \<Rightarrow> bool" where
  "occurs buf sub i \<longleftrightarrow> take (length sub) (drop i buf) = sub"

lemma bytes_find_alt:
  "bytes_find buf sub start = List.find (occurs buf sub) [start ..< Suc (length buf) - length sub]"
  unfolding bytes_find_def by (rule arg_cong2 [where f = List.find]) (auto simp: occurs_def)

lemma occurs_length: "occurs buf sub i \<Longrightarrow> sub \<noteq> [] \<Longrightarrow> i + length sub \<le> length buf"
proof -
  assume "occurs buf sub i" "sub \<noteq> []"
  then have "length sub \<le> length buf - i" "0 < length sub" unfolding occurs_def by (metis length_drop length_take min.cobounded1, simp)
  then show ?thesis by linarith
qed

lemma find_upt_Some:
  "List.find P [a ..< b] = Some i \<longleftrightarrow> a \<le> i \<and> i < b \<and> P i \<and> (\<forall>j. a \<le> j \<longrightarrow> j < i \<longrightarrow> \<not> P j)"
proof
  assume "List.find P [a ..< b] = Some i"
  then show "a \<le> i \<and> i < b \<and> P i \<and> (\<forall>j. a \<le> j \<longrightarrow> j < i \<longrightarrow> \<not> P j)"
  proof -
    obtain n where n: "n < b - a" "P (a + n)" "i = a + n" "\<forall>j<n. \<not> P (a + j)"
      using \<open>List.find P [a ..< b] = Some i\<close> by (auto simp: find_Some_iff)
    have "\<not> P j" if "a \<le> j" "j < i" for j using n(3) n(4) [rule_format, of "j - a"] that by simp
    then show ?thesis using n by auto
  qed
next
  assume r: "a \<le> i \<and> i < b \<and> P i \<and> (\<forall>j. a \<le> j \<longrightarrow> j < i \<longrightarrow> \<not> P j)"
  show "List.find P [a ..< b] = Some i" unfolding find_Some_iff by (rule exI [of _ "i - a"]) (use r in auto)
qed

lemma find_upt_None: "List.find P [a ..< b] = None \<longleftrightarrow> (\<forall>j. a \<le> j \<longrightarrow> j < b \<longrightarrow> \<not> P j)"
  by (auto simp: find_None_iff)

lemma bytes_find_skip:
  assumes "\<forall>i < start. \<not> occurs buf sub i" "start \<le> Suc (length buf) - length sub"
  shows "bytes_find buf sub start = bytes_find buf sub 0"
proof (cases "bytes_find buf sub 0")
  case None
  moreover have "bytes_find buf sub start = None" using None by (simp add: bytes_find_alt find_upt_None)
  ultimately show ?thesis by simp
next
  case (Some i)
  then have "start \<le> i" using assms(1) by (force simp: bytes_find_alt find_upt_Some not_le [symmetric])
  then have "bytes_find buf sub start = Some i" using Some by (simp add: bytes_find_alt find_upt_Some)
  then show ?thesis using Some by simp
qed

lemma occurs_append: "i + length sub \<le> length buf \<Longrightarrow> occurs (buf @ data) sub i = occurs buf sub i"
  by (auto simp: occurs_def)

text \<open>How far a suspended \<open>readuntil\<close> has searched\<close>

definition scanned :: "nat \<Rightarrow> bytes \<Rightarrow> bytes \<Rightarrow> nat \<Rightarrow> bool" where
  "scanned limit buf sep offset \<longleftrightarrow> sep \<noteq> [] \<and> offset \<le> limit \<and> (\<forall>i < offset. \<not> occurs buf sep i) \<and>
     (offset = 0 \<or> offset + length sep \<le> length buf + 1)"

lemma scanned_append: "scanned limit buf sep offset \<Longrightarrow> scanned limit (buf @ data) sep offset"
  by (auto simp: scanned_def occurs_append)

lemma scanned_0 [simp]: "scanned limit buf sep 0 \<longleftrightarrow> sep \<noteq> []"
  by (simp add: scanned_def)

section \<open>Each pass ends as specified\<close>

definition tidy :: "reader \<Rightarrow> bool" where
  "tidy r \<longleftrightarrow> 0 < r_limit r \<and> r_reading r = (\<not> r_paused r) \<and> (r_paused r \<and> \<not> r_eof r \<longrightarrow> r_limit r < length (r_buffer r))"

definition waits :: "reader \<Rightarrow> nat \<Rightarrow> bool" where
  "waits r f \<longleftrightarrow> r_waiter r = Some f \<and> \<not> r_paused r \<and> \<not> r_eof r \<and> r_fut r f = WPending"

fun frame_ok :: "nat \<Rightarrow> bytes \<Rightarrow> call \<Rightarrow> frame \<Rightarrow> bool" where
  "frame_ok limit buf (ReadUntil sep) (InUntil sep' offset) = (sep' = sep \<and> scanned limit buf sep offset)"
| "frame_ok limit buf ReadLine (InLine offset) = scanned limit buf newline offset"
| "frame_ok limit buf (Read n) (InRead m) = (0 < n \<and> m = nat n)"
| "frame_ok limit buf (Read n) (InReadAll blocks) = (n < 0)"
| "frame_ok limit buf (ReadExactly n) (InExactly m) = (0 < n \<and> m = nat n)"
| "frame_ok limit buf c k = False"

lemma frame_ok_append: "frame_ok limit buf c k \<Longrightarrow> frame_ok limit (buf @ data) c k"
  by (cases "(limit, buf, c, k)" rule: frame_ok.cases) (auto intro: scanned_append)

definition ended :: "reader \<Rightarrow> call \<Rightarrow> bytes \<Rightarrow> outcome \<times> reader \<Rightarrow> bool" where
  "ended r c bytes a \<longleftrightarrow> tidy (snd a) \<and> r_limit (snd a) = r_limit r \<and> r_eof (snd a) = r_eof r \<and> r_exception (snd a) = r_exception r \<and>
     (case call_spec (r_limit r) c bytes (r_eof r) of
        Some (out, rest) \<Rightarrow> fst a = out \<and> r_buffer (snd a) = rest \<and> r_waiter (snd a) = None
      | None \<Rightarrow> \<exists>f k. fst a = Await f k \<and> held k @ r_buffer (snd a) = bytes \<and> waits (snd a) f \<and>
          frame_ok (r_limit r) (r_buffer (snd a)) c k \<and> f < r_next (snd a))"

lemma wait_for_data_ok:
  assumes "tidy r" "r_waiter r = None" "\<not> r_eof r"
  shows "\<exists>r'. wait_for_data r k = (Await (r_next r) k, r') \<and> tidy r' \<and> waits r' (r_next r) \<and> r_buffer r' = r_buffer r \<and>
     r_limit r' = r_limit r \<and> r_eof r' = r_eof r \<and> r_exception r' = r_exception r \<and> r_next r < r_next r'"
  using assms by (auto simp: wait_for_data_def tidy_def waits_def resume_transport_def Let_def)

lemma tidy_maybe_resume: "0 < r_limit r \<Longrightarrow> r_reading r = (\<not> r_paused r) \<Longrightarrow> tidy (maybe_resume_transport r)"
  by (auto simp: tidy_def maybe_resume_transport_def resume_transport_def)

lemma tidy_drop: "tidy r \<Longrightarrow> tidy (maybe_resume_transport (r\<lparr>r_buffer := buf\<rparr>))"
  by (rule tidy_maybe_resume) (simp_all add: tidy_def)

text \<open>The pass from any offset that is scanned ends as a search from the start does.\<close>

lemma until_pass_ok:
  assumes t: "tidy r" "r_waiter r = None" and sc: "scanned (r_limit r) (r_buffer r) sep offset"
  shows "let a = until_pass r sep offset k in
     tidy (snd a) \<and> r_limit (snd a) = r_limit r \<and> r_eof (snd a) = r_eof r \<and> r_exception (snd a) = r_exception r \<and>
     (case until_spec (r_limit r) sep (r_buffer r) (r_eof r) of
        Some (out, rest) \<Rightarrow> fst a = out \<and> r_buffer (snd a) = rest \<and> r_waiter (snd a) = None
      | None \<Rightarrow> \<exists>f off. fst a = Await f (k off) \<and> r_buffer (snd a) = r_buffer r \<and> waits (snd a) f \<and>
          scanned (r_limit r) (r_buffer r) sep off \<and> f < r_next (snd a))"
proof -
  let ?buf = "r_buffer r" and ?n = "length (r_buffer r)" and ?m = "length sep"
  have sep: "0 < ?m" and lim: "offset \<le> r_limit r" and none: "\<forall>i<offset. \<not> occurs ?buf sep i"
    and off: "offset = 0 \<or> offset + ?m \<le> ?n + 1" using sc by (auto simp: scanned_def)
  show ?thesis
  proof (cases "bytes_find ?buf sep 0")
    case (Some i)
    have i: "i < Suc ?n - ?m" "occurs ?buf sep i" using Some by (simp_all add: bytes_find_alt find_upt_Some)
    then have "offset \<le> i" using none by (meson not_le)
    then have enough: "?n - offset \<ge> ?m" and "offset \<le> Suc ?n - ?m" using i by linarith+
    then have f: "bytes_find ?buf sep offset = Some i" using bytes_find_skip [OF none] Some by simp
    show ?thesis using t tidy_drop [OF t(1)] enough f Some
      by (simp add: until_pass_def until_spec_def consume_def Let_def)
  next
    case None
    have f: "bytes_find ?buf sep offset = None" using None by (simp add: bytes_find_alt find_upt_None)
    let ?off = "if ?n - offset \<ge> ?m then ?n + 1 - ?m else offset"
    have pass: "until_pass r sep offset k =
        (if ?n - offset \<ge> ?m \<and> ?off > r_limit r then (Raise (LimitOverrunError ?off), r)
         else if r_eof r then (Raise (IncompleteReadError ?buf None), r\<lparr>r_buffer := []\<rparr>) else wait_for_data r (k ?off))"
      using f by (simp add: until_pass_def Let_def)
    have over: "?n - offset \<ge> ?m \<and> ?off > r_limit r \<longleftrightarrow> ?n + 1 > r_limit r + ?m" using lim off sep by auto
    have "\<not> occurs ?buf sep j" if "j < Suc ?n - ?m" for j using None that by (simp add: bytes_find_alt find_upt_None)
    then have sc': "scanned (r_limit r) ?buf sep ?off" if "\<not> ?n + 1 > r_limit r + ?m"
      using that sep sc by (auto simp: scanned_def)
    have clear: "r_eof r \<Longrightarrow> tidy (r\<lparr>r_buffer := []\<rparr>)" using t by (simp add: tidy_def)
    show ?thesis
    proof (cases "?n + 1 > r_limit r + ?m")
      case True
      then have "?n - offset \<ge> ?m" using over by simp
      then show ?thesis using True t over None by (simp add: pass until_spec_def)
    next
      case False
      then have p: "until_pass r sep offset k =
          (if r_eof r then (Raise (IncompleteReadError ?buf None), r\<lparr>r_buffer := []\<rparr>) else wait_for_data r (k ?off))"
        using over by (simp add: pass)
      show ?thesis
      proof (cases "r_eof r")
        case True
        then show ?thesis using p False None t clear by (simp add: until_spec_def)
      next
        case eof: False
        obtain r' where "wait_for_data r (k ?off) = (Await (r_next r) (k ?off), r')" "tidy r'" "waits r' (r_next r)" "r_buffer r' = ?buf"
            "r_limit r' = r_limit r" "r_eof r' = r_eof r" "r_exception r' = r_exception r" "r_next r < r_next r'"
          using wait_for_data_ok [OF t eof, of "k ?off"] by blast
        moreover have "until_spec (r_limit r) sep ?buf (r_eof r) = None" using False None eof by (simp add: until_spec_def)
        ultimately show ?thesis using p eof sc' [OF False] unfolding Let_def
          by (simp only: fst_conv snd_conv option.case if_False) blast
      qed
    qed
  qed
qed

lemma until_ended:
  assumes "tidy r" "r_waiter r = None" "scanned (r_limit r) (r_buffer r) sep offset"
  shows "ended r (ReadUntil sep) (r_buffer r) (until_pass r sep offset (InUntil sep))"
proof -
  have "sep \<noteq> []" using assms(3) by (simp add: scanned_def)
  then show ?thesis using until_pass_ok [OF assms, of "InUntil sep"] by (fastforce simp: ended_def Let_def split: option.splits)
qed

lemma occurs_newline: "occurs buf newline i \<longleftrightarrow> take (length newline) (drop i buf) = newline"
  by (simp add: occurs_def)

text \<open>\<open>readline\<close> drops the line that is too long, or everything when its end has not come yet.\<close>

lemma line_ended:
  assumes t: "tidy r" "r_waiter r = None" and sc: "scanned (r_limit r) (r_buffer r) newline offset"
  shows "ended r ReadLine (r_buffer r) (line_end (until_pass r newline offset InLine))"
proof -
  let ?buf = "r_buffer r"
  have one: "length newline = 1" "newline \<noteq> []" by (simp_all add: newline_def)
  obtain out r' where a: "until_pass r newline offset InLine = (out, r')" by fastforce
  note ok = until_pass_ok [OF assms, of InLine, unfolded a Let_def fst_conv snd_conv]
  have d: "tidy (maybe_resume_transport (r'\<lparr>r_buffer := b\<rparr>))" for b using tidy_drop ok by blast
  show ?thesis
  proof (cases "until_spec (r_limit r) newline ?buf (r_eof r)")
    case None
    then obtain f off where f: "out = Await f (InLine off)" "r_buffer r' = ?buf" "waits r' f" "scanned (r_limit r) ?buf newline off" "f < r_next r'"
      using ok by auto
    have "call_spec (r_limit r) ReadLine ?buf (r_eof r) = None"
      using None one by (simp add: until_spec_def line_spec_def split: option.splits if_splits)
    then show ?thesis using ok f unfolding ended_def a by (simp add: line_end_def)
  next
    case (Some p)
    then obtain res rest where s: "until_spec (r_limit r) newline ?buf (r_eof r) = Some (res, rest)" by (cases p) auto
    then have o: "out = res" "r_buffer r' = rest" "r_waiter r' = None" using ok by auto
    show ?thesis
    proof (cases "bytes_find ?buf newline 0")
      case None
      then have "\<not> occurs ?buf newline (length ?buf)"
        using occurs_length [of ?buf newline "length ?buf"] one by auto
      then show ?thesis using s None o ok one d [of "[]"]
        by (auto simp: ended_def a until_spec_def line_spec_def line_end_def occurs_newline Let_def split: if_splits)
    next
      case (Some i)
      then have "occurs ?buf newline i" by (simp add: bytes_find_alt find_upt_Some)
      then show ?thesis using s Some o ok one d [of "drop (i + 1) ?buf"]
        by (auto simp: ended_def a until_spec_def line_spec_def line_end_def occurs_newline Let_def split: if_splits)
    qed
  qed
qed

lemma read_take_ok:
  "tidy r \<Longrightarrow> \<exists>r'. read_take r n = (take n (r_buffer r), r') \<and> tidy r' \<and> r_buffer r' = drop n (r_buffer r) \<and> r_limit r' = r_limit r \<and>
     r_eof r' = r_eof r \<and> r_exception r' = r_exception r \<and> r_waiter r' = r_waiter r"
  by (simp add: read_take_def consume_def tidy_drop)

lemma read_blocks_ok:
  "tidy r \<Longrightarrow> r_waiter r = None \<Longrightarrow> r_exception r = None \<Longrightarrow> n < 0 \<Longrightarrow>
     ended r (Read n) (concat blocks @ r_buffer r) (read_blocks r blocks)"
proof (induction r blocks rule: read_blocks.induct)
  case (1 r blocks)
  have lim: "0 < r_limit r" using "1.prems"(1) by (simp add: tidy_def)
  show ?case
  proof (cases "r_buffer r = [] \<and> \<not> r_eof r")
    case True
    then have "read_blocks r blocks = wait_for_data r (InReadAll blocks)"
      using "1.prems"(3) lim by (simp add: read_blocks.simps)
    then show ?thesis using wait_for_data_ok [OF "1.prems"(1,2), of "InReadAll blocks"] True "1.prems"(4) "1.prems"(3)
      by (auto simp: ended_def)
  next
    case False
    obtain r' where r': "read_take r (r_limit r) = (take (r_limit r) (r_buffer r), r')" "tidy r'" "r_buffer r' = drop (r_limit r) (r_buffer r)"
        "r_limit r' = r_limit r" "r_eof r' = r_eof r" "r_exception r' = r_exception r" "r_waiter r' = r_waiter r"
      using read_take_ok [OF "1.prems"(1), of "r_limit r"] by blast
    show ?thesis
    proof (cases "r_buffer r = []")
      case True
      then have "read_blocks r blocks = (Ret (concat blocks), r')"
        using False "1.prems"(3) lim r'(1) by (simp add: read_blocks.simps)
      then show ?thesis using True False r' "1.prems" by (simp add: ended_def)
    next
      case ne: False
      then have b: "read_blocks r blocks = read_blocks r' (blocks @ [take (r_limit r) (r_buffer r)])"
        using False "1.prems"(3) lim r'(1) by (subst read_blocks.simps) simp
      have "ended r' (Read n) (concat (blocks @ [take (r_limit r) (r_buffer r)]) @ r_buffer r') (read_blocks r' (blocks @ [take (r_limit r) (r_buffer r)]))"
        by (rule "1.IH") (use "1.prems" r' lim ne in auto)
      then show ?thesis using r' "1.prems"(4) unfolding b by (cases "r_eof r") (simp_all add: ended_def)
    qed
  qed
qed

lemma exactly_ended:
  assumes "tidy r" "r_waiter r = None" "0 < n"
  shows "ended r (ReadExactly n) (r_buffer r) (exactly_pass r (nat n))"
proof (cases "length (r_buffer r) < nat n")
  case True
  then show ?thesis
    using assms wait_for_data_ok [OF assms(1,2), of "InExactly (nat n)"] by (cases "r_eof r") (auto simp: exactly_pass_def ended_def tidy_def)
next
  case False
  then show ?thesis using assms tidy_drop [OF assms(1)] by (simp add: exactly_pass_def ended_def consume_def)
qed

lemma read_take_ended:
  assumes "tidy r" "r_waiter r = None" "0 < n" "r_buffer r \<noteq> [] \<or> r_eof r"
  shows "ended r (Read n) (r_buffer r) (let (data, r) = read_take r (nat n) in (Ret data, r))"
  using assms read_take_ok [OF assms(1), of "nat n"] by (auto simp: ended_def)

lemma start_call_ended:
  assumes t: "tidy r" "r_waiter r = None" and e: "r_exception r = None"
  shows "ended r c (r_buffer r) (start_call r c)"
proof (cases c)
  case (ReadUntil sep)
  then show ?thesis using t e until_ended [OF t, of sep 0] by (cases "sep = []") (auto simp: readuntil_def ended_def)
next
  case ReadLine
  have "newline \<noteq> []" by (simp add: newline_def)
  then show ?thesis using ReadLine e line_ended [OF t, of 0] by (simp add: readline_def)
next
  case (Read n)
  show ?thesis
  proof (cases "0 < n")
    case True
    then show ?thesis
      using Read t e read_take_ended [OF t True] wait_for_data_ok [OF t, of "InRead (nat n)"] True
      by (cases "r_buffer r = [] \<and> \<not> r_eof r") (auto simp: read_def ended_def)
  next
    case False
    then show ?thesis using Read t e read_blocks_ok [OF t e, of n "[]"] by (cases "n = 0") (simp_all add: read_def, simp add: ended_def)
  qed
next
  case (ReadExactly n)
  then show ?thesis using t e exactly_ended [OF t, of n] by (cases "n = 0"; cases "n < 0") (simp_all add: readexactly_def, simp_all add: ended_def)
qed

text \<open>A suspended read goes on, with the bytes it holds and those that have arrived.\<close>

lemma go_on_ended:
  assumes t: "tidy r" "r_waiter r = None" and k: "frame_ok (r_limit r) (r_buffer r) c k"
    and woken: "r_buffer r \<noteq> [] \<or> r_eof r" and e: "r_exception r = None \<or> (\<forall>blocks. k \<noteq> InReadAll blocks)"
  shows "ended r c (held k @ r_buffer r) (go_on r k)"
proof (cases k)
  case (InUntil sep offset)
  then show ?thesis using k t until_ended [OF t] by (cases c) auto
next
  case (InLine offset)
  then show ?thesis using k t line_ended [OF t] by (cases c) auto
next
  case (InRead m)
  then show ?thesis using k t woken read_take_ended [OF t] by (cases c) auto
next
  case (InExactly m)
  then show ?thesis using k t exactly_ended [OF t] by (cases c) auto
next
  case (InReadAll blocks)
  then obtain n where c: "c = Read n" "n < 0" using k by (cases c) auto
  obtain r' where r': "read_take r (r_limit r) = (take (r_limit r) (r_buffer r), r')" "tidy r'" "r_buffer r' = drop (r_limit r) (r_buffer r)"
      "r_limit r' = r_limit r" "r_eof r' = r_eof r" "r_exception r' = r_exception r" "r_waiter r' = r_waiter r"
    using read_take_ok [OF t(1), of "r_limit r"] by blast
  have lim: "0 < r_limit r" using t by (simp add: tidy_def)
  show ?thesis
  proof (cases "r_buffer r = []")
    case True
    then show ?thesis using InReadAll c woken r' t by (auto simp: ended_def)
  next
    case False
    have "ended r' c (concat (blocks @ [take (r_limit r) (r_buffer r)]) @ r_buffer r') (read_blocks r' (blocks @ [take (r_limit r) (r_buffer r)]))"
      unfolding c(1) by (rule read_blocks_ok) (use r' t e InReadAll c in auto)
    then show ?thesis using InReadAll c False lim r' by (cases "r_eof r") (simp_all add: ended_def)
  qed
qed

lemma start_call_refused: "r_exception r \<noteq> None \<Longrightarrow> \<exists>e. start_call r c = (Raise e, r)"
  by (cases c) (auto simp: readuntil_def readline_def read_def readexactly_def)

lemma go_on_refused:
  assumes t: "tidy r" "r_waiter r = None" and e: "r_exception r \<noteq> None"
  shows "\<exists>out r'. go_on r (InReadAll blocks) = (out, r') \<and> tidy r' \<and> r_waiter r' = None \<and> (\<forall>f k. out \<noteq> Await f k)"
proof -
  obtain r' where r': "read_take r (r_limit r) = (take (r_limit r) (r_buffer r), r')" "tidy r'" "r_buffer r' = drop (r_limit r) (r_buffer r)"
      "r_limit r' = r_limit r" "r_eof r' = r_eof r" "r_exception r' = r_exception r" "r_waiter r' = r_waiter r"
    using read_take_ok [OF t(1), of "r_limit r"] by blast
  then have "read_blocks r' b = (Raise (Plain (the (r_exception r))), r')" for b using e by (auto simp: read_blocks.simps)
  then show ?thesis using r' t by auto
qed

section \<open>The invariant of a run\<close>

definition stream_ok :: "stream \<Rightarrow> bool" where
  "stream_ok s \<longleftrightarrow> tidy (s_reader s) \<and>
     (case s_call s of
        None \<Rightarrow> r_waiter (s_reader s) = None
      | Some (f, k, c) \<Rightarrow>
          let r = s_reader s in
          frame_ok (r_limit r) (r_buffer r) c k \<and>
          (case r_fut r f of
             WPending \<Rightarrow> waits r f \<and> call_spec (r_limit r) c (held k @ r_buffer r) (r_eof r) = None
           | WResult \<Rightarrow> r_waiter r = None \<and> (r_buffer r \<noteq> [] \<or> r_eof r)
           | WError e \<Rightarrow> r_waiter r = None
           | WCancelled \<Rightarrow> r_waiter r = None \<or> r_waiter r = Some f))"

lemma ended_stream_ok:
  assumes "ended r c bytes a"
  shows "stream_ok (suspended c a)"
proof (cases "call_spec (r_limit r) c bytes (r_eof r)")
  case None
  then obtain f k where a: "fst a = Await f k" "held k @ r_buffer (snd a) = bytes" "waits (snd a) f" "frame_ok (r_limit r) (r_buffer (snd a)) c k"
      "tidy (snd a)" "r_limit (snd a) = r_limit r" "r_eof (snd a) = r_eof r"
    using assms by (auto simp: ended_def)
  then have "r_fut (snd a) f = WPending" by (simp add: waits_def)
  then show ?thesis using a None by (simp add: stream_ok_def suspended_def)
next
  case (Some p)
  obtain out rest where p: "p = (out, rest)" by (cases p)
  have "\<forall>f k. out \<noteq> Await f k" using Some p
    by (cases c) (auto simp: until_spec_def line_spec_def split: option.splits if_splits)
  then have "\<forall>f k. fst a \<noteq> Await f k" "tidy (snd a)" "r_waiter (snd a) = None" using assms Some p by (auto simp: ended_def)
  then show ?thesis by (cases "fst a") (simp_all add: stream_ok_def suspended_def)
qed

lemma stream_ok_frame:
  assumes ok: "stream_ok s" and t: "tidy r"
    and b: "r_limit r = r_limit (s_reader s)" "r_buffer r = r_buffer (s_reader s)" "r_eof r = r_eof (s_reader s)" "r_waiter r = r_waiter (s_reader s)"
      "r_paused r = r_paused (s_reader s)" "r_fut r = r_fut (s_reader s)"
  shows "stream_ok (s\<lparr>s_reader := r\<rparr>)"
proof (cases "s_call s")
  case (Some p)
  obtain f k c where p: "p = (f, k, c)" by (cases p)
  show ?thesis using ok t Some p by (cases "r_fut (s_reader s) f") (auto simp: stream_ok_def b waits_def Let_def simp del: split_paired_All)
qed (use ok t in \<open>simp add: stream_ok_def b\<close>)

text \<open>Data, the end, or an error arrives.\<close>

lemma wakeup_ok:
  assumes ok: "stream_ok s" and r: "r = (s_reader s)\<lparr>r_buffer := r_buffer (s_reader s) @ data, r_eof := eof, r_exception := e\<rparr>"
    and new: "data \<noteq> [] \<or> eof" and t: "tidy r"
  shows "stream_ok (s\<lparr>s_reader := wakeup_waiter r\<rparr>)"
proof (cases "s_call s")
  case None
  then show ?thesis using ok t by (simp add: stream_ok_def r wakeup_waiter_def)
next
  case (Some p)
  obtain f k c where p: "p = (f, k, c)" by (cases p)
  have fr: "frame_ok (r_limit (s_reader s)) (r_buffer (s_reader s) @ data) c k"
    using ok Some p by (simp add: stream_ok_def Let_def frame_ok_append)
  have "tidy (wakeup_waiter r)" using t by (auto simp: wakeup_waiter_def tidy_def Let_def split: option.split)
  then show ?thesis using ok Some p fr new
    by (cases "r_fut (s_reader s) f") (auto simp: stream_ok_def r wakeup_waiter_def waits_def Let_def)
qed

lemma feed_ok:
  assumes ok: "stream_ok s" and st: "feed_data (s_reader s) data = Inr r"
  shows "stream_ok (s\<lparr>s_reader := r\<rparr>)"
proof (cases "data = []")
  case True
  then have "s\<lparr>s_reader := r\<rparr> = s" using st by (cases s) (auto simp: feed_data_def split: if_splits)
  then show ?thesis using ok by simp
next
  case False
  let ?r = "(s_reader s)\<lparr>r_buffer := r_buffer (s_reader s) @ data\<rparr>"
  have "tidy ?r" using ok by (auto simp: stream_ok_def tidy_def)
  then have w: "stream_ok (s\<lparr>s_reader := wakeup_waiter ?r\<rparr>)"
    using wakeup_ok [OF ok, where r = ?r and data = data and eof = "r_eof (s_reader s)" and e = "r_exception (s_reader s)"] False by simp
  have nw: "r_waiter (wakeup_waiter ?r) = None" by (auto simp: wakeup_waiter_def Let_def split: option.split)
  have big: "r_paused (wakeup_waiter ?r) = r_paused (s_reader s)" "r_limit (wakeup_waiter ?r) = r_limit (s_reader s)"
      "r_buffer (wakeup_waiter ?r) = r_buffer ?r" "r_reading (wakeup_waiter ?r) = r_reading (s_reader s)"
    by (auto simp: wakeup_waiter_def Let_def split: option.split)
  have r: "r = wakeup_waiter ?r \<or> r = (wakeup_waiter ?r)\<lparr>r_transport := False\<rparr> \<or>
      r = (wakeup_waiter ?r)\<lparr>r_reading := False, r_paused := True\<rparr> \<and> 2 * r_limit (s_reader s) < length (r_buffer ?r)"
    using st False big by (auto simp: feed_data_def Let_def split: if_splits)
  have t: "tidy r" using r w big by (auto simp: stream_ok_def tidy_def)
  have same: "r_limit r = r_limit (wakeup_waiter ?r)" "r_buffer r = r_buffer (wakeup_waiter ?r)" "r_eof r = r_eof (wakeup_waiter ?r)"
      "r_waiter r = None" "r_fut r = r_fut (wakeup_waiter ?r)"
    using r nw by auto
  show ?thesis using w t nw unfolding stream_ok_def
    by (auto simp: same waits_def Let_def split: option.splits wait_state.splits)
qed

lemma stream_ok_step:
  assumes ok: "stream_ok s" and st: "stream_step e s = Some (s', out)"
  shows "stream_ok s'"
proof (cases e)
  case SetTransport
  then show ?thesis using st ok
    by (auto simp: set_transport_def split: sum.splits if_splits intro!: stream_ok_frame) (simp add: stream_ok_def tidy_def)
next
  case (Feed data)
  then show ?thesis using st feed_ok [OF ok] by (auto split: sum.splits)
next
  case FeedEof
  have "tidy ((s_reader s)\<lparr>r_eof := True\<rparr>)" using ok by (simp add: stream_ok_def tidy_def)
  then have "stream_ok (s\<lparr>s_reader := wakeup_waiter ((s_reader s)\<lparr>r_eof := True\<rparr>)\<rparr>)"
    using wakeup_ok [OF ok, where r = "(s_reader s)\<lparr>r_eof := True\<rparr>" and data = "[]" and eof = True and e = "r_exception (s_reader s)"] by simp
  then show ?thesis using st FeedEof by (auto simp: feed_eof_def)
next
  case (FeedException x)
  then have s': "s' = s\<lparr>s_reader := set_stream_exception (s_reader s) x\<rparr>" using st by simp
  show ?thesis
  proof (cases "s_call s")
    case (Some p)
    obtain f k c where p: "p = (f, k, c)" by (cases p)
    show ?thesis using ok Some p unfolding s'
      by (cases "r_fut (s_reader s) f") (auto simp: stream_ok_def set_stream_exception_def waits_def tidy_def Let_def simp del: split_paired_All)
  qed (use ok in \<open>simp add: s' stream_ok_def set_stream_exception_def tidy_def\<close>)
next
  case (Start c)
  then have s': "s' = suspended c (start_call (s_reader s) c)" and n: "s_call s = None" using st by (auto simp: Let_def split: if_splits)
  then have t: "tidy (s_reader s)" "r_waiter (s_reader s) = None" using ok by (simp_all add: stream_ok_def)
  show ?thesis
  proof (cases "r_exception (s_reader s) = None")
    case True
    then show ?thesis unfolding s' by (rule ended_stream_ok [OF start_call_ended [OF t]])
  next
    case False
    then obtain err where "start_call (s_reader s) c = (Raise err, s_reader s)" using start_call_refused by blast
    then show ?thesis using t by (simp add: s' stream_ok_def suspended_def)
  qed
next
  case CancelRead
  then obtain f k c where p: "s_call s = Some (f, k, c)" "s' = s\<lparr>s_reader := cancel_wait (s_reader s) f\<rparr>" using st by (auto split: option.splits)
  show ?thesis using ok p
    by (cases "r_fut (s_reader s) f") (auto simp: stream_ok_def cancel_wait_def waits_def tidy_def Let_def simp del: split_paired_All)
next
  case GoOn
  then obtain f k c where p: "s_call s = Some (f, k, c)" "r_fut (s_reader s) f \<noteq> WPending" "s' = suspended c (resume_call (s_reader s) f k)"
    using st by (auto simp: Let_def split: option.splits if_splits)
  let ?r = "(s_reader s)\<lparr>r_waiter := None\<rparr>"
  have t: "tidy ?r" using ok by (simp add: stream_ok_def tidy_def)
  show ?thesis
  proof (cases "r_fut (s_reader s) f")
    case WResult
    then have res: "resume_call (s_reader s) f k = go_on ?r k" by (simp add: resume_call_def)
    have fr: "frame_ok (r_limit ?r) (r_buffer ?r) c k" "r_buffer ?r \<noteq> [] \<or> r_eof ?r" using ok p(1) WResult by (simp_all add: stream_ok_def Let_def)
    show ?thesis
    proof (cases "r_exception ?r = None \<or> (\<forall>blocks. k \<noteq> InReadAll blocks)")
      case True
      show ?thesis unfolding p(3) res by (rule ended_stream_ok [OF go_on_ended [OF t _ fr True]]) simp
    next
      case False
      then obtain blocks where k: "k = InReadAll blocks" "r_exception ?r \<noteq> None" by blast
      obtain o1 r' where g: "go_on ?r k = (o1, r')" "tidy r'" "r_waiter r' = None" "\<forall>f k. o1 \<noteq> Await f k"
        using go_on_refused [OF t _ k(2), of blocks] k(1) by auto
      show ?thesis using g unfolding p(3) res by (cases o1) (simp_all add: suspended_def stream_ok_def)
    qed
  qed (use p t in \<open>simp_all add: resume_call_def suspended_def stream_ok_def\<close>)
qed

lemma stream_ok_run: "stream_ok s \<Longrightarrow> stream_run es s = Some s' \<Longrightarrow> stream_ok s'"
  by (induction es arbitrary: s) (auto split: option.splits dest: stream_ok_step)

lemma stream_ok_new: "stream_new limit can_pause = Some s \<Longrightarrow> stream_ok s"
  by (auto simp: stream_new_def reader_new_def stream_ok_def tidy_def split: if_splits)

section \<open>The properties\<close>

text \<open>The call that an event begins or continues, and the bytes that it is about: those it holds and those in the buffer.\<close>

fun works_on :: "stream \<Rightarrow> stream_event \<Rightarrow> (call \<times> bytes) option" where
  "works_on s (Start c) = Some (c, r_buffer (s_reader s))"
| "works_on s GoOn =
     (case s_call s of
        Some (f, k, c) \<Rightarrow> if r_fut (s_reader s) f = WResult then Some (c, held k @ r_buffer (s_reader s)) else None
      | None \<Rightarrow> None)"
| "works_on s e = None"

text \<open>C3: a read ends as its documentation says for the bytes that have arrived by then, in whatever pieces they came and however often it waited:
\<open>readuntil\<close> and \<open>readline\<close> with everything up to the first separator, with the errors for a separator beyond the limit and for the end of the stream,
\<open>readexactly\<close> with \<open>n\<close> bytes, \<open>read\<close> with at most \<open>n\<close> or with all to the end; what it does not take stays in the buffer. Otherwise it waits, and has lost
no byte.\<close>

theorem stream_reads_specified:
  assumes "stream_new limit can_pause = Some s0" "stream_run es s0 = Some s" "stream_step e s = Some (s', Some out)"
    and "works_on s e = Some (c, arrived)" "r_exception (s_reader s) = None"
  shows "case call_spec (r_limit (s_reader s)) c arrived (r_eof (s_reader s)) of
       Some (res, rest) \<Rightarrow> out = res \<and> r_buffer (s_reader s') = rest \<and> s_call s' = None
     | None \<Rightarrow> \<exists>f k. out = Await f k \<and> s_call s' = Some (f, k, c) \<and> held k @ r_buffer (s_reader s') = arrived"
proof -
  have ok: "stream_ok s" using stream_ok_run [OF stream_ok_new [OF assms(1)] assms(2)] .
  have "\<exists>r a. s' = suspended c a \<and> out = fst a \<and> ended r c arrived a \<and> r_limit r = r_limit (s_reader s) \<and> r_eof r = r_eof (s_reader s)"
  proof (cases e)
    case (Start c')
    then have c: "c' = c" "arrived = r_buffer (s_reader s)" using assms(4) by simp_all
    have n: "s_call s = None" "s' = suspended c (start_call (s_reader s) c)" "out = fst (start_call (s_reader s) c)"
      using assms(3) Start c by (auto simp: Let_def split: if_splits)
    have "ended (s_reader s) c arrived (start_call (s_reader s) c)"
      using start_call_ended [of "s_reader s" c] ok n(1) assms(5) c(2) by (simp add: stream_ok_def)
    then show ?thesis using n by blast
  next
    case GoOn
    then obtain f k where k: "s_call s = Some (f, k, c)" "r_fut (s_reader s) f = WResult" "arrived = held k @ r_buffer (s_reader s)"
      using assms(4) by (auto split: option.splits if_splits)
    let ?r = "(s_reader s)\<lparr>r_waiter := None\<rparr>"
    have s': "s' = suspended c (go_on ?r k)" "out = fst (go_on ?r k)" using assms(3) GoOn k by (auto simp: resume_call_def Let_def)
    have "ended ?r c (held k @ r_buffer ?r) (go_on ?r k)"
      by (rule go_on_ended) (use ok k assms(5) in \<open>simp_all add: stream_ok_def tidy_def Let_def\<close>)
    then show ?thesis using s' k(3) by (intro exI [of _ ?r] exI [of _ "go_on ?r k"]) simp
  qed (use assms(4) in simp_all)
  then obtain r a where a: "s' = suspended c a" "out = fst a" "ended r c arrived a" "r_limit r = r_limit (s_reader s)" "r_eof r = r_eof (s_reader s)"
    by blast
  show ?thesis
  proof (cases "call_spec (r_limit r) c arrived (r_eof r)")
    case None
    then show ?thesis using a by (auto simp: ended_def suspended_def)
  next
    case (Some p)
    obtain res rest where p: "p = (res, rest)" by (cases p)
    have "\<forall>f k. res \<noteq> Await f k" using Some p by (cases c) (auto simp: until_spec_def line_spec_def split: option.splits if_splits)
    then show ?thesis using a Some p by (cases res) (auto simp: ended_def suspended_def)
  qed
qed

definition line_run :: "stream_event list" where
  "line_run = [SetTransport, Start ReadLine, Feed [1, 2], GoOn, Feed [3, 10, 4]]"

lemma line_run_result:
  "case stream_new 8 True of None \<Rightarrow> False | Some s0 \<Rightarrow>
     (case stream_run line_run s0 of None \<Rightarrow> False
      | Some s \<Rightarrow> works_on s GoOn = Some (ReadLine, [1, 2, 3, 10, 4]) \<and> r_exception (s_reader s) = None \<and> r_limit (s_reader s) = 8 \<and>
          stream_step GoOn s \<noteq> None \<and> map_option snd (stream_step GoOn s) \<noteq> Some None)"
  by code_simp

theorem stream_reads_specified_witness:
  "\<exists>s0 s s'. stream_new 8 True = Some s0 \<and> stream_run line_run s0 = Some s \<and> stream_step GoOn s = Some (s', Some (Ret [1, 2, 3, 10])) \<and>
     r_buffer (s_reader s') = [4]"
proof -
  obtain s0 s s' out where s: "stream_new 8 True = Some s0" "stream_run line_run s0 = Some s" "works_on s GoOn = Some (ReadLine, [1, 2, 3, 10, 4])"
      "r_exception (s_reader s) = None" "r_limit (s_reader s) = 8" "stream_step GoOn s = Some (s', Some out)"
    using line_run_result by (auto split: option.splits)
  have "call_spec 8 ReadLine [1, 2, 3, 10, 4] b = Some (Ret [1, 2, 3, 10], [4])" for b
    by (cases b) code_simp+
  then show ?thesis using stream_reads_specified [OF s(1,2,6,3,4)] s by auto
qed

text \<open>C29: while a read waits, the transport is reading, the stream has not ended, and what has arrived is not enough to end the read; when the future of a
read is done, there is something for it. The transport is paused only while more bytes than the limit are buffered or after the end, so that the next
read that takes or needs data resumes it: reader and transport never wait for each other.\<close>

theorem stream_flow_control:
  assumes "stream_new limit can_pause = Some s0" "stream_run es s0 = Some s"
  shows "(r_paused (s_reader s) \<longleftrightarrow> \<not> r_reading (s_reader s)) \<and>
     (r_paused (s_reader s) \<longrightarrow> r_eof (s_reader s) \<or> length (r_buffer (s_reader s)) > r_limit (s_reader s)) \<and>
     (\<forall>f k c. s_call s = Some (f, k, c) \<longrightarrow>
        (r_fut (s_reader s) f = WPending \<longrightarrow>
           r_reading (s_reader s) \<and> \<not> r_eof (s_reader s) \<and> r_waiter (s_reader s) = Some f \<and>
           call_spec (r_limit (s_reader s)) c (held k @ r_buffer (s_reader s)) False = None) \<and>
        (r_fut (s_reader s) f = WResult \<longrightarrow> r_buffer (s_reader s) \<noteq> [] \<or> r_eof (s_reader s)))"
proof -
  have ok: "stream_ok s" using stream_ok_run [OF stream_ok_new [OF assms(1)] assms(2)] .
  then have t: "tidy (s_reader s)" by (simp add: stream_ok_def)
  have c: "(r_fut (s_reader s) f = WPending \<longrightarrow>
           r_reading (s_reader s) \<and> \<not> r_eof (s_reader s) \<and> r_waiter (s_reader s) = Some f \<and>
           call_spec (r_limit (s_reader s)) c (held k @ r_buffer (s_reader s)) False = None) \<and>
        (r_fut (s_reader s) f = WResult \<longrightarrow> r_buffer (s_reader s) \<noteq> [] \<or> r_eof (s_reader s))" if "s_call s = Some (f, k, c)" for f k c
    using ok that t by (auto simp: stream_ok_def waits_def tidy_def Let_def simp del: split_paired_All)
  show ?thesis using t c unfolding tidy_def by blast
qed

lemma exactly_run_result:
  "case stream_new 1 True of None \<Rightarrow> False | Some s0 \<Rightarrow>
     (case stream_run [SetTransport, Feed [1, 2, 3], Start (ReadExactly 5)] s0 of None \<Rightarrow> False
      | Some s \<Rightarrow> s_call s = Some (0, InExactly 5, ReadExactly 5) \<and> r_fut (s_reader s) 0 = WPending)"
  by code_simp

theorem stream_flow_control_witness:
  "\<exists>s0 s. stream_new 1 True = Some s0 \<and> stream_run [SetTransport, Feed [1, 2, 3], Start (ReadExactly 5)] s0 = Some s \<and> r_reading (s_reader s)"
proof -
  obtain s0 s where s: "stream_new 1 True = Some s0" "stream_run [SetTransport, Feed [1, 2, 3], Start (ReadExactly 5)] s0 = Some s"
      "s_call s = Some (0, InExactly 5, ReadExactly 5)" "r_fut (s_reader s) 0 = WPending"
    using exactly_run_result by (auto split: option.splits)
  show ?thesis using stream_flow_control [OF s(1,2)] s by blast
qed

text \<open>
  An error of the connection that arrives after data has woken a reader and before it runs is not seen by it: it waits again, for data that will not come.
\<close>

lemma stream_error_missed:
  "case stream_new 8 True of None \<Rightarrow> False | Some s0 \<Rightarrow>
     (case stream_run [SetTransport, Start ReadLine, Feed [1, 2], FeedException RuntimeError, GoOn] s0 of None \<Rightarrow> False
      | Some s \<Rightarrow> r_exception (s_reader s) = Some RuntimeError \<and> s_call s = Some (1, InLine 2, ReadLine) \<and> r_fut (s_reader s) 1 = WPending)"
  by code_simp

end
