(* ===== verification/Stream_Protocol.thy ===== *)
theory Stream_Protocol
  imports Stream_Reader
begin

text \<open>
  \<open>FlowControlMixin\<close> and \<open>StreamReaderProtocol\<close> of \<open>streams.py\<close>: the other side of a \<open>StreamReader\<close>, which the transport calls, with the flow control
  of the writer, whose \<open>drain\<close> waits while the transport's buffer is full.
\<close>

record protocol =
  p_reader :: "reader option"
  p_paused :: bool
  p_drain_waiter :: "nat option"
  p_connection_lost :: bool
  p_closed :: wait_state
  p_over_ssl :: bool
  p_fut :: "nat \<Rightarrow> wait_state"
  p_next :: nat

definition protocol_new :: "reader \<Rightarrow> protocol" where
  "protocol_new r =
     \<lparr>p_reader = Some r, p_paused = False, p_drain_waiter = None, p_connection_lost = False, p_closed = WPending, p_over_ssl = False,
      p_fut = (\<lambda>_. WPending), p_next = 0\<rparr>"

section \<open>Flow control of the writer\<close>

definition pause_writing :: "protocol \<Rightarrow> protocol result" where
  "pause_writing p = (if p_paused p then Inl AssertionError else Inr (p\<lparr>p_paused := True\<rparr>))"

definition resume_writing :: "protocol \<Rightarrow> protocol result" where
  "resume_writing p =
     (if \<not> p_paused p then Inl AssertionError
      else let p = p\<lparr>p_paused := False\<rparr> in
           Inr (case p_drain_waiter p of
                  None \<Rightarrow> p
                | Some f \<Rightarrow>
                    let p = p\<lparr>p_drain_waiter := None\<rparr> in
                    if p_fut p f = WPending then p\<lparr>p_fut := (p_fut p)(f := WResult)\<rparr> else p))"

definition flow_connection_lost :: "protocol \<Rightarrow> exn option \<Rightarrow> protocol" where
  "flow_connection_lost p exc =
     (let p = p\<lparr>p_connection_lost := True\<rparr> in
      if \<not> p_paused p then p
      else case p_drain_waiter p of
             None \<Rightarrow> p
           | Some f \<Rightarrow>
               let p = p\<lparr>p_drain_waiter := None\<rparr> in
               if p_fut p f \<noteq> WPending then p
               else p\<lparr>p_fut := (p_fut p)(f := (case exc of None \<Rightarrow> WResult | Some e \<Rightarrow> WError e))\<rparr>)"

text \<open>\<open>_drain_helper\<close> until its \<open>await\<close>: the number of the future, if it has to wait.\<close>

definition drain_helper :: "protocol \<Rightarrow> (nat option \<times> protocol) result" where
  "drain_helper p =
     (if p_connection_lost p then Inl ConnectionResetError
      else if \<not> p_paused p then Inr (None, p)
      else if (case p_drain_waiter p of None \<Rightarrow> True | Some f \<Rightarrow> p_fut p f = WCancelled)
      then let f = p_next p in Inr (Some f, p\<lparr>p_next := f + 1, p_fut := (p_fut p)(f := WPending), p_drain_waiter := Some f\<rparr>)
      else Inl AssertionError)"

text \<open>\<open>StreamWriter.drain\<close> on a transport that is not closing\<close>

definition writer_drain :: "protocol \<Rightarrow> reader option \<Rightarrow> (nat option \<times> protocol) result" where
  "writer_drain p r =
     (case r of
        None \<Rightarrow> drain_helper p
      | Some r \<Rightarrow> (case r_exception r of Some e \<Rightarrow> Inl e | None \<Rightarrow> drain_helper p))"

section \<open>What the transport calls\<close>

definition connection_made :: "protocol \<Rightarrow> bool \<Rightarrow> protocol result" where
  "connection_made p ssl =
     (case p_reader p of
        None \<Rightarrow> Inl AttributeError
      | Some r \<Rightarrow> rbind (set_transport r) (\<lambda>r. Inr (p\<lparr>p_reader := Some r, p_over_ssl := ssl\<rparr>)))"

definition connection_lost :: "protocol \<Rightarrow> exn option \<Rightarrow> protocol \<times> reader option" where
  "connection_lost p exc =
     (let r = map_option (\<lambda>r. case exc of None \<Rightarrow> feed_eof r | Some e \<Rightarrow> set_stream_exception r e) (p_reader p);
          p = (if p_closed p = WPending then p\<lparr>p_closed := (case exc of None \<Rightarrow> WResult | Some e \<Rightarrow> WError e)\<rparr> else p);
          p = flow_connection_lost p exc
      in (p\<lparr>p_reader := None\<rparr>, r))"

definition data_received :: "protocol \<Rightarrow> bytes \<Rightarrow> protocol result" where
  "data_received p data =
     (case p_reader p of None \<Rightarrow> Inl AttributeError | Some r \<Rightarrow> rbind (feed_data r data) (\<lambda>r. Inr (p\<lparr>p_reader := Some r\<rparr>)))"

definition eof_received :: "protocol \<Rightarrow> (bool \<times> protocol) result" where
  "eof_received p =
     (case p_reader p of None \<Rightarrow> Inl AttributeError | Some r \<Rightarrow> Inr (\<not> p_over_ssl p, p\<lparr>p_reader := Some (feed_eof r)\<rparr>))"

section \<open>A drain waits only while it has to\<close>

inductive flow_step :: "protocol \<Rightarrow> protocol \<Rightarrow> bool" where
  f_pause: "pause_writing p = Inr p' \<Longrightarrow> flow_step p p'"
| f_resume: "resume_writing p = Inr p' \<Longrightarrow> flow_step p p'"
| f_lost: "flow_step p (fst (connection_lost p exc))"
| f_drain: "drain_helper p = Inr (f, p') \<Longrightarrow> flow_step p p'"
| f_cancel: "f < p_next p \<Longrightarrow> p_fut p f = WPending \<Longrightarrow> flow_step p (p\<lparr>p_fut := (p_fut p)(f := WCancelled)\<rparr>)"
| f_made: "connection_made p ssl = Inr p' \<Longrightarrow> flow_step p p'"
| f_data: "data_received p data = Inr p' \<Longrightarrow> flow_step p p'"
| f_eof: "eof_received p = Inr (b, p') \<Longrightarrow> flow_step p p'"

inductive flow_reachable :: "protocol \<Rightarrow> bool" where
  flow_init: "flow_reachable (protocol_new r)"
| flow_more: "flow_reachable p \<Longrightarrow> flow_step p p' \<Longrightarrow> flow_reachable p'"

definition drain_ok :: "protocol \<Rightarrow> bool" where
  "drain_ok p \<longleftrightarrow> (\<forall>f < p_next p. p_fut p f = WPending \<longrightarrow> Some f = p_drain_waiter p \<and> p_paused p \<and> \<not> p_connection_lost p) \<and>
     (case p_drain_waiter p of None \<Rightarrow> True | Some f \<Rightarrow> f < p_next p)"

lemma connection_lost_fields:
  "p_next (fst (connection_lost p exc)) = p_next p" "p_connection_lost (fst (connection_lost p exc))"
  "p_paused (fst (connection_lost p exc)) = p_paused p"
  "p_drain_waiter (fst (connection_lost p exc)) = (if p_paused p then None else p_drain_waiter p)"
  "p_fut (fst (connection_lost p exc)) g =
     (if p_paused p \<and> p_drain_waiter p = Some g \<and> p_fut p g = WPending then (case exc of None \<Rightarrow> WResult | Some e \<Rightarrow> WError e) else p_fut p g)"
  by (auto simp: connection_lost_def flow_connection_lost_def Let_def split: option.split)

lemma resume_fields:
  assumes "resume_writing p = Inr p'"
  shows "p_next p' = p_next p" "p_drain_waiter p' = None" "p_connection_lost p' = p_connection_lost p"
    "p_fut p' g = (if p_drain_waiter p = Some g \<and> p_fut p g = WPending then WResult else p_fut p g)"
  using assms by (auto simp: resume_writing_def Let_def split: if_splits option.splits)

lemma drain_ok_lost:
  assumes ok: "drain_ok p"
  shows "drain_ok (fst (connection_lost p exc))"
proof -
  have "p_fut (fst (connection_lost p exc)) g \<noteq> WPending" if "g < p_next p" for g
    using ok that unfolding drain_ok_def connection_lost_fields by (cases exc) auto
  then show ?thesis using ok unfolding drain_ok_def connection_lost_fields by simp
qed

lemma flow_step_ok: "flow_step p p' \<Longrightarrow> drain_ok p \<Longrightarrow> drain_ok p'"
proof (induction rule: flow_step.induct)
  case (f_lost p exc)
  then show ?case by (simp add: drain_ok_lost)
next
  case (f_drain p f p')
  then consider "p' = p" | "p' = p\<lparr>p_next := p_next p + 1, p_fut := (p_fut p)(p_next p := WPending), p_drain_waiter := Some (p_next p)\<rparr>"
    "p_paused p" "\<not> p_connection_lost p" "p_drain_waiter p = None \<or> (\<exists>g. p_drain_waiter p = Some g \<and> p_fut p g = WCancelled)"
    by (auto simp: drain_helper_def Let_def split: if_splits option.splits)
  then show ?case
  proof cases
    case 2
    have "p_fut p g \<noteq> WPending" if "g < p_next p" for g
      using f_drain.prems that 2(4) unfolding drain_ok_def by (metis option.discI option.inject wait_state.distinct(5))
    then show ?thesis using 2 by (simp add: drain_ok_def less_Suc_eq)
  qed (use f_drain.prems in simp)
next
  case (f_pause p p')
  then have "p' = p\<lparr>p_paused := True\<rparr>" by (simp add: pause_writing_def split: if_splits)
  then show ?case using f_pause.prems by (simp add: drain_ok_def split: option.splits)
next
  case (f_resume p p')
  note r = resume_fields [OF f_resume.hyps]
  have "p_fut p' g \<noteq> WPending" if "g < p_next p" for g
    using f_resume.prems that unfolding drain_ok_def r by auto
  then show ?case unfolding drain_ok_def r by simp
next
  case (f_cancel f p)
  then show ?case by (simp add: drain_ok_def split: option.splits)
next
  case (f_made p ssl p')
  then obtain r where "p' = p\<lparr>p_reader := r, p_over_ssl := ssl\<rparr>" by (auto simp: connection_made_def split: option.splits)
  then show ?case using f_made.prems by (simp add: drain_ok_def split: option.splits)
next
  case (f_data p data p')
  then obtain r where "p' = p\<lparr>p_reader := r\<rparr>" by (auto simp: data_received_def split: option.splits)
  then show ?case using f_data.prems by (simp add: drain_ok_def split: option.splits)
next
  case (f_eof p b p')
  then obtain r where "p' = p\<lparr>p_reader := r\<rparr>" by (auto simp: eof_received_def split: option.splits)
  then show ?case using f_eof.prems by (simp add: drain_ok_def split: option.splits)
qed

lemma flow_reachable_ok: "flow_reachable p \<Longrightarrow> drain_ok p"
proof (induction rule: flow_reachable.induct)
  case (flow_init r)
  show ?case by (simp add: drain_ok_def protocol_new_def)
qed (rule flow_step_ok)

text \<open>
  A coroutine that waits in \<open>drain\<close> is the one that the next \<open>resume_writing\<close> or \<open>connection_lost\<close> wakes up; a second one that would wait is refused with
  the assertion.
\<close>

lemma drain_waits_with_reason:
  assumes "flow_reachable p" "f < p_next p" "p_fut p f = WPending"
  shows "p_paused p \<and> \<not> p_connection_lost p \<and> p_drain_waiter p = Some f \<and> drain_helper p = Inl AssertionError \<and>
     (\<exists>p'. resume_writing p = Inr p' \<and> p_fut p' f = WResult) \<and>
     p_fut (fst (connection_lost p exc)) f = (case exc of None \<Rightarrow> WResult | Some e \<Rightarrow> WError e)"
proof -
  have "drain_ok p" by (rule flow_reachable_ok [OF assms(1)])
  then have d: "p_paused p" "\<not> p_connection_lost p" "Some f = p_drain_waiter p" using assms by (simp_all add: drain_ok_def)
  then show ?thesis using assms(3) by (simp add: drain_helper_def resume_writing_def connection_lost_fields Let_def flip: d(3))
qed

end
