(* ===== verification/Usb_Buffer.thy ===== *)
theory Usb_Buffer
  imports Prelude
begin

text \<open>
  The \<open>Buffer\<close> of \<open>micropython/usb/usb-device/usb/device/core.py\<close>: a buffer between a producer and a consumer that may interrupt each other. Both work on
  views of the one array: the producer fills the view of \<open>pend_write\<close> before it calls \<open>finish_write\<close>, the consumer looks at that of \<open>pend_read\<close> before it
  calls \<open>finish_read\<close>, and anything of the other side can happen in between. The bodies of \<open>finish_write\<close> and \<open>finish_read\<close> run with interrupts disabled.
\<close>

section \<open>The buffer\<close>

record ubuf =
  u_b :: bytes
  u_n :: nat
  u_w :: nat

definition ubuf_new :: "nat \<Rightarrow> ubuf" where
  "ubuf_new len = \<lparr>u_b = replicate len 0, u_n = 0, u_w = len\<rparr>"

definition writable :: "ubuf \<Rightarrow> nat" where
  "writable u = length (u_b u) - u_n u"

definition readable :: "ubuf \<Rightarrow> nat" where
  "readable u = u_n u"

text \<open>A view is a start and a length. A \<open>wmax\<close> of 0 is as good as none, and a slice ends where the array does.\<close>

definition pend_write :: "ubuf \<Rightarrow> nat option \<Rightarrow> (nat \<times> nat) \<times> ubuf" where
  "pend_write u wmax =
     (let w = u_n u;
          end = (case wmax of None \<Rightarrow> length (u_b u) | Some m \<Rightarrow> if m = 0 then length (u_b u) else w + m)
      in ((w, min end (length (u_b u)) - w), u\<lparr>u_w := w\<rparr>))"

text \<open>The slow path of \<open>finish_write\<close>, byte by byte\<close>

fun move_back :: "nat \<Rightarrow> ubuf \<Rightarrow> ubuf" where
  "move_back 0 u = u"
| "move_back (Suc nbytes) u =
     move_back nbytes (u\<lparr>u_b := (u_b u)[u_n u := u_b u ! u_w u], u_n := u_n u + 1, u_w := u_w u + 1\<rparr>)"

definition finish_write :: "ubuf \<Rightarrow> nat \<Rightarrow> ubuf result" where
  "finish_write u nbytes =
     (if \<not> nbytes \<le> length (u_b u) - u_w u then Inl AssertionError
      else let u = (if u_n u = u_w u then u\<lparr>u_n := u_n u + nbytes\<rparr> else move_back nbytes u)
           in Inr (u\<lparr>u_w := length (u_b u)\<rparr>))"

definition pend_read :: "ubuf \<Rightarrow> nat" where
  "pend_read u = u_n u"

text \<open>The loop of \<open>finish_read\<close>\<close>

function move_front :: "nat \<Rightarrow> nat \<Rightarrow> ubuf \<Rightarrow> ubuf" where
  "move_front nbytes i u =
     (if i < u_n u then move_front nbytes (i + 1) (u\<lparr>u_b := (u_b u)[i := u_b u ! (i + nbytes)]\<rparr>) else u)"
  by pat_completeness auto
termination move_front
  by (relation "measure (\<lambda>(_, i, u). u_n u - i)") auto

declare move_front.simps [simp del]

definition finish_read :: "ubuf \<Rightarrow> nat \<Rightarrow> ubuf result" where
  "finish_read u nbytes =
     (if nbytes = 0 then Inr u
      else if \<not> nbytes \<le> u_n u then Inl AssertionError
      else Inr (move_front nbytes 0 (u\<lparr>u_n := u_n u - nbytes\<rparr>)))"

text \<open>Storing into a view, \<open>v[off:off+len(data)] = data\<close>, and reading from the view of \<open>pend_read\<close>\<close>

definition view_store :: "ubuf \<Rightarrow> nat \<Rightarrow> nat \<Rightarrow> bytes \<Rightarrow> ubuf" where
  "view_store u start off data =
     u\<lparr>u_b := take (start + off) (u_b u) @ data @ drop (start + off + length data) (u_b u)\<rparr>"

definition ubuf_write :: "ubuf \<Rightarrow> bytes \<Rightarrow> (nat \<times> ubuf) result" where
  "ubuf_write u w =
     (let ((start, len), u) = pend_write u None;
          to_w = min (length w) len
      in if to_w \<noteq> 0 then rbind (finish_write (view_store u start 0 (take to_w w)) to_w) (\<lambda>u. Inr (to_w, u)) else Inr (to_w, u))"

text \<open>\<open>readinto\<close> a buffer of a given length: the bytes it stores there\<close>

definition ubuf_readinto :: "ubuf \<Rightarrow> nat \<Rightarrow> (bytes \<times> ubuf) result" where
  "ubuf_readinto u len =
     (let to_r = min (pend_read u) len
      in if to_r \<noteq> 0 then rbind (finish_read u to_r) (\<lambda>u'. Inr (take to_r (u_b u), u')) else Inr ([], u))"

section \<open>Producer and consumer\<close>

text \<open>
  \<open>pview\<close> and \<open>cview\<close> are the pending views; \<open>mine\<close> is what the producer has put into its view (at first what it finds there), and \<open>seen\<close> is what the consumer
  found in its own: their knowledge, which the code does not store.
\<close>

record usb =
  u_buf :: ubuf
  pview :: "(nat \<times> nat) option"
  mine :: bytes
  cview :: "nat option"
  seen :: bytes

definition usb_new :: "nat \<Rightarrow> usb" where
  "usb_new len = \<lparr>u_buf = ubuf_new len, pview = None, mine = [], cview = None, seen = []\<rparr>"

datatype usb_event = PendWrite "nat option" | Store nat bytes | FinishWrite nat | PendRead | FinishRead nat

datatype usb_label = Silent | Written bytes | Taken bytes | Failed

fun usb_step :: "usb_event \<Rightarrow> usb \<Rightarrow> (usb \<times> usb_label) option" where
  "usb_step (PendWrite wmax) s =
     (let ((start, len), u) = pend_write (u_buf s) wmax
      in Some (s\<lparr>u_buf := u, pview := Some (start, len), mine := take len (drop start (u_b u))\<rparr>, Silent))"
| "usb_step (Store off data) s =
     (case pview s of
        Some (start, len) \<Rightarrow>
          if off + length data \<le> len
          then Some (s\<lparr>u_buf := view_store (u_buf s) start off data, mine := take off (mine s) @ data @ drop (off + length data) (mine s)\<rparr>, Silent)
          else None
      | None \<Rightarrow> None)"
| "usb_step (FinishWrite nbytes) s =
     (case pview s of
        Some (start, len) \<Rightarrow>
          if nbytes \<le> len
          then (case finish_write (u_buf s) nbytes of
                  Inl e \<Rightarrow> Some (s, Failed)
                | Inr u \<Rightarrow> Some (s\<lparr>u_buf := u, pview := None\<rparr>, Written (take nbytes (mine s))))
          else None
      | None \<Rightarrow> None)"
| "usb_step PendRead s =
     Some (s\<lparr>cview := Some (pend_read (u_buf s)), seen := take (pend_read (u_buf s)) (u_b (u_buf s))\<rparr>, Silent)"
| "usb_step (FinishRead nbytes) s =
     (case cview s of
        Some len \<Rightarrow>
          if nbytes \<le> len
          then (case finish_read (u_buf s) nbytes of
                  Inl e \<Rightarrow> Some (s, Failed)
                | Inr u \<Rightarrow> Some (s\<lparr>u_buf := u, cview := None\<rparr>, Taken (take nbytes (seen s))))
          else None
      | None \<Rightarrow> None)"

fun usb_run :: "usb_event list \<Rightarrow> usb \<Rightarrow> (usb \<times> usb_label list) option" where
  "usb_run [] s = Some (s, [])"
| "usb_run (e # es) s =
     (case usb_step e s of
        None \<Rightarrow> None
      | Some (s', a) \<Rightarrow> (case usb_run es s' of None \<Rightarrow> None | Some (s'', as) \<Rightarrow> Some (s'', a # as)))"

fun written_by :: "usb_label \<Rightarrow> bytes" where
  "written_by (Written data) = data"
| "written_by _ = []"

fun taken_by :: "usb_label \<Rightarrow> bytes" where
  "taken_by (Taken data) = data"
| "taken_by _ = []"

section \<open>The copying loops\<close>

lemma move_back_ok:
  "u_n u \<le> u_w u \<Longrightarrow> u_w u + nbytes \<le> length (u_b u) \<Longrightarrow>
     \<exists>b. move_back nbytes u = u\<lparr>u_b := b, u_n := u_n u + nbytes, u_w := u_w u + nbytes\<rparr> \<and> length b = length (u_b u) \<and>
       take (u_n u + nbytes) b = take (u_n u) (u_b u) @ take nbytes (drop (u_w u) (u_b u))"
proof (induction nbytes arbitrary: u)
  case 0
  show ?case by (intro exI [of _ "u_b u"]) simp
next
  case (Suc nbytes)
  let ?u = "u\<lparr>u_b := (u_b u)[u_n u := u_b u ! u_w u], u_n := u_n u + 1, u_w := u_w u + 1\<rparr>"
  have n: "u_n u < length (u_b u)" "u_w u < length (u_b u)" using Suc.prems by simp_all
  obtain b where b: "move_back nbytes ?u = ?u\<lparr>u_b := b, u_n := u_n ?u + nbytes, u_w := u_w ?u + nbytes\<rparr>" "length b = length (u_b ?u)"
      "take (u_n ?u + nbytes) b = take (u_n ?u) (u_b ?u) @ take nbytes (drop (u_w ?u) (u_b ?u))"
    using Suc.IH [of ?u] Suc.prems by auto
  have "take (Suc (u_n u)) ((u_b u)[u_n u := u_b u ! u_w u]) = take (u_n u) (u_b u) @ [u_b u ! u_w u]"
    using n by (simp add: take_Suc_conv_app_nth)
  moreover have "drop (Suc (u_w u)) ((u_b u)[u_n u := u_b u ! u_w u]) = drop (Suc (u_w u)) (u_b u)" using Suc.prems by simp
  moreover have "take (Suc nbytes) (drop (u_w u) (u_b u)) = u_b u ! u_w u # take nbytes (drop (Suc (u_w u)) (u_b u))"
    using n by (simp flip: Cons_nth_drop_Suc)
  ultimately show ?case using b by (intro exI [of _ b]) simp
qed

lemma move_front_ok:
  "i \<le> u_n u \<Longrightarrow> u_n u + nbytes \<le> length (u_b u) \<Longrightarrow>
     \<exists>b. move_front nbytes i u = u\<lparr>u_b := b\<rparr> \<and> length b = length (u_b u) \<and>
       take (u_n u) b = take i (u_b u) @ take (u_n u - i) (drop (i + nbytes) (u_b u)) \<and> drop (u_n u) b = drop (u_n u) (u_b u)"
proof (induction nbytes i u rule: move_front.induct)
  case (1 nbytes i u)
  show ?case
  proof (cases "i < u_n u")
    case True
    let ?u = "u\<lparr>u_b := (u_b u)[i := u_b u ! (i + nbytes)]\<rparr>"
    have l: "i + nbytes < length (u_b u)" using True "1.prems" by simp
    obtain b where b: "move_front nbytes (i + 1) ?u = ?u\<lparr>u_b := b\<rparr>" "length b = length (u_b ?u)"
        "take (u_n ?u) b = take (i + 1) (u_b ?u) @ take (u_n ?u - (i + 1)) (drop (i + 1 + nbytes) (u_b ?u))" "drop (u_n ?u) b = drop (u_n ?u) (u_b ?u)"
      using "1.IH" [OF True] "1.prems" True by auto
    have "take (Suc i) ((u_b u)[i := u_b u ! (i + nbytes)]) = take i (u_b u) @ [u_b u ! (i + nbytes)]"
      using l by (simp add: take_Suc_conv_app_nth)
    moreover have "take (u_n u - i) (drop (i + nbytes) (u_b u)) = u_b u ! (i + nbytes) # take (u_n u - Suc i) (drop (Suc (i + nbytes)) (u_b u))"
      using l True by (subst Cons_nth_drop_Suc [symmetric, OF l]) (simp add: take_Cons' )
    ultimately have "take (u_n u) b = take i (u_b u) @ take (u_n u - i) (drop (i + nbytes) (u_b u))" using b(3) by simp
    then show ?thesis using b True by (intro exI [of _ b]) (simp add: move_front.simps [of nbytes i u])
  next
    case False
    then have "move_front nbytes i u = u" by (simp add: move_front.simps [of nbytes i u])
    then show ?thesis using False "1.prems" by (intro exI [of _ "u_b u"]) simp
  qed
qed

section \<open>The queue that the two see\<close>

definition content :: "ubuf \<Rightarrow> bytes" where
  "content u = take (u_n u) (u_b u)"

lemma finish_write_ok:
  assumes "u_n u \<le> u_w u" "u_w u + nbytes \<le> length (u_b u)"
  shows "\<exists>u'. finish_write u nbytes = Inr u' \<and> content u' = content u @ take nbytes (drop (u_w u) (u_b u)) \<and> u_n u' = u_n u + nbytes \<and>
     length (u_b u') = length (u_b u)"
proof (cases "u_n u = u_w u")
  case True
  then show ?thesis using assms by (simp add: finish_write_def content_def take_add)
next
  case False
  then show ?thesis using move_back_ok [OF assms] assms by (auto simp: finish_write_def content_def Let_def)
qed

lemma finish_read_ok:
  assumes "u_n u \<le> length (u_b u)" "nbytes \<le> u_n u"
  shows "\<exists>u'. finish_read u nbytes = Inr u' \<and> content u' = drop nbytes (content u) \<and> u_n u' = u_n u - nbytes \<and> u_w u' = u_w u \<and>
     length (u_b u') = length (u_b u) \<and> drop (u_n u) (u_b u') = drop (u_n u) (u_b u)"
proof (cases "nbytes = 0")
  case True
  then show ?thesis by (simp add: finish_read_def)
next
  case False
  let ?u = "u\<lparr>u_n := u_n u - nbytes\<rparr>"
  obtain b where b: "move_front nbytes 0 ?u = ?u\<lparr>u_b := b\<rparr>" "length b = length (u_b u)"
      "take (u_n u - nbytes) b = take (u_n u - nbytes) (drop nbytes (u_b u))" "drop (u_n u - nbytes) b = drop (u_n u - nbytes) (u_b u)"
    using move_front_ok [of 0 ?u nbytes] assms by auto
  have "drop nbytes (drop (u_n u - nbytes) b) = drop nbytes (drop (u_n u - nbytes) (u_b u))" using b(4) by simp
  then have d: "drop (u_n u) b = drop (u_n u) (u_b u)" using assms(2) by simp
  have c: "take (u_n u - nbytes) (drop nbytes (u_b u)) = drop nbytes (take (u_n u) (u_b u))" using assms(2) by (simp add: drop_take)
  show ?thesis using False assms b(1-3) d c by (simp add: finish_read_def content_def)
qed

definition usb_ok :: "usb \<Rightarrow> bool" where
  "usb_ok s \<longleftrightarrow> u_n (u_buf s) \<le> length (u_b (u_buf s)) \<and>
     (case pview s of
        None \<Rightarrow> True
      | Some (start, len) \<Rightarrow>
          u_w (u_buf s) = start \<and> u_n (u_buf s) \<le> start \<and> start + len \<le> length (u_b (u_buf s)) \<and> mine s = take len (drop start (u_b (u_buf s)))) \<and>
     (case cview s of None \<Rightarrow> True | Some c \<Rightarrow> c \<le> u_n (u_buf s) \<and> seen s = take c (content (u_buf s)))"

lemma view_store_ok:
  assumes "start + off + length data \<le> length (u_b u)"
  shows "u_n (view_store u start off data) = u_n u" "u_w (view_store u start off data) = u_w u"
    "length (u_b (view_store u start off data)) = length (u_b u)"
    "u_n u \<le> start \<Longrightarrow> content (view_store u start off data) = content u"
    "off + length data \<le> len \<Longrightarrow> start + len \<le> length (u_b u) \<Longrightarrow>
       take len (drop start (u_b (view_store u start off data))) =
       take off (take len (drop start (u_b u))) @ data @ drop (off + length data) (take len (drop start (u_b u)))"
proof -
  show "u_n (view_store u start off data) = u_n u" "u_w (view_store u start off data) = u_w u"
    "length (u_b (view_store u start off data)) = length (u_b u)"
    using assms by (simp_all add: view_store_def)
  show "u_n u \<le> start \<Longrightarrow> content (view_store u start off data) = content u"
    using assms by (simp add: view_store_def content_def)
  show "off + length data \<le> len \<Longrightarrow> start + len \<le> length (u_b u) \<Longrightarrow>
       take len (drop start (u_b (view_store u start off data))) =
       take off (take len (drop start (u_b u))) @ data @ drop (off + length data) (take len (drop start (u_b u)))"
  proof -
    assume o: "off + length data \<le> len" "start + len \<le> length (u_b u)"
    have "drop start (u_b (view_store u start off data)) = take off (drop start (u_b u)) @ data @ drop (off + length data) (drop start (u_b u))"
      using assms by (simp add: view_store_def drop_take ac_simps)
    then show ?thesis using o by (simp add: min_absorb1 drop_take)
  qed
qed

lemma usb_ok_step:
  assumes ok: "usb_ok s" and st: "usb_step e s = Some (s', a)"
  shows "usb_ok s' \<and> a \<noteq> Failed \<and> content (u_buf s) @ written_by a = taken_by a @ content (u_buf s') \<and>
     length (u_b (u_buf s')) = length (u_b (u_buf s))"
proof (cases e)
  case (PendWrite wmax)
  define start where "start = u_n (u_buf s)"
  obtain len where p: "s' = s\<lparr>u_buf := (u_buf s)\<lparr>u_w := start\<rparr>, pview := Some (start, len), mine := take len (drop start (u_b (u_buf s)))\<rparr>"
      "a = Silent" "start + len \<le> length (u_b (u_buf s))"
    using st PendWrite ok by (auto simp: usb_ok_def pend_write_def start_def Let_def)
  have "content ((u_buf s)\<lparr>u_w := start\<rparr>) = content (u_buf s)" by (simp add: content_def)
  then show ?thesis using ok p by (simp add: usb_ok_def start_def split: option.splits)
next
  case (Store off data)
  then obtain start len where p: "pview s = Some (start, len)" "off + length data \<le> len" "a = Silent"
      "s' = s\<lparr>u_buf := view_store (u_buf s) start off data, mine := take off (mine s) @ data @ drop (off + length data) (mine s)\<rparr>"
    using st by (auto split: option.splits if_splits)
  have o: "start + len \<le> length (u_b (u_buf s))" "u_n (u_buf s) \<le> start" "mine s = take len (drop start (u_b (u_buf s)))"
    "u_w (u_buf s) = start" "u_n (u_buf s) \<le> length (u_b (u_buf s))" using ok p(1) by (simp_all add: usb_ok_def)
  have "start + off + length data \<le> length (u_b (u_buf s))" using o p(2) by simp
  note v = view_store_ok [OF this]
  show ?thesis using ok o p v(1-3) v(4) [OF o(2)] v(5) [OF p(2) o(1)] by (auto simp: usb_ok_def split: option.splits)
next
  case (FinishWrite nbytes)
  then obtain start len where p: "pview s = Some (start, len)" "nbytes \<le> len" using st by (auto split: option.splits if_splits)
  have o: "start + len \<le> length (u_b (u_buf s))" "u_n (u_buf s) \<le> start" "mine s = take len (drop start (u_b (u_buf s)))" "u_w (u_buf s) = start"
    using ok p(1) by (simp_all add: usb_ok_def)
  have w: "u_n (u_buf s) \<le> u_w (u_buf s)" "u_w (u_buf s) + nbytes \<le> length (u_b (u_buf s))" using o p(2) by simp_all
  obtain u' where u': "finish_write (u_buf s) nbytes = Inr u'" "content u' = content (u_buf s) @ take nbytes (drop (u_w (u_buf s)) (u_b (u_buf s)))"
      "u_n u' = u_n (u_buf s) + nbytes" "length (u_b u') = length (u_b (u_buf s))"
    using finish_write_ok [OF w] by blast
  have m: "take nbytes (mine s) = take nbytes (drop start (u_b (u_buf s)))" using o(3) p(2) by (simp add: min_absorb1)
  have s': "s' = s\<lparr>u_buf := u', pview := None\<rparr>" "a = Written (take nbytes (mine s))" using st FinishWrite p u' by auto
  have "length (content (u_buf s)) = u_n (u_buf s)" using ok by (simp add: usb_ok_def content_def)
  then show ?thesis using ok s' u' m o w by (auto simp: usb_ok_def split: option.splits)
next
  case PendRead
  then show ?thesis using st ok by (auto simp: usb_ok_def pend_read_def content_def split: option.splits)
next
  case (FinishRead nbytes)
  then obtain c where p: "cview s = Some c" "nbytes \<le> c" using st by (auto split: option.splits if_splits)
  then have r: "u_n (u_buf s) \<le> length (u_b (u_buf s))" "nbytes \<le> u_n (u_buf s)" "seen s = take c (content (u_buf s))"
    using ok by (simp_all add: usb_ok_def)
  obtain u' where u': "finish_read (u_buf s) nbytes = Inr u'" "content u' = drop nbytes (content (u_buf s))" "u_n u' = u_n (u_buf s) - nbytes"
      "u_w u' = u_w (u_buf s)" "length (u_b u') = length (u_b (u_buf s))" "drop (u_n (u_buf s)) (u_b u') = drop (u_n (u_buf s)) (u_b (u_buf s))"
    using finish_read_ok [OF r(1,2)] by blast
  have d: "drop k (u_b u') = drop k (u_b (u_buf s))" if "u_n (u_buf s) \<le> k" for k
  proof -
    have "drop (k - u_n (u_buf s)) (drop (u_n (u_buf s)) (u_b u')) = drop (k - u_n (u_buf s)) (drop (u_n (u_buf s)) (u_b (u_buf s)))" using u'(6) by simp
    then show ?thesis using that by simp
  qed
  have s': "s' = s\<lparr>u_buf := u', cview := None\<rparr>" "a = Taken (take nbytes (seen s))" using st FinishRead p u' by auto
  have "take nbytes (seen s) @ drop nbytes (content (u_buf s)) = content (u_buf s)" using r(3) p(2) by (simp add: min_absorb1)
  then show ?thesis using ok s' u' r d by (auto simp: usb_ok_def split: option.splits)
qed

lemma usb_ok_run:
  "usb_ok s \<Longrightarrow> usb_run es s = Some (s', as) \<Longrightarrow>
     Failed \<notin> set as \<and> content (u_buf s) @ concat (map written_by as) = concat (map taken_by as) @ content (u_buf s') \<and>
     usb_ok s' \<and> length (u_b (u_buf s')) = length (u_b (u_buf s))"
proof (induction es arbitrary: s as)
  case (Cons e es)
  obtain s1 a as1 where s1: "usb_step e s = Some (s1, a)" "usb_run es s1 = Some (s', as1)" "as = a # as1"
    using Cons.prems(2) by (auto split: option.splits)
  note st = usb_ok_step [OF Cons.prems(1) s1(1)]
  have ih: "Failed \<notin> set as1" "content (u_buf s1) @ concat (map written_by as1) = concat (map taken_by as1) @ content (u_buf s')"
    "usb_ok s'" "length (u_b (u_buf s')) = length (u_b (u_buf s1))"
    using Cons.IH [OF conjunct1 [OF st] s1(2)] by simp_all
  have "content (u_buf s) @ written_by a @ concat (map written_by as1) = taken_by a @ content (u_buf s1) @ concat (map written_by as1)"
    using st by (metis append.assoc)
  moreover have "Failed \<noteq> a" using st by blast
  ultimately show ?case using st ih s1(3) by simp
qed simp

lemma usb_ok_new: "usb_ok (usb_new len)"
  by (simp add: usb_ok_def usb_new_def ubuf_new_def)

text \<open>C13: however the operations of producer and consumer interleave, the consumer takes exactly the bytes that the producer has put into its views and
finished, in their order; what has not been taken is the valid part of the buffer, which never overflows, and no assertion fails as long as each side
finishes at most what its view offered.\<close>

theorem usb_buffer_is_fifo:
  assumes "usb_run es (usb_new len) = Some (s, as)"
  shows "concat (map written_by as) = concat (map taken_by as) @ take (u_n (u_buf s)) (u_b (u_buf s)) \<and>
     u_n (u_buf s) \<le> len \<and> length (u_b (u_buf s)) = len \<and> Failed \<notin> set as \<and>
     readable (u_buf s) + writable (u_buf s) = len"
proof -
  note r = usb_ok_run [OF usb_ok_new assms]
  have new: "content (u_buf (usb_new len)) = []" "length (u_b (u_buf (usb_new len))) = len" by (simp_all add: usb_new_def ubuf_new_def content_def)
  have "u_n (u_buf s) \<le> len" "length (u_b (u_buf s)) = len" using r new by (simp_all add: usb_ok_def)
  then show ?thesis using r unfolding new(1) by (simp add: content_def readable_def writable_def)
qed

text \<open>The consumer takes a byte while the producer holds a view, so that \<open>finish_write\<close> has to move what was written.\<close>

definition crossing_run :: "usb_event list" where
  "crossing_run = [PendWrite None, Store 0 [1, 2, 3], FinishWrite 3, PendRead, PendWrite None, FinishRead 2, Store 0 [4], FinishWrite 1, PendRead, FinishRead 2]"

lemma crossing_result:
  "case usb_run crossing_run (usb_new 4) of None \<Rightarrow> False
   | Some (s, as) \<Rightarrow> as = [Silent, Silent, Written [1, 2, 3], Silent, Silent, Taken [1, 2], Silent, Written [4], Silent, Taken [3, 4]]"
  by code_simp

theorem usb_buffer_is_fifo_witness:
  "\<exists>s as. usb_run crossing_run (usb_new 4) = Some (s, as) \<and> concat (map taken_by as) = [1, 2, 3, 4] \<and> u_n (u_buf s) = 0"
proof -
  obtain s as where s: "usb_run crossing_run (usb_new 4) = Some (s, as)"
      "as = [Silent, Silent, Written [1, 2, 3], Silent, Silent, Taken [1, 2], Silent, Written [4], Silent, Taken [3, 4]]"
    using crossing_result by (auto split: option.splits)
  then have "take (u_n (u_buf s)) (u_b (u_buf s)) = []" "u_n (u_buf s) \<le> length (u_b (u_buf s))" "length (u_b (u_buf s)) = 4"
    using usb_buffer_is_fifo [OF s(1)] by simp_all
  then have "u_n (u_buf s) = 0" by (cases "u_b (u_buf s)") auto
  then show ?thesis using s by simp
qed

text \<open>The convenience methods, when the other side does not interfere\<close>

lemma ubuf_write_ok:
  assumes "u_n u \<le> length (u_b u)"
  shows "\<exists>u'. ubuf_write u w = Inr (min (length w) (writable u), u') \<and> content u' = content u @ take (writable u) w \<and>
     length (u_b u') = length (u_b u)"
proof -
  define k where "k = min (length w) (writable u)"
  let ?u = "u\<lparr>u_w := u_n u\<rparr>"
  have p: "pend_write u None = ((u_n u, writable u), ?u)" by (simp add: pend_write_def writable_def Let_def)
  show ?thesis
  proof (cases "k = 0")
    case True
    then have "w = [] \<or> writable u = 0" by (cases w) (simp_all add: k_def min_def split: if_splits)
    then show ?thesis using p by (auto simp: ubuf_write_def content_def)
  next
    case False
    have l: "u_n u + 0 + length (take k w) \<le> length (u_b ?u)" using assms by (simp add: k_def writable_def)
    note v = view_store_ok [OF l]
    have "take k (drop (u_n u) (u_b (view_store ?u (u_n u) 0 (take k w)))) = take k w"
      using v(5) [of k] l by (simp add: k_def writable_def)
    moreover have "\<exists>u'. finish_write (view_store ?u (u_n u) 0 (take k w)) k = Inr u' \<and>
        content u' = content (view_store ?u (u_n u) 0 (take k w)) @ take k (drop (u_w (view_store ?u (u_n u) 0 (take k w))) (u_b (view_store ?u (u_n u) 0 (take k w)))) \<and>
        u_n u' = u_n (view_store ?u (u_n u) 0 (take k w)) + k \<and> length (u_b u') = length (u_b (view_store ?u (u_n u) 0 (take k w)))"
      by (rule finish_write_ok) (use v l in \<open>simp_all add: k_def\<close>)
    moreover have "content (view_store ?u (u_n u) 0 (take k w)) = content u" using v(4) by (simp add: content_def)
    moreover have "take k w = take (writable u) w" by (simp add: k_def min_def)
    ultimately show ?thesis using p False v by (auto simp: ubuf_write_def k_def)
  qed
qed

lemma ubuf_readinto_ok:
  assumes "u_n u \<le> length (u_b u)"
  shows "\<exists>u'. ubuf_readinto u len = Inr (take len (content u), u') \<and> content u' = drop len (content u)"
proof (cases "min (u_n u) len = 0")
  case True
  then have "ubuf_readinto u len = Inr ([], u)" "take len (content u) = []" "drop len (content u) = content u"
    by (auto simp: ubuf_readinto_def pend_read_def content_def min_def split: if_splits)
  then show ?thesis by simp
next
  case False
  let ?k = "min (u_n u) len"
  obtain u' where u': "finish_read u ?k = Inr u'" "content u' = drop ?k (content u)" using finish_read_ok [OF assms, of ?k] by auto
  have "ubuf_readinto u len = Inr (take ?k (u_b u), u')" using False u'(1) by (simp add: ubuf_readinto_def pend_read_def)
  moreover have "take ?k (u_b u) = take len (content u)" "drop ?k (content u) = drop len (content u)"
    by (auto simp: content_def min_def)
  ultimately show ?thesis using u'(2) by simp
qed

end
