(* ===== verification/Url.thy ===== *)
theory Url
  imports Codec Pytext
begin

text \<open>
  \<open>python-stdlib/urllib/parse.py\<close>. A Python string is here the list of its code points. White space, digits and letters, where the standard
  library asks for them, are those of ASCII, which are the ones MicroPython knows.
\<close>

section \<open>Strings\<close>

type_synonym ustr = "nat list"

definition codes :: "string \<Rightarrow> ustr" where
  "codes s = map of_char s"

text \<open>\<open>s.split(c, 1)\<close> and \<open>s.rsplit(c, 1)\<close> for a character that occurs, and \<open>s.split(c)\<close>\<close>

definition split_first :: "nat \<Rightarrow> ustr \<Rightarrow> ustr \<times> ustr" where
  "split_first c s = (takeWhile (\<lambda>x. x \<noteq> c) s, drop 1 (dropWhile (\<lambda>x. x \<noteq> c) s))"

definition split_last :: "nat \<Rightarrow> ustr \<Rightarrow> ustr \<times> ustr" where
  "split_last c s = (case split_first c (rev s) of (after, before) \<Rightarrow> (rev before, rev after))"

function split_all :: "nat \<Rightarrow> ustr \<Rightarrow> ustr list" where
  "split_all c s = (if c \<in> set s then fst (split_first c s) # split_all c (snd (split_first c s)) else [s])"
  by pat_completeness auto

lemma dropWhile_shorter: "c \<in> set s \<Longrightarrow> length (drop 1 (dropWhile (\<lambda>x. x \<noteq> c) s)) < length s"
  using length_dropWhile_le [of "\<lambda>x. x \<noteq> c" s] by (cases s) auto

termination split_all
  by (relation "measure (\<lambda>(_, s). length s)") (use dropWhile_shorter in \<open>auto simp: split_first_def\<close>)

declare split_all.simps [simp del]

text \<open>\<open>sub in s\<close> and \<open>s.split(sub, 1)\<close> for a longer separator\<close>

fun split_on :: "ustr \<Rightarrow> ustr \<Rightarrow> (ustr \<times> ustr) option" where
  "split_on sub [] = None"
| "split_on sub (x # s) =
     (if take (length sub) (x # s) = sub then Some ([], drop (length sub) (x # s))
      else map_option (\<lambda>(a, b). (x # a, b)) (split_on sub s))"

definition lower_char :: "nat \<Rightarrow> nat" where
  "lower_char c = (if 65 \<le> c \<and> c \<le> 90 then c + 32 else c)"

definition lower :: "ustr \<Rightarrow> ustr" where
  "lower s = map lower_char s"

definition replace_char :: "nat \<Rightarrow> nat \<Rightarrow> ustr \<Rightarrow> ustr" where
  "replace_char a b s = map (\<lambda>c. if c = a then b else c) s"

definition text_int :: "ustr \<Rightarrow> int result" where
  "text_int s = (if \<forall>c \<in> set s. c < 128 then py_int (map char_of s) else Inl ValueError)"

text \<open>
  \<open>bytes.decode("utf-8", "replace")\<close>: the longest beginning of a sequence that cannot be completed becomes one replacement character. \<open>utf8_first\<close> gives
  the first character, if there is one, and the number of bytes it takes.
\<close>

definition second_byte :: "nat \<Rightarrow> byte \<Rightarrow> bool" where
  "second_byte n b \<longleftrightarrow> cont_byte b \<and> (n = 0xE0 \<longrightarrow> unat b \<ge> 0xA0) \<and> (n = 0xED \<longrightarrow> unat b < 0xA0) \<and> (n = 0xF0 \<longrightarrow> unat b \<ge> 0x90) \<and> (n = 0xF4 \<longrightarrow> unat b < 0x90)"

definition utf8_first :: "bytes \<Rightarrow> nat option \<times> nat" where
  "utf8_first bs =
     (case bs of
        [] \<Rightarrow> (None, 0)
      | b # r \<Rightarrow>
          let n = unat b in
          if n < 0x80 then (Some n, 1)
          else if n < 0xC2 \<or> 0xF5 \<le> n then (None, 1)
          else (case r of
                  [] \<Rightarrow> (None, 1)
                | b1 # r1 \<Rightarrow>
                    if \<not> second_byte n b1 then (None, 1)
                    else if n < 0xE0 then (Some ((n - 0xC0) * 64 + cont_bits b1), 2)
                    else (case r1 of
                            [] \<Rightarrow> (None, 2)
                          | b2 # r2 \<Rightarrow>
                              if \<not> cont_byte b2 then (None, 2)
                              else if n < 0xF0 then (Some ((n - 0xE0) * 4096 + cont_bits b1 * 64 + cont_bits b2), 3)
                              else (case r2 of
                                      [] \<Rightarrow> (None, 3)
                                    | b3 # r3 \<Rightarrow>
                                        if \<not> cont_byte b3 then (None, 3)
                                        else (Some ((n - 0xF0) * 262144 + cont_bits b1 * 4096 + cont_bits b2 * 64 + cont_bits b3), 4)))))"

function utf8_replace :: "bytes \<Rightarrow> ustr" where
  "utf8_replace bs =
     (if bs = [] then []
      else (case utf8_first bs of (c, k) \<Rightarrow> (case c of Some c \<Rightarrow> c | None \<Rightarrow> 0xFFFD) # utf8_replace (drop (max k 1) bs)))"
  by pat_completeness auto
termination utf8_replace
  by (relation "measure length") auto

declare utf8_replace.simps [simp del]

section \<open>Quoting\<close>

definition is_alnum :: "byte \<Rightarrow> bool" where
  "is_alnum b \<longleftrightarrow> 48 \<le> unat b \<and> unat b \<le> 57 \<or> 65 \<le> unat b \<and> unat b \<le> 90 \<or> 97 \<le> unat b \<and> unat b \<le> 122"

definition upper_hex :: "nat \<Rightarrow> nat" where
  "upper_hex d = (if d < 10 then 48 + d else 55 + d)"

definition ascii_encode :: "ustr \<Rightarrow> bytes result" where
  "ascii_encode s = (if \<forall>c \<in> set s. c < 128 then Inr (map of_nat s) else Inl UnicodeError)"

definition quote_byte :: "bytes \<Rightarrow> byte \<Rightarrow> ustr" where
  "quote_byte safe b =
     (if is_alnum b \<or> b \<in> set safe \<or> b \<in> set (ascii ''-_.~'') then [unat b]
      else 37 # [upper_hex (unat b div 16), upper_hex (unat b mod 16)])"

definition quote_bytes :: "bytes \<Rightarrow> ustr \<Rightarrow> ustr result" where
  "quote_bytes bs safe = rbind (ascii_encode safe) (\<lambda>safe. Inr (concat (map (quote_byte safe) bs)))"

definition quote :: "ustr \<Rightarrow> ustr \<Rightarrow> ustr result" where
  "quote s safe = rbind (utf8_encode s) (\<lambda>bs. quote_bytes bs safe)"

text \<open>\<open>int(s, 16)\<close> for a text of two characters: spaces around and a sign are allowed.\<close>

definition hex_digit_value :: "nat \<Rightarrow> nat option" where
  "hex_digit_value c =
     (if 48 \<le> c \<and> c \<le> 57 then Some (c - 48)
      else if 65 \<le> c \<and> c \<le> 70 then Some (c - 55)
      else if 97 \<le> c \<and> c \<le> 102 then Some (c - 87)
      else None)"

definition space_code :: "nat \<Rightarrow> bool" where
  "space_code c \<longleftrightarrow> c \<in> {9, 10, 11, 12, 13, 32}"

definition int16_two :: "nat \<Rightarrow> nat \<Rightarrow> int result" where
  "int16_two a b =
     (case (hex_digit_value a, hex_digit_value b) of
        (Some x, Some y) \<Rightarrow> Inr (int (16 * x + y))
      | (Some x, None) \<Rightarrow> if space_code b then Inr (int x) else Inl ValueError
      | (None, Some y) \<Rightarrow> if space_code a \<or> a = 43 then Inr (int y) else if a = 45 then Inr (- int y) else Inl ValueError
      | (None, None) \<Rightarrow> Inl ValueError)"

function unquote_codes :: "ustr \<Rightarrow> int list" where
  "unquote_codes s =
     (case s of
        [] \<Rightarrow> []
      | c # r \<Rightarrow>
          if c = 37 \<and> length r \<ge> 2
          then (case int16_two (r ! 0) (r ! 1) of Inr v \<Rightarrow> v # unquote_codes (drop 2 r) | Inl e \<Rightarrow> int c # unquote_codes r)
          else if c = 43 then 32 # unquote_codes r
          else int c # unquote_codes r)"
  by pat_completeness auto
termination unquote_codes
  by (relation "measure length") auto

declare unquote_codes.simps [simp del]

text \<open>\<open>bytes(list)\<close>\<close>

definition bytes_of_ints :: "int list \<Rightarrow> bytes result" where
  "bytes_of_ints xs = (if \<forall>x \<in> set xs. 0 \<le> x \<and> x < 256 then Inr (map of_int xs) else Inl ValueError)"

definition unquote :: "ustr \<Rightarrow> ustr result" where
  "unquote s = rbind (bytes_of_ints (unquote_codes s)) (\<lambda>bs. Inr (utf8_replace bs))"

section \<open>Query strings\<close>

text \<open>A value is a string, or a list or tuple: its items and its \<open>str\<close>.\<close>

datatype qvalue = QStr ustr | QSeq "ustr list" ustr

definition encode_pair :: "ustr \<Rightarrow> ustr \<Rightarrow> ustr result" where
  "encode_pair k v = rbind (quote k []) (\<lambda>k. rbind (quote v []) (\<lambda>v. Inr (k @ [61] @ v)))"

fun expand :: "bool \<Rightarrow> ustr \<times> qvalue \<Rightarrow> (ustr \<times> ustr) list" where
  "expand doseq (k, QStr v) = [(k, v)]"
| "expand doseq (k, QSeq items text) = (if doseq then map (\<lambda>i. (k, i)) items else [(k, text)])"

fun join :: "nat \<Rightarrow> ustr list \<Rightarrow> ustr" where
  "join c [] = []"
| "join c [s] = s"
| "join c (s # ss) = s @ [c] @ join c ss"

definition urlencode :: "(ustr \<times> qvalue) list \<Rightarrow> bool \<Rightarrow> ustr result" where
  "urlencode query doseq =
     rbind (rmap (\<lambda>(k, v). encode_pair k v) (concat (map (expand doseq) query))) (\<lambda>parts. Inr (join 38 parts))"

text \<open>The dictionary of \<open>parse_qs\<close>, in the order of insertion: a key with one value, or with the list of its values.\<close>

datatype qresult = Single ustr | Several "ustr list"

fun add_value :: "ustr \<Rightarrow> ustr \<Rightarrow> (ustr \<times> qresult) list \<Rightarrow> (ustr \<times> qresult) list" where
  "add_value k v [] = [(k, Single v)]"
| "add_value k v ((k', r) # d) =
     (if k' = k then (k', case r of Single u \<Rightarrow> Several [u, v] | Several us \<Rightarrow> Several (us @ [v])) # d
      else (k', r) # add_value k v d)"

definition parse_pair :: "ustr \<Rightarrow> (ustr \<times> ustr) result" where
  "parse_pair pair =
     (if 61 \<in> set pair
      then let (key, value) = split_first 61 pair in
           rbind (unquote (replace_char 43 32 key)) (\<lambda>k. rbind (unquote (replace_char 43 32 value)) (\<lambda>v. Inr (k, v)))
      else rbind (unquote (replace_char 43 32 pair)) (\<lambda>k. Inr (k, [])))"

fun parse_pairs :: "bool \<Rightarrow> ustr list \<Rightarrow> (ustr \<times> qresult) list \<Rightarrow> (ustr \<times> qresult) list result" where
  "parse_pairs keep [] d = Inr d"
| "parse_pairs keep (pair # pairs) d =
     (if pair = [] then parse_pairs keep pairs d
      else rbind (parse_pair pair) (\<lambda>(k, v). parse_pairs keep pairs (if \<not> keep \<and> v = [] then d else add_value k v d)))"

definition parse_qs :: "ustr \<Rightarrow> bool \<Rightarrow> (ustr \<times> qresult) list result" where
  "parse_qs qs keep_blank_values = (if qs = [] then Inr [] else parse_pairs keep_blank_values (split_all 38 qs) [])"

section \<open>Splitting URLs\<close>

record split_result =
  scheme :: ustr
  netloc :: ustr
  path :: ustr
  query :: ustr
  fragment :: ustr

definition urlsplit :: "ustr \<Rightarrow> split_result" where
  "urlsplit url =
     (let (sch, rest) = (case split_on (codes ''://'') url of Some (s, r) \<Rightarrow> (lower s, r) | None \<Rightarrow> ([], url));
          (rest, frag) = (if 35 \<in> set rest then split_first 35 rest else (rest, []));
          (rest, qu) = (if 63 \<in> set rest then split_first 63 rest else (rest, []));
          (net, pa) = (if 47 \<in> set rest then (case split_first 47 rest of (n, p) \<Rightarrow> (n, 47 # p)) else (rest, [47]))
      in \<lparr>scheme = sch, netloc = net, path = pa, query = qu, fragment = frag\<rparr>)"

text \<open>The six fields of \<open>ParseResult\<close>, with \<open>params\<close>\<close>

record parse_result = split_result +
  params :: ustr

definition urlparse :: "ustr \<Rightarrow> parse_result" where
  "urlparse url =
     (let r = urlsplit url;
          (pa, pars) = (if 59 \<in> set (path r) then split_first 59 (path r) else (path r, []))
      in \<lparr>scheme = scheme r, netloc = netloc r, path = pa, query = query r, fragment = fragment r, params = pars\<rparr>)"

definition urlunparse_fields :: "ustr \<Rightarrow> ustr \<Rightarrow> ustr \<Rightarrow> ustr \<Rightarrow> ustr \<Rightarrow> ustr \<Rightarrow> ustr" where
  "urlunparse_fields sch net pa pars qu frag =
     (let pa = (if pars \<noteq> [] then pa @ [59] @ pars else pa);
          url = sch @ codes ''://'' @ net @ pa;
          url = (if qu \<noteq> [] then url @ [63] @ qu else url)
      in if frag \<noteq> [] then url @ [35] @ frag else url)"

definition split_geturl :: "split_result \<Rightarrow> ustr" where
  "split_geturl r = urlunparse_fields (scheme r) (netloc r) (path r) [] (query r) (fragment r)"

definition parse_geturl :: "parse_result \<Rightarrow> ustr" where
  "parse_geturl r = urlunparse_fields (scheme r) (netloc r) (path r) (params r) (query r) (fragment r)"

text \<open>\<open>urlunparse\<close> of a tuple or list\<close>

definition urlunparse :: "ustr list \<Rightarrow> ustr result" where
  "urlunparse parts =
     (case parts of
        [s, n, p, ps, q, f] \<Rightarrow> Inr (urlunparse_fields s n p ps q f)
      | [s, n, p, q, f] \<Rightarrow> Inr (urlunparse_fields s n p [] q f)
      | _ \<Rightarrow> Inl ValueError)"

text \<open>\<open>urlunparse\<close> of a dictionary: the defaults of its \<open>get\<close>\<close>

definition field_or :: "(string \<Rightarrow> ustr option) \<Rightarrow> string \<Rightarrow> string \<Rightarrow> ustr" where
  "field_or d k other = (case d k of Some v \<Rightarrow> v | None \<Rightarrow> codes other)"

definition urlunparse_dict :: "(string \<Rightarrow> ustr option) \<Rightarrow> ustr" where
  "urlunparse_dict d =
     urlunparse_fields (field_or d ''scheme'' ''http'') (field_or d ''netloc'' []) (field_or d ''path'' ''/'') (field_or d ''params'' [])
       (field_or d ''query'' []) (field_or d ''fragment'' [])"

section \<open>The network location\<close>

text \<open>\<open>s.rpartition("@")\<close>: before, whether it occurs, after\<close>

definition userinfo_split :: "ustr \<Rightarrow> (ustr \<times> ustr) option" where
  "userinfo_split loc = (if 64 \<in> set loc then Some (split_last 64 loc) else None)"

definition hostinfo :: "ustr \<Rightarrow> ustr \<times> ustr option" where
  "hostinfo loc =
     (let hi = (case userinfo_split loc of None \<Rightarrow> loc | Some (u, h) \<Rightarrow> h) in
      if 91 \<in> set hi
      then if split_on [93, 58] hi \<noteq> None
           then (case split_last 58 hi of (h, port) \<Rightarrow> (butlast (drop 1 h), Some port))
           else (if hi \<noteq> [] \<and> last hi = 93 then butlast (drop 1 hi) else drop 1 hi, None)
      else if 58 \<in> set hi
           then (case split_last 58 hi of (h, port) \<Rightarrow> (h, Some port))
           else (hi, None))"

definition userinfo :: "ustr \<Rightarrow> ustr option \<times> ustr option" where
  "userinfo loc =
     (case userinfo_split loc of
        None \<Rightarrow> (None, None)
      | Some (u, h) \<Rightarrow> if 58 \<in> set u then (case split_first 58 u of (name, pw) \<Rightarrow> (Some name, Some pw)) else (Some u, None))"

definition hostname :: "ustr \<Rightarrow> ustr option" where
  "hostname loc =
     (let h = fst (hostinfo loc) in
      if h = [] then None
      else if 37 \<in> set h then (case split_first 37 h of (host, zone) \<Rightarrow> Some (lower host @ [37] @ zone))
      else Some (lower h))"

definition port :: "ustr \<Rightarrow> int option result" where
  "port loc =
     (case snd (hostinfo loc) of
        None \<Rightarrow> Inr None
      | Some s \<Rightarrow>
          if s = [] then Inr None
          else rbind (text_int s) (\<lambda>p. if 0 \<le> p \<and> p \<le> 65535 then Inr (Some p) else Inl ValueError))"

end
