(* ===== verification/Url_Correct.thy ===== *)
theory Url_Correct
  imports Url
begin

text \<open>What \<open>Url\<close> models reads back what it writes: quoting, query strings, and URLs put together from their parts.\<close>

section \<open>Decoding what was encoded\<close>

lemma cont_bits_eq: "cont_byte b \<Longrightarrow> unat b = 128 + cont_bits b"
  using div_mult_mod_eq [of "unat b" 64] by (simp add: cont_byte_def cont_bits_def)

lemma utf8_first_decode:
  assumes "utf8_decode (b # bs) = Inr cs"
  shows "\<exists>c k cs'. utf8_first (b # bs) = (Some c, Suc k) \<and> cs = c # cs' \<and> utf8_decode (drop k bs) = Inr cs'"
proof -
  let ?n = "unat b"
  have bits: "cont_bits x < 64" for x by (simp add: cont_bits_def)
  consider "?n < 0x80" | "0xC2 \<le> ?n" "?n < 0xE0" | "0xE0 \<le> ?n" "?n < 0xF0" | "0xF0 \<le> ?n" "?n < 0xF5"
    using assms by (auto simp: Let_def split: if_splits)
  then show ?thesis
  proof cases
    case 1
    then obtain cs' where "utf8_decode bs = Inr cs'" "cs = ?n # cs'" using assms by (auto simp: Let_def)
    then show ?thesis using 1 by (intro exI [of _ ?n] exI [of _ 0] exI [of _ cs']) (simp add: utf8_first_def)
  next
    case 2
    then obtain b1 r cs' where r: "bs = b1 # r" "cont_byte b1" "utf8_decode r = Inr cs'" "cs = ((?n - 0xC0) * 64 + cont_bits b1) # cs'"
      using assms by (auto simp: Let_def split: list.splits if_splits)
    then have "utf8_first (b # bs) = (Some ((?n - 0xC0) * 64 + cont_bits b1), Suc 1)"
      using 2 by (simp add: utf8_first_def second_byte_def Let_def)
    then show ?thesis using r by (intro exI [of _ "(?n - 0xC0) * 64 + cont_bits b1"] exI [of _ 1] exI [of _ cs']) simp
  next
    case 3
    let ?c = "\<lambda>b1 b2. (?n - 0xE0) * 4096 + cont_bits b1 * 64 + cont_bits b2"
    obtain b1 b2 r cs' where r: "bs = b1 # b2 # r" "cont_byte b1" "cont_byte b2" "0x800 \<le> ?c b1 b2" "\<not> surrogate (?c b1 b2)"
        "utf8_decode r = Inr cs'" "cs = ?c b1 b2 # cs'"
      using assms 3 by (auto simp: Let_def split: list.splits if_splits)
    have "second_byte ?n b1"
      using r(2,4,5) bits [of b1] bits [of b2] cont_bits_eq [OF r(2)] 3 by (auto simp: second_byte_def surrogate_def)
    then have "utf8_first (b # bs) = (Some (?c b1 b2), Suc 2)" using 3 r(1,3) by (simp add: utf8_first_def Let_def)
    then show ?thesis using r by (intro exI [of _ "?c b1 b2"] exI [of _ 2] exI [of _ cs']) simp
  next
    case 4
    let ?c = "\<lambda>b1 b2 b3. (?n - 0xF0) * 262144 + cont_bits b1 * 4096 + cont_bits b2 * 64 + cont_bits b3"
    obtain b1 b2 b3 r cs' where r: "bs = b1 # b2 # b3 # r" "cont_byte b1" "cont_byte b2" "cont_byte b3" "0x10000 \<le> ?c b1 b2 b3" "?c b1 b2 b3 < 0x110000"
        "utf8_decode r = Inr cs'" "cs = ?c b1 b2 b3 # cs'"
      using assms 4 by (auto simp: Let_def split: list.splits if_splits)
    have "second_byte ?n b1"
      using r(2,5,6) bits [of b1] bits [of b2] bits [of b3] cont_bits_eq [OF r(2)] 4 by (auto simp: second_byte_def)
    then have "utf8_first (b # bs) = (Some (?c b1 b2 b3), Suc 3)" using 4 r(1,3,4) by (simp add: utf8_first_def Let_def)
    then show ?thesis using r by (intro exI [of _ "?c b1 b2 b3"] exI [of _ 3] exI [of _ cs']) simp
  qed
qed

lemma utf8_replace_decode: "utf8_decode bs = Inr cs \<Longrightarrow> utf8_replace bs = cs"
proof (induction bs arbitrary: cs rule: length_induct)
  case (1 bs)
  show ?case
  proof (cases bs)
    case Nil
    then show ?thesis using "1.prems" by (simp add: utf8_replace.simps)
  next
    case (Cons b r)
    then obtain c k cs' where c: "utf8_first bs = (Some c, Suc k)" "cs = c # cs'" "utf8_decode (drop k r) = Inr cs'"
      using utf8_first_decode [of b r cs] "1.prems" by blast
    have "utf8_replace (drop k r) = cs'" using "1.IH" c(3) Cons by simp
    then show ?thesis using c Cons by (subst utf8_replace.simps) simp
  qed
qed

section \<open>Quoting\<close>

lemma upper_hex_value [simp]: "d < 16 \<Longrightarrow> hex_digit_value (upper_hex d) = Some d"
  by (auto simp: hex_digit_value_def upper_hex_def)

lemma byte_parts16: "unat (b :: byte) div 16 < 16" "16 * (unat b div 16) + unat b mod 16 = unat b"
proof -
  have "unat b < 256" using unsigned_less [of b] by simp
  then show "unat b div 16 < 16" by linarith
  show "16 * (unat b div 16) + unat b mod 16 = unat b" by simp
qed

lemma unreserved_marks: "b \<in> set (ascii ''-_.~'') \<longleftrightarrow> unat b \<in> {45, 95, 46, 126}"
proof -
  have "set (ascii ''-_.~'') = {45, 95, 46, 126}" by code_simp
  then show ?thesis by (auto simp: word_unat_eq_iff)
qed

lemma unquote_quote_byte:
  assumes "37 \<notin> set safe" "43 \<notin> set safe"
  shows "unquote_codes (quote_byte safe b @ rest) = int (unat b) # unquote_codes rest"
proof (cases "is_alnum b \<or> b \<in> set safe \<or> b \<in> set (ascii ''-_.~'')")
  case True
  have "b = 37 \<longleftrightarrow> unat b = 37" "b = 43 \<longleftrightarrow> unat b = 43" by (simp_all add: word_unat_eq_iff)
  then have "unat b \<noteq> 37" "unat b \<noteq> 43" using True assms unfolding unreserved_marks by (auto simp: is_alnum_def)
  then show ?thesis using True by (subst unquote_codes.simps) (simp add: quote_byte_def)
next
  case False
  have "int16_two (upper_hex (unat b div 16)) (upper_hex (unat b mod 16)) = Inr (int (unat b))"
    using byte_parts16 [of b] by (simp add: int16_two_def)
  then show ?thesis using False by (subst unquote_codes.simps) (simp add: quote_byte_def)
qed

lemma unquote_quote_bytes:
  "37 \<notin> set safe \<Longrightarrow> 43 \<notin> set safe \<Longrightarrow> unquote_codes (concat (map (quote_byte safe) bs) @ rest) = map (\<lambda>b. int (unat b)) bs @ unquote_codes rest"
  by (induction bs) (simp_all add: unquote_quote_byte)

lemma bytes_of_ints_unat: "bytes_of_ints (map (\<lambda>b. int (unat b)) bs) = Inr bs"
proof -
  have "int (unat b) < 256" for b :: byte using unsigned_less [of b] by (simp flip: of_nat_less_iff [where 'a = int])
  then show ?thesis by (auto simp: bytes_of_ints_def comp_def)
qed

lemma bytes_of_ints_uint [simp]: "bytes_of_ints (map uint bs) = Inr bs"
  using bytes_of_ints_unat [of bs] by simp

lemma unquote_Nil [simp]: "unquote_codes [] = []"
  by (simp add: unquote_codes.simps)

definition quoted_chars :: "ustr \<Rightarrow> nat set" where
  "quoted_chars safe = {48..57} \<union> {65..90} \<union> {97..122} \<union> {37, 45, 46, 95, 126} \<union> set safe"

lemma quote_byte_chars:
  assumes "\<forall>c \<in> set safe. c < 128"
  shows "set (quote_byte (map of_nat safe) b) \<subseteq> quoted_chars safe"
proof -
  have h: "upper_hex d \<in> {48..57} \<union> {65..90}" if "d < 16" for d using that by (auto simp: upper_hex_def)
  have "b \<in> set (map of_nat safe) \<Longrightarrow> unat b \<in> set safe"
    using assms by (fastforce simp del: unsigned_of_nat simp: unat_of_nat)
  then show ?thesis using h [OF byte_parts16(1), of b] h [of "unat b mod 16"]
    by (auto simp: quote_byte_def quoted_chars_def unreserved_marks is_alnum_def)
qed

lemma quote_Inr:
  assumes "quote s safe = Inr q"
  obtains bs where "utf8_encode s = Inr bs" "\<forall>c \<in> set safe. c < 128" "q = concat (map (quote_byte (map of_nat safe)) bs)"
  using assms by (auto simp: quote_def quote_bytes_def ascii_encode_def split: if_splits)

text \<open>What \<open>quote\<close> cannot write.\<close>

definition unquotable :: "ustr \<Rightarrow> ustr \<Rightarrow> bool" where
  "unquotable s safe \<longleftrightarrow> (\<exists>c \<in> set s. surrogate c \<or> 0x110000 \<le> c) \<or> (\<exists>c \<in> set safe. 128 \<le> c)"

lemma utf8_encode_fails: "utf8_encode s = Inr bs \<Longrightarrow> \<not> (\<exists>c \<in> set s. surrogate c \<or> 0x110000 \<le> c)"
proof -
  have "rmap utf8_char s = Inr ys \<Longrightarrow> \<forall>c \<in> set s. \<not> (surrogate c \<or> 0x110000 \<le> c)" for ys
    by (induction s arbitrary: ys) (auto simp: utf8_char_def surrogate_def split: if_splits)
  then show "utf8_encode s = Inr bs \<Longrightarrow> \<not> (\<exists>c \<in> set s. surrogate c \<or> 0x110000 \<le> c)" by (auto simp: utf8_encode_def)
qed

lemma quote_then_unquote:
  "(case quote s safe of
      Inl e \<Rightarrow> e = UnicodeError \<and> unquotable s safe
    | Inr q \<Rightarrow> \<not> unquotable s safe \<and> set q \<subseteq> quoted_chars safe \<and> (37 \<notin> set safe \<longrightarrow> 43 \<notin> set safe \<longrightarrow> unquote q = Inr s))"
proof (cases "quote s safe")
  case (Inl e)
  have c: "utf8_char c = Inl e' \<Longrightarrow> e' = UnicodeError \<and> (surrogate c \<or> 0x110000 \<le> c)" for c e'
    by (auto simp: utf8_char_def split: if_splits)
  have "rmap utf8_char cs = Inl e' \<Longrightarrow> e' = UnicodeError \<and> (\<exists>c \<in> set cs. surrogate c \<or> 0x110000 \<le> c)" for cs e'
    by (induction cs) (auto simp: rbind_eq_Inl_iff dest: c)
  then show ?thesis using Inl
    by (auto simp: unquotable_def quote_def quote_bytes_def utf8_encode_def ascii_encode_def rbind_eq_Inl_iff split: if_splits) (meson not_le)+
next
  case (Inr q)
  then obtain bs where q: "utf8_encode s = Inr bs" "\<forall>c \<in> set safe. c < 128" "q = concat (map (quote_byte (map of_nat safe)) bs)"
    by (rule quote_Inr)
  have "unquote q = Inr s" if "37 \<notin> set safe" "43 \<notin> set safe"
  proof -
    have "of_nat c \<noteq> (37 :: byte) \<and> of_nat c \<noteq> (43 :: byte)" if "c \<in> set safe" for c
    proof -
      have "c < 128" using q(2) that by blast
      then have "unat (of_nat c :: byte) = c" by (simp add: unat_of_nat)
      moreover have "unat (37 :: byte) = 37" "unat (43 :: byte) = 43" by simp_all
      ultimately show ?thesis using that \<open>37 \<notin> set safe\<close> \<open>43 \<notin> set safe\<close> by metis
    qed
    then have "37 \<notin> set (map of_nat safe :: bytes)" "43 \<notin> set (map of_nat safe :: bytes)" by auto
    from unquote_quote_bytes [OF this, of bs "[]"] show ?thesis
      using utf8_replace_decode [OF utf8_roundtrip [OF q(1)]] by (simp add: unquote_def q(3))
  qed
  moreover have "\<not> unquotable s safe" using utf8_encode_fails [OF q(1)] q(2) by (auto simp: unquotable_def)
  ultimately show ?thesis using Inr q quote_byte_chars [OF q(2)] by auto
qed

text \<open>C33: \<open>unquote\<close> gives back every string that \<open>quote\<close> was given, whatever its characters, unless \<open>safe\<close> contains a percent or a plus sign; and what
\<open>quote\<close> writes consists of letters, digits, the marks \<open>-_.~\<close>, percent signs and the safe characters. \<open>quote\<close> raises, a \<open>UnicodeError\<close>, exactly when the
string has a code point without UTF-8 encoding or \<open>safe\<close> a character outside ASCII.\<close>

theorem url_quote_roundtrip:
  "(case quote s safe of
      Inl e \<Rightarrow> e = UnicodeError \<and> unquotable s safe
    | Inr q \<Rightarrow> \<not> unquotable s safe \<and> set q \<subseteq> quoted_chars safe \<and> (37 \<notin> set safe \<longrightarrow> 43 \<notin> set safe \<longrightarrow> unquote q = Inr s))"
  by (rule quote_then_unquote)

theorem url_quote_roundtrip_witness:
  "unquote (codes ''a%2Fb%20'' @ codes ''%C3%A9'') = Inr (codes ''a/b '' @ [233])"
proof -
  have "quote (codes ''a/b '' @ [233]) [] = Inr (codes ''a%2Fb%20'' @ codes ''%C3%A9'')" by code_simp
  then show ?thesis using url_quote_roundtrip [of "codes ''a/b '' @ [233]" "[]"] by simp
qed

section \<open>Query strings\<close>

lemma split_first_eq: "c \<notin> set a \<Longrightarrow> split_first c (a @ c # b) = (a, b)"
  by (induction a) (auto simp: split_first_def)

lemma split_all_none: "c \<notin> set s \<Longrightarrow> split_all c s = [s]"
  by (simp add: split_all.simps)

lemma split_all_append: "c \<notin> set a \<Longrightarrow> split_all c (a @ c # b) = a # split_all c b"
  by (subst split_all.simps) (simp add: split_first_eq)

lemma split_all_join: "ss \<noteq> [] \<Longrightarrow> \<forall>s \<in> set ss. c \<notin> set s \<Longrightarrow> split_all c (join c ss) = ss"
  by (induction c ss rule: join.induct) (auto simp: split_all_none split_all_append)

lemma quote_plain:
  assumes "quote s [] = Inr q"
  shows "38 \<notin> set q" "61 \<notin> set q" "43 \<notin> set q" "unquote q = Inr s"
  using quote_then_unquote [of s "[]"] assms by (auto simp: quoted_chars_def)

lemma replace_char_id: "a \<notin> set s \<Longrightarrow> replace_char a b s = s"
  by (induction s) (auto simp: replace_char_def)

lemma parse_encoded_pair:
  assumes "encode_pair k v = Inr p"
  shows "parse_pair p = Inr (k, v)" "38 \<notin> set p" "p \<noteq> []"
proof -
  obtain a b where q: "quote k [] = Inr a" "quote v [] = Inr b" "p = a @ [61] @ b" using assms by (auto simp: encode_pair_def)
  show "38 \<notin> set p" "p \<noteq> []" using q quote_plain by auto
  have "split_first 61 p = (a, b)" using q quote_plain(2) [OF q(1)] by (simp add: split_first_eq)
  then show "parse_pair p = Inr (k, v)"
    using q(3) quote_plain [OF q(1)] quote_plain [OF q(2)] by (simp add: parse_pair_def replace_char_id)
qed

lemma parse_encoded_pairs:
  "rmap (\<lambda>(k, v). encode_pair k v) kvs = Inr ps \<Longrightarrow>
     parse_pairs keep ps d = Inr (foldl (\<lambda>d (k, v). if \<not> keep \<and> v = [] then d else add_value k v d) d kvs)"
proof (induction kvs arbitrary: ps d)
  case (Cons kv kvs)
  obtain k v where kv: "kv = (k, v)" by (cases kv)
  obtain p ps' where p: "encode_pair k v = Inr p" "rmap (\<lambda>(k, v). encode_pair k v) kvs = Inr ps'" "ps = p # ps'"
    using Cons.prems kv by auto
  show ?case using parse_encoded_pair [OF p(1)] Cons.IH [OF p(2)] p(3) kv by simp
qed simp

text \<open>The values of a key, in their order, as \<open>parse_qs\<close> presents them\<close>

definition values_of :: "(ustr \<times> ustr) list \<Rightarrow> ustr \<Rightarrow> ustr list" where
  "values_of kvs k = map snd (filter (\<lambda>p. fst p = k) kvs)"

definition present :: "ustr list \<Rightarrow> qresult option" where
  "present vs = (case vs of [] \<Rightarrow> None | [v] \<Rightarrow> Some (Single v) | _ \<Rightarrow> Some (Several vs))"

lemma map_of_add_value:
  "map_of (add_value k v d) k' =
     (if k' = k then Some (case map_of d k of None \<Rightarrow> Single v | Some (Single u) \<Rightarrow> Several [u, v] | Some (Several us) \<Rightarrow> Several (us @ [v]))
      else map_of d k')"
  by (induction k v d rule: add_value.induct) (auto split: qresult.split)

lemma keys_add_value: "map fst (add_value k v d) = (if k \<in> set (map fst d) then map fst d else map fst d @ [k])"
  by (induction k v d rule: add_value.induct) auto

definition dict_of :: "(ustr \<times> ustr) list \<Rightarrow> (ustr \<times> qresult) list \<Rightarrow> bool" where
  "dict_of kvs d \<longleftrightarrow> distinct (map fst d) \<and> set (map fst d) = set (map fst kvs) \<and> (\<forall>k. map_of d k = present (values_of kvs k))"

lemma dict_of_add:
  assumes "dict_of kvs d"
  shows "dict_of (kvs @ [(k, v)]) (add_value k v d)"
proof -
  have "map_of (add_value k v d) k' = present (values_of (kvs @ [(k, v)]) k')" for k'
  proof (cases "k' = k")
    case False
    then show ?thesis using assms by (simp add: map_of_add_value dict_of_def values_of_def)
  next
    case True
    have "map_of d k = present (values_of kvs k)" using assms by (simp add: dict_of_def)
    moreover have "values_of (kvs @ [(k, v)]) k = values_of kvs k @ [v]" by (simp add: values_of_def)
    ultimately show ?thesis using True
      by (auto simp: map_of_add_value present_def split: list.splits)
  qed
  then show ?thesis using assms by (auto simp: dict_of_def keys_add_value)
qed

lemma dict_of_fold:
  "dict_of kvs0 d \<Longrightarrow>
     dict_of (kvs0 @ filter (\<lambda>(k, v). keep \<or> v \<noteq> []) kvs) (foldl (\<lambda>d (k, v). if \<not> keep \<and> v = [] then d else add_value k v d) d kvs)"
proof (induction kvs arbitrary: kvs0 d)
  case (Cons kv kvs)
  obtain k v where kv: "kv = (k, v)" by (cases kv)
  show ?case using Cons.IH [OF dict_of_add [OF Cons.prems, of k v]] Cons.IH [OF Cons.prems] kv by auto
qed simp

text \<open>C27: parsing the query string that \<open>urlencode\<close> writes gives a dictionary of exactly the keys that were given, each with its values in their order: the
value itself when there is one, their list when there are several; blank values are there if they are to be kept.\<close>

theorem url_query_roundtrip:
  assumes "urlencode qry doseq = Inr qs"
  shows "\<exists>d. parse_qs qs keep = Inr d \<and> dict_of (filter (\<lambda>(k, v). keep \<or> v \<noteq> []) (concat (map (expand doseq) qry))) d"
proof -
  let ?kvs = "concat (map (expand doseq) qry)"
  obtain ps where ps: "rmap (\<lambda>(k, v). encode_pair k v) ?kvs = Inr ps" "qs = join 38 ps" using assms by (auto simp: urlencode_def)
  have empty: "dict_of [] []" by (simp add: dict_of_def values_of_def present_def)
  show ?thesis
  proof (cases ps)
    case Nil
    then have k: "?kvs = []" using rmap_Inr_length [OF ps(1)] by simp
    show ?thesis unfolding k using Nil ps(2) empty by (simp add: parse_qs_def)
  next
    case (Cons p ps')
    have parts: "38 \<notin> set p \<and> p \<noteq> []" if "p \<in> set ps" for p
    proof -
      have "rmap (\<lambda>(k, v). encode_pair k v) kvs = Inr ps \<Longrightarrow> p \<in> set ps \<Longrightarrow> \<exists>k v. encode_pair k v = Inr p" for kvs ps
        by (induction kvs arbitrary: ps) (auto, blast)
      then show ?thesis using ps(1) that parse_encoded_pair(2,3) by blast
    qed
    then have "split_all 38 qs = ps" using split_all_join [of ps 38] ps(2) Cons by blast
    moreover have "qs \<noteq> []" using ps(2) Cons parts [of p] by (cases ps') auto
    ultimately have "parse_qs qs keep = Inr (foldl (\<lambda>d (k, v). if \<not> keep \<and> v = [] then d else add_value k v d) [] ?kvs)"
      using parse_encoded_pairs [OF ps(1)] by (simp add: parse_qs_def)
    then show ?thesis using dict_of_fold [OF empty, of keep ?kvs] by simp
  qed
qed

lemma url_query_roundtrip_example: "urlencode [([97], QStr [32, 233]), ([98], QSeq [[49], []] [])] True = Inr (codes ''a=%20%C3%A9&b=1&b='')"
  by code_simp

theorem url_query_roundtrip_witness:
  "\<exists>d. parse_qs (codes ''a=%20%C3%A9&b=1&b='') True = Inr d \<and> map_of d [98] = Some (Several [[49], []]) \<and> map_of d [97] = Some (Single [32, 233])"
proof -
  obtain d where "parse_qs (codes ''a=%20%C3%A9&b=1&b='') True = Inr d" "dict_of [([97], [32, 233]), ([98], [49]), ([98], [])] d"
    using url_query_roundtrip [OF url_query_roundtrip_example, of True] by auto
  then show ?thesis by (auto simp: dict_of_def values_of_def present_def)
qed

section \<open>URLs\<close>

lemma split_on_found: "split_on sub s = Some (a, b) \<Longrightarrow> s = a @ sub @ b"
  by (induction sub s arbitrary: a rule: split_on.induct) (auto split: if_splits, metis append_take_drop_id list.sel(1))

text \<open>What follows the first occurrence does not matter for finding it.\<close>

lemma split_on_other:
  "split_on sub (a @ sub @ b) = Some (a, b) \<Longrightarrow> sub \<noteq> [] \<Longrightarrow> split_on sub (a @ sub @ c) = Some (a, c)"
proof (induction a)
  case Nil
  then obtain x s where xs: "sub @ c = x # s" by (cases "sub @ c") auto
  have "take (length sub) (x # s) = sub" "drop (length sub) (x # s) = c" unfolding xs [symmetric] by simp_all
  then show ?case using xs by simp
next
  case (Cons x a)
  have "take (length sub) (x # a @ sub @ b) = take (length sub) (x # a @ sub @ c)"
    using take_append [of "length sub" "x # a @ sub" b] take_append [of "length sub" "x # a @ sub" c] by simp
  then show ?case using Cons by (auto split: if_splits)
qed

lemma split_on_no_colon: "58 \<notin> set a \<Longrightarrow> split_on (codes ''://'') (a @ codes ''://'' @ b) = Some (a, b)"
proof (induction a)
  case Nil
  then show ?case by (simp add: codes_def)
next
  case (Cons x a)
  then show ?case by (auto simp: codes_def)
qed

text \<open>The parts of a URL: the delimiters are where they belong.\<close>

definition url_parts :: "split_result \<Rightarrow> bool" where
  "url_parts r \<longleftrightarrow> lower (scheme r) = scheme r \<and> split_on (codes ''://'') (scheme r @ codes ''://'') = Some (scheme r, []) \<and>
     35 \<notin> set (netloc r @ path r @ query r) \<and> 63 \<notin> set (netloc r @ path r) \<and> 47 \<notin> set (netloc r) \<and> (\<exists>p. path r = 47 # p)"

lemma cut_marked:
  assumes "c \<notin> set q"
  shows "(if c \<in> set (if f \<noteq> [] then q @ c # f else q) then split_first c (if f \<noteq> [] then q @ c # f else q) else (if f \<noteq> [] then q @ c # f else q, [])) = (q, f)"
  using assms split_first_eq [of c q f] by auto

lemma urlsplit_geturl:
  assumes "url_parts r"
  shows "urlsplit (split_geturl r) = r"
proof -
  obtain p where p: "path r = 47 # p" using assms by (auto simp: url_parts_def)
  let ?np = "netloc r @ path r"
  let ?q = "if query r \<noteq> [] then ?np @ 63 # query r else ?np"
  let ?rest = "if fragment r \<noteq> [] then ?q @ 35 # fragment r else ?q"
  have ne: "codes ''://'' \<noteq> []" by (simp add: codes_def)
  have url: "split_geturl r = scheme r @ codes ''://'' @ ?rest" by (simp add: split_geturl_def urlunparse_fields_def Let_def)
  have sp: "split_on (codes ''://'') (split_geturl r) = Some (scheme r, ?rest)"
    unfolding url by (rule split_on_other [OF _ ne, of _ "[]"]) (use assms in \<open>simp add: url_parts_def\<close>)
  have q35: "35 \<notin> set ?q" using assms by (auto simp: url_parts_def)
  have f: "(if 35 \<in> set ?rest then split_first 35 ?rest else (?rest, [])) = (?q, fragment r)"
    by (rule cut_marked [OF q35])
  have np63: "63 \<notin> set ?np" using assms by (simp add: url_parts_def)
  have q: "(if 63 \<in> set ?q then split_first 63 ?q else (?q, [])) = (?np, query r)"
    by (rule cut_marked [OF np63])
  have n: "47 \<in> set ?np" "split_first 47 ?np = (netloc r, p)"
    using assms p split_first_eq [of 47 "netloc r" p] by (simp_all add: url_parts_def)
  show ?thesis
    unfolding urlsplit_def sp option.case prod.case Let_def f q using n p assms by (simp add: url_parts_def)
qed

lemma split_first_parts: "c \<in> set s \<Longrightarrow> \<exists>a b. split_first c s = (a, b) \<and> s = a @ c # b \<and> c \<notin> set a"
proof -
  assume "c \<in> set s"
  then obtain a b where "s = a @ c # b" "c \<notin> set a" by (metis split_list_first)
  then show ?thesis by (auto simp: split_first_eq)
qed

lemma cut_parts:
  obtains a b where "(if c \<in> set s then split_first c s else (s, [])) = (a, b)" "c \<notin> set a" "set a \<subseteq> set s"
proof (cases "c \<in> set s")
  case True
  then obtain a b where "split_first c s = (a, b)" "s = a @ c # b" "c \<notin> set a" using split_first_parts by blast
  then show ?thesis using True that [of a b] by auto
next
  case False
  then show ?thesis using that [of s "[]"] by simp
qed

lemma net_parts:
  obtains a b where "(if c \<in> set s then (case split_first c s of (n, p) \<Rightarrow> (n, c # p)) else (s, [c])) = (a, c # b)" "c \<notin> set a" "set (a @ b) \<subseteq> set s"
proof (cases "c \<in> set s")
  case True
  then obtain a b where "split_first c s = (a, b)" "s = a @ c # b" "c \<notin> set a" using split_first_parts by blast
  then show ?thesis using True that [of a b] by auto
next
  case False
  then show ?thesis using that [of s "[]"] by simp
qed

lemma lower_char_iff: "lower_char c = 58 \<longleftrightarrow> c = 58" "lower_char c = 47 \<longleftrightarrow> c = 47" "lower_char (lower_char c) = lower_char c"
  by (auto simp: lower_char_def)

lemma lower_delimiter: "lower xs = codes ''://'' \<longleftrightarrow> xs = codes ''://''"
  by (auto simp: lower_def codes_def map_eq_Cons_conv lower_char_iff)

lemma split_on_lower: "split_on (codes ''://'') (lower s) = map_option (\<lambda>(a, b). (lower a, lower b)) (split_on (codes ''://'') s)"
proof (induction s)
  case (Cons x s)
  have "take n (lower (x # s)) = lower (take n (x # s))" "drop n (lower (x # s)) = lower (drop n (x # s))" for n
    by (simp_all only: lower_def take_map drop_map)
  moreover have "lower (x # s) = lower_char x # lower s" "lower [] = []" by (simp_all add: lower_def)
  ultimately show ?case using Cons lower_delimiter [of "take (length (codes ''://'')) (x # s)"]
    by (cases "split_on (codes ''://'') s") (auto simp: lower_def)
qed (simp add: lower_def)

lemma urlsplit_parts: "url_parts (urlsplit url)"
proof -
  obtain sch rest where s: "(case split_on (codes ''://'') url of Some (s, r) \<Rightarrow> (lower s, r) | None \<Rightarrow> ([], url)) = (sch, rest)" by fastforce
  have sch: "lower sch = sch" "split_on (codes ''://'') (sch @ codes ''://'') = Some (sch, [])"
  proof -
    have idem: "lower (lower x) = lower x" for x by (simp add: lower_def lower_char_iff)
    have low: "split_on (codes ''://'') (lower x @ codes ''://'') = Some (lower x, [])"
      if "split_on (codes ''://'') (x @ codes ''://'') = Some (x, [])" for x
    proof -
      have "lower (x @ codes ''://'') = lower x @ codes ''://''" by (simp add: lower_def lower_char_def codes_def)
      then show ?thesis using split_on_lower [of "x @ codes ''://''"] that by (simp add: lower_def)
    qed
    show "lower sch = sch" using s idem by (auto split: option.splits simp: lower_def)
    show "split_on (codes ''://'') (sch @ codes ''://'') = Some (sch, [])"
    proof (cases "split_on (codes ''://'') url")
      case None
      then show ?thesis using s by (simp add: codes_def)
    next
      case (Some p)
      then obtain a b where p: "split_on (codes ''://'') url = Some (a, b)" by (cases p) auto
      have "split_on (codes ''://'') (a @ codes ''://'' @ []) = Some (a, [])"
        by (rule split_on_other [OF p [unfolded split_on_found [OF p]]]) (simp add: codes_def)
      then have "split_on (codes ''://'') (lower a @ codes ''://'') = Some (lower a, [])" using low by simp
      moreover have "lower a = sch" using s p by simp
      ultimately show ?thesis by simp
    qed
  qed
  obtain r1 fr where r1: "(if 35 \<in> set rest then split_first 35 rest else (rest, [])) = (r1, fr)" "35 \<notin> set r1"
    by (rule cut_parts)
  obtain r2 qu where r2: "(if 63 \<in> set r1 then split_first 63 r1 else (r1, [])) = (r2, qu)" "63 \<notin> set r2" "set r2 \<subseteq> set r1"
    by (rule cut_parts)
  have qu: "set qu \<subseteq> set r1"
  proof (cases "63 \<in> set r1")
    case True
    then obtain a b where "split_first 63 r1 = (a, b)" "r1 = a @ 63 # b" using split_first_parts by blast
    then show ?thesis using r2(1) True by fastforce
  next
    case False
    then show ?thesis using r2(1) by simp
  qed
  obtain net pa where np: "(if 47 \<in> set r2 then (case split_first 47 r2 of (n, p) \<Rightarrow> (n, 47 # p)) else (r2, [47])) = (net, 47 # pa)"
      "47 \<notin> set net" "set (net @ pa) \<subseteq> set r2"
    by (rule net_parts)
  have u: "urlsplit url = \<lparr>scheme = sch, netloc = net, path = 47 # pa, query = qu, fragment = fr\<rparr>"
    unfolding urlsplit_def s Let_def prod.case r1(1) r2(1) np(1) by simp
  have "35 \<notin> set (net @ (47 # pa) @ qu)" "63 \<notin> set (net @ 47 # pa)" using r1(2) r2(2,3) qu np(3) by auto
  then show ?thesis unfolding u url_parts_def using sch np(2) by simp
qed

text \<open>C34: splitting a URL gives its parts: put together again by \<open>geturl\<close> they split into the same parts, for every text; and parts in which the delimiters
are where they belong are what \<open>urlsplit\<close> finds in the URL made of them.\<close>

theorem urlsplit_roundtrip:
  "url_parts (urlsplit url) \<and> urlsplit (split_geturl (urlsplit url)) = urlsplit url \<and> (url_parts r \<longrightarrow> urlsplit (split_geturl r) = r)"
  using urlsplit_parts urlsplit_geturl by blast

theorem urlsplit_roundtrip_witness:
  "urlsplit (codes ''http://h:8/p/q?x=/#f'') =
     \<lparr>scheme = codes ''http'', netloc = codes ''h:8'', path = codes ''/p/q'', query = codes ''x=/'', fragment = codes ''f''\<rparr>"
proof -
  let ?r = "\<lparr>scheme = codes ''http'', netloc = codes ''h:8'', path = codes ''/p/q'', query = codes ''x=/'', fragment = codes ''f''\<rparr>"
  have "url_parts ?r" by (auto simp: url_parts_def lower_def lower_char_def codes_def)
  then have "urlsplit (split_geturl ?r) = ?r" using urlsplit_roundtrip by blast
  then show ?thesis by (simp add: split_geturl_def urlunparse_fields_def codes_def)
qed

end
