(* ===== verification/Operation.thy ===== *)
theory Operation
  imports Prelude
begin

text \<open>
  Operations of the network clients: they give a value or raise, and change the state either way. Sequencing, the basic operations, and the one rule that
  their orders obey: what holds between the states before and after every basic operation, and is reflexive and transitive, holds for all that is made of them.
\<close>

section \<open>Operations\<close>

type_synonym ('s, 'a) op = "'s \<Rightarrow> 'a result \<times> 's"

definition ret :: "'a \<Rightarrow> ('s, 'a) op" where
  "ret x s = (Inr x, s)"

definition raise :: "exn \<Rightarrow> ('s, 'a) op" where
  "raise e s = (Inl e, s)"

definition bind_op :: "('s, 'a) op \<Rightarrow> ('a \<Rightarrow> ('s, 'b) op) \<Rightarrow> ('s, 'b) op" where
  "bind_op m f s = (case m s of (Inl e, s') \<Rightarrow> (Inl e, s') | (Inr x, s') \<Rightarrow> f x s')"

definition lift :: "'a result \<Rightarrow> ('s, 'a) op" where
  "lift r s = (r, s)"

definition assert_op :: "bool \<Rightarrow> ('s, unit) op" where
  "assert_op b = (if b then ret () else raise AssertionError)"

definition when_op :: "bool \<Rightarrow> ('s, unit) op \<Rightarrow> ('s, unit) op" where
  "when_op b m = (if b then m else ret ())"

text \<open>Indexing bytes\<close>

definition byte_at :: "bytes \<Rightarrow> nat \<Rightarrow> ('s, nat) op" where
  "byte_at bs i = (if i < length bs then ret (unat (bs ! i)) else raise IndexError)"

lemmas op_defs = ret_def raise_def bind_op_def lift_def assert_op_def

lemma bind_Inr: "m s = (Inr x, t) \<Longrightarrow> bind_op m f s = f x t"
  by (simp add: bind_op_def)

lemma bind_Inl: "m s = (Inl e, t) \<Longrightarrow> bind_op m f s = (Inl e, t)"
  by (simp add: bind_op_def)

lemma basic_ops:
  "ret x s = (Inr x, s)" "raise e s = (Inl e, s)" "lift r s = (r, s)" "assert_op True s = (Inr (), s)" "assert_op False s = (Inl AssertionError, s)"
  "when_op True m = m" "when_op False m s = (Inr (), s)" "i < length bs \<Longrightarrow> byte_at bs i s = (Inr (unat (bs ! i)), s)"
  by (simp_all add: op_defs when_op_def byte_at_def)

lemma bind_basic:
  "bind_op (ret x) f s = f x s" "bind_op (lift (Inr x)) f s = f x s" "bind_op (lift (Inl e)) f s = (Inl e, s)" "bind_op (assert_op True) g s = g () s"
  by (simp_all add: op_defs)

lemma bind_op_cong [fundef_cong]:
  "m s = m' s' \<Longrightarrow> (\<And>x t. m' s' = (Inr x, t) \<Longrightarrow> f x t = f' x t) \<Longrightarrow> bind_op m f s = bind_op m' f' s'"
  by (auto simp: bind_op_def split: prod.splits sum.splits)

section \<open>Orders that operations respect\<close>

definition within :: "('s \<Rightarrow> 's \<Rightarrow> bool) \<Rightarrow> ('s, 'a) op \<Rightarrow> bool" where
  "within R m \<longleftrightarrow> (\<forall>s r s'. m s = (r, s') \<longrightarrow> R s s')"

lemma withinI: "(\<And>s r s'. m s = (r, s') \<Longrightarrow> R s s') \<Longrightarrow> within R m"
  unfolding within_def by blast

lemma withinD: "within R m \<Longrightarrow> m s = (r, s') \<Longrightarrow> R s s'"
  unfolding within_def by blast

locale state_order =
  fixes R :: "'s \<Rightarrow> 's \<Rightarrow> bool"
  assumes refl: "R s s"
    and trans: "R s t \<Longrightarrow> R t u \<Longrightarrow> R s u"
begin

lemma within_bind:
  assumes m: "within R m" and f: "\<And>x. within R (f x)"
  shows "within R (bind_op m f)"
proof (rule withinI)
  fix s r s'
  assume b: "bind_op m f s = (r, s')"
  obtain x t where t: "m s = (x, t)" by fastforce
  note first = withinD [OF m t]
  show "R s s'"
  proof (cases x)
    case (Inl e)
    then show ?thesis using b t first by (simp add: bind_op_def)
  next
    case (Inr y)
    then have "f y t = (r, s')" using b t by (simp add: bind_op_def)
    then show ?thesis using trans [OF first withinD [OF f]] by blast
  qed
qed

lemma within_basic:
  "within R (ret x)" "within R (raise e)" "within R (lift r)" "within R (assert_op b)" "within R (byte_at bs i)"
  by (auto simp: within_def op_defs byte_at_def refl split: if_splits)

lemma within_if: "within R m \<Longrightarrow> within R m' \<Longrightarrow> within R (if b then m else m')"
  by simp

lemmas within_rules = within_bind within_basic within_if

end

end
