(* ===== verification/Mqtt.thy ===== *)
theory Mqtt
  imports Codec Operation
begin

unbundle bit_operations_syntax

text \<open>
  The MQTT client of \<open>micropython/umqtt.simple/umqtt/simple.py\<close>, over a stream socket. Topics, messages and names are bytes, as they go over the wire
  (for a \<open>str\<close> beyond ASCII the code counts characters where bytes are meant). \<open>connect\<close> is modelled from the first write on, without a timeout; making the
  socket is not. The callback is an unknown function: the model records its calls, and a callback that calls the client itself is out of scope.
\<close>

section \<open>Client and socket\<close>

text \<open>
  What the server will have sent is a list of bytes with gaps in it, the moments at which nothing has arrived: a blocking \<open>read\<close> waits through them, a
  non-blocking one returns \<open>None\<close>. The stream ends after the list, and \<open>read(n)\<close> gives fewer than \<open>n\<close> bytes only there.
\<close>

record mqtt =
  m_pid :: nat
  m_cb :: bool
  m_client_id :: bytes
  m_user :: "bytes option"
  m_pswd :: "bytes option"
  m_keepalive :: nat
  m_lw_topic :: "bytes option"
  m_lw_msg :: bytes
  m_lw_qos :: nat
  m_lw_retain :: bool
  s_in :: "byte option list"
  s_out :: bytes
  s_blocking :: bool
  m_calls :: "(bytes \<times> bytes) list"

definition mqtt_client :: "bytes \<Rightarrow> bytes option \<Rightarrow> bytes option \<Rightarrow> nat \<Rightarrow> mqtt" where
  "mqtt_client client_id user password keepalive =
     \<lparr>m_pid = 0, m_cb = False, m_client_id = client_id, m_user = user, m_pswd = password, m_keepalive = keepalive,
      m_lw_topic = None, m_lw_msg = [], m_lw_qos = 0, m_lw_retain = False, s_in = [], s_out = [], s_blocking = True, m_calls = []\<rparr>"

fun take_arrived :: "nat \<Rightarrow> byte option list \<Rightarrow> bytes \<times> byte option list" where
  "take_arrived 0 i = ([], i)"
| "take_arrived (Suc n) [] = ([], [])"
| "take_arrived (Suc n) (None # i) = take_arrived (Suc n) i"
| "take_arrived (Suc n) (Some b # i) = (let (bs, i) = take_arrived n i in (b # bs, i))"

fun take_ready :: "nat \<Rightarrow> byte option list \<Rightarrow> bytes \<times> byte option list" where
  "take_ready (Suc n) (Some b # i) = (let (bs, i) = take_ready n i in (b # bs, i))"
| "take_ready n i = ([], i)"

definition sock_read :: "nat \<Rightarrow> mqtt \<Rightarrow> bytes option \<times> mqtt" where
  "sock_read n s =
     (if s_blocking s then (let (bs, i) = take_arrived n (s_in s) in (Some bs, s\<lparr>s_in := i\<rparr>))
      else (case s_in s of
              None # i \<Rightarrow> (None, s\<lparr>s_in := i\<rparr>)
            | _ \<Rightarrow> let (bs, i) = take_ready n (s_in s) in (Some bs, s\<lparr>s_in := i\<rparr>)))"

definition sock_write :: "bytes \<Rightarrow> mqtt \<Rightarrow> mqtt" where
  "sock_write bs s = s\<lparr>s_out := s_out s @ bs\<rparr>"

section \<open>Using the socket\<close>

type_synonym 'a mqtt_op = "(mqtt, 'a) op"

definition send :: "bytes \<Rightarrow> unit mqtt_op" where
  "send bs s = (Inr (), sock_write bs s)"

text \<open>A read whose result is used as bytes: \<open>None\<close> has no items.\<close>

definition recv :: "nat \<Rightarrow> bytes mqtt_op" where
  "recv n s = (case sock_read n s of (Some bs, s') \<Rightarrow> (Inr bs, s') | (None, s') \<Rightarrow> (Inl TypeError, s'))"

text \<open>\<open>read\<close> with a negative size reads up to the end.\<close>

definition recv_int :: "int \<Rightarrow> bytes mqtt_op" where
  "recv_int sz s = recv (if sz < 0 then length (s_in s) else nat sz) s"

section \<open>Strings, lengths and the last will\<close>

definition send_str :: "bytes \<Rightarrow> unit mqtt_op" where
  "send_str s = bind_op (lift (struct_pack 2 (length s))) (\<lambda>l. bind_op (send l) (\<lambda>_. send s))"

lemma take_arrived_shorter:
  "take_arrived n i = (bs, i') \<Longrightarrow> length i' + length bs \<le> length i"
  by (induction n i arbitrary: bs i' rule: take_arrived.induct) (force split: prod.splits)+

lemma take_ready_shorter:
  "take_ready n i = (bs, i') \<Longrightarrow> length i' + length bs \<le> length i"
  by (induction n i arbitrary: bs i' rule: take_ready.induct) (auto split: prod.splits)

lemma sock_read_shorter:
  "sock_read n s = (r, s') \<Longrightarrow> length (s_in s') + (case r of None \<Rightarrow> 1 | Some bs \<Rightarrow> length bs) \<le> length (s_in s)"
  by (auto simp: sock_read_def dest: take_arrived_shorter take_ready_shorter split: if_splits list.splits option.splits prod.splits)

function recv_len_loop :: "nat \<Rightarrow> nat \<Rightarrow> nat mqtt_op" where
  "recv_len_loop n sh s =
     (case sock_read 1 s of
        (None, s) \<Rightarrow> (Inl TypeError, s)
      | (Some [], s) \<Rightarrow> (Inl IndexError, s)
      | (Some (b # _), s) \<Rightarrow>
          let n = n OR push_bit sh (unat b AND 0x7F)
          in if unat b AND 0x80 = 0 then (Inr n, s) else recv_len_loop n (sh + 7) s)"
  by pat_completeness auto
termination recv_len_loop
  by (relation "measure (\<lambda>(_, _, s). length (s_in s))") (auto dest!: sock_read_shorter [OF sym])

declare recv_len_loop.simps [simp del]

definition recv_len :: "nat mqtt_op" where
  "recv_len = recv_len_loop 0 0"

definition set_callback :: "mqtt \<Rightarrow> mqtt" where
  "set_callback s = s\<lparr>m_cb := True\<rparr>"

definition set_last_will :: "bytes \<Rightarrow> bytes \<Rightarrow> bool \<Rightarrow> nat \<Rightarrow> unit mqtt_op" where
  "set_last_will topic msg retain qos =
     bind_op (assert_op (qos \<le> 2)) (\<lambda>_.
     bind_op (assert_op (topic \<noteq> [])) (\<lambda>_ s.
       (Inr (), s\<lparr>m_lw_topic := Some topic, m_lw_msg := msg, m_lw_qos := qos, m_lw_retain := retain\<rparr>)))"

section \<open>Connecting\<close>

text \<open>The loop that writes a length into a packet from index \<open>i\<close> on; an index beyond the packet raises.\<close>

definition set_byte :: "bytes \<Rightarrow> nat \<Rightarrow> nat \<Rightarrow> bytes result" where
  "set_byte pkt i v = (if length pkt \<le> i then Inl IndexError else if 256 \<le> v then Inl ValueError else Inr (pkt[i := of_nat v]))"

function put_len :: "bytes \<Rightarrow> nat \<Rightarrow> nat \<Rightarrow> (bytes \<times> nat) result" where
  "put_len pkt i sz =
     (if sz > 0x7F
      then rbind (set_byte pkt i ((sz AND 0x7F) OR 0x80)) (\<lambda>pkt. put_len pkt (i + 1) (drop_bit 7 sz))
      else rbind (set_byte pkt i sz) (\<lambda>pkt. Inr (pkt, i)))"
  by pat_completeness auto
termination put_len
  by (relation "measure (\<lambda>(_, _, sz). sz)") (auto simp: drop_bit_eq_div)

declare put_len.simps [simp del]

definition given :: "bytes option \<Rightarrow> bool" where
  "given s \<longleftrightarrow> s \<noteq> None \<and> s \<noteq> Some []"

text \<open>\<open>len(x)\<close> and the other uses of a value that may be \<open>None\<close>\<close>

definition required :: "bytes option \<Rightarrow> bytes result" where
  "required s = (case s of Some s \<Rightarrow> Inr s | None \<Rightarrow> Inl TypeError)"

definition connect_flags :: "mqtt \<Rightarrow> bool \<Rightarrow> nat" where
  "connect_flags s clean =
     (let f = push_bit 1 (of_bool clean);
          f = (if given (m_user s) then f OR 0xC0 else f)
      in if given (m_lw_topic s)
         then (f OR (4 OR push_bit 3 (m_lw_qos s AND 1) OR push_bit 3 (m_lw_qos s AND 2))) OR push_bit 5 (of_bool (m_lw_retain s))
         else f)"

definition connect_size :: "mqtt \<Rightarrow> nat result" where
  "connect_size s =
     rbind (if given (m_user s) then rbind (required (m_pswd s)) (\<lambda>p. Inr (2 + length (the (m_user s)) + 2 + length p)) else Inr 0) (\<lambda>u.
     Inr (10 + 2 + length (m_client_id s) + u + (if given (m_lw_topic s) then 2 + length (the (m_lw_topic s)) + 2 + length (m_lw_msg s) else 0)))"

definition connect_msg :: "mqtt \<Rightarrow> bool \<Rightarrow> bytes" where
  "connect_msg s clean =
     [4] @ ascii ''MQTT'' @ [4, of_nat (connect_flags s clean)] @
     (if m_keepalive s \<noteq> 0 then [of_nat (drop_bit 8 (m_keepalive s)), of_nat (m_keepalive s AND 0xFF)] else [0, 0])"

text \<open>\<open>connect_with c\<close> talks to the socket with the settings of the client \<open>c\<close>.\<close>

definition connect_with :: "mqtt \<Rightarrow> bool \<Rightarrow> nat mqtt_op" where
  "connect_with c clean =
     bind_op (lift (connect_size c)) (\<lambda>sz.
     bind_op (assert_op (m_keepalive c \<noteq> 0 \<longrightarrow> m_keepalive c < 65536)) (\<lambda>_.
     bind_op (lift (put_len [0x10, 0, 0, 0, 0, 0] 1 sz)) (\<lambda>(premsg, i).
     bind_op (send (take (i + 2) premsg)) (\<lambda>_.
     bind_op (send (connect_msg c clean)) (\<lambda>_.
     bind_op (send_str (m_client_id c)) (\<lambda>_.
     bind_op (when_op (given (m_lw_topic c)) (bind_op (send_str (the (m_lw_topic c))) (\<lambda>_. send_str (m_lw_msg c)))) (\<lambda>_.
     bind_op (when_op (given (m_user c)) (bind_op (send_str (the (m_user c))) (\<lambda>_. bind_op (lift (required (m_pswd c))) send_str))) (\<lambda>_.
     bind_op (recv 4) (\<lambda>resp.
     bind_op (byte_at resp 0) (\<lambda>r0.
     bind_op (assert_op (r0 = 0x20)) (\<lambda>_.
     bind_op (byte_at resp 1) (\<lambda>r1.
     bind_op (assert_op (r1 = 2)) (\<lambda>_.
     bind_op (byte_at resp 3) (\<lambda>r3.
     bind_op (if r3 \<noteq> 0 then raise (MQTTException r3) else ret ()) (\<lambda>_.
     bind_op (byte_at resp 2) (\<lambda>r2. ret (r2 AND 1)))))))))))))))))"

definition connect :: "bool \<Rightarrow> nat mqtt_op" where
  "connect clean s = connect_with s clean s"

definition disconnect :: "unit mqtt_op" where
  "disconnect = send [0xE0, 0]"

definition ping :: "unit mqtt_op" where
  "ping = send [0xC0, 0]"

section \<open>Incoming messages\<close>

definition call_back :: "bytes \<Rightarrow> bytes \<Rightarrow> unit mqtt_op" where
  "call_back topic msg s = (if m_cb s then (Inr (), s\<lparr>m_calls := m_calls s @ [(topic, msg)]\<rparr>) else (Inl TypeError, s))"

definition two_bytes :: "bytes \<Rightarrow> nat mqtt_op" where
  "two_bytes bs = bind_op (byte_at bs 0) (\<lambda>a. bind_op (byte_at bs 1) (\<lambda>b. ret (push_bit 8 a OR b)))"

text \<open>What \<open>wait_msg\<close> does with a PUBLISH packet after its first byte\<close>

definition on_publish :: "nat \<Rightarrow> nat option mqtt_op" where
  "on_publish oper =
     bind_op recv_len (\<lambda>sz.
     bind_op (recv 2) (\<lambda>tl.
     bind_op (two_bytes tl) (\<lambda>topic_len.
     bind_op (recv topic_len) (\<lambda>topic.
     bind_op (if oper AND 6 \<noteq> 0 then bind_op (recv 2) two_bytes else ret 0) (\<lambda>pid.
     bind_op (recv_int (int sz - int (topic_len + 2) - (if oper AND 6 \<noteq> 0 then 2 else 0))) (\<lambda>msg.
     bind_op (call_back topic msg) (\<lambda>_.
     bind_op (if oper AND 6 = 2 then send (0x40 # 2 # be_bytes 2 pid)
              else if oper AND 6 = 4 then raise AssertionError else ret ()) (\<lambda>_. ret (Some oper)))))))))"

definition wait_msg :: "nat option mqtt_op" where
  "wait_msg s =
     (case sock_read 1 s of (res, s) \<Rightarrow>
       let s = s\<lparr>s_blocking := True\<rparr> in
       (case res of
          None \<Rightarrow> (Inr None, s)
        | Some [] \<Rightarrow> (Inl OSError, s)
        | Some (b # _) \<Rightarrow>
            if b = 0xD0
            then bind_op (recv 1) (\<lambda>r. bind_op (byte_at r 0) (\<lambda>sz. bind_op (assert_op (sz = 0)) (\<lambda>_. ret None))) s
            else if unat b AND 0xF0 \<noteq> 0x30 then (Inr (Some (unat b)), s)
            else on_publish (unat b) s))"

definition check_msg :: "nat option mqtt_op" where
  "check_msg s = wait_msg (s\<lparr>s_blocking := False\<rparr>)"

section \<open>Reading ends\<close>

text \<open>No operation gives back input, which is what the termination of the waiting loops rests on.\<close>

definition left_of :: "mqtt \<Rightarrow> mqtt \<Rightarrow> bool" where
  "left_of s s' \<longleftrightarrow> length (s_in s') \<le> length (s_in s)"

interpretation input_order: state_order left_of
  by unfold_locales (auto simp: left_of_def)

named_theorems shrinks_rules

declare input_order.within_rules [shrinks_rules]

lemma shrinks_recv [shrinks_rules]: "within left_of (send bs)" "within left_of (recv n)" "within left_of (recv_int sz)" "within left_of (call_back topic msg)"
  by (auto simp: within_def left_of_def send_def sock_write_def recv_def recv_int_def call_back_def dest!: sock_read_shorter split: prod.splits option.splits if_splits)

lemma shrinks_recv_len_loop: "recv_len_loop n sh s = (r, s') \<Longrightarrow> length (s_in s') \<le> length (s_in s)"
proof (induction n sh s rule: recv_len_loop.induct)
  case (1 n sh s)
  show ?case
  proof (cases "sock_read 1 s")
    case (Pair res t)
    note t = sock_read_shorter [OF Pair]
    show ?thesis
    proof (cases res)
      case None
      then show ?thesis using 1(2) t Pair by (auto simp: recv_len_loop.simps [of n sh s])
    next
      case (Some bs)
      show ?thesis
      proof (cases bs)
        case Nil
        then show ?thesis using 1(2) t Some Pair by (auto simp: recv_len_loop.simps [of n sh s])
      next
        case (Cons b r)
        then show ?thesis using 1(1) [OF Pair [symmetric], of bs b r] 1(2) t Some Pair
          by (auto simp: recv_len_loop.simps [of n sh s] Let_def split: if_splits)
      qed
    qed
  qed
qed

lemma shrinks_recv_len [shrinks_rules]: "within left_of recv_len"
  using shrinks_recv_len_loop by (intro withinI) (auto simp: left_of_def recv_len_def)

lemma shrinks_on_publish: "within left_of (on_publish oper)"
  unfolding on_publish_def two_bytes_def Let_def
  by (intro shrinks_rules)

lemma wait_msg_shorter:
  assumes "wait_msg s = (Inr r, s')"
  shows "length (s_in s') < length (s_in s)"
proof -
  obtain res t where t: "sock_read 1 s = (res, t)" by fastforce
  let ?t = "t\<lparr>s_blocking := True\<rparr>"
  let ?ping = "bind_op (recv 1) (\<lambda>r. bind_op (byte_at r 0) (\<lambda>sz. bind_op (assert_op (sz = 0)) (\<lambda>_. ret (None :: nat option))))"
  note short = sock_read_shorter [OF t]
  have ping: "within left_of ?ping" by (intro shrinks_rules)
  show ?thesis
  proof (cases res)
    case None
    then show ?thesis using assms short t by (auto simp: wait_msg_def)
  next
    case (Some bs)
    then obtain b r' where bs: "bs = b # r'" using assms t by (cases bs) (auto simp: wait_msg_def)
    have t': "length (s_in ?t) < length (s_in s)" using short Some bs by simp
    have "wait_msg s = (if b = 0xD0 then ?ping ?t else if unat b AND 0xF0 \<noteq> 0x30 then (Inr (Some (unat b)), ?t) else on_publish (unat b) ?t)"
      using t Some bs by (simp add: wait_msg_def Let_def)
    then have "?ping ?t = (Inr r, s') \<or> ?t = s' \<or> on_publish (unat b) ?t = (Inr r, s')"
      using assms by (cases "b = 0xD0"; cases "unat b AND 0xF0 \<noteq> 0x30") simp_all
    then have "length (s_in s') \<le> length (s_in ?t)"
      using withinD [OF ping, of ?t] withinD [OF shrinks_on_publish, of "unat b" ?t] by (auto simp: left_of_def)
    then show ?thesis using t' by simp
  qed
qed

section \<open>Publishing and subscribing\<close>

text \<open>The loop of \<open>publish\<close> at QoS 1\<close>

function await_puback :: "nat \<Rightarrow> unit mqtt_op" where
  "await_puback pid s =
     (case wait_msg s of
        (Inl e, s) \<Rightarrow> (Inl e, s)
      | (Inr r, s) \<Rightarrow>
          if r = Some 0x40
          then (case bind_op (recv 1) (\<lambda>sz. bind_op (assert_op (sz = [2])) (\<lambda>_. bind_op (recv 2) two_bytes)) s of
                  (Inl e, s) \<Rightarrow> (Inl e, s)
                | (Inr rcv_pid, s) \<Rightarrow> if pid = rcv_pid then (Inr (), s) else await_puback pid s)
          else await_puback pid s)"
  by pat_completeness auto

lemma shrinks_ack: "within left_of (bind_op (recv 1) (\<lambda>sz. bind_op (assert_op (sz = [2])) (\<lambda>_. bind_op (recv 2) two_bytes)))"
  unfolding two_bytes_def by (intro shrinks_rules)

termination await_puback
proof (relation "measure (\<lambda>(_, s). length (s_in s))", goal_cases)
  case 1
  show ?case by simp
next
  case 2
  show ?case
    using 2 by (auto simp: left_of_def dest!: wait_msg_shorter [OF sym] withinD [OF shrinks_ack [simplified], OF sym])
next
  case 3
  show ?case using 3 by (auto dest: wait_msg_shorter [OF sym])
qed

declare await_puback.simps [simp del]

definition publish :: "bytes \<Rightarrow> bytes \<Rightarrow> bool \<Rightarrow> nat \<Rightarrow> unit mqtt_op" where
  "publish topic msg retain qos =
     bind_op (lift (set_byte [0x30, 0, 0, 0] 0 (0x30 OR (push_bit 1 qos OR of_bool retain)))) (\<lambda>pkt.
     (let sz = 2 + length topic + length msg + (if qos > 0 then 2 else 0) in
     bind_op (assert_op (sz < 2097152)) (\<lambda>_.
     bind_op (lift (put_len pkt 1 sz)) (\<lambda>(pkt, i).
     bind_op (send (take (i + 1) pkt)) (\<lambda>_.
     bind_op (send_str topic) (\<lambda>_.
     bind_op (\<lambda>s. if qos > 0 then (let s = s\<lparr>m_pid := m_pid s + 1\<rparr> in bind_op (lift (struct_pack 2 (m_pid s))) send s) else (Inr (), s)) (\<lambda>_.
     bind_op (send msg) (\<lambda>_ s.
       if qos = 1 then await_puback (m_pid s) s
       else if qos = 2 then (Inl AssertionError, s)
       else (Inr (), s)))))))))"

text \<open>\<open>pack_into("!BH", pkt, 1, sz, pid)\<close>\<close>

definition pack_header :: "nat \<Rightarrow> nat \<Rightarrow> nat \<Rightarrow> bytes result" where
  "pack_header first sz pid = rbind (struct_pack 1 sz) (\<lambda>a. rbind (struct_pack 2 pid) (\<lambda>b. Inr (of_nat first # a @ b)))"

function await_suback :: "bytes \<Rightarrow> unit mqtt_op" where
  "await_suback pkt s =
     (case wait_msg s of
        (Inl e, s) \<Rightarrow> (Inl e, s)
      | (Inr r, s) \<Rightarrow>
          if r = Some 0x90
          then bind_op (recv 4) (\<lambda>resp.
               bind_op (byte_at resp 1) (\<lambda>r1.
               bind_op (assert_op (r1 = unat (pkt ! 2))) (\<lambda>_.
               bind_op (byte_at resp 2) (\<lambda>r2.
               bind_op (assert_op (r2 = unat (pkt ! 3))) (\<lambda>_.
               bind_op (byte_at resp 3) (\<lambda>r3. if r3 = 0x80 then raise (MQTTException r3) else ret ())))))) s
          else await_suback pkt s)"
  by pat_completeness auto
termination await_suback
  by (relation "measure (\<lambda>(_, s). length (s_in s))") (auto dest: wait_msg_shorter [OF sym])

declare await_suback.simps [simp del]

definition subscribe :: "bytes \<Rightarrow> nat \<Rightarrow> unit mqtt_op" where
  "subscribe topic qos s =
     bind_op (assert_op (m_cb s)) (\<lambda>_ s.
       (let s = s\<lparr>m_pid := m_pid s + 1\<rparr> in
        bind_op (lift (pack_header 0x82 (2 + 2 + length topic + 1) (m_pid s))) (\<lambda>pkt.
        bind_op (send pkt) (\<lambda>_.
        bind_op (send_str topic) (\<lambda>_.
        bind_op (lift (if qos < 256 then Inr (of_nat qos) else Inl OverflowError)) (\<lambda>q.
        bind_op (send [q]) (\<lambda>_. await_suback pkt))))) s)) s"

function await_unsuback :: "bytes \<Rightarrow> unit mqtt_op" where
  "await_unsuback pkt s =
     (case wait_msg s of
        (Inl e, s) \<Rightarrow> (Inl e, s)
      | (Inr r, s) \<Rightarrow>
          if r = Some 0xB0
          then bind_op (recv 3) (\<lambda>resp.
               bind_op (byte_at resp 1) (\<lambda>r1.
               bind_op (assert_op (r1 = unat (pkt ! 2))) (\<lambda>_.
               bind_op (byte_at resp 2) (\<lambda>r2. assert_op (r2 = unat (pkt ! 3)))))) s
          else await_unsuback pkt s)"
  by pat_completeness auto
termination await_unsuback
  by (relation "measure (\<lambda>(_, s). length (s_in s))") (auto dest: wait_msg_shorter [OF sym])

declare await_unsuback.simps [simp del]

definition unsubscribe :: "bytes \<Rightarrow> unit mqtt_op" where
  "unsubscribe topic s =
     (let s = s\<lparr>m_pid := m_pid s + 1\<rparr> in
      bind_op (lift (pack_header 0xA2 (2 + 2 + length topic) (m_pid s))) (\<lambda>pkt.
      bind_op (send pkt) (\<lambda>_.
      bind_op (send_str topic) (\<lambda>_. await_unsuback pkt))) s)"

end
