(* ===== verification/Mqtt_Waiting.thy ===== *)
theory Mqtt_Waiting
  imports Mqtt
begin

text \<open>
  The bytes of a connection may arrive in any pieces, with waiting between them: the operations of the client do the same as if all bytes were there at once.
\<close>

section \<open>Waiting is invisible\<close>

definition arrived :: "byte option list \<Rightarrow> bytes" where
  "arrived i = List.map_filter (\<lambda>x. x) i"

lemma arrived_simps [simp]: "arrived [] = []" "arrived (None # i) = arrived i" "arrived (Some b # i) = b # arrived i" "arrived (map Some bs) = bs"
  by (simp_all add: arrived_def map_filter_simps) (induction bs, simp_all add: map_filter_simps)

definition fed :: "mqtt \<Rightarrow> bytes \<Rightarrow> mqtt" where
  "fed s bs = s\<lparr>s_in := map Some bs\<rparr>"

definition settle :: "mqtt \<Rightarrow> mqtt" where
  "settle s = fed s (arrived (s_in s))"

lemma settle_simps [simp]:
  "s_in (settle s) = map Some (arrived (s_in s))" "s_out (settle s) = s_out s" "s_blocking (settle s) = s_blocking s" "m_pid (settle s) = m_pid s"
  "m_calls (settle s) = m_calls s" "m_cb (settle s) = m_cb s" "s_out_update f (settle s) = settle (s_out_update f s)"
  "s_blocking_update k (settle s) = settle (s_blocking_update k s)" "m_pid_update g (settle s) = settle (m_pid_update g s)" "m_calls_update h (settle s) = settle (m_calls_update h s)"
  by (simp_all add: settle_def fed_def)

lemma settle_in: "settle (s\<lparr>s_in := i\<rparr>) = s\<lparr>s_in := map Some (arrived i)\<rparr>" "(settle s)\<lparr>s_in := i\<rparr> = s\<lparr>s_in := i\<rparr>"
  by (simp_all add: settle_def fed_def)

definition gap_free :: "'a mqtt_op \<Rightarrow> bool" where
  "gap_free m \<longleftrightarrow> (\<forall>s r s'. s_blocking s \<longrightarrow> m s = (r, s') \<longrightarrow> s_blocking s' \<and> m (settle s) = (r, settle s'))"

lemma gap_freeI: "(\<And>s r s'. s_blocking s \<Longrightarrow> m s = (r, s') \<Longrightarrow> s_blocking s' \<and> m (settle s) = (r, settle s')) \<Longrightarrow> gap_free m"
  unfolding gap_free_def by blast

lemma gap_freeD: "gap_free m \<Longrightarrow> s_blocking s \<Longrightarrow> m s = (r, s') \<Longrightarrow> s_blocking s' \<and> m (settle s) = (r, settle s')"
  unfolding gap_free_def by blast

named_theorems gap_rules

lemma gap_bind [gap_rules]: "gap_free m \<Longrightarrow> (\<And>x. gap_free (f x)) \<Longrightarrow> gap_free (bind_op m f)"
proof -
  assume m: "gap_free m" and f: "\<And>x. gap_free (f x)"
  have "s_blocking s' \<and> bind_op m f (settle s) = (r, settle s')" if s: "s_blocking s" "bind_op m f s = (r, s')" for s r s'
  proof (cases "m s")
    case (Pair x t)
    then have t: "s_blocking t" "m (settle s) = (x, settle t)" using gap_freeD [OF m s(1)] by auto
    show ?thesis
    proof (cases x)
      case (Inl e)
      then show ?thesis using s(2) Pair t by (simp add: bind_op_def)
    next
      case (Inr y)
      then have "f y t = (r, s')" using s(2) Pair by (simp add: bind_op_def)
      then show ?thesis using gap_freeD [OF f t(1)] t Inr by (simp add: bind_op_def)
    qed
  qed
  then show ?thesis by (rule gap_freeI)
qed

lemma gap_ret [gap_rules]: "gap_free (ret x)" "gap_free (raise e)" "gap_free (lift r)" "gap_free (assert_op b)" "gap_free (send bs)" "gap_free (byte_at bs i)"
  by (auto simp: gap_free_def op_defs send_def sock_write_def byte_at_def split: if_splits)

lemma gap_if [gap_rules]: "gap_free m \<Longrightarrow> gap_free m' \<Longrightarrow> gap_free (if b then m else m')"
  by simp

lemma take_arrived_settled: "take_arrived n i = (bs, i') \<Longrightarrow> take_arrived n (map Some (arrived i)) = (bs, map Some (arrived i'))"
  by (induction n i arbitrary: bs i' rule: take_arrived.induct) (auto split: prod.splits)

lemma take_arrived_all: "length i \<le> n \<Longrightarrow> take_arrived n i = (arrived i, [])"
proof (induction n i rule: take_arrived.induct)
  case (3 n i)
  then show ?case by simp
next
  case (4 n b i)
  then show ?case by simp
qed auto

lemma sock_read_settled:
  "s_blocking s \<Longrightarrow> sock_read n s = (r, s') \<Longrightarrow> s_blocking s' \<and> sock_read n (settle s) = (r, settle s')"
  by (auto simp: sock_read_def settle_in settle_def fed_def dest: take_arrived_settled split: prod.splits)

lemma gap_recv [gap_rules]: "gap_free (recv n)"
proof -
  have "s_blocking s' \<and> recv n (settle s) = (r, settle s')" if s: "s_blocking s" "recv n s = (r, s')" for s r s'
  proof (cases "sock_read n s")
    case (Pair x t)
    then show ?thesis using sock_read_settled [OF s(1) Pair] s(2) by (cases x) (auto simp: recv_def)
  qed
  then show ?thesis by (rule gap_freeI)
qed

lemma gap_recv_int [gap_rules]: "gap_free (recv_int sz)"
proof (cases "sz < 0")
  case True
  have "recv_int sz s = (Inr (arrived (s_in s)), s\<lparr>s_in := []\<rparr>)" if "s_blocking s" for s
    using that True by (simp add: recv_int_def recv_def sock_read_def take_arrived_all)
  then show ?thesis by (intro gap_freeI) (auto simp: settle_in)
next
  case False
  then have "recv_int sz = recv (nat sz)" by (simp add: recv_int_def fun_eq_iff)
  then show ?thesis using gap_recv by simp
qed

lemma gap_call_back [gap_rules]: "gap_free (call_back topic msg)"
  by (auto simp: gap_free_def call_back_def split: if_splits)

lemma gap_recv_len_loop:
  "recv_len_loop n sh s = (r, s') \<Longrightarrow> s_blocking s \<Longrightarrow> s_blocking s' \<and> recv_len_loop n sh (settle s) = (r, settle s')"
proof (induction n sh s rule: recv_len_loop.induct)
  case (1 n sh s)
  obtain res t where t: "sock_read 1 s = (res, t)" by fastforce
  note read = sock_read_settled [OF 1(3) t]
  show ?case
  proof (cases res)
    case None
    then show ?thesis using 1(2) t read by (auto simp: recv_len_loop.simps [of n sh])
  next
    case (Some bs)
    show ?thesis
    proof (cases bs)
      case Nil
      then show ?thesis using 1(2) t read Some by (auto simp: recv_len_loop.simps [of n sh])
    next
      case (Cons b rest)
      show ?thesis
        using 1(1) [OF t [symmetric] Some Cons refl] 1(2) t read Some Cons
        by (auto simp: recv_len_loop.simps [of n sh] Let_def split: if_splits)
    qed
  qed
qed

lemma gap_recv_len [gap_rules]: "gap_free recv_len"
  unfolding recv_len_def using gap_recv_len_loop by (intro gap_freeI)

lemma gap_on_publish: "gap_free (on_publish oper)"
  unfolding on_publish_def two_bytes_def by (intro gap_rules)

lemma same_updates: "s_blocking s \<Longrightarrow> s\<lparr>s_blocking := True\<rparr> = s" "s_out s = x \<Longrightarrow> s\<lparr>s_out := x\<rparr> = s"
  by (cases s, simp)+

lemma gap_wait_msg [gap_rules]: "gap_free wait_msg"
proof -
  let ?ping = "bind_op (recv 1) (\<lambda>r. bind_op (byte_at r 0) (\<lambda>sz. bind_op (assert_op (sz = 0)) (\<lambda>_. ret (None :: nat option))))"
  have ping: "gap_free ?ping" by (intro gap_rules)
  have "s_blocking s' \<and> wait_msg (settle s) = (r, settle s')" if s: "s_blocking s" "wait_msg s = (r, s')" for s r s'
  proof -
    obtain res t where t: "sock_read 1 s = (res, t)" by fastforce
    note read = sock_read_settled [OF s(1) t]
    then have b: "t\<lparr>s_blocking := True\<rparr> = t" "(settle t)\<lparr>s_blocking := True\<rparr> = settle t" by (simp_all only: same_updates settle_simps)
    show ?thesis
    proof (cases "\<exists>b bs. res = Some (b # bs)")
      case False
      then show ?thesis using s t read b by (auto simp: wait_msg_def Let_def split: option.splits list.splits)
    next
      case True
      then obtain b bs where res: "res = Some (b # bs)" by blast
      let ?w = "if b = 0xD0 then ?ping else if unat b AND 0xF0 \<noteq> 0x30 then ret (Some (unat b)) else on_publish (unat b)"
      have w: "wait_msg s = ?w t" "wait_msg (settle s) = ?w (settle t)"
        unfolding wait_msg_def t conjunct2 [OF read] res Let_def prod.case option.case list.case b
        by (cases "b = 0xD0"; cases "unat b AND 0xF0 \<noteq> 0x30"; simp only: if_True if_False simp_thms ret_def)+
      have "gap_free ?w" by (intro gap_if ping gap_on_publish gap_ret)
      from gap_freeD [OF this conjunct1 [OF read]] show ?thesis using s(2) unfolding w by blast
    qed
  qed
  then show ?thesis by (rule gap_freeI)
qed

lemma gap_await_puback: "gap_free (await_puback pid)"
proof -
  have "s_blocking s \<Longrightarrow> await_puback pid s = (r, s') \<Longrightarrow> s_blocking s' \<and> await_puback pid (settle s) = (r, settle s')" for pid s r s'
  proof (induction pid s rule: await_puback.induct)
    case (1 pid s)
    let ?ack = "bind_op (recv 1) (\<lambda>sz. bind_op (assert_op (sz = [2])) (\<lambda>_. bind_op (recv 2) two_bytes))"
    have ack: "gap_free ?ack" unfolding two_bytes_def by (intro gap_rules)
    obtain x t where t: "wait_msg s = (x, t)" by fastforce
    note read = gap_freeD [OF gap_wait_msg 1(3) t]
    obtain y u where u: "?ack t = (y, u)" by fastforce
    note read2 = gap_freeD [OF ack conjunct1 [OF read] u]
    note eq = await_puback.simps [of pid s] await_puback.simps [of pid "settle s"]
    consider (fail) e where "x = Inl e" | (other) a where "x = Inr a" "a \<noteq> Some 0x40" | (bad) e where "x = Inr (Some 0x40)" "y = Inl e"
      | (mine) "x = Inr (Some 0x40)" "y = Inr pid" | (theirs) p where "x = Inr (Some 0x40)" "y = Inr p" "p \<noteq> pid"
      by (cases x; cases y) auto
    then show ?case
    proof cases
      case fail
      then show ?thesis using 1(4) t read by (simp add: eq)
    next
      case other
      then show ?thesis using 1(2) [OF t [symmetric] other] 1(4) t read by (simp add: eq)
    next
      case bad
      then show ?thesis using 1(4) t u read read2 by (simp add: eq)
    next
      case mine
      then show ?thesis using 1(4) t u read read2 by (simp add: eq)
    next
      case theirs
      then show ?thesis using 1(1) [OF t [symmetric] theirs(1) refl u [symmetric] theirs(2)] 1(4) t u read read2 by (simp add: eq)
    qed
  qed
  then show ?thesis by (intro gap_freeI)
qed

lemma gap_wait_for:
  assumes eq: "\<And>s. loop s = (case wait_msg s of (Inl e, s) \<Rightarrow> (Inl e, s) | (Inr r, s) \<Rightarrow> if r = Some code then final s else loop s)"
    and final: "gap_free final"
  shows "gap_free loop"
proof -
  have "s_blocking s \<Longrightarrow> loop s = (r, s') \<Longrightarrow> s_blocking s' \<and> loop (settle s) = (r, settle s')" for s r s'
  proof (induction "length (s_in s)" arbitrary: s rule: less_induct)
    case (less s)
    obtain x t where t: "wait_msg s = (x, t)" by fastforce
    note read = gap_freeD [OF gap_wait_msg less(2) t]
    note eqs = eq [of s] eq [of "settle s"]
    show ?case
    proof (cases x)
      case (Inl e)
      then show ?thesis using less(3) t read by (simp add: eqs)
    next
      case (Inr a)
      show ?thesis
      proof (cases "a = Some code")
        case True
        then have "final t = (r, s')" using less(3) t Inr by (simp add: eqs)
        from gap_freeD [OF final conjunct1 [OF read] this] show ?thesis using True t Inr read by (simp add: eqs)
      next
        case False
        then have "loop t = (r, s')" using less(3) t Inr by (simp add: eqs)
        from less(1) [OF wait_msg_shorter [OF t [unfolded Inr]] conjunct1 [OF read] this] show ?thesis
          using False t Inr read by (simp add: eqs)
      qed
    qed
  qed
  then show ?thesis by (intro gap_freeI)
qed

lemma gap_await_suback: "gap_free (await_suback pkt)"
  by (rule gap_wait_for [OF await_suback.simps]) (intro gap_rules)

lemma gap_await_unsuback: "gap_free (await_unsuback pkt)"
  by (rule gap_wait_for [OF await_unsuback.simps]) (intro gap_rules)

end
