(* ===== verification/Mqtt_Correct.thy ===== *)
theory Mqtt_Correct
  imports Mqtt_Waiting Binascii
begin

text \<open>
  What the MQTT client writes are the packets of MQTT 3.1.1, and what it reads of them reaches the callback.
\<close>

section \<open>The packets of MQTT 3.1.1\<close>

text \<open>The remaining length (section 2.2.3), strings (1.5.3) and the packets the client and its server send (3)\<close>

fun var_len :: "nat \<Rightarrow> bytes" where
  "var_len n = (if n < 128 then [of_nat n] else of_nat (n mod 128 + 128) # var_len (n div 128))"

declare var_len.simps [simp del]

definition mqtt_str :: "bytes \<Rightarrow> bytes" where
  "mqtt_str s = be_bytes 2 (length s) @ s"

definition framed :: "nat \<Rightarrow> bytes \<Rightarrow> bytes" where
  "framed first body = of_nat first # var_len (length body) @ body"

record will =
  will_topic :: bytes
  will_msg :: bytes
  will_qos :: nat
  will_retain :: bool

datatype packet =
    Connect bytes bool nat "will option" "(bytes \<times> bytes) option"
  | Publish bool nat bool bytes nat bytes
  | Puback nat
  | Subscribe nat bytes nat
  | Suback nat nat
  | Unsubscribe nat bytes
  | Unsuback nat
  | Connack bool nat
  | Pingreq
  | Pingresp
  | Disconnect

fun packet_bytes :: "packet \<Rightarrow> bytes" where
  "packet_bytes (Connect cid clean keepalive w login) =
     framed 0x10
       (mqtt_str (ascii ''MQTT'') @
        [4, of_nat ((if clean then 2 else 0) + (case w of None \<Rightarrow> 0 | Some w \<Rightarrow> 4 + 8 * will_qos w + (if will_retain w then 32 else 0)) +
          (if login = None then 0 else 192))] @
        be_bytes 2 keepalive @ mqtt_str cid @
        (case w of None \<Rightarrow> [] | Some w \<Rightarrow> mqtt_str (will_topic w) @ mqtt_str (will_msg w)) @
        (case login of None \<Rightarrow> [] | Some (u, p) \<Rightarrow> mqtt_str u @ mqtt_str p))"
| "packet_bytes (Connack session code) = framed 0x20 [if session then 1 else 0, of_nat code]"
| "packet_bytes (Publish dup qos retain topic pid msg) =
     framed (0x30 + (if dup then 8 else 0) + 2 * qos + (if retain then 1 else 0))
       (mqtt_str topic @ (if qos > 0 then be_bytes 2 pid else []) @ msg)"
| "packet_bytes (Puback pid) = framed 0x40 (be_bytes 2 pid)"
| "packet_bytes (Subscribe pid topic qos) = framed 0x82 (be_bytes 2 pid @ mqtt_str topic @ [of_nat qos])"
| "packet_bytes (Suback pid code) = framed 0x90 (be_bytes 2 pid @ [of_nat code])"
| "packet_bytes (Unsuback pid) = framed 0xB0 (be_bytes 2 pid)"
| "packet_bytes (Unsubscribe pid topic) = framed 0xA2 (be_bytes 2 pid @ mqtt_str topic)"
| "packet_bytes Pingreq = framed 0xC0 []"
| "packet_bytes Pingresp = framed 0xD0 []"
| "packet_bytes Disconnect = framed 0xE0 []"


section \<open>Reading packets\<close>

text \<open>A state into which a list of bytes is fed, without gaps\<close>

lemma fed_simps [simp]:
  "s_in (fed s bs) = map Some bs" "s_out (fed s bs) = s_out s" "s_blocking (fed s bs) = s_blocking s" "m_pid (fed s bs) = m_pid s"
  "m_calls (fed s bs) = m_calls s" "m_cb (fed s bs) = m_cb s" "fed (fed s as) bs = fed s bs"
  "s_in_update (\<lambda>_. map Some bs) (fed s as) = fed s bs"
  by (simp_all add: fed_def)

declare bind_Inr [simp] bind_Inl [simp] basic_ops [simp]

lemma send_eq [simp]: "send bs s = (Inr (), s\<lparr>s_out := s_out s @ bs\<rparr>)"
  by (simp add: send_def sock_write_def)

lemma bind_send: "bind_op (send bs) f s = f () (s\<lparr>s_out := s_out s @ bs\<rparr>)"
  by (simp add: bind_op_def)

lemma take_arrived_map: "take_arrived (length as) (map Some (as @ bs)) = (as, map Some bs)"
  by (induction as) auto

lemma recv_fed: "s_blocking s \<Longrightarrow> length as = n \<Longrightarrow> recv n (fed s (as @ bs)) = (Inr as, fed s bs)"
  using take_arrived_map [of as bs] by (simp add: recv_def sock_read_def)

lemma recv_int_fed: "s_blocking s \<Longrightarrow> int (length as) = n \<Longrightarrow> recv_int n (fed s (as @ bs)) = (Inr as, fed s bs)"
  using recv_fed [of s as "length as" bs] by (auto simp: recv_int_def)

lemma sock_read_fed: "s_blocking s \<Longrightarrow> sock_read 1 (fed s (b # bs)) = (Some [b], fed s bs)"
  using take_arrived_map [of "[b]" bs] by (simp add: sock_read_def)

lemma be_bytes_2 [simp]: "be_bytes 2 n = [of_nat (n div 256), of_nat n]"
  by (simp add: numeral_2_eq_2)

lemma two_bytes_back: "n < 65536 \<Longrightarrow> two_bytes (be_bytes 2 n) s = (Inr n, s)"
  using or_shift_add [of "n mod 256" 8 "n div 256"] by (simp add: two_bytes_def)

lemma var_len_small: "n < 128 \<Longrightarrow> var_len n = [of_nat n]"
  by (simp add: var_len.simps)

lemma recv_len_loop_fed:
  "s_blocking s \<Longrightarrow> a < 2 ^ sh \<Longrightarrow> recv_len_loop a sh (fed s (var_len n @ bs)) = (Inr (a + n * 2 ^ sh), fed s bs)"
proof (induction n arbitrary: a sh rule: var_len.induct)
  case (1 n)
  have mask: "x AND 127 = x mod 128" for x :: nat
    using and_low_mask [of x 7] by simp
  have high: "x AND 128 = 0 \<longleftrightarrow> x < 128" if "x < 256" for x :: nat
  proof -
    have "x AND 2 ^ 7 = 0 \<longleftrightarrow> even (x div 128)" using and_exp_eq_0_iff_not_bit [of x 7] bit_iff_odd [of x 7] by simp
    moreover have "x div 128 = (if x < 128 then 0 else 1)" using that by auto
    ultimately show ?thesis by simp
  qed
  show ?case
  proof (cases "n < 128")
    case True
    then have "a OR push_bit sh n = a + n * 2 ^ sh" using or_shift_add [OF 1(3), of n] by (simp add: or.commute)
    then show ?thesis using True sock_read_fed [OF 1(2), of "of_nat n" bs] high [of n]
      by (simp add: var_len_small recv_len_loop.simps [of a sh] mask)
  next
    case False
    let ?a = "a + (n mod 128) * 2 ^ sh"
    have "a OR push_bit sh (n mod 128) = ?a" using or_shift_add [OF 1(3), of "n mod 128"] by (simp add: or.commute)
    moreover have "?a < 2 ^ (sh + 7)"
    proof -
      have "(n mod 128) * 2 ^ sh \<le> 127 * (2 ^ sh :: nat)" by (intro mult_right_mono) auto
      moreover have "127 * 2 ^ sh + 2 ^ sh = (2 ^ (sh + 7) :: nat)" by (simp add: power_add)
      ultimately show ?thesis using 1(3) by linarith
    qed
    moreover have "(n mod 128 + 128) mod 128 = n mod 128" "n mod 128 + 128 < 256" by simp_all
    moreover have "?a + n div 128 * 2 ^ (sh + 7) = a + n * 2 ^ sh"
    proof -
      have "n mod 128 * 2 ^ sh + n div 128 * 2 ^ (sh + 7) = (n mod 128 + n div 128 * 128) * 2 ^ sh"
        by (simp only: power_add distrib_right) simp
      then show ?thesis by (simp only: mod_mult_div_eq mod_div_mult_eq add.assoc)
    qed
    moreover define c :: byte where "c = of_nat (n mod 128 + 128)"
    moreover have "unat c = n mod 128 + 128" unfolding c_def by (subst unat_of_nat_byte) simp
    moreover have "unat c AND 128 \<noteq> 0" using high [of "unat c"] calculation by simp
    moreover have "var_len n = c # var_len (n div 128)" using False by (simp add: var_len.simps [of n] c_def)
    ultimately show ?thesis
      using 1(1) [OF False 1(2), of ?a "sh + 7"] sock_read_fed [OF 1(2), of c "var_len (n div 128) @ bs"]
      by (simp add: recv_len_loop.simps [of a sh] mask)
  qed
qed

lemma recv_len_fed: "s_blocking s \<Longrightarrow> recv_len (fed s (var_len n @ bs)) = (Inr n, fed s bs)"
  using recv_len_loop_fed [of s 0 0 n bs] by (simp add: recv_len_def)

definition first_byte :: "bool \<Rightarrow> nat \<Rightarrow> bool \<Rightarrow> nat" where
  "first_byte dup qos retain = 0x30 + (if dup then 8 else 0) + 2 * qos + (if retain then 1 else 0)"

lemma first_byte_bits:
  assumes "qos \<le> 2"
  shows "first_byte dup qos retain < 256" "first_byte dup qos retain \<noteq> 0xD0" "first_byte dup qos retain AND 0xF0 = 0x30"
    "first_byte dup qos retain AND 6 = 2 * qos"
proof -
  have "qos = 0 \<or> qos = 1 \<or> qos = 2" using assms by linarith
  then show "first_byte dup qos retain < 256" "first_byte dup qos retain \<noteq> 0xD0" "first_byte dup qos retain AND 0xF0 = 0x30"
    "first_byte dup qos retain AND 6 = 2 * qos"
    by (cases dup; cases retain; auto simp: first_byte_def)+
qed

lemma byte_eq_iff: "n < 256 \<Longrightarrow> m < 256 \<Longrightarrow> (of_nat n :: byte) = of_nat m \<longleftrightarrow> n = m"
  by (metis mod_less unat_of_nat_byte)

text \<open>What the server may have a client read: packets whose fields fit.\<close>

definition fits :: "bytes \<Rightarrow> bool" where
  "fits s \<longleftrightarrow> length s < 65536"

lemma str_head: "fits s \<Longrightarrow> length s div 256 mod 256 * 256 + length s mod 256 = length s"
  by (simp add: fits_def)

lemma on_publish_fed:
  fixes s :: mqtt and topic msg rest :: bytes
  assumes s: "s_blocking s" "m_cb s" and q: "qos \<le> 2" and f: "fits topic" "pid < 65536"
  defines "body \<equiv> mqtt_str topic @ (if qos > 0 then be_bytes 2 pid else []) @ msg"
  defines "t \<equiv> fed (s\<lparr>m_calls := m_calls s @ [(topic, msg)]\<rparr>) rest"
  shows "on_publish (first_byte dup qos retain) (fed s (var_len (length body) @ body @ rest)) =
     (if qos = 2 then (Inl AssertionError, t)
      else (Inr (Some (first_byte dup qos retain)), t\<lparr>s_out := s_out s @ (if qos = 1 then 0x40 # 2 # be_bytes 2 pid else [])\<rparr>))"
proof -
  let ?op = "first_byte dup qos retain"
  let ?pid = "if qos > 0 then be_bytes 2 pid else []"
  have bits: "?op AND 6 = 2 * qos" by (rule first_byte_bits [OF q])
  have body: "body @ rest = be_bytes 2 (length topic) @ topic @ ?pid @ msg @ rest" by (simp add: body_def mqtt_str_def)
  have len: "recv_len (fed s (var_len (length body) @ body @ rest)) = (Inr (length body), fed s (body @ rest))"
    by (rule recv_len_fed [OF s(1)])
  have tl: "recv 2 (fed s (body @ rest)) = (Inr (be_bytes 2 (length topic)), fed s (topic @ ?pid @ msg @ rest))"
    unfolding body by (rule recv_fed [OF s(1)]) simp
  have tl2: "two_bytes (be_bytes 2 (length topic)) u = (Inr (length topic), u)" for u
    by (rule two_bytes_back) (use f(1) in \<open>simp add: fits_def\<close>)
  have tp: "recv (length topic) (fed s (topic @ ?pid @ msg @ rest)) = (Inr topic, fed s (?pid @ msg @ rest))"
    by (rule recv_fed [OF s(1) refl])
  have pid: "(if ?op AND 6 \<noteq> 0 then bind_op (recv 2) two_bytes else ret 0) (fed s (?pid @ msg @ rest)) = (Inr (if qos > 0 then pid else 0), fed s (msg @ rest))"
    using recv_fed [OF s(1), of "be_bytes 2 pid" 2 "msg @ rest"] two_bytes_back [OF f(2)] by (simp add: bits del: be_bytes_2)
  have left: "int (length body) - int (length topic + 2) - (if ?op AND 6 \<noteq> 0 then 2 else 0) = int (length msg)"
    by (simp add: bits body_def mqtt_str_def)
  have msg: "recv_int (int (length msg)) (fed s (msg @ rest)) = (Inr msg, fed s rest)"
    by (rule recv_int_fed [OF s(1) refl])
  have call: "call_back topic msg (fed s rest) = (Inr (), t)" using s(2) by (simp add: call_back_def t_def fed_def)
  have "on_publish ?op (fed s (var_len (length body) @ body @ rest)) =
      bind_op (if ?op AND 6 = 2 then send (0x40 # 2 # be_bytes 2 (if qos > 0 then pid else 0))
               else if ?op AND 6 = 4 then raise AssertionError else ret ()) (\<lambda>_. ret (Some ?op)) t"
    unfolding on_publish_def using len tl tl2 tp pid left msg call by (simp del: be_bytes_2)
  moreover have "s_out t = s_out s" by (simp add: t_def)
  moreover have "t\<lparr>s_out := s_out s\<rparr> = t" by (rule same_updates) (simp add: t_def)
  moreover have "qos = 0 \<or> qos = 1 \<or> qos = 2" using q by linarith
  ultimately show ?thesis using bits by (auto simp del: be_bytes_2)
qed

lemma wait_publish_fed:
  fixes s :: mqtt and topic msg rest :: bytes
  assumes s: "s_blocking s" "m_cb s" and q: "qos \<le> 2" and f: "fits topic" "pid < 65536"
  defines "t \<equiv> fed (s\<lparr>m_calls := m_calls s @ [(topic, msg)]\<rparr>) rest"
  shows "wait_msg (fed s (packet_bytes (Publish dup qos retain topic pid msg) @ rest)) =
     (if qos = 2 then (Inl AssertionError, t)
      else (Inr (Some (first_byte dup qos retain)), t\<lparr>s_out := s_out s @ (if qos = 1 then 0x40 # 2 # be_bytes 2 pid else [])\<rparr>))"
proof -
  let ?op = "first_byte dup qos retain"
  let ?body = "mqtt_str topic @ (if qos > 0 then be_bytes 2 pid else []) @ msg"
  have b: "?op < 256" "?op \<noteq> 0xD0" "?op AND 0xF0 = 0x30" using first_byte_bits [OF q] by auto
  have "packet_bytes (Publish dup qos retain topic pid msg) @ rest = of_nat ?op # var_len (length ?body) @ ?body @ rest"
    by (simp add: framed_def first_byte_def)
  moreover have "sock_read 1 (fed s (of_nat ?op # var_len (length ?body) @ ?body @ rest)) = (Some [of_nat ?op], fed s (var_len (length ?body) @ ?body @ rest))"
    by (rule sock_read_fed [OF s(1)])
  moreover have "(of_nat ?op :: byte) \<noteq> 0xD0" using byte_eq_iff [of ?op "0xD0"] b by simp
  moreover have "unat (of_nat ?op :: byte) = ?op" using b(1) by simp
  moreover have "(fed s xs)\<lparr>s_blocking := True\<rparr> = fed s xs" for xs using s(1) by (simp add: fed_def)
  ultimately have "wait_msg (fed s (packet_bytes (Publish dup qos retain topic pid msg) @ rest)) = on_publish ?op (fed s (var_len (length ?body) @ ?body @ rest))"
    using b(3) by (simp add: wait_msg_def Let_def)
  then show ?thesis unfolding t_def using on_publish_fed [OF s q f] by simp
qed

lemma wait_other_fed:
  assumes "s_blocking s" "unat b AND 0xF0 \<noteq> 0x30" "b \<noteq> 0xD0"
  shows "wait_msg (fed s (b # rest)) = (Inr (Some (unat b)), fed s rest)"
proof -
  have "(fed s xs)\<lparr>s_blocking := True\<rparr> = fed s xs" for xs using assms(1) by (simp add: fed_def)
  then show ?thesis using sock_read_fed [OF assms(1), of b rest] assms by (simp add: wait_msg_def Let_def)
qed

lemma wait_pingresp_fed:
  assumes "s_blocking s"
  shows "wait_msg (fed s (packet_bytes Pingresp @ rest)) = (Inr None, fed s rest)"
proof -
  have "(fed s xs)\<lparr>s_blocking := True\<rparr> = fed s xs" for xs using assms by (simp add: fed_def)
  moreover have "recv 1 (fed s (0 # rest)) = (Inr [0], fed s rest)" using recv_fed [OF assms, of "[0]" 1 rest] by simp
  ultimately show ?thesis using sock_read_fed [OF assms, of "0xD0" "0 # rest"] by (simp add: wait_msg_def Let_def framed_def var_len_small)
qed

section \<open>Waiting for an acknowledgement\<close>

text \<open>The packets that may come while the client waits, what they hand to the callback, and how they are answered\<close>

fun meanwhile :: "(nat \<Rightarrow> bool) \<Rightarrow> packet \<Rightarrow> bool" where
  "meanwhile other (Publish dup qos retain topic pid msg) \<longleftrightarrow> qos \<le> 1 \<and> fits topic \<and> pid < 65536"
| "meanwhile other (Puback pid) \<longleftrightarrow> pid < 65536 \<and> other pid"
| "meanwhile other p \<longleftrightarrow> p = Pingresp"

fun delivered :: "packet \<Rightarrow> (bytes \<times> bytes) list" where
  "delivered (Publish dup qos retain topic pid msg) = [(topic, msg)]"
| "delivered p = []"

fun answer :: "packet \<Rightarrow> bytes" where
  "answer (Publish dup qos retain topic pid msg) = (if qos = 1 then packet_bytes (Puback pid) else [])"
| "answer p = []"

definition after_packets :: "packet list \<Rightarrow> mqtt \<Rightarrow> mqtt" where
  "after_packets ps s = s\<lparr>m_calls := m_calls s @ concat (map delivered ps), s_out := s_out s @ concat (map answer ps)\<rparr>"

lemma after_packets_simps [simp]:
  "s_blocking (after_packets ps s) = s_blocking s" "m_cb (after_packets ps s) = m_cb s" "s_in (after_packets ps s) = s_in s" "m_pid (after_packets ps s) = m_pid s"
  "s_out (after_packets ps s) = s_out s @ concat (map answer ps)" "m_calls (after_packets ps s) = m_calls s @ concat (map delivered ps)"
  "after_packets [] s = s" "after_packets ps (after_packets [p] s) = after_packets (p # ps) s" "after_packets ps (fed s bs) = fed (after_packets ps s) bs"
  by (simp_all add: after_packets_def fed_def)

lemma wait_meanwhile_fed:
  assumes "s_blocking s" "m_cb s" "meanwhile other p" "\<And>pid. p \<noteq> Puback pid"
  shows "\<exists>r. wait_msg (fed s (packet_bytes p @ rest)) = (Inr r, fed (after_packets [p] s) rest) \<and> (\<forall>code. r = Some code \<longrightarrow> code AND 0xF0 = 0x30)"
proof (cases p)
  case (Publish dup qos retain topic pid msg)
  then have "qos \<le> 1" "fits topic" "pid < 65536" using assms(3) by auto
  then show ?thesis
    using wait_publish_fed [OF assms(1,2), of qos topic pid dup retain msg rest] first_byte_bits [of qos dup retain] Publish
    by (auto simp: after_packets_def fed_def framed_def var_len_small)
next
  case Pingresp
  then show ?thesis using wait_pingresp_fed [OF assms(1), of rest] by (simp add: after_packets_def)
qed (use assms in auto)

lemma await_puback_fed:
  assumes "s_blocking s" "m_cb s" "\<forall>p \<in> set ps. meanwhile (\<lambda>n. n \<noteq> pid) p" "pid < 65536"
  shows "await_puback pid (fed s (concat (map packet_bytes ps) @ packet_bytes (Puback pid) @ rest)) = (Inr (), fed (after_packets ps s) rest)"
  using assms
proof (induction ps arbitrary: s)
  have ack: "await_puback pid (fed s (packet_bytes (Puback n) @ xs)) = (if pid = n then (Inr (), fed s xs) else await_puback pid (fed s xs))"
    if "s_blocking s" "n < 65536" for s n xs
  proof -
    have "wait_msg (fed s (0x40 # 2 # be_bytes 2 n @ xs)) = (Inr (Some 0x40), fed s (2 # be_bytes 2 n @ xs))"
      using wait_other_fed [OF that(1), of "0x40"] by simp
    moreover have "recv 1 (fed s (2 # be_bytes 2 n @ xs)) = (Inr [2], fed s (be_bytes 2 n @ xs))"
      using recv_fed [OF that(1), of "[2]" 1] by simp
    moreover have "recv 2 (fed s (be_bytes 2 n @ xs)) = (Inr (be_bytes 2 n), fed s xs)"
      by (rule recv_fed [OF that(1)]) simp
    moreover note two_bytes_back [OF that(2)]
    moreover have "packet_bytes (Puback n) @ xs = 0x40 # 2 # be_bytes 2 n @ xs" by (simp add: framed_def var_len_small)
    ultimately show ?thesis by (simp add: await_puback.simps [of pid "fed s (0x40 # 2 # be_bytes 2 n @ xs)"] del: be_bytes_2)
  qed
  {
    case Nil
    then show ?case using ack [of s pid rest] by simp
  next
    case (Cons p ps)
    let ?rest = "concat (map packet_bytes ps) @ packet_bytes (Puback pid) @ rest"
    have IH: "await_puback pid (fed (after_packets [p] s) ?rest) = (Inr (), fed (after_packets (p # ps) s) rest)"
      using Cons.IH [of "after_packets [p] s"] Cons.prems by simp
    show ?case
    proof (cases "\<exists>n. p = Puback n")
      case True
      then obtain n where n: "p = Puback n" by blast
      then have "after_packets [p] s = s" by (simp add: after_packets_def)
      then show ?thesis using ack [of s n ?rest] Cons.prems IH n by simp
    next
      case False
      then obtain r where r: "wait_msg (fed s (packet_bytes p @ ?rest)) = (Inr r, fed (after_packets [p] s) ?rest)" "\<forall>code. r = Some code \<longrightarrow> code AND 0xF0 = 0x30"
        using wait_meanwhile_fed [of s "\<lambda>n. n \<noteq> pid" p ?rest] Cons.prems by auto
      then have "r \<noteq> Some 0x40" by auto
      then show ?thesis using r(1) IH by (simp add: await_puback.simps [of pid "fed s (packet_bytes p @ ?rest)"] del: be_bytes_2 packet_bytes.simps)
    qed
  }
qed

lemma wait_for_fed:
  assumes eq: "\<And>s. loop s = (case wait_msg s of (Inl e, s) \<Rightarrow> (Inl e, s) | (Inr r, s) \<Rightarrow> if r = Some code then final s else loop s)"
    and s: "s_blocking s" "m_cb s" "\<forall>p \<in> set ps. meanwhile (\<lambda>_. False) p" and code: "code < 256" "code AND 0xF0 \<noteq> 0x30" "code \<noteq> 0xD0"
  shows "loop (fed s (concat (map packet_bytes ps) @ of_nat code # rest)) = final (fed (after_packets ps s) rest)"
  using s
proof (induction ps arbitrary: s)
  case Nil
  have "(of_nat code :: byte) \<noteq> 0xD0" using byte_eq_iff [of code "0xD0"] code by simp
  then show ?case using wait_other_fed [OF Nil(1), of "of_nat code" rest] code by (simp add: eq [of "fed s (of_nat code # rest)"])
next
  case (Cons p ps)
  let ?rest = "concat (map packet_bytes ps) @ of_nat code # rest"
  obtain r where r: "wait_msg (fed s (packet_bytes p @ ?rest)) = (Inr r, fed (after_packets [p] s) ?rest)" "\<forall>c. r = Some c \<longrightarrow> c AND 0xF0 = 0x30"
    using wait_meanwhile_fed [of s "\<lambda>_. False" p ?rest] Cons.prems by fastforce
  then have "r \<noteq> Some code" using code(2) by auto
  then show ?case using r(1) Cons.IH [of "after_packets [p] s"] Cons.prems by (simp add: eq [of "fed s (packet_bytes p @ ?rest)"] del: be_bytes_2 packet_bytes.simps)
qed

text \<open>From bytes that are all there to bytes that arrive some time\<close>

lemma settled_result:
  assumes "gap_free m" "s_blocking s" "m (settle s) = (r, fed u rest)"
  shows "\<exists>s'. m s = (r, s') \<and> arrived (s_in s') = rest \<and> s_out s' = s_out u \<and> m_calls s' = m_calls u \<and> m_pid s' = m_pid u \<and> s_blocking s'"
proof -
  obtain x s' where s': "m s = (x, s')" by fastforce
  then have "s_blocking s'" "x = r" "settle s' = fed u rest" using gap_freeD [OF assms(1,2)] assms(3) by auto
  moreover have "map Some (arrived (s_in s')) = map Some rest" "s_out s' = s_out u" "m_calls s' = m_calls u" "m_pid s' = m_pid u"
    using arg_cong [OF \<open>settle s' = fed u rest\<close>, of s_in] arg_cong [OF \<open>settle s' = fed u rest\<close>, of s_out]
      arg_cong [OF \<open>settle s' = fed u rest\<close>, of m_calls] arg_cong [OF \<open>settle s' = fed u rest\<close>, of m_pid] by simp_all
  ultimately show ?thesis using s' by (simp add: inj_map_eq_map inj_def)
qed

section \<open>Writing packets\<close>

lemma or_128: "x < 128 \<Longrightarrow> x OR 128 = x + (128 :: nat)"
  using or_shift_add [of x 7 1] by (simp add: or.commute)

lemma put_len_eq:
  "i + length (var_len sz) \<le> length pkt \<Longrightarrow>
   put_len pkt i sz = Inr (take i pkt @ var_len sz @ drop (i + length (var_len sz)) pkt, i + length (var_len sz) - 1)"
proof (induction sz arbitrary: pkt i rule: var_len.induct)
  case (1 sz)
  show ?case
  proof (cases "sz < 128")
    case True
    then show ?thesis using 1(2) by (simp add: put_len.simps [of pkt i sz] var_len_small set_byte_def upd_conv_take_nth_drop)
  next
    case False
    let ?v = "sz mod 128 + 128"
    let ?pkt = "pkt[i := of_nat ?v]"
    have v: "(sz AND 127) OR 128 = ?v" using or_128 [of "sz mod 128"] and_low_mask [of sz 7] by simp
    have len: "var_len sz = of_nat ?v # var_len (sz div 128)" using False by (simp add: var_len.simps [of sz])
    have i: "i < length pkt" using 1(2) by (simp add: len)
    then have "set_byte pkt i ?v = Inr ?pkt" by (simp add: set_byte_def)
    moreover have "put_len ?pkt (i + 1) (sz div 128) =
        Inr (take (i + 1) ?pkt @ var_len (sz div 128) @ drop (i + 1 + length (var_len (sz div 128))) ?pkt, i + 1 + length (var_len (sz div 128)) - 1)"
      using 1(1) [OF False, of "i + 1" ?pkt] 1(2) by (simp add: len)
    moreover have "take (i + 1) ?pkt = take i pkt @ [of_nat ?v]" using i by (simp add: take_Suc_conv_app_nth)
    ultimately show ?thesis using False v i by (simp add: put_len.simps [of pkt i sz] drop_bit_eq_div len)
  qed
qed

lemma length_var_len: "n < 128 ^ Suc k \<Longrightarrow> length (var_len n) \<le> Suc k" "0 < length (var_len n)"
proof -
  show "n < 128 ^ Suc k \<Longrightarrow> length (var_len n) \<le> Suc k"
  proof (induction k arbitrary: n)
    case 0
    then show ?case by (simp add: var_len_small)
  next
    case (Suc k)
    have "n div 128 < 128 ^ Suc k" using Suc.prems by (intro less_mult_imp_div_less) (simp add: mult.commute)
    then show ?case using Suc.IH [of "n div 128"] by (simp add: var_len.simps [of n])
  qed
  show "0 < length (var_len n)" by (simp add: var_len.simps [of n])
qed

lemma send_str_eq: "fits t \<Longrightarrow> send_str t s = (Inr (), s\<lparr>s_out := s_out s @ mqtt_str t\<rparr>)"
  by (simp add: send_str_def struct_pack_def fits_def mqtt_str_def)

lemma publish_header:
  assumes "qos \<le> 2"
  shows "set_byte [0x30, 0, 0, 0] 0 (0x30 OR (push_bit 1 qos OR of_bool retain)) = Inr [of_nat (first_byte False qos retain), 0, 0, 0]"
proof -
  have "qos = 0 \<or> qos = 1 \<or> qos = 2" using assms by linarith
  then show ?thesis by (cases retain) (auto simp: set_byte_def first_byte_def)
qed

definition publish_size :: "bytes \<Rightarrow> bytes \<Rightarrow> nat \<Rightarrow> nat" where
  "publish_size topic msg qos = 2 + length topic + length msg + (if qos > 0 then 2 else 0)"

lemma publish_eq:
  fixes s :: mqtt and topic msg :: bytes and retain :: bool
  assumes q: "qos \<le> 2" and f: "fits topic" "publish_size topic msg qos < 2097152" "qos > 0 \<Longrightarrow> m_pid s + 1 < 65536"
  defines "t \<equiv> s\<lparr>m_pid := (if qos > 0 then m_pid s + 1 else m_pid s), s_out := s_out s @ packet_bytes (Publish False qos retain topic (m_pid s + 1) msg)\<rparr>"
  shows "publish topic msg retain qos s = (if qos = 1 then await_puback (m_pid s + 1) t else if qos = 2 then (Inl AssertionError, t) else (Inr (), t))"
proof -
  let ?sz = "publish_size topic msg qos"
  let ?b = "of_nat (first_byte False qos retain) :: byte"
  let ?l = "length (var_len ?sz)"
  have l: "?l \<le> 3" "0 < ?l" using length_var_len(1) [of ?sz 2] length_var_len(2) [of ?sz] f(2) by simp_all
  have put: "put_len [?b, 0, 0, 0] 1 ?sz = Inr (?b # var_len ?sz @ drop ?l [0, 0, 0], ?l)"
    using put_len_eq [of 1 ?sz "[?b, 0, 0, 0]"] l by simp
  have hd: "take (?l + 1) (?b # var_len ?sz @ drop ?l [0, 0, 0]) = ?b # var_len ?sz" by simp
  have body: "packet_bytes (Publish False qos retain topic (m_pid s + 1) msg) =
      ?b # var_len ?sz @ mqtt_str topic @ (if qos > 0 then be_bytes 2 (m_pid s + 1) else []) @ msg"
    by (simp add: framed_def first_byte_def publish_size_def mqtt_str_def)
  have sz: "?sz = 2 + length topic + length msg + (if qos > 0 then 2 else 0)" by (simp add: publish_size_def)
  let ?s1 = "s\<lparr>s_out := s_out s @ ?b # var_len ?sz @ mqtt_str topic\<rparr>"
  have start: "publish topic msg retain qos s =
     bind_op (\<lambda>s. if qos > 0 then (let s = s\<lparr>m_pid := m_pid s + 1\<rparr> in bind_op (lift (struct_pack 2 (m_pid s))) send s) else (Inr (), s)) (\<lambda>_.
     bind_op (send msg) (\<lambda>_ s.
       if qos = 1 then await_puback (m_pid s) s
       else if qos = 2 then (Inl AssertionError, s)
       else (Inr (), s))) ?s1"
    using f(2) unfolding publish_def publish_header [OF q] Let_def sz [symmetric] bind_op_def [of "lift _"] put basic_ops send_eq prod.case sum.case hd
    by (simp add: send_str_eq [OF f(1)])
  show ?thesis
  proof (cases "qos = 0")
    case True
    then show ?thesis unfolding start t_def body by (simp add: bind_op_def)
  next
    case False
    then have "struct_pack 2 (m_pid s + 1) = Inr (be_bytes 2 (m_pid s + 1))" using f(3) by (simp add: struct_pack_def)
    then show ?thesis using False unfolding start t_def body by (simp add: bind_op_def del: be_bytes_2)
  qed
qed

lemma pack_header_eq:
  "sz < 128 \<Longrightarrow> pid < 65536 \<Longrightarrow> pack_header first sz pid = Inr (of_nat first # var_len sz @ be_bytes 2 pid)"
  by (simp add: pack_header_def struct_pack_def var_len_small)

lemma subscribe_start:
  assumes "m_cb s" "fits topic" "qos < 256" "pack_header 0x82 (2 + 2 + length topic + 1) (m_pid s + 1) = Inr pkt"
  shows "subscribe topic qos s =
    await_suback pkt (s\<lparr>m_pid := m_pid s + 1, s_out := s_out s @ pkt @ mqtt_str topic @ [of_nat qos]\<rparr>)"
  using assms by (simp add: subscribe_def Let_def send_str_eq [OF assms(2)] op_defs)

lemma unsubscribe_start:
  assumes "fits topic" "pack_header 0xA2 (2 + 2 + length topic) (m_pid s + 1) = Inr pkt"
  shows "unsubscribe topic s = await_unsuback pkt (s\<lparr>m_pid := m_pid s + 1, s_out := s_out s @ pkt @ mqtt_str topic\<rparr>)"
  using assms by (simp add: unsubscribe_def Let_def send_str_eq [OF assms(1)] op_defs)

lemma await_suback_fed:
  assumes s: "s_blocking s" "m_cb s" "\<forall>p \<in> set ps. meanwhile (\<lambda>_. False) p" and c: "pid < 65536" "code < 256"
  shows "await_suback (h # l # be_bytes 2 pid) (fed s (concat (map packet_bytes ps) @ packet_bytes (Suback pid code) @ rest)) =
     (if code = 0x80 then Inl (MQTTException 0x80) else Inr (), fed (after_packets ps s) rest)"
proof -
  let ?resp = "3 # be_bytes 2 pid @ [of_nat code]"
  have b: "packet_bytes (Suback pid code) @ rest = of_nat 0x90 # ?resp @ rest" by (simp add: framed_def var_len_small)
  have "recv 4 (fed (after_packets ps s) (?resp @ rest)) = (Inr ?resp, fed (after_packets ps s) rest)"
    by (rule recv_fed) (use s(1) in simp_all)
  then show ?thesis unfolding b
    by (subst wait_for_fed [OF await_suback.simps s]) (use c in \<open>simp_all add: numeral_2_eq_2 [symmetric]\<close>)
qed

lemma await_unsuback_fed:
  assumes s: "s_blocking s" "m_cb s" "\<forall>p \<in> set ps. meanwhile (\<lambda>_. False) p" and c: "pid < 65536"
  shows "await_unsuback (h # l # be_bytes 2 pid) (fed s (concat (map packet_bytes ps) @ packet_bytes (Unsuback pid) @ rest)) =
     (Inr (), fed (after_packets ps s) rest)"
proof -
  let ?resp = "2 # be_bytes 2 pid"
  have b: "packet_bytes (Unsuback pid) @ rest = of_nat 0xB0 # ?resp @ rest" by (simp add: framed_def var_len_small)
  have "recv 3 (fed (after_packets ps s) (?resp @ rest)) = (Inr ?resp, fed (after_packets ps s) rest)"
    by (rule recv_fed) (use s(1) in simp_all)
  then show ?thesis unfolding b
    by (subst wait_for_fed [OF await_unsuback.simps s]) (use c in \<open>simp_all add: numeral_2_eq_2 [symmetric]\<close>)
qed

section \<open>Connecting\<close>

text \<open>What the fields of a client say in a CONNECT packet\<close>

definition client_will :: "mqtt \<Rightarrow> will option" where
  "client_will s =
     (if given (m_lw_topic s)
      then Some \<lparr>will_topic = the (m_lw_topic s), will_msg = m_lw_msg s, will_qos = m_lw_qos s, will_retain = m_lw_retain s\<rparr> else None)"

definition client_login :: "mqtt \<Rightarrow> (bytes \<times> bytes) option" where
  "client_login s = (if given (m_user s) then Some (the (m_user s), the (m_pswd s)) else None)"

definition settings_fit :: "mqtt \<Rightarrow> bool" where
  "settings_fit s \<longleftrightarrow> fits (m_client_id s) \<and> m_keepalive s < 65536 \<and>
     (given (m_user s) \<longrightarrow> fits (the (m_user s)) \<and> m_pswd s \<noteq> None \<and> fits (the (m_pswd s))) \<and>
     (given (m_lw_topic s) \<longrightarrow> fits (the (m_lw_topic s)) \<and> fits (m_lw_msg s) \<and> m_lw_qos s \<le> 2)"

lemma connect_flags_eq:
  assumes "m_lw_qos s \<le> 2 \<or> \<not> given (m_lw_topic s)"
  shows "connect_flags s clean = (if clean then 2 else 0) +
      (case client_will s of None \<Rightarrow> 0 | Some w \<Rightarrow> 4 + 8 * will_qos w + (if will_retain w then 32 else 0)) + (if client_login s = None then 0 else 192)"
proof -
  have "m_lw_qos s = 0 \<or> m_lw_qos s = 1 \<or> m_lw_qos s = 2 \<or> \<not> given (m_lw_topic s)" using assms by linarith
  then show ?thesis
    by (cases clean; cases "given (m_user s)"; cases "given (m_lw_topic s)"; cases "m_lw_retain s"; auto simp: connect_flags_def client_will_def client_login_def Let_def)
qed

lemma keepalive_bytes:
  assumes "k < 65536"
  shows "(if k \<noteq> 0 then [of_nat (drop_bit 8 k), of_nat (k AND 0xFF)] else [0, 0]) = be_bytes 2 k"
proof -
  have "k AND 0xFF = k mod 256" using and_low_mask [of k 8] by simp
  moreover have "of_nat (k mod 256) = (of_nat k :: byte)" by (rule word_unat_eq_iff [THEN iffD2]) (simp only: unat_of_nat_byte mod_mod_trivial)
  ultimately show ?thesis by (simp add: drop_bit_eq_div)
qed

lemma connect_size_eq:
  assumes "settings_fit s"
  shows "connect_size s = Inr (10 + 2 + length (m_client_id s) +
      (case client_login s of None \<Rightarrow> 0 | Some (u, p) \<Rightarrow> 2 + length u + 2 + length p) +
      (case client_will s of None \<Rightarrow> 0 | Some w \<Rightarrow> 2 + length (will_topic w) + 2 + length (will_msg w)))"
  using assms by (auto simp: connect_size_def required_def client_login_def client_will_def settings_fit_def)

definition connect_body :: "mqtt \<Rightarrow> bytes" where
  "connect_body s = mqtt_str (m_client_id s) @
     (case client_will s of None \<Rightarrow> [] | Some w \<Rightarrow> mqtt_str (will_topic w) @ mqtt_str (will_msg w)) @
     (case client_login s of None \<Rightarrow> [] | Some (u, p) \<Rightarrow> mqtt_str u @ mqtt_str p)"

lemma connect_packet:
  assumes fit: "settings_fit s" and sz: "connect_size s = Inr sz"
  shows "packet_bytes (Connect (m_client_id s) clean (m_keepalive s) (client_will s) (client_login s)) =
      0x10 # var_len sz @ [0] @ connect_msg s clean @ connect_body s" and "sz < 2097152"
proof -
  have len: "sz = 10 + length (connect_body s)"
    using sz unfolding connect_size_eq [OF fit] connect_body_def by (auto simp: mqtt_str_def split: option.splits)
  have "length (connect_body s) < 400000"
    using fit unfolding connect_body_def client_will_def client_login_def settings_fit_def fits_def by (auto simp: mqtt_str_def)
  then show "sz < 2097152" using len by simp
  have msg: "0 # connect_msg s clean = mqtt_str (ascii ''MQTT'') @
      [4, of_nat ((if clean then 2 else 0) + (case client_will s of None \<Rightarrow> 0 | Some w \<Rightarrow> 4 + 8 * will_qos w + (if will_retain w then 32 else 0)) +
          (if client_login s = None then 0 else 192))] @ be_bytes 2 (m_keepalive s)"
    using fit keepalive_bytes [of "m_keepalive s"] connect_flags_eq [of s clean]
    by (simp add: connect_msg_def mqtt_str_def ascii_def settings_fit_def del: be_bytes_2) (auto simp: numeral_2_eq_2)
  have "length (0 # connect_msg s clean) = 10" by (simp add: connect_msg_def ascii_def)
  then show "packet_bytes (Connect (m_client_id s) clean (m_keepalive s) (client_will s) (client_login s)) =
      0x10 # var_len sz @ [0] @ connect_msg s clean @ connect_body s"
    using msg by (simp add: framed_def len connect_body_def)
qed

lemma send_parts:
  assumes "settings_fit s"
  shows "bind_op (send_str (m_client_id s)) (\<lambda>_.
     bind_op (when_op (given (m_lw_topic s)) (bind_op (send_str (the (m_lw_topic s))) (\<lambda>_. send_str (m_lw_msg s)))) (\<lambda>_.
     bind_op (when_op (given (m_user s)) (bind_op (send_str (the (m_user s))) (\<lambda>_. bind_op (lift (required (m_pswd s))) send_str))) k)) u =
     k () (u\<lparr>s_out := s_out u @ connect_body s\<rparr>)"
proof -
  have fit: "fits (m_client_id s)" "given (m_lw_topic s) \<Longrightarrow> fits (the (m_lw_topic s)) \<and> fits (m_lw_msg s)"
    "given (m_user s) \<Longrightarrow> fits (the (m_user s)) \<and> required (m_pswd s) = Inr (the (m_pswd s)) \<and> fits (the (m_pswd s))"
    using assms by (auto simp: settings_fit_def required_def)
  show ?thesis
    using fit by (cases "given (m_lw_topic s)"; cases "given (m_user s)")
      (simp_all add: bind_op_def when_op_def send_str_eq connect_body_def client_will_def client_login_def)
qed

lemma connect_fed:
  fixes s :: mqtt and clean session :: bool
  assumes fit: "settings_fit s" and s: "s_blocking s" and code: "code < 256"
  defines "t \<equiv> s\<lparr>s_out := s_out s @ packet_bytes (Connect (m_client_id s) clean (m_keepalive s) (client_will s) (client_login s))\<rparr>"
  shows "connect clean (fed s (packet_bytes (Connack session code) @ rest)) =
     (if code = 0 then Inr (if session then 1 else 0) else Inl (MQTTException code), fed t rest)"
proof -
  let ?s = "fed s (packet_bytes (Connack session code) @ rest)"
  have same: "connect_size ?s = connect_size s" "connect_msg ?s clean = connect_msg s clean" "connect_body ?s = connect_body s" "settings_fit ?s = settings_fit s"
      "m_keepalive ?s = m_keepalive s"
    by (simp_all add: connect_size_def connect_msg_def connect_flags_def connect_body_def client_will_def client_login_def settings_fit_def fed_def)
  obtain sz where sz: "connect_size s = Inr sz" using connect_size_eq [OF fit] by blast
  have p: "packet_bytes (Connect (m_client_id s) clean (m_keepalive s) (client_will s) (client_login s)) = 0x10 # var_len sz @ [0] @ connect_msg s clean @ connect_body s" "sz < 2097152"
    using connect_packet [OF fit sz] by simp_all
  let ?l = "length (var_len sz)"
  have l: "?l \<le> 3" "0 < ?l" using length_var_len(1) [of sz 2] length_var_len(2) [of sz] p(2) by simp_all
  have put: "put_len [0x10, 0, 0, 0, 0, 0] 1 sz = Inr (0x10 # var_len sz @ drop ?l [0, 0, 0, 0, 0], ?l)"
    using put_len_eq [of 1 sz "[16, 0, 0, 0, 0, 0]"] l by simp
  have hd: "take (?l + 2) (0x10 # var_len sz @ drop ?l [0, 0, 0, 0, 0]) = 0x10 # var_len sz @ [0 :: byte]"
    using l by (cases ?l; simp; cases "?l - 1"; simp; cases "?l - 2"; simp)
  let ?u = "fed t (packet_bytes (Connack session code) @ rest)"
  let ?resp = "[0x20, 2, if session then 1 else 0, of_nat code] :: bytes"
  have "packet_bytes (Connack session code) = ?resp" by (simp add: framed_def var_len_small)
  then have resp: "recv 4 ?u = (Inr ?resp, fed t rest)" using recv_fed [of t ?resp 4 rest] s by (simp add: t_def)
  have out: "?u = ?s\<lparr>s_out := ((s_out s @ 0x10 # var_len sz @ [0]) @ connect_msg s clean) @ connect_body s\<rparr>"
    unfolding t_def p(1) by (simp add: fed_def del: packet_bytes.simps)
  have k: "(m_keepalive s \<noteq> 0 \<longrightarrow> m_keepalive s < 65536) = True" using fit by (simp add: settings_fit_def)
  have fit': "settings_fit ?s" using fit same by simp
  have "connect clean ?s =
     bind_op (recv 4) (\<lambda>resp.
     bind_op (byte_at resp 0) (\<lambda>r0.
     bind_op (assert_op (r0 = 0x20)) (\<lambda>_.
     bind_op (byte_at resp 1) (\<lambda>r1.
     bind_op (assert_op (r1 = 2)) (\<lambda>_.
     bind_op (byte_at resp 3) (\<lambda>r3.
     bind_op (if r3 \<noteq> 0 then raise (MQTTException r3) else ret ()) (\<lambda>_.
     bind_op (byte_at resp 2) (\<lambda>r2. ret (r2 AND 1))))))))) ?u"
    unfolding connect_def connect_with_def same sz k put bind_basic bind_send prod.case hd send_parts [OF fit']
    unfolding same out by (simp only: fed_simps append_assoc)  simp
  also have "\<dots> = (if code = 0 then Inr (if session then 1 else 0) else Inl (MQTTException code), fed t rest)"
    using resp code by (cases session) simp_all
  finally show ?thesis .
qed

text \<open>C10: publishing with QoS 1 writes the PUBLISH packet of MQTT 3.1.1 and returns when its acknowledgement has come; the messages that come before it reach the
callback, each once and in their order, those with QoS 1 are acknowledged, and nothing behind the acknowledgement is read, whenever the bytes arrive. With QoS 0
it returns at once. QoS 2 raises an AssertionError after the packet has been sent.\<close>

theorem mqtt_publish_acknowledged:
  assumes "qos \<le> 2" "fits topic" "publish_size topic msg qos < 2097152" "m_pid s + 1 < 65536" "s_blocking s" "m_cb s"
    and "\<forall>p \<in> set ps. meanwhile (\<lambda>n. n \<noteq> m_pid s + 1) p"
    and "arrived (s_in s) = concat (map packet_bytes ps) @ packet_bytes (Puback (m_pid s + 1)) @ rest"
  shows "let sent = s_out s @ packet_bytes (Publish False qos retain topic (m_pid s + 1) msg) in
     case publish topic msg retain qos s of
       (r, s') \<Rightarrow>
         if qos = 1
         then r = Inr () \<and> s_out s' = sent @ concat (map answer ps) \<and> m_calls s' = m_calls s @ concat (map delivered ps) \<and> arrived (s_in s') = rest
         else r = (if qos = 0 then Inr () else Inl AssertionError) \<and> s_out s' = sent \<and> m_calls s' = m_calls s \<and> s_in s' = s_in s"
proof (cases "qos = 1")
  case True
  let ?t = "s\<lparr>m_pid := m_pid s + 1, s_out := s_out s @ packet_bytes (Publish False qos retain topic (m_pid s + 1) msg)\<rparr>"
  have "publish topic msg retain qos s = await_puback (m_pid s + 1) ?t"
    using publish_eq [OF assms(1-3), of s retain] assms(4) True by simp
  moreover have "await_puback (m_pid s + 1) (settle ?t) = (Inr (), fed (after_packets ps ?t) rest)"
    using await_puback_fed [of ?t ps "m_pid s + 1" rest] assms by (simp add: settle_def del: packet_bytes.simps)
  ultimately show ?thesis
    using settled_result [OF gap_await_puback, of ?t] assms(5) True by (fastforce simp: Let_def simp del: packet_bytes.simps)
next
  case False
  then show ?thesis using publish_eq [OF assms(1-3), of s retain] assms(1,4) by (auto simp: Let_def simp del: packet_bytes.simps)
qed

theorem mqtt_publish_acknowledged_witness:
  "let s = set_callback ((mqtt_client [99] None None 0)\<lparr>s_in := [None, Some 0x32, Some 5, None, Some 0, Some 1, Some 97, Some 0, Some 7, Some 0xD0, Some 0,
        Some 0x40, Some 2, Some 0, None, Some 1, Some 9]\<rparr>) in
   case publish [116] [104, 105] False 1 s of
     (r, s') \<Rightarrow> r = Inr () \<and> s_out s' = [0x32, 7, 0, 1, 116, 0, 1, 104, 105, 0x40, 2, 0, 7] \<and> m_calls s' = [([97], [])] \<and> arrived (s_in s') = [9]"
proof -
  let ?s = "set_callback ((mqtt_client [99] None None 0)\<lparr>s_in := [None, Some 0x32, Some 5, None, Some 0, Some 1, Some 97, Some 0, Some 7, Some 0xD0, Some 0,
        Some 0x40, Some 2, Some 0, None, Some 1, Some 9]\<rparr>)"
  have "arrived (s_in ?s) = concat (map packet_bytes [Publish False 1 False [97] 7 [], Pingresp]) @ packet_bytes (Puback (m_pid ?s + 1)) @ [9]"
    by (simp add: set_callback_def mqtt_client_def framed_def var_len_small mqtt_str_def)
  from mqtt_publish_acknowledged [OF _ _ _ _ _ _ _ this, of 1 "[116]" "[104, 105]" False] show ?thesis
    by (simp add: Let_def set_callback_def mqtt_client_def framed_def var_len_small mqtt_str_def fits_def publish_size_def split: prod.splits)
qed

lemma gap_prod: "(\<And>a b. gap_free (f a b)) \<Longrightarrow> gap_free (case p of (a, b) \<Rightarrow> f a b)"
  by (cases p) simp

lemma gap_connect: "gap_free (connect clean)"
proof -
  have same: "connect_with (settle s) clean = connect_with s clean" for s
    by (simp add: connect_with_def connect_size_def connect_msg_def connect_flags_def settle_def fed_def)
  have "gap_free (connect_with s clean)" for s
    unfolding connect_with_def send_str_def when_op_def by (intro gap_rules gap_prod)
  then show ?thesis using same by (intro gap_freeI) (auto simp: connect_def dest: gap_freeD)
qed

text \<open>C30: \<open>connect\<close> writes the CONNECT packet of MQTT 3.1.1 that carries the settings of the client, and reads the CONNACK: it returns the flag of a session that
is present, or raises with the return code of a refusal, and reads nothing behind it.\<close>

theorem mqtt_connect_packet:
  assumes "settings_fit s" "s_blocking s" "code < 256" "arrived (s_in s) = packet_bytes (Connack session code) @ rest"
  shows "case connect clean s of
     (r, s') \<Rightarrow> r = (if code = 0 then Inr (if session then 1 else 0) else Inl (MQTTException code)) \<and>
       s_out s' = s_out s @ packet_bytes (Connect (m_client_id s) clean (m_keepalive s) (client_will s) (client_login s)) \<and>
       arrived (s_in s') = rest"
  using settled_result [OF gap_connect assms(2)] connect_fed [OF assms(1-3), of clean session rest]
  by (fastforce simp: settle_def assms(4) simp del: packet_bytes.simps)

theorem mqtt_connect_packet_witness:
  "case connect True ((mqtt_client [99] (Some [117]) (Some [112]) 300)\<lparr>s_in := [Some 0x20, None, Some 2, Some 0, Some 0]\<rparr>) of
     (r, s') \<Rightarrow> r = Inr 0 \<and> s_out s' = [0x10, 19, 0, 4, 77, 81, 84, 84, 4, 0xC2, 1, 44, 0, 1, 99, 0, 1, 117, 0, 1, 112]"
proof -
  let ?s = "(mqtt_client [99] (Some [117]) (Some [112]) 300)\<lparr>s_in := [Some 0x20, None, Some 2, Some 0, Some 0]\<rparr>"
  have "settings_fit ?s" "s_blocking ?s" by (simp_all add: settings_fit_def mqtt_client_def fits_def given_def)
  moreover have "arrived (s_in ?s) = packet_bytes (Connack False 0) @ []" by (simp add: framed_def var_len_small)
  moreover have "(0 :: nat) < 256" by simp
  ultimately have "case connect True ?s of (r, s') \<Rightarrow> r = Inr 0 \<and>
       s_out s' = packet_bytes (Connect [99] True 300 None (Some ([117], [112])))"
    using mqtt_connect_packet [of ?s 0 False "[]" True] by (simp add: mqtt_client_def client_will_def client_login_def given_def split: prod.splits)
  moreover have "packet_bytes (Connect [99] True 300 None (Some ([117], [112]))) = [0x10, 19, 0, 4, 77, 81, 84, 84, 4, 0xC2, 1, 44, 0, 1, 99, 0, 1, 117, 0, 1, 112]"
    by code_simp
  ultimately show ?thesis by (simp split: prod.splits)
qed

section \<open>Subscribing\<close>

text \<open>The loops only append to the output.\<close>

definition extends :: "mqtt \<Rightarrow> mqtt \<Rightarrow> bool" where
  "extends s s' \<longleftrightarrow> (\<exists>out. s_out s' = s_out s @ out)"

interpretation output_order: state_order extends
  by unfold_locales (auto simp: extends_def)

named_theorems append_rules

declare output_order.within_rules [append_rules]

lemma sock_read_out: "sock_read n s = (r, s') \<Longrightarrow> s_out s' = s_out s"
  by (auto simp: sock_read_def split: if_splits list.splits option.splits prod.splits)

lemma recv_out: "recv n s = (r, s') \<Longrightarrow> s_out s' = s_out s"
  by (auto simp: recv_def dest: sock_read_out split: prod.splits option.splits)

lemma recv_len_loop_out: "recv_len_loop n sh s = (r, s') \<Longrightarrow> s_out s' = s_out s"
proof (induction n sh s rule: recv_len_loop.induct)
  case (1 n sh s)
  obtain res t where t: "sock_read 1 s = (res, t)" by fastforce
  note out = sock_read_out [OF t]
  show ?case
  proof (cases "\<exists>b bs. res = Some (b # bs)")
    case True
    then obtain b bs where res: "res = Some (b # bs)" by blast
    show ?thesis using 1(1) [OF t [symmetric] res refl refl] 1(2) t res out by (auto simp: recv_len_loop.simps [of n sh s] Let_def split: if_splits)
  next
    case False
    then show ?thesis using 1(2) t out by (auto simp: recv_len_loop.simps [of n sh s] split: option.splits list.splits)
  qed
qed

lemma appends_basic [append_rules]:
  "within extends (send bs)" "within extends (recv n)" "within extends (recv_int sz)" "within extends recv_len" "within extends (call_back topic msg)"
  by (intro withinI; auto simp: extends_def recv_int_def recv_len_def call_back_def dest: recv_out recv_len_loop_out split: if_splits)+

lemma wait_msg_appends: "wait_msg s = (r, s') \<Longrightarrow> \<exists>out. s_out s' = s_out s @ out"
proof -
  assume w: "wait_msg s = (r, s')"
  let ?ping = "bind_op (recv 1) (\<lambda>r. bind_op (byte_at r 0) (\<lambda>sz. bind_op (assert_op (sz = 0)) (\<lambda>_. ret (None :: nat option))))"
  have ops: "within extends ?ping" "within extends (on_publish n)" for n
    unfolding on_publish_def two_bytes_def by (intro append_rules)+
  obtain res t where t: "sock_read 1 s = (res, t)" by fastforce
  let ?t = "t\<lparr>s_blocking := True\<rparr>"
  have out: "s_out ?t = s_out s" using sock_read_out [OF t] by simp
  show ?thesis
  proof (cases "\<exists>b bs. res = Some (b # bs)")
    case True
    then obtain b bs where res: "res = Some (b # bs)" by blast
    have "wait_msg s = (if b = 0xD0 then ?ping ?t else if unat b AND 0xF0 \<noteq> 0x30 then (Inr (Some (unat b)), ?t) else on_publish (unat b) ?t)"
      using t res by (simp add: wait_msg_def Let_def)
    then have "?ping ?t = (r, s') \<or> ?t = s' \<or> on_publish (unat b) ?t = (r, s')"
      using w by (cases "b = 0xD0"; cases "unat b AND 0xF0 \<noteq> 0x30") simp_all
    then show ?thesis using withinD [OF ops(1)] withinD [OF ops(2)] out by (fastforce simp: extends_def)
  next
    case False
    then have "?t = s'" using w t by (cases res; cases "the res") (auto simp: wait_msg_def Let_def)
    then show ?thesis using out by auto
  qed
qed

lemma appends_wait_for:
  assumes eq: "\<And>s. loop s = (case wait_msg s of (Inl e, s) \<Rightarrow> (Inl e, s) | (Inr r, s) \<Rightarrow> if r = Some code then final s else loop s)"
    and final: "within extends final"
  shows "loop s = (r, s') \<Longrightarrow> \<exists>out. s_out s' = s_out s @ out"
proof (induction "length (s_in s)" arbitrary: s rule: less_induct)
  case (less s)
  obtain x t where t: "wait_msg s = (x, t)" by fastforce
  then obtain a where a: "s_out t = s_out s @ a" using wait_msg_appends by blast
  consider e where "x = Inl e" | "x = Inr (Some code)" | v where "x = Inr v" "v \<noteq> Some code" by (cases x) auto
  then show ?case
  proof cases
    case 1
    then show ?thesis using less(2) t a by (simp add: eq [of s])
  next
    case 2
    then have "final t = (r, s')" using less(2) t by (simp add: eq [of s])
    then show ?thesis using withinD [OF final] a by (fastforce simp: extends_def)
  next
    case 3
    then have "loop t = (r, s')" using less(2) t by (simp add: eq [of s])
    then show ?thesis using less(1) [of t] wait_msg_shorter [of s v t] t 3 a by fastforce
  qed
qed

lemma await_suback_appends: "await_suback pkt s = (r, s') \<Longrightarrow> \<exists>out. s_out s' = s_out s @ out"
proof (rule appends_wait_for [OF await_suback.simps [of pkt]])
  show "within extends (bind_op (recv 4) (\<lambda>resp.
               bind_op (byte_at resp 1) (\<lambda>r1.
               bind_op (assert_op (r1 = unat (pkt ! 2))) (\<lambda>_.
               bind_op (byte_at resp 2) (\<lambda>r2.
               bind_op (assert_op (r2 = unat (pkt ! 3))) (\<lambda>_.
               bind_op (byte_at resp 3) (\<lambda>r3. if r3 = 0x80 then raise (MQTTException r3) else ret ())))))))"
    by (intro append_rules)
qed

lemma no_packet:
  assumes "123 \<le> length topic" "length topic \<le> 250"
  shows "b # of_nat (2 + 2 + length topic + 1) # be_bytes 2 pid @ mqtt_str topic @ [q] \<noteq> framed first body"
proof
  let ?n = "length body"
  assume "b # of_nat (2 + 2 + length topic + 1) # be_bytes 2 pid @ mqtt_str topic @ [q] = framed first body"
  then have eq: "of_nat (length topic + 5) # be_bytes 2 pid @ mqtt_str topic @ [q] = var_len ?n @ body" by (simp add: framed_def add.commute)
  from arg_cong [OF this, of length] have len: "length topic + 6 = length (var_len ?n) + ?n" by (simp add: mqtt_str_def)
  from arg_cong [OF eq, of hd] have hd: "(of_nat (length topic + 5) :: byte) = hd (var_len ?n)" using length_var_len(2) [of ?n] by simp
  show False
  proof (cases "?n < 128")
    case True
    then show False using len assms by (simp add: var_len_small)
  next
    case False
    have "?n div 128 < 128" using len assms by simp
    then have v: "var_len ?n = [of_nat (?n mod 128 + 128), of_nat (?n div 128)]" using False by (simp add: var_len.simps [of ?n] var_len_small)
    then have n: "?n = length topic + 4" using len by simp
    have "(of_nat (length topic + 5) :: byte) = of_nat (?n mod 128 + 128)" using hd v by simp
    then have "length topic + 5 = ?n mod 128 + 128" using byte_eq_iff [of "length topic + 5" "?n mod 128 + 128"] assms(2) by simp
    moreover have "?n mod 128 = ?n - 128" using False n assms(2) by (subst le_mod_geq) simp_all
    ultimately show False using n False by simp
  qed
qed

text \<open>C24: \<open>subscribe\<close> with a topic of at most 122 bytes writes the SUBSCRIBE packet of MQTT 3.1.1 and returns, or raises on a refusal, when its acknowledgement
has come, handing on and acknowledging the messages that come before. With a topic of 123 to 250 bytes what it writes is no MQTT packet at all, because the
remaining length is put into one byte; with a longer topic it raises and has used up a packet identifier.\<close>

theorem mqtt_subscribe_topic_length:
  assumes "m_pid s + 1 < 65536" "s_blocking s" "m_cb s" "qos < 256" "code < 256" "fits topic"
    and "\<forall>p \<in> set ps. meanwhile (\<lambda>_. False) p"
    and "arrived (s_in s) = concat (map packet_bytes ps) @ packet_bytes (Suback (m_pid s + 1) code) @ rest"
  shows "case subscribe topic qos s of
     (r, s') \<Rightarrow>
       if length topic \<le> 122
       then r = (if code = 0x80 then Inl (MQTTException 0x80) else Inr ()) \<and>
         s_out s' = s_out s @ packet_bytes (Subscribe (m_pid s + 1) topic qos) @ concat (map answer ps) \<and>
         m_calls s' = m_calls s @ concat (map delivered ps) \<and> arrived (s_in s') = rest
       else if length topic \<le> 250
       then \<exists>sent more. s_out s' = s_out s @ sent @ more \<and> length sent = length topic + 7 \<and> (\<forall>first body. sent \<noteq> framed first body)
       else r = Inl StructError \<and> s' = s\<lparr>m_pid := m_pid s + 1\<rparr>"
proof -
  let ?pid = "m_pid s + 1"
  let ?sz = "2 + 2 + length topic + 1"
  obtain r s' where run: "subscribe topic qos s = (r, s')" by fastforce
  consider "length topic \<le> 122" | "122 < length topic" "length topic \<le> 250" | "250 < length topic" by linarith
  then show ?thesis
  proof cases
    case 1
    let ?pkt = "0x82 # var_len ?sz @ be_bytes 2 ?pid"
    let ?t = "s\<lparr>m_pid := ?pid, s_out := s_out s @ packet_bytes (Subscribe ?pid topic qos)\<rparr>"
    have pkt: "pack_header 0x82 ?sz ?pid = Inr ?pkt" using pack_header_eq [of ?sz ?pid "0x82"] 1 assms(1) by simp
    have "length (be_bytes 2 ?pid @ mqtt_str topic @ [of_nat qos]) = ?sz" by (simp add: mqtt_str_def)
    then have "packet_bytes (Subscribe ?pid topic qos) = ?pkt @ mqtt_str topic @ [of_nat qos]"
      unfolding packet_bytes.simps framed_def by (simp only: append_Cons append_Nil append_assoc of_nat_numeral)
    then have "subscribe topic qos s = await_suback ?pkt ?t" using subscribe_start [OF assms(3,6,4) pkt] by simp
    moreover have "await_suback ?pkt (settle ?t) = (if code = 0x80 then Inl (MQTTException 0x80) else Inr (), fed (after_packets ps ?t) rest)"
      using await_suback_fed [of ?t ps ?pid code "0x82" "of_nat ?sz" rest] 1 assms
      by (simp add: settle_def var_len_small del: packet_bytes.simps be_bytes_2)
    ultimately show ?thesis
      using settled_result [OF gap_await_suback, of ?t] assms(2) 1 run by (fastforce simp del: packet_bytes.simps be_bytes_2)
  next
    case 2
    let ?pkt = "of_nat 0x82 # of_nat ?sz # be_bytes 2 ?pid"
    have pkt: "pack_header 0x82 ?sz ?pid = Inr ?pkt" using 2 assms(1) by (simp add: pack_header_def struct_pack_def)
    have "\<exists>more. s_out s' = (s_out s @ ?pkt @ mqtt_str topic @ [of_nat qos]) @ more"
      using await_suback_appends [OF run [unfolded subscribe_start [OF assms(3,6,4) pkt]]] by simp
    then obtain more where "s_out s' = s_out s @ (?pkt @ mqtt_str topic @ [of_nat qos]) @ more" by auto
    moreover have "length (?pkt @ mqtt_str topic @ [of_nat qos]) = length topic + 7" by (simp add: mqtt_str_def)
    moreover have "?pkt @ mqtt_str topic @ [of_nat qos] \<noteq> framed first body" for first body
      using no_packet [of topic "of_nat 0x82" ?pid "of_nat qos" first body] 2 by simp
    ultimately have ex: "\<exists>sent more. s_out s' = s_out s @ sent @ more \<and> length sent = length topic + 7 \<and> (\<forall>first body. sent \<noteq> framed first body)"
      by blast
    have long: "\<not> length topic \<le> 122" using 2(1) by simp
    show ?thesis unfolding run prod.case if_not_P [OF long] if_P [OF 2(2)] by (rule ex)
  next
    case 3
    then have "pack_header 0x82 ?sz ?pid = Inl StructError" by (simp add: pack_header_def struct_pack_def)
    then show ?thesis using 3 assms(3) by (simp add: subscribe_def Let_def op_defs)
  qed
qed

theorem mqtt_subscribe_topic_length_witness:
  "let s = set_callback ((mqtt_client [99] None None 0)\<lparr>s_in := [Some 0x90, Some 3, None, Some 0, Some 1, Some 0]\<rparr>) in
   (case subscribe [116] 1 s of (r, s') \<Rightarrow> r = Inr () \<and> s_out s' = [0x82, 6, 0, 1, 0, 1, 116, 1]) \<and>
   (case subscribe (replicate 123 97) 1 s of
      (r, s') \<Rightarrow> \<exists>sent more. s_out s' = sent @ more \<and> length sent = 130 \<and> (\<forall>first body. sent \<noteq> framed first body))"
proof -
  let ?s = "set_callback ((mqtt_client [99] None None 0)\<lparr>s_in := [Some 0x90, Some 3, None, Some 0, Some 1, Some 0]\<rparr>)"
  have h: "m_pid ?s + 1 < 65536" "s_blocking ?s" "m_cb ?s" "(1 :: nat) < 256" "(0 :: nat) < 256" "\<forall>p \<in> set []. meanwhile (\<lambda>_. False) p"
    "arrived (s_in ?s) = concat (map packet_bytes []) @ packet_bytes (Suback (m_pid ?s + 1) 0) @ []"
    by (simp_all add: set_callback_def mqtt_client_def framed_def var_len_small)
  have "fits [116]" "fits (replicate 123 97)" by (simp_all add: fits_def)
  from mqtt_subscribe_topic_length [OF h(1-5) this(1) h(6,7)] mqtt_subscribe_topic_length [OF h(1-5) this(2) h(6,7)] show ?thesis
    by (simp add: Let_def set_callback_def mqtt_client_def framed_def var_len_small mqtt_str_def split: prod.splits)
qed

end
