(* ===== verification/Websocket.thy ===== *)
theory Websocket
  imports Codec Operation
begin

unbundle bit_operations_syntax

text \<open>
  The WebSocket client of \<open>python-ecosys/aiohttp/aiohttp/aiohttp_ws.py\<close> after its handshake. The stream reader is the list of the bytes that the server will
  have sent, as \<open>readexactly\<close> waits until there are enough; it raises at the end of the stream. The random masks are an unknown sequence.
\<close>

section \<open>Frames\<close>

definition CONT :: nat where "CONT = 0"
definition TEXT :: nat where "TEXT = 1"
definition BINARY :: nat where "BINARY = 2"
definition CLOSE :: nat where "CLOSE = 8"
definition PING :: nat where "PING = 9"
definition PONG :: nat where "PONG = 10"

lemmas opcodes = CONT_def TEXT_def BINARY_def CLOSE_def PING_def PONG_def

text \<open>What is sent and received: a string, bytes, or \<open>None\<close>\<close>

datatype wsdata = Text "nat list" | Bytes bytes | NoData

definition truthy :: "wsdata \<Rightarrow> bool" where
  "truthy d \<longleftrightarrow> d \<noteq> NoData \<and> d \<noteq> Text [] \<and> d \<noteq> Bytes []"

text \<open>\<open>bytes(b ^ mask[i % 4] for i, b in enumerate(payload))\<close>\<close>

definition apply_mask :: "bytes \<Rightarrow> bytes \<Rightarrow> bytes" where
  "apply_mask key payload = map (\<lambda>(i, b). b XOR key ! (i mod 4)) (enumerate 0 payload)"

text \<open>\<open>_parse_frame_header\<close>\<close>

definition parse_frame_header :: "bytes \<Rightarrow> (bool \<times> nat \<times> bool \<times> nat) result" where
  "parse_frame_header header =
     (case header of
        [byte1, byte2] \<Rightarrow> Inr (unat byte1 AND 0x80 \<noteq> 0, unat byte1 AND 0x0F, unat byte2 AND push_bit 7 1 \<noteq> 0, unat byte2 AND 0x7F)
      | _ \<Rightarrow> Inl StructError)"

text \<open>\<open>_encode_websocket_frame\<close>; a \<open>str\<close> payload under another opcode fails when it is masked, one that is empty does not.\<close>

definition frame_payload :: "nat \<Rightarrow> wsdata \<Rightarrow> bytes result" where
  "frame_payload opcode payload =
     (if opcode = TEXT then (case payload of Text s \<Rightarrow> utf8_encode s | Bytes b \<Rightarrow> Inl AttributeError | NoData \<Rightarrow> Inl AttributeError)
      else (case payload of Text s \<Rightarrow> if s = [] then Inr [] else Inl TypeError | Bytes b \<Rightarrow> Inr b | NoData \<Rightarrow> Inl TypeError))"

definition frame_header :: "nat \<Rightarrow> nat \<Rightarrow> bytes result" where
  "frame_header opcode n =
     rbind (struct_pack 1 (0x80 OR opcode)) (\<lambda>byte1.
       if n < 126 then rbind (struct_pack 1 (0x80 OR n)) (\<lambda>byte2. Inr (byte1 @ byte2))
       else if n < 2 ^ 16 then rbind (struct_pack 1 (0x80 OR 126)) (\<lambda>byte2. rbind (struct_pack 2 n) (\<lambda>len. Inr (byte1 @ byte2 @ len)))
       else if n < 2 ^ 64 then rbind (struct_pack 1 (0x80 OR 127)) (\<lambda>byte2. rbind (struct_pack 8 n) (\<lambda>len. Inr (byte1 @ byte2 @ len)))
       else Inl ValueError)"

section \<open>The connection\<close>

text \<open>\<open>ws_random k\<close> is what the \<open>k\<close>th call of \<open>random.getrandbits\<close> returns.\<close>

record ws =
  ws_closed :: bool
  ws_in :: bytes
  ws_out :: bytes
  ws_random :: "nat \<Rightarrow> nat"
  ws_calls :: nat

type_synonym 'a ws_op = "(ws, 'a) op"

definition ws_read :: "nat \<Rightarrow> bytes ws_op" where
  "ws_read n s =
     (if n \<le> length (ws_in s) then (Inr (take n (ws_in s)), s\<lparr>ws_in := drop n (ws_in s)\<rparr>) else (Inl EOFError, s\<lparr>ws_in := []\<rparr>))"

definition getrandbits32 :: "nat ws_op" where
  "getrandbits32 s = (Inr (ws_random s (ws_calls s) mod 2 ^ 32), s\<lparr>ws_calls := ws_calls s + 1\<rparr>)"

definition encode_frame :: "nat \<Rightarrow> wsdata \<Rightarrow> bytes ws_op" where
  "encode_frame opcode payload =
     bind_op (lift (frame_payload opcode payload)) (\<lambda>payload.
     bind_op (lift (frame_header opcode (length payload))) (\<lambda>frame.
     bind_op getrandbits32 (\<lambda>r.
     bind_op (lift (struct_pack 4 r)) (\<lambda>mask_bits.
     ret ((frame @ mask_bits) @ apply_mask mask_bits payload)))))"

definition ws_write :: "bytes \<Rightarrow> unit ws_op" where
  "ws_write bs s = (Inr (), s\<lparr>ws_out := ws_out s @ bs\<rparr>)"

definition read_frame :: "(nat \<times> bytes \<times> bool) ws_op" where
  "read_frame =
     bind_op (ws_read 2) (\<lambda>header.
     bind_op (lift (parse_frame_header header)) (\<lambda>(fin, opcode, has_mask, n).
     bind_op (if n = 126 then bind_op (ws_read 2) (\<lambda>bs. ret (be_value bs))
              else if n = 127 then bind_op (ws_read 8) (\<lambda>bs. ret (be_value bs))
              else ret n) (\<lambda>n.
     bind_op (if has_mask then ws_read 4 else ret []) (\<lambda>key.
     bind_op (ws_read n) (\<lambda>payload.
     ret (opcode, if has_mask then apply_mask key payload else payload, fin))))))"

text \<open>\<open>send(data, opcode)\<close>\<close>

definition ws_send :: "wsdata \<Rightarrow> nat option \<Rightarrow> unit ws_op" where
  "ws_send data opcode =
     (let opcode = (case opcode of Some c \<Rightarrow> if c \<noteq> 0 then c else (case data of Text _ \<Rightarrow> TEXT | _ \<Rightarrow> BINARY)
                    | None \<Rightarrow> (case data of Text _ \<Rightarrow> TEXT | _ \<Rightarrow> BINARY))
      in bind_op (encode_frame opcode data) ws_write)"

definition ws_close :: "unit ws_op" where
  "ws_close s = (if \<not> ws_closed s then ws_send (Bytes []) (Some CLOSE) (s\<lparr>ws_closed := True\<rparr>) else (Inr (), s))"

text \<open>\<open>_process_websocket_frame\<close>\<close>

definition process_frame :: "nat \<Rightarrow> bytes \<Rightarrow> (nat option \<times> wsdata) result" where
  "process_frame opcode payload =
     (if opcode = TEXT then rbind (utf8_decode payload) (\<lambda>s. Inr (None, Text s))
      else if opcode = BINARY then Inr (None, Bytes payload)
      else if opcode = CLOSE then Inr (Some opcode, Bytes payload)
      else if opcode = PING then Inr (Some PONG, Bytes payload)
      else if opcode = PONG then Inr (None, NoData)
      else Inr (None, Bytes payload))"

section \<open>Receiving\<close>

definition ws_left :: "ws \<Rightarrow> ws \<Rightarrow> bool" where
  "ws_left s s' \<longleftrightarrow> length (ws_in s') \<le> length (ws_in s)"

interpretation ws_input: state_order ws_left
  by unfold_locales (auto simp: ws_left_def)

lemma ws_left_read: "within ws_left (ws_read n)" "within ws_left (ws_write bs)" "within ws_left getrandbits32"
  by (auto simp: within_def ws_left_def ws_read_def ws_write_def getrandbits32_def split: if_splits)

lemmas ws_left_rules = ws_left_read ws_input.within_rules

lemma ws_left_prod: "(\<And>a b. within ws_left (f a b)) \<Longrightarrow> within ws_left (case p of (a, b) \<Rightarrow> f a b)"
  by (cases p) simp

lemma ws_left_send: "within ws_left (ws_send data opcode)"
  unfolding ws_send_def encode_frame_def Let_def by (intro ws_left_rules)

lemma read_frame_shorter:
  assumes "read_frame s = (Inr x, s')"
  shows "length (ws_in s') < length (ws_in s)"
proof -
  obtain h t where t: "ws_read 2 s = (Inr h, t)" using assms by (cases "ws_read 2 s"; cases "fst (ws_read 2 s)") (auto simp: read_frame_def bind_op_def)
  then have "length (ws_in t) < length (ws_in s)" by (auto simp: ws_read_def split: if_splits)
  moreover have "length (ws_in s') \<le> length (ws_in t)"
  proof -
    have "within ws_left (bind_op (lift (parse_frame_header h)) (\<lambda>(fin, opcode, has_mask, n).
     bind_op (if n = 126 then bind_op (ws_read 2) (\<lambda>bs. ret (be_value bs))
              else if n = 127 then bind_op (ws_read 8) (\<lambda>bs. ret (be_value bs))
              else ret n) (\<lambda>n.
     bind_op (if has_mask then ws_read 4 else ret []) (\<lambda>key.
     bind_op (ws_read n) (\<lambda>payload.
     ret (opcode, if has_mask then apply_mask key payload else payload, fin))))))"
      by (intro ws_left_rules ws_left_prod)
    moreover have "bind_op (lift (parse_frame_header h)) (\<lambda>(fin, opcode, has_mask, n).
     bind_op (if n = 126 then bind_op (ws_read 2) (\<lambda>bs. ret (be_value bs))
              else if n = 127 then bind_op (ws_read 8) (\<lambda>bs. ret (be_value bs))
              else ret n) (\<lambda>n.
     bind_op (if has_mask then ws_read 4 else ret []) (\<lambda>key.
     bind_op (ws_read n) (\<lambda>payload.
     ret (opcode, if has_mask then apply_mask key payload else payload, fin))))) t = (Inr x, s')"
      using assms t by (simp add: read_frame_def bind_Inr)
    ultimately show ?thesis using withinD by (fastforce simp: ws_left_def)
  qed
  ultimately show ?thesis by simp
qed

text \<open>The inner loop: the frames that continue a message\<close>

function read_more :: "bytes \<Rightarrow> bool \<Rightarrow> bytes ws_op" where
  "read_more payload final s =
     (if final then (Inr payload, s)
      else (case read_frame s of
              (Inl e, s) \<Rightarrow> (Inl e, s)
            | (Inr (_, morepayload, final), s) \<Rightarrow> read_more (payload @ morepayload) final s))"
  by pat_completeness auto
termination read_more
  by (relation "measure (\<lambda>(_, _, s). length (ws_in s))") (auto dest: read_frame_shorter [OF sym])

declare read_more.simps [simp del]

definition read_message :: "(nat \<times> bytes) ws_op" where
  "read_message = bind_op read_frame (\<lambda>(opcode, payload, final). bind_op (read_more payload final) (\<lambda>payload. ret (opcode, payload)))"

lemma read_more_left: "read_more payload final s = (r, s') \<Longrightarrow> length (ws_in s') \<le> length (ws_in s)"
proof (induction payload final s rule: read_more.induct)
  case (1 payload final s)
  show ?case
  proof (cases final)
    case True
    then show ?thesis using 1(2) by (simp add: read_more.simps)
  next
    case False
    show ?thesis
    proof (cases "read_frame s")
      case (Pair x t)
      show ?thesis
      proof (cases x)
        case (Inl e)
        have "within ws_left read_frame" unfolding read_frame_def by (intro ws_left_rules ws_left_prod)
        from withinD [OF this Pair] have "length (ws_in t) \<le> length (ws_in s)" by (simp add: ws_left_def)
        then show ?thesis using 1(2) False Pair Inl by (simp add: read_more.simps [of payload False s])
      next
        case (Inr y)
        obtain a b c where y: "y = (a, b, c)" by (cases y)
        have "length (ws_in t) < length (ws_in s)" using read_frame_shorter Pair Inr by blast
        then show ?thesis using 1(1) [OF False Pair [symmetric] Inr [unfolded y] refl refl] 1(2) False Pair Inr y by (simp add: read_more.simps [of payload False s])
      qed
    qed
  qed
qed

lemma read_message_shorter:
  assumes "read_message s = (Inr x, s')"
  shows "length (ws_in s') < length (ws_in s)"
proof -
  obtain a b c t where t: "read_frame s = (Inr (a, b, c), t)"
    using assms by (cases "read_frame s"; cases "fst (read_frame s)") (auto simp: read_message_def bind_op_def)
  obtain y u where u: "read_more b c t = (y, u)" by fastforce
  then have "s' = u" using assms t by (cases y) (auto simp: read_message_def bind_op_def ret_def)
  then show ?thesis using read_more_left [OF u] read_frame_shorter [OF t] by simp
qed

function receive :: "(nat \<times> wsdata) ws_op" where
  "receive s =
     (case read_message s of
        (Inl e, s) \<Rightarrow> (Inl e, s)
      | (Inr (opcode, payload), s) \<Rightarrow>
          (case process_frame opcode payload of
             Inl e \<Rightarrow> (Inl e, s)
           | Inr (send_opcode, data) \<Rightarrow>
               (case (case send_opcode of Some c \<Rightarrow> if c \<noteq> 0 then ws_send data (Some c) s else (Inr (), s) | None \<Rightarrow> (Inr (), s)) of
                  (Inl e, s) \<Rightarrow> (Inl e, s)
                | (Inr _, s) \<Rightarrow>
                    if opcode = CLOSE then (Inr (opcode, data), s\<lparr>ws_closed := True\<rparr>)
                    else if truthy data then (Inr (opcode, data), s)
                    else receive s)))"
  by pat_completeness auto
termination receive
proof (relation "measure (\<lambda>s. length (ws_in s))", goal_cases)
  case 1
  show ?case by simp
next
  case (2 s x t y opcode payload z send_opcode data w u unit')
  have "length (ws_in t) < length (ws_in s)" using 2 read_message_shorter by metis
  moreover have "length (ws_in u) \<le> length (ws_in t)"
    using 2 withinD [OF ws_left_send, of data] by (auto simp: ws_left_def dest: sym split: option.splits if_splits)
  ultimately show ?case by simp
qed

declare receive.simps [simp del]

section \<open>The response object\<close>

definition anext :: "(nat \<times> wsdata) ws_op" where
  "anext = bind_op receive (\<lambda>(type, data) s. if \<not> truthy data \<and> type = CLOSE \<or> ws_closed s then (Inl StopAsyncIteration, s) else (Inr (type, data), s))"

definition send_text :: "wsdata \<Rightarrow> unit ws_op" where
  "send_text data = (case data of Text _ \<Rightarrow> ws_send data None | _ \<Rightarrow> raise TypeError)"

definition send_bytes :: "wsdata \<Rightarrow> unit ws_op" where
  "send_bytes data = (case data of Bytes _ \<Rightarrow> ws_send data None | _ \<Rightarrow> raise TypeError)"

definition receive_str :: "wsdata ws_op" where
  "receive_str = bind_op receive (\<lambda>(type, data). if type \<noteq> TEXT then raise TypeError else ret data)"

definition receive_bytes :: "wsdata ws_op" where
  "receive_bytes = bind_op receive (\<lambda>(type, data). if type \<noteq> BINARY then raise TypeError else ret data)"

end
