(* ===== verification/Websocket_Correct.thy ===== *)
theory Websocket_Correct
  imports Websocket Binascii
begin

text \<open>
  The frames of RFC 6455 against the client of \<open>Websocket\<close>: it writes them, reads them, puts fragments together, and answers pings and closing.
\<close>

section \<open>The frames of RFC 6455\<close>

text \<open>Section 5.2: the header, the shortest form of the length, and the masking key; section 5.3: masking\<close>

definition mask_octets :: "bytes \<Rightarrow> bytes \<Rightarrow> bytes" where
  "mask_octets key octets = map (\<lambda>i. octets ! i XOR key ! (i mod 4)) [0 ..< length octets]"

definition length_code :: "nat \<Rightarrow> nat" where
  "length_code n = (if n \<le> 125 then n else if n \<le> 65535 then 126 else 127)"

definition length_bytes :: "nat \<Rightarrow> bytes" where
  "length_bytes n = (if n \<le> 125 then [] else if n \<le> 65535 then be_bytes 2 n else be_bytes 8 n)"

definition rfc_frame :: "bool \<Rightarrow> nat \<Rightarrow> bytes option \<Rightarrow> bytes \<Rightarrow> bytes" where
  "rfc_frame fin opcode key payload =
     of_nat ((if fin then 128 else 0) + opcode) # of_nat ((if key \<noteq> None then 128 else 0) + length_code (length payload)) #
     length_bytes (length payload) @ (case key of None \<Rightarrow> payload | Some k \<Rightarrow> k @ mask_octets k payload)"

text \<open>A message in fragments (section 5.4), each with a key or without\<close>

fun fragments :: "nat \<Rightarrow> (bytes option \<times> bytes) list \<Rightarrow> bytes" where
  "fragments opcode [] = []"
| "fragments opcode [(key, payload)] = rfc_frame True opcode key payload"
| "fragments opcode ((key, payload) # f # fs) = rfc_frame False opcode key payload @ fragments 0 (f # fs)"

definition frame_fits :: "bytes option \<times> bytes \<Rightarrow> bool" where
  "frame_fits f \<longleftrightarrow> (case f of (key, payload) \<Rightarrow> length payload < 2 ^ 64 \<and> (\<forall>k. key = Some k \<longrightarrow> length k = 4))"

section \<open>Masking\<close>

lemma apply_mask_eq: "apply_mask key payload = mask_octets key payload"
  by (rule nth_equalityI) (simp_all add: apply_mask_def mask_octets_def nth_enumerate_eq)

lemma length_mask_octets [simp]: "length (mask_octets key octets) = length octets"
  by (simp add: mask_octets_def)

lemma mask_twice: "mask_octets key (mask_octets key octets) = octets"
  by (rule nth_equalityI) (simp_all add: mask_octets_def xor.assoc)

section \<open>Writing frames\<close>

lemma bit_7_or: "n < 128 \<Longrightarrow> 128 OR n = 128 + (n :: nat)"
  using or_shift_add [of n 7 1] by simp

lemma struct_pack_fits: "n < 256 ^ k \<Longrightarrow> struct_pack k n = Inr (be_bytes k n)"
  by (simp add: struct_pack_def)

lemma be_bytes_1 [simp]: "be_bytes (Suc 0) n = [of_nat n]"
  by simp

lemma length_code_less: "length_code n < 128"
  by (simp add: length_code_def)

lemma frame_header_eq:
  assumes "opcode < 16" "n < 2 ^ 64"
  shows "frame_header opcode n = Inr (of_nat (128 + opcode) # of_nat (128 + length_code n) # length_bytes n)"
proof -
  have b: "128 OR opcode = 128 + opcode" "(128 :: nat) OR 126 = 254" "(128 :: nat) OR 127 = 255" using bit_7_or assms(1) by simp_all
  consider "n < 126" | "126 \<le> n" "n < 65536" | "65536 \<le> n" by linarith
  then show ?thesis
  proof cases
    case 1
    then show ?thesis using assms b bit_7_or [of n] by (simp add: frame_header_def struct_pack_fits length_code_def length_bytes_def)
  next
    case 2
    then show ?thesis using assms b by (simp add: frame_header_def struct_pack_fits length_code_def length_bytes_def)
  next
    case 3
    have "n < 256 ^ 8" using assms(2) by simp
    then have "struct_pack 8 n = Inr (be_bytes 8 n)" by (rule struct_pack_fits)
    then show ?thesis using 3 assms b by (simp add: frame_header_def struct_pack_fits length_code_def length_bytes_def)
  qed
qed

definition next_key :: "ws \<Rightarrow> bytes" where
  "next_key s = be_bytes 4 (ws_random s (ws_calls s) mod 2 ^ 32)"

lemma encode_frame_eq:
  assumes "frame_payload opcode data = Inr payload" "opcode < 16" "length payload < 2 ^ 64"
  shows "encode_frame opcode data s = (Inr (rfc_frame True opcode (Some (next_key s)) payload), s\<lparr>ws_calls := ws_calls s + 1\<rparr>)"
proof -
  have "ws_random s (ws_calls s) mod 2 ^ 32 < 256 ^ 4" by simp
  then have "struct_pack 4 (ws_random s (ws_calls s) mod 2 ^ 32) = Inr (next_key s)" unfolding next_key_def by (rule struct_pack_fits)
  then show ?thesis using assms frame_header_eq [OF assms(2,3)]
    by (simp add: encode_frame_def bind_op_def lift_def getrandbits32_def ret_def rfc_frame_def apply_mask_eq)
qed

section \<open>Reading frames\<close>

definition ws_fed :: "ws \<Rightarrow> bytes \<Rightarrow> ws" where
  "ws_fed s bs = s\<lparr>ws_in := bs\<rparr>"

lemma ws_fed_simps [simp]:
  "ws_in (ws_fed s bs) = bs" "ws_out (ws_fed s bs) = ws_out s" "ws_closed (ws_fed s bs) = ws_closed s" "ws_random (ws_fed s bs) = ws_random s"
  "ws_calls (ws_fed s bs) = ws_calls s" "ws_fed (ws_fed s as) bs = ws_fed s bs"
  by (simp_all add: ws_fed_def)

lemma ws_read_fed: "length as = n \<Longrightarrow> ws_read n (ws_fed s (as @ bs)) = (Inr as, ws_fed s bs)"
  by (simp add: ws_read_def ws_fed_def)

lemma header_fields:
  assumes "opcode < 16" "n < 128"
  shows "parse_frame_header [of_nat ((if fin then 128 else 0) + opcode), of_nat ((if m then 128 else 0) + n)] = Inr (fin, opcode, m, n)"
proof -
  have low: "x AND 127 = x mod 128" for x :: nat using and_low_mask [of x 7] by simp
  have high: "x AND 128 \<noteq> 0 \<longleftrightarrow> 128 \<le> x" if "x < 256" for x :: nat
  proof -
    have "x AND 2 ^ 7 = 0 \<longleftrightarrow> even (x div 128)" using and_exp_eq_0_iff_not_bit [of x 7] bit_iff_odd [of x 7] by simp
    moreover have "x div 128 = (if x < 128 then 0 else 1)" using that by auto
    ultimately show ?thesis by simp
  qed
  define a where "a = (if fin then 128 else 0) + opcode"
  define b where "b = (if m then 128 else 0) + n"
  have "(128 + opcode) mod 16 = opcode" using assms(1) by (simp add: mod_add_left_eq [symmetric])
  then have "a < 256" "128 \<le> a \<longleftrightarrow> fin" "a mod 16 = opcode" using assms(1) by (auto simp: a_def)
  moreover have "b < 256" "128 \<le> b \<longleftrightarrow> m" "b mod 128 = n" using assms(2) by (auto simp: b_def)
  ultimately show ?thesis unfolding a_def [symmetric] b_def [symmetric] using high [of a] high [of b] low [of b]
    by (simp add: parse_frame_header_def)
qed

lemma read_frame_fed:
  assumes "opcode < 16" "frame_fits (key, payload)"
  shows "read_frame (ws_fed s (rfc_frame fin opcode key payload @ rest)) = (Inr (opcode, payload, fin), ws_fed s rest)"
proof -
  let ?n = "length payload"
  let ?tail = "case key of None \<Rightarrow> payload | Some k \<Rightarrow> k @ mask_octets k payload"
  let ?h = "[of_nat ((if fin then 128 else 0) + opcode), of_nat ((if key \<noteq> None then 128 else 0) + length_code ?n)] :: bytes"
  have "read_frame (ws_fed s (rfc_frame fin opcode key payload @ rest)) =
      bind_op (if length_code ?n = 126 then bind_op (ws_read 2) (\<lambda>bs. ret (be_value bs))
              else if length_code ?n = 127 then bind_op (ws_read 8) (\<lambda>bs. ret (be_value bs))
              else ret (length_code ?n)) (\<lambda>n.
     bind_op (if key \<noteq> None then ws_read 4 else ret []) (\<lambda>k.
     bind_op (ws_read n) (\<lambda>payload.
     ret (opcode, if key \<noteq> None then apply_mask k payload else payload, fin)))) (ws_fed s (length_bytes ?n @ ?tail @ rest))"
    using ws_read_fed [of ?h 2 s "length_bytes ?n @ ?tail @ rest"] header_fields [OF assms(1) length_code_less, of fin "key \<noteq> None" ?n]
    by (simp add: read_frame_def bind_op_def lift_def rfc_frame_def)
  also have "\<dots> = bind_op (if key \<noteq> None then ws_read 4 else ret []) (\<lambda>k.
     bind_op (ws_read ?n) (\<lambda>payload.
     ret (opcode, if key \<noteq> None then apply_mask k payload else payload, fin))) (ws_fed s (?tail @ rest))"
  proof -
    have "?n < 2 ^ 64" using assms(2) by (simp add: frame_fits_def)
    then have v: "be_value (be_bytes 8 ?n) = ?n" "?n \<le> 65535 \<Longrightarrow> be_value (be_bytes 2 ?n) = ?n" by (simp_all add: be_value_bytes)
    consider "?n \<le> 125" | "125 < ?n" "?n \<le> 65535" | "65535 < ?n" by linarith
    then show ?thesis
    proof cases
      case 1
      then show ?thesis by (simp add: length_code_def length_bytes_def bind_basic)
    next
      case 2
      then show ?thesis using v ws_read_fed [of "be_bytes 2 ?n" 2 s "?tail @ rest"]
        by (simp add: length_code_def length_bytes_def bind_op_def ret_def)
    next
      case 3
      then show ?thesis using v ws_read_fed [of "be_bytes 8 ?n" 8 s "?tail @ rest"]
        by (simp add: length_code_def length_bytes_def bind_op_def ret_def)
    qed
  qed
  also have "\<dots> = (Inr (opcode, payload, fin), ws_fed s rest)"
  proof (cases key)
    case None
    then show ?thesis using ws_read_fed [of payload ?n s rest] by (simp add: bind_op_def ret_def)
  next
    case (Some k)
    then have "length k = 4" using assms(2) by (simp add: frame_fits_def)
    then show ?thesis using Some ws_read_fed [of k 4 s "mask_octets k payload @ rest"] ws_read_fed [of "mask_octets k payload" ?n s rest]
      by (simp add: bind_op_def ret_def apply_mask_eq mask_twice)
  qed
  finally show ?thesis .
qed

lemma read_more_fed:
  "\<forall>f \<in> set fs. frame_fits f \<Longrightarrow> fs \<noteq> [] \<Longrightarrow>
   read_more payload False (ws_fed s (fragments 0 fs @ rest)) = (Inr (payload @ concat (map snd fs)), ws_fed s rest)"
proof (induction "0 :: nat" fs arbitrary: payload rule: fragments.induct)
  case (2 key p)
  then show ?case using read_frame_fed [of 0 key p s True rest] by (simp add: read_more.simps)
next
  case (3 key p f fs)
  then show ?case using read_frame_fed [of 0 key p s False "fragments 0 (f # fs) @ rest"]
    by (subst read_more.simps) simp
qed simp

lemma read_message_fed:
  assumes "opcode < 16" "\<forall>f \<in> set fs. frame_fits f" "fs \<noteq> []"
  shows "read_message (ws_fed s (fragments opcode fs @ rest)) = (Inr (opcode, concat (map snd fs)), ws_fed s rest)"
proof -
  obtain key p gs where fs: "fs = (key, p) # gs" using assms(3) by (cases fs) auto
  show ?thesis
  proof (cases gs)
    case Nil
    then show ?thesis using read_frame_fed [of opcode key p s True rest] assms fs
      by (simp add: read_message_def bind_op_def ret_def read_more.simps)
  next
    case (Cons f fs')
    then show ?thesis using read_frame_fed [of opcode key p s False "fragments 0 gs @ rest"] read_more_fed [of gs p s rest] assms fs
      by (simp add: read_message_def bind_op_def ret_def)
  qed
qed

section \<open>Receiving messages\<close>

text \<open>A message of the server: an opcode and fragments that fit\<close>

type_synonym message = "nat \<times> (bytes option \<times> bytes) list"

definition content :: "message \<Rightarrow> bytes" where
  "content m = concat (map snd (snd m))"

definition wire :: "message \<Rightarrow> bytes" where
  "wire m = fragments (fst m) (snd m)"

definition message_ok :: "message \<Rightarrow> bool" where
  "message_ok m \<longleftrightarrow> fst m < 16 \<and> snd m \<noteq> [] \<and> (\<forall>f \<in> set (snd m). frame_fits f) \<and> length (content m) < 2 ^ 64"

text \<open>Messages that \<open>receive\<close> does not return: pongs, and empty ones\<close>

definition passed_over :: "message \<Rightarrow> bool" where
  "passed_over m \<longleftrightarrow> fst m \<noteq> CLOSE \<and> (fst m = PONG \<or> content m = [])"

text \<open>The answers: a ping by a pong and closing by closing, each with the same content and the next key\<close>

definition reply_opcode :: "message \<Rightarrow> nat option" where
  "reply_opcode m = (if fst m = PING then Some PONG else if fst m = CLOSE then Some CLOSE else None)"

definition reply_to :: "ws \<Rightarrow> message \<Rightarrow> ws" where
  "reply_to s m =
     (case reply_opcode m of
        None \<Rightarrow> s
      | Some c \<Rightarrow> s\<lparr>ws_calls := ws_calls s + 1, ws_out := ws_out s @ rfc_frame True c (Some (next_key s)) (content m)\<rparr>)"

definition replies :: "ws \<Rightarrow> message list \<Rightarrow> ws" where
  "replies s ms = foldl reply_to s ms"

lemma reply_to_fed [simp]: "reply_to (ws_fed s bs) m = ws_fed (reply_to s m) bs"
  by (cases "reply_opcode m") (simp_all add: reply_to_def next_key_def ws_fed_def)

lemma replies_simps [simp]: "replies s [] = s" "replies s (m # ms) = replies (reply_to s m) ms"
  by (simp_all add: replies_def)

lemma ws_send_reply:
  assumes "c = PONG \<or> c = CLOSE" "length p < 2 ^ 64"
  shows "ws_send (Bytes p) (Some c) s = (Inr (), s\<lparr>ws_calls := ws_calls s + 1, ws_out := ws_out s @ rfc_frame True c (Some (next_key s)) p\<rparr>)"
proof -
  have "frame_payload c (Bytes p) = Inr p" "c < 16" "c \<noteq> 0" using assms(1) by (auto simp: frame_payload_def opcodes)
  then show ?thesis using encode_frame_eq [of c "Bytes p" p s] assms(2) by (simp add: ws_send_def bind_op_def ws_write_def)
qed

lemma receive_unfold:
  assumes "message_ok m" "process_frame (fst m) (content m) = Inr (reply_opcode m, data)"
  shows "receive (ws_fed s (wire m @ rest)) =
     (let t = ws_fed (reply_to s m) rest in
      if fst m = CLOSE then (Inr (CLOSE, data), t\<lparr>ws_closed := True\<rparr>) else if truthy data then (Inr (fst m, data), t) else receive t)"
proof -
  have read: "read_message (ws_fed s (wire m @ rest)) = (Inr (fst m, content m), ws_fed s rest)"
    using read_message_fed [of "fst m" "snd m" s rest] assms(1) by (simp add: message_ok_def wire_def content_def)
  have "fst m = CLOSE \<or> fst m = PING \<Longrightarrow> data = Bytes (content m)" using assms(2) by (auto simp: process_frame_def opcodes)
  then have reply: "(case reply_opcode m of Some c \<Rightarrow> if c \<noteq> 0 then ws_send data (Some c) (ws_fed s rest) else (Inr (), ws_fed s rest) | None \<Rightarrow> (Inr (), ws_fed s rest)) =
      (Inr (), ws_fed (reply_to s m) rest)"
    using assms(1) ws_send_reply [of CLOSE "content m"] ws_send_reply [of PONG "content m"]
    unfolding reply_to_fed [symmetric] by (auto simp: reply_to_def reply_opcode_def message_ok_def opcodes simp del: reply_to_fed split: option.splits)
  show ?thesis
    unfolding receive.simps [of "ws_fed s (wire m @ rest)"] read prod.case sum.case assms(2) reply by (simp add: Let_def)
qed

lemma processed:
  assumes "utf8_decode (content m) = Inr cs \<or> fst m \<noteq> TEXT"
  shows "process_frame (fst m) (content m) =
     Inr (reply_opcode m, if fst m = TEXT then Text cs else if fst m = PONG then NoData else Bytes (content m))"
  using assms by (auto simp: process_frame_def reply_opcode_def opcodes)

lemma receive_passed_over:
  assumes "message_ok m" "passed_over m"
  shows "receive (ws_fed s (wire m @ rest)) = receive (ws_fed (reply_to s m) rest)"
proof -
  have d: "utf8_decode [] = Inr []" by simp
  have "process_frame (fst m) (content m) = Inr (reply_opcode m, if fst m = TEXT then Text [] else if fst m = PONG then NoData else Bytes (content m))"
    using assms(2) processed [of m "[]"] d by (auto simp: passed_over_def opcodes)
  from receive_unfold [OF assms(1) this, of s rest] show ?thesis
    using assms(2) by (auto simp: passed_over_def truthy_def Let_def opcodes)
qed

lemma utf8_decode_Nil: "utf8_decode bs = Inr [] \<Longrightarrow> bs = []"
  by (cases bs) (auto simp: Let_def split: if_splits list.splits)

lemma receive_fed:
  assumes "\<forall>m \<in> set ms. message_ok m \<and> passed_over m" "message_ok m" "\<not> passed_over m" "utf8_decode (content m) = Inr cs \<or> fst m \<noteq> TEXT"
  shows "receive (ws_fed s (concat (map wire ms) @ wire m @ rest)) =
     (Inr (fst m, if fst m = TEXT then Text cs else Bytes (content m)),
      (ws_fed (replies s (ms @ [m])) rest)\<lparr>ws_closed := ws_closed (replies s (ms @ [m])) \<or> fst m = CLOSE\<rparr>)"
  using assms(1)
proof (induction ms arbitrary: s)
  case Nil
  have cs: "fst m = TEXT \<Longrightarrow> cs \<noteq> []"
  proof
    assume "fst m = TEXT" "cs = []"
    then have "utf8_decode (content m) = Inr []" using assms(4) by simp
    then have "content m = []" by (rule utf8_decode_Nil)
    then show False using assms(3) \<open>fst m = TEXT\<close> by (simp add: passed_over_def opcodes)
  qed
  have same: "(ws_fed u rest)\<lparr>ws_closed := ws_closed u\<rparr> = ws_fed u rest" for u by (simp add: ws_fed_def)
  from receive_unfold [OF assms(2) processed [OF assms(4)], of s rest] show ?case
    using assms(3) cs same by (auto simp: passed_over_def truthy_def Let_def opcodes)
next
  case (Cons m' ms)
  then have "receive (ws_fed s (wire m' @ concat (map wire ms) @ wire m @ rest)) = receive (ws_fed (reply_to s m') (concat (map wire ms) @ wire m @ rest))"
    by (intro receive_passed_over) auto
  then show ?case using Cons by simp
qed

text \<open>The frames that answer, with keys of four bytes\<close>

definition answered :: "message \<Rightarrow> bool" where
  "answered m \<longleftrightarrow> reply_opcode m \<noteq> None"

definition answer_frame :: "message \<Rightarrow> bytes \<Rightarrow> bytes" where
  "answer_frame m key = rfc_frame True (the (reply_opcode m)) (Some key) (content m)"

lemma replies_out:
  "\<exists>keys. length keys = length (filter answered ms) \<and> (\<forall>k \<in> set keys. length k = 4) \<and>
     ws_out (replies s ms) = ws_out s @ concat (map2 answer_frame (filter answered ms) keys)"
proof (induction ms arbitrary: s)
  case (Cons m ms)
  obtain keys where k: "length keys = length (filter answered ms)" "\<forall>k \<in> set keys. length k = 4"
    "ws_out (replies (reply_to s m) ms) = ws_out (reply_to s m) @ concat (map2 answer_frame (filter answered ms) keys)"
    using Cons.IH by blast
  show ?case
  proof (cases "reply_opcode m")
    case None
    then have "\<not> answered m" by (simp add: answered_def)
    then show ?thesis using k None by (intro exI [of _ keys]) (simp add: reply_to_def)
  next
    case (Some c)
    then have "answered m" by (simp add: answered_def)
    then show ?thesis using k Some by (intro exI [of _ "next_key s # keys"]) (simp add: reply_to_def answer_frame_def next_key_def)
  qed
qed simp

lemma replies_closed [simp]: "ws_closed (replies s ms) = ws_closed s"
proof (induction ms arbitrary: s)
  case (Cons m ms)
  have "ws_closed (reply_to s m) = ws_closed s" by (simp add: reply_to_def split: option.splits)
  then show ?case using Cons.IH [of "reply_to s m"] by simp
qed simp

text \<open>C31: what the client writes is a final, masked frame of RFC 6455 with its payload, and the client's own reader, or any that follows the RFC, gets opcode and
payload back from it, for each of the three forms of the length.\<close>

theorem ws_frame_roundtrip:
  assumes "frame_payload opcode data = Inr payload" "opcode < 16" "length payload < 2 ^ 64"
  shows "\<exists>key. length key = 4 \<and> encode_frame opcode data s = (Inr (rfc_frame True opcode (Some key) payload), s\<lparr>ws_calls := ws_calls s + 1\<rparr>) \<and>
     read_frame (ws_fed t (rfc_frame True opcode (Some key) payload @ rest)) = (Inr (opcode, payload, True), ws_fed t rest)"
  using encode_frame_eq [OF assms, of s] read_frame_fed [of opcode "Some (next_key s)" payload t True rest] assms
  by (intro exI [of _ "next_key s"]) (simp add: frame_fits_def next_key_def)

definition example_connection :: ws where
  "example_connection = \<lparr>ws_closed = False, ws_in = [0x89, 0, 1, 1, 104, 0x80, 1, 105, 7], ws_out = [], ws_random = (\<lambda>k. k), ws_calls = 0\<rparr>"

theorem ws_frame_roundtrip_witness:
  "\<exists>key. length key = 4 \<and>
     read_frame (ws_fed example_connection (rfc_frame True TEXT (Some key) [0xC3, 0xA9] @ [7])) = (Inr (TEXT, [0xC3, 0xA9], True), ws_fed example_connection [7])"
proof -
  have "frame_payload TEXT (Text [233]) = Inr [0xC3, 0xA9]" by code_simp
  moreover have "TEXT < 16" "length [0xC3, 0xA9 :: byte] < 2 ^ 64" by (simp_all add: TEXT_def)
  ultimately show ?thesis using ws_frame_roundtrip by blast
qed

text \<open>C14: \<open>receive\<close> gives the next message of the server that has something to say, put together from its fragments, whether masked or not, and decoded if it is text;
it passes over pongs and empty messages, answers every ping and a closing in turn with the same content, marks the connection closed on a closing, and leaves
what follows the message.\<close>

theorem ws_receive_message:
  assumes "ws_in s = concat (map wire ms) @ wire m @ rest" "\<forall>m \<in> set ms. message_ok m \<and> passed_over m" "message_ok m" "\<not> passed_over m"
    "utf8_decode (content m) = Inr cs \<or> fst m \<noteq> TEXT"
  shows "\<exists>s' keys. receive s = (Inr (fst m, if fst m = TEXT then Text cs else Bytes (content m)), s') \<and> ws_in s' = rest \<and>
     ws_closed s' = (ws_closed s \<or> fst m = CLOSE) \<and>
     length keys = length (filter answered (ms @ [m])) \<and> (\<forall>k \<in> set keys. length k = 4) \<and>
     ws_out s' = ws_out s @ concat (map2 answer_frame (filter answered (ms @ [m])) keys)"
proof -
  have "ws_fed s (concat (map wire ms) @ wire m @ rest) = s" using assms(1) by (simp add: ws_fed_def)
  then have "receive s = (Inr (fst m, if fst m = TEXT then Text cs else Bytes (content m)),
      (ws_fed (replies s (ms @ [m])) rest)\<lparr>ws_closed := ws_closed (replies s (ms @ [m])) \<or> fst m = CLOSE\<rparr>)"
    using receive_fed [OF assms(2-5), of s rest] by simp
  moreover obtain keys where "length keys = length (filter answered (ms @ [m]))" "\<forall>k \<in> set keys. length k = 4"
     "ws_out (replies s (ms @ [m])) = ws_out s @ concat (map2 answer_frame (filter answered (ms @ [m])) keys)"
    using replies_out [of "ms @ [m]" s] by auto
  ultimately show ?thesis by (intro exI [of _ "(ws_fed (replies s (ms @ [m])) rest)\<lparr>ws_closed := ws_closed (replies s (ms @ [m])) \<or> fst m = CLOSE\<rparr>"] exI [of _ keys]) simp
qed

theorem ws_receive_message_witness:
  "\<exists>s' keys. receive example_connection = (Inr (TEXT, Text [104, 105]), s') \<and> ws_in s' = [7] \<and> \<not> ws_closed s' \<and>
     length keys = 1 \<and> ws_out s' = rfc_frame True PONG (Some (hd keys)) []"
proof -
  let ?ping = "(PING, [(None, [])]) :: message"
  let ?m = "(TEXT, [(None, [104]), (None, [105])]) :: message"
  have "ws_in example_connection = concat (map wire [?ping]) @ wire ?m @ [7]"
    by (simp add: example_connection_def wire_def rfc_frame_def length_code_def length_bytes_def opcodes)
  moreover have "\<forall>m \<in> set [?ping]. message_ok m \<and> passed_over m" "message_ok ?m" "\<not> passed_over ?m"
    by (simp_all add: message_ok_def passed_over_def frame_fits_def content_def opcodes)
  moreover have "utf8_decode (content ?m) = Inr [104, 105] \<or> fst ?m \<noteq> TEXT" by (simp add: content_def)
  ultimately have "\<exists>s' keys. receive example_connection = (Inr (TEXT, Text [104, 105]), s') \<and> ws_in s' = [7] \<and> \<not> ws_closed s' \<and>
     length keys = length (filter answered ([?ping] @ [?m])) \<and> ws_out s' = concat (map2 answer_frame (filter answered ([?ping] @ [?m])) keys)"
    using ws_receive_message [of example_connection "[?ping]" ?m "[7]" "[104, 105]"] by (fastforce simp: example_connection_def opcodes)
  moreover have "filter answered ([?ping] @ [?m]) = [?ping]" by (simp add: answered_def reply_opcode_def opcodes)
  ultimately obtain s' keys where r: "receive example_connection = (Inr (TEXT, Text [104, 105]), s')" "ws_in s' = [7]" "\<not> ws_closed s'" "length keys = 1"
      "ws_out s' = concat (map2 answer_frame [?ping] keys)" by auto
  then have "ws_out s' = rfc_frame True PONG (Some (hd keys)) []"
    by (cases keys) (simp_all add: answer_frame_def reply_opcode_def content_def opcodes)
  then show ?thesis using r by blast
qed

text \<open>
  Two things that the RFC asks for do not hold. A control frame between the fragments of a message ends the message, and its content becomes part of it. And a
  ping with content is answered, but also returned, so that \<open>receive_str\<close> raises.
\<close>

lemma control_frame_between_fragments:
  "read_message (ws_fed s (rfc_frame False TEXT None a @ rfc_frame True PING None p @ rfc_frame True CONT None b @ rest)) =
     (Inr (TEXT, a @ p), ws_fed s (rfc_frame True CONT None b @ rest))"
  if "length a < 2 ^ 64" "length p < 2 ^ 64"
proof -
  have "read_frame (ws_fed s (rfc_frame False TEXT None a @ x)) = (Inr (TEXT, a, False), ws_fed s x)" for x
    by (rule read_frame_fed) (use that in \<open>simp_all add: frame_fits_def opcodes\<close>)
  moreover have "read_frame (ws_fed s (rfc_frame True PING None p @ x)) = (Inr (PING, p, True), ws_fed s x)" for x
    by (rule read_frame_fed) (use that in \<open>simp_all add: frame_fits_def opcodes\<close>)
  ultimately show ?thesis by (simp add: read_message_def bind_op_def ret_def read_more.simps)
qed

lemma receive_str_raises_on_ping:
  assumes "p \<noteq> []" "length p < 2 ^ 64"
  shows "fst (receive_str (ws_fed s (rfc_frame True PING None p @ rest))) = Inl TypeError"
proof -
  let ?m = "(PING, [(None, p)]) :: message"
  have "message_ok ?m" "\<not> passed_over ?m" using assms by (simp_all add: message_ok_def passed_over_def frame_fits_def content_def opcodes)
  from receive_fed [of "[]", OF _ this, of "[]" s rest] show ?thesis
    by (simp add: receive_str_def bind_op_def wire_def raise_def opcodes)
qed

end
