(* ===== verification/Spec2Isabelle.thy ===== *)
theory Spec2Isabelle
  imports Prelude Bisect Heapq Heapq_Select Calendar Pytext Timedelta Isoparse Datetime Binascii Base64
    Base64_Correct Container Wakeup Async_Line Item_Store Async_Locks Async_Queue Thread_Cond Thread_Locks Thread_Queue Thread_Barrier Codec Cbor
    Sha_Base Sha_Fips Sha256 Sha512 Sha_Constants Hmac
    Event_Loop Loop_Runs Async_Task Task_Runs Task_Wakeups Stream_Reader Stream_Runs Stream_Protocol
    Usb_Buffer Url Url_Correct Operation Mqtt Mqtt_Waiting Mqtt_Correct Websocket Websocket_Correct
begin

text \<open>
  A verification library for the logic of micropython-lib (commit of gneverov): Python modules that run on MicroPython. It models the algorithms, codecs,
  protocols and synchronisation classes of the repository, from the source, and proves what they are for.

  \<^bold>\<open>Conventions.\<close> A Python list, deque, bytes object or string is a HOL list (a string where code points beyond ASCII matter is the list of its code points, else a
  \<open>string\<close>); a byte is an \<open>8 word\<close>; an \<open>int\<close> of Python is an \<open>int\<close>, or a \<open>nat\<close> where the code keeps it from being negative; the masks that the SHA code writes are
  written out. A dict is the list of its items in their order. An operation that may raise gives \<open>Inl\<close> an exception of \<open>Prelude.exn\<close> or \<open>Inr\<close> its value, and
  every \<open>raise\<close>, failing \<open>assert\<close> and failing index of the source is such a branch; the texts of messages are not modelled. Where the source catches only \<open>Exception\<close>, so does
  the model: \<open>is_exception\<close> tells the exceptions apart. Library functions behave as CPython documents them (\<open>struct\<close> raises for a value out of range, where MicroPython's
  own truncates), and a hash that a port may take from \<open>uhashlib\<close> is the Python class of the repository. An object is a record, a method a
  function from the record to result and record. Comparisons of objects (\<open>heapq\<close>, \<open>bisect\<close>, the priority queues) are a parameter, and so are the clock, the
  selector, the local time zone, the C modules, coroutines and callbacks; what is assumed of them is a hypothesis of the theorem.

  \<^bold>\<open>Concurrent code\<close> is cut where the code can be interrupted: a coroutine of \<open>asyncio\<close> at every \<open>await\<close>, a thread wherever it does not hold the lock of its monitor,
  the USB buffer between the bodies that run with interrupts disabled. The pieces are steps of a machine, and a theorem is about all its runs, with cancellations
  and timeouts at any point.

  \<^bold>\<open>The parts, and the theories that model them\<close>

  \<^item> \<open>Prelude\<close>: exceptions and results, indices and slices, bytes, multisets. \<open>Pytext\<close>: \<open>str\<close>, \<open>int\<close> and formatting of numbers. \<open>Codec\<close>: \<open>struct\<close> in big-endian order, and
    UTF-8. \<open>Operation\<close>: operations that change a state and may raise, and the locale \<open>state_order\<close> of relations between states that all operations respect.
  \<^item> \<open>Bisect\<close> (\<open>bisect/bisect.py\<close>), \<open>Heapq\<close> and \<open>Heapq_Select\<close> (\<open>heapq/heapq.py\<close>): searches, sift loops, selection, merging. The order is the locale \<open>weak_order\<close>; the
    max-heap operations are the heap operations of the opposite order.
  \<^item> \<open>Calendar\<close>, \<open>Timedelta\<close>, \<open>Isoparse\<close>, \<open>Datetime\<close> (\<open>datetime/datetime.py\<close>): the proleptic Gregorian calendar on ordinals, durations, ISO 8601 text read with an
    index, and the classes \<open>date\<close>, \<open>time\<close> and \<open>datetime\<close> with time zones; the specification is addition of microseconds and comparison of UTC values.
  \<^item> \<open>Binascii\<close>, \<open>Base64\<close>, \<open>Base64_Correct\<close> (\<open>binascii/binascii.py\<close>, \<open>base64/base64.py\<close>): the codecs with the bit accumulator of the code against RFC 4648.
  \<^item> \<open>Cbor\<close> (\<open>cbor2/_encoder.py\<close>, \<open>_decoder.py\<close>): values to and from RFC 8949. The decoder recurses with a depth; \<open>loads\<close> starts it with one more than there are bytes, and
    an indefinite length array reads its items with the same bound: every item takes a byte, so both are always enough (\<open>cbor_loads_total\<close>).
  \<^item> \<open>Sha_Base\<close>, \<open>Sha256\<close>, \<open>Sha512\<close> (\<open>hashlib/_sha256.py\<close> and its siblings) and \<open>Hmac\<close> (\<open>hmac/hmac.py\<close>) against \<open>Sha_Fips\<close>, the hashes of FIPS 180-4 on words;
    \<open>Sha_Constants\<close> derives the constants from primes and roots, as the standard does. The unrolled rounds are proved equal to the rotating registers.
  \<^item> \<open>Container\<close>, \<open>Item_Store\<close>, \<open>Wakeup\<close>, \<open>Async_Line\<close>: what the blocking classes share. The locale \<open>container\<close> is the interface of the queues to their storage, \<open>item_store\<close> promises what they do with items, \<open>wakeup\<close> that no wake-up of
    a parked consumer is lost; both are interpreted on the storage and the machines of the modules.
  \<^item> \<open>Async_Locks\<close>, \<open>Async_Queue\<close> (\<open>asyncio/locks.py\<close>, \<open>asyncio/queues.py\<close>): over lines of futures, with cancellation.
  \<^item> \<open>Thread_Cond\<close>, \<open>Thread_Locks\<close>, \<open>Thread_Barrier\<close> (\<open>threading/threading.py\<close>) and \<open>Thread_Queue\<close> (\<open>queue/queue.py\<close>): monitors over a lock, with timeouts.
  \<^item> \<open>Event_Loop\<close>, \<open>Loop_Runs\<close> (\<open>asyncio/base_events.py\<close>, \<open>events.py\<close>): handles, the ready queue, the heap of timers (a heap of \<open>Heapq\<close>) with its purge, one iteration.
    Times are whole nanoseconds, with the resolution of 1e-3 seconds by which the code lets a timer fire early.
  \<^item> \<open>Async_Task\<close>, \<open>Task_Runs\<close>, \<open>Task_Wakeups\<close> (\<open>asyncio/futures.py\<close>, \<open>tasks.py\<close>): futures and tasks on that loop, for any coroutines. A chain of cancelled tasks is followed
    with a bound of one more than there are futures, beyond which the chain is a cycle and Python's recursion ends with a RuntimeError.
  \<^item> \<open>Stream_Reader\<close>, \<open>Stream_Runs\<close>, \<open>Stream_Protocol\<close> (\<open>asyncio/streams.py\<close>): reads that wait, over a buffer with a limit that pauses its transport.
  \<^item> \<open>Usb_Buffer\<close> (class \<open>Buffer\<close> of \<open>usb/device/core.py\<close>): a producer and a consumer on views of one array.
  \<^item> \<open>Url\<close>, \<open>Url_Correct\<close> (\<open>python-stdlib/urllib/parse.py\<close>): quoting, query strings, splitting and joining.
  \<^item> \<open>Mqtt\<close>, \<open>Mqtt_Waiting\<close>, \<open>Mqtt_Correct\<close> (\<open>umqtt/simple.py\<close>): the client over a stream socket, against the packets of MQTT 3.1.1. \<open>Mqtt_Waiting\<close> shows for every operation
    that it does not matter when the bytes arrive.
  \<^item> \<open>Websocket\<close>, \<open>Websocket_Correct\<close> (\<open>aiohttp/aiohttp_ws.py\<close>): the client after its handshake, against the frames of RFC 6455.

  \<^bold>\<open>How they interact.\<close> The priority queues and the timers use the heap of \<open>Heapq\<close>, whose theorems carry over. The locks and queues of \<open>asyncio\<close> rest on futures and are
  woken through the event loop: \<open>Event_Loop\<close> runs callbacks in order, \<open>Task_Wakeups\<close> turns a future that is done into exactly one step of the task that awaits it, and
  \<open>Async_Locks\<close>, \<open>Async_Queue\<close> and the streams say who is woken and why. \<open>queue\<close> rests on the monitors of \<open>threading\<close>, \<open>hmac\<close> on \<open>hashlib\<close>, \<open>base64\<close> on \<open>binascii\<close>, the
  WebSocket client on \<open>readexactly\<close> of the streams.

  \<^bold>\<open>What is proved.\<close> The properties are the theorems whose text starts with \<open>C\<close> and a number. They are of these sorts: codecs give back what they were given and write the
  form of their standard (base64, CBOR, URLs, ISO dates, MQTT, WebSocket); hashes equal the standard; sorting, searching and selecting are right for any weak order;
  dates agree with counting days and with the time line; no blocking class loses a wake-up, exceeds a bound or loses, duplicates or reorders items in any run; the loop
  calls each callback once, in order and not too early, and a task is either scheduled or waits for exactly one wake-up, unless the future it awaits ended with an exception that is no \<open>Exception\<close>; reads of a stream end as specified.
  Where the code falls short of this, the theorem says how far it goes, and a lemma shows the failing case.

  \<^bold>\<open>Not modelled.\<close> Sockets, selectors, TLS, files and processes (asyncio's transports, http, requests, socketserver, tarfile, pathlib, os), because their effect is that of
  the system below; drivers, Bluetooth, LoRa and the USB interfaces, whose meaning is in the hardware; modules whose logic is in C modules of MicroPython (regular
  expressions, \<open>deflate\<close>, \<open>deque\<close>); reporting and reflection (unittest, argparse, logging, inspect); the Unix port's bindings and its older copies of CPython modules. Of the
  modelled modules, representations, floating point results, clocks and the parts named in the theories' own texts are left out.
\<close>

end
